(* ===== verification/Prelude.thy ===== *)
theory Prelude
  imports Main "HOL-Library.Word"
begin

text \<open>
  Shared vocabulary of the development: the machine types of the C code, the generic lemmas on
  lists and words that several components use, and the named collections the component theories
  fill.  \<open>uint8_t\<close>, \<open>uint16_t\<close>, \<open>uint32_t\<close>, \<open>uint64_t\<close> and
  \<open>size_t\<close> (64-bit targets) are words of their width.
\<close>

unbundle bit_operations_syntax

type_synonym u8 = "8 word"
type_synonym u16 = "16 word"
type_synonym u32 = "32 word"
type_synonym u64 = "64 word"
type_synonym bytes = "u8 list"

named_theorems be_simps "big- and little-endian conversions between words and byte strings"
named_theorems stream_simps "unfolding of the reading and writing operations"

subsection \<open>Lists\<close>

lemma take_Suc_nth: "n < length xs \<Longrightarrow> take (Suc n) xs = take n xs @ [xs ! n]"
  by (simp add: take_Suc_conv_app_nth)

lemma drop_eq_nth_Cons: "n < length xs \<Longrightarrow> drop n xs = xs ! n # drop (Suc n) xs"
  by (simp add: Cons_nth_drop_Suc)

lemma take_append_length [simp]: "length xs = n \<Longrightarrow> take n (xs @ ys) = xs"
  by simp

lemma drop_append_length [simp]: "length xs = n \<Longrightarrow> drop n (xs @ ys) = ys"
  by simp

lemma take_eq_appendD:
  assumes "take n xs = ys @ zs"
  shows "take (length ys) xs = ys" and "take (n - length ys) (drop (length ys) xs) = zs"
proof -
  have le: "length ys \<le> n" and le2: "length ys \<le> length xs"
    using arg_cong [OF assms, of length] by auto
  have "take (length ys) xs = take (length ys) (take n xs)"
    using le by (simp add: min_def)
  also have "\<dots> = ys" using assms by simp
  finally show "take (length ys) xs = ys" .
  have "take (n - length ys) (drop (length ys) xs) = drop (length ys) (take n xs)"
    by (simp add: drop_take)
  also have "\<dots> = zs" using assms by simp
  finally show "take (n - length ys) (drop (length ys) xs) = zs" .
qed

subsection \<open>Words\<close>

lemma unat_word64_lt: "unat (w :: u64) < 2 ^ 64"
  using unsigned_less [where 'a = nat and w = w] by simp

lemma unat_word32_lt: "unat (w :: u32) < 2 ^ 32"
  using unsigned_less [where 'a = nat and w = w] by simp

lemma unat_eq_of_nat: "unat (w :: 'a::len word) = n \<Longrightarrow> w = of_nat n"
  by auto

lemma unat_of_nat64: "n < 2 ^ 64 \<Longrightarrow> unat (of_nat n :: u64) = n"
  by (simp add: unat_of_nat)

lemma unat_ucast_less:
  assumes "LENGTH('a) \<le> LENGTH('b)"
  shows "unat (ucast (v :: 'a::len word) :: 'b::len word) = unat v"
proof -
  have "unat v < 2 ^ LENGTH('a)" by (rule unsigned_less)
  also have "(2::nat) ^ LENGTH('a) \<le> 2 ^ LENGTH('b)" using assms by simp
  finally show ?thesis by (simp add: unsigned_ucast_eq take_bit_nat_eq_self)
qed

lemma unat_word8_lt: "unat (w :: u8) < 256"
  using unsigned_less [where 'a = nat and w = w] by simp

lemma drop_bit_lt_self:
  fixes v :: "'a::len word"
  assumes "v \<noteq> 0" and "0 < n"
  shows "unat (drop_bit n v) < unat v"
proof -
  have "0 < unat v" using assms(1) by (simp add: unat_gt_0)
  moreover have "(1::nat) < 2 ^ n" using assms(2) by (rule one_less_power [rotated]) simp
  ultimately have "unat v div 2 ^ n < unat v" by (metis div_less_dividend)
  then show ?thesis unfolding unat_drop_bit_eq by (simp add: drop_bit_eq_div)
qed

text \<open>
  The masks the code writes as hexadecimal literals, as \<^term>\<open>mask n\<close>: the bit-level
  simplifier then knows every bit of them.
\<close>

lemma mask_numerals:
  "(0x7F :: 'a::len word) = mask 7" "(0x3F :: 'a word) = mask 6" "(0x1F :: 'a word) = mask 5"
  "(0x0F :: 'a word) = mask 4" "(0x07 :: 'a word) = mask 3" "(0xFF :: 'a word) = mask 8"
  by (simp_all add: mask_eq_exp_minus_1)

lemma bit_0x80_iff: "bit (0x80 :: u8) n \<longleftrightarrow> n = 7"
proof -
  have "(0x80 :: u8) = push_bit 7 1" by simp
  then show ?thesis by (simp only: bit_push_bit_iff) (auto simp: bit_1_iff)
qed

lemma bit_0x70_iff: "bit (0x70 :: u8) n \<longleftrightarrow> 4 \<le> n \<and> n < 7"
proof -
  have "(0x70 :: u8) = push_bit 4 (mask 3)" by (simp add: mask_eq_exp_minus_1)
  then show ?thesis by (simp only: bit_push_bit_iff bit_mask_iff) auto
qed

lemma and_0x80_eq: "(b :: u8) AND 0x80 = (if bit b 7 then 0x80 else 0)"
  by (rule bit_word_eqI) (auto simp add: bit_and_iff bit_0x80_iff simp del: bit_numeral_word_iff)

lemma and_0x80_eq_0_iff: "(b :: u8) AND 0x80 = 0 \<longleftrightarrow> \<not> bit b 7"
  by (simp add: and_0x80_eq)

text \<open>A disjunction of words with no bit in common is their sum.\<close>

lemma unat_or_disjoint:
  fixes x y :: "'a::len word"
  assumes "x AND y = 0"
  shows "unat (x OR y) = unat x + unat y"
proof -
  have "unat x AND unat y = 0"
    unfolding unsigned_and_eq [symmetric] using assms by simp
  then have "unat x + unat y = unat x OR unat y"
    by (rule disjunctive_add_eq_or)
  then show ?thesis by (simp add: unsigned_or_eq)
qed

lemma unat_drop_bit_div: "unat (drop_bit n v) = unat v div 2 ^ n"
  unfolding unat_drop_bit_eq by (simp add: drop_bit_eq_div)

text \<open>Small words have no high bits.\<close>

lemma bit_less_exp:
  fixes v :: "'a::len word"
  assumes "unat v < 2 ^ k" and "bit v n"
  shows "n < k"
proof (rule ccontr)
  assume "\<not> n < k"
  then have "(2::nat) ^ k \<le> 2 ^ n" by simp
  with assms(1) have "unat v < 2 ^ n" by (rule order.strict_trans2)
  then have "\<not> bit (unat v) n" by (simp add: bit_iff_odd)
  with assms(2) show False by (simp add: bit_unsigned_iff bit_imp_le_length)
qed

lemma unat_less_expI:
  fixes v :: "'a::len word"
  assumes "\<And>n. bit v n \<Longrightarrow> n < k"
  shows "unat v < 2 ^ k"
proof -
  have "take_bit k v = v" using assms by (auto intro!: bit_word_eqI simp: bit_take_bit_iff)
  then have "take_bit k (unat v) = unat v" by (simp flip: unsigned_take_bit_eq)
  then show ?thesis by (metis take_bit_nat_less_exp)
qed

lemma and_1_eq_0_iff: "(w :: 'a::len word) AND 1 = 0 \<longleftrightarrow> \<not> bit w 0"
  by (simp add: and_one_eq bit_0 even_iff_mod_2_eq_zero)

lemma sint_neg_iff64: "sint (v :: u64) < 0 \<longleftrightarrow> bit v 63"
  using bit_last_iff [of v] by simp

subsection \<open>Words as byte strings\<close>

text \<open>
  The least significant byte first.  The big-endian forms are the same on the reversed string.
\<close>

fun le_word :: "bytes \<Rightarrow> 'a::len word" where
  "le_word [] = 0"
| "le_word (b # bs) = ucast b OR push_bit 8 (le_word bs)"

fun le_bytes :: "nat \<Rightarrow> 'a::len word \<Rightarrow> bytes" where
  "le_bytes 0 v = []"
| "le_bytes (Suc n) v = ucast v # le_bytes n (drop_bit 8 v)"

lemma bit_le_word:
  "bit (le_word bs :: 'a::len word) n \<longleftrightarrow>
     n < LENGTH('a) \<and> n div 8 < length bs \<and> bit (bs ! (n div 8)) (n mod 8)"
proof (induction bs arbitrary: n)
  case (Cons b bs)
  show ?case
  proof (cases "n < 8")
    case True
    then show ?thesis by (auto simp: bit_simps)
  next
    case False
    then have "n div 8 = Suc ((n - 8) div 8)" "n mod 8 = (n - 8) mod 8"
      using le_div_geq [of 8 n] le_mod_geq [of 8 n] by simp_all
    then show ?thesis using False Cons [of "n - 8"] by (auto simp: bit_simps dest: bit_imp_le_length)
  qed
qed simp

definition be_word :: "bytes \<Rightarrow> 'a::len word" where
  "be_word bs = le_word (rev bs)"

definition be_bytes :: "nat \<Rightarrow> 'a::len word \<Rightarrow> bytes" where
  "be_bytes n v = rev (le_bytes n v)"

lemma length_le_bytes [simp]: "length (le_bytes n v) = n"
  by (induction n v rule: le_bytes.induct) auto

lemma length_be_bytes [simp]: "length (be_bytes n v) = n"
  by (simp add: be_bytes_def)

lemma le_word_le_bytes [be_simps]: "le_word (le_bytes n v) = take_bit (8 * n) (v :: 'a::len word)"
proof (induction n v rule: le_bytes.induct)
  case (2 n v)
  have "ucast (ucast v :: u8) OR push_bit 8 (take_bit (8 * n) (drop_bit 8 v)) = take_bit (8 * Suc n) v"
    by (rule bit_word_eqI) (auto simp: bit_simps)
  with 2 show ?case by simp
qed simp

lemma be_word_be_bytes [be_simps]: "be_word (be_bytes n v) = take_bit (8 * n) (v :: 'a::len word)"
  by (simp add: be_word_def be_bytes_def le_word_le_bytes)

lemma le_bytes_le_word:
  "8 * length bs \<le> LENGTH('a) \<Longrightarrow> le_bytes (length bs) (le_word bs :: 'a::len word) = bs"
proof (induction bs)
  case (Cons b bs)
  have 1: "ucast (ucast b OR push_bit 8 (le_word bs :: 'a word)) = b"
    by (rule bit_word_eqI) (use Cons.prems in \<open>auto simp: bit_simps\<close>)
  have lt: "unat (le_word bs :: 'a word) < 2 ^ (LENGTH('a) - 8)"
  proof -
    have "le_bytes (length bs) (le_word bs :: 'a word) = bs" using Cons by simp
    then have "(le_word bs :: 'a word) = take_bit (8 * length bs) (le_word bs)"
      by (metis le_word_le_bytes)
    then have "unat (le_word bs :: 'a word) = take_bit (8 * length bs) (unat (le_word bs :: 'a word))"
      by (metis unsigned_take_bit_eq)
    then have "unat (le_word bs :: 'a word) < 2 ^ (8 * length bs)" by (metis take_bit_nat_less_exp)
    also have "(2::nat) ^ (8 * length bs) \<le> 2 ^ (LENGTH('a) - 8)"
      using Cons.prems by (intro power_increasing) auto
    finally show ?thesis .
  qed
  have top: "8 + n < LENGTH('a)" if "bit (le_word bs :: 'a word) n" for n
    using bit_less_exp [OF lt that] by simp
  have 2: "drop_bit 8 (ucast b OR push_bit 8 (le_word bs :: 'a word)) = le_word bs"
    by (rule bit_word_eqI) (use top in \<open>auto simp: bit_simps dest: bit_imp_le_length\<close>)
  show ?case using 1 2 Cons by simp
qed simp

lemma be_bytes_be_word:
  "8 * length bs \<le> LENGTH('a) \<Longrightarrow> be_bytes (length bs) (be_word bs :: 'a::len word) = bs"
  using le_bytes_le_word [of "rev bs", where 'a = 'a] by (simp add: be_bytes_def be_word_def)

lemma be_word_snoc: "be_word (bs @ [b]) = push_bit 8 (be_word bs) OR ucast b"
  by (simp add: be_word_def or.commute)

lemma be_word_Nil [simp]: "be_word [] = 0"
  by (simp add: be_word_def)

lemma take_bit_length_self [simp]: "LENGTH('a) \<le> n \<Longrightarrow> take_bit n (v :: 'a::len word) = v"
  by (rule take_bit_word_eq_self)

lemma and_0xFF_ucast: "ucast (v AND 0xFF) = (ucast (v :: 'a::len word) :: u8)"
  by (rule bit_word_eqI)
    (auto simp: bit_simps mask_numerals simp del: bit_numeral_word_iff dest: bit_imp_le_length)

text \<open>Small bytes, case by case.\<close>

lemma word8_le_5: "(x :: u8) \<le> 5 \<longleftrightarrow> x = 0 \<or> x = 1 \<or> x = 2 \<or> x = 3 \<or> x = 4 \<or> x = 5"
proof -
  have "unat x \<le> 5 \<longleftrightarrow> unat x = 0 \<or> unat x = 1 \<or> unat x = 2 \<or> unat x = 3 \<or> unat x = 4 \<or> unat x = 5"
    by linarith
  then show ?thesis by (simp add: word_le_nat_alt word_unat_eq_iff)
qed

lemma word8_le_8: "(x :: u8) \<le> 8 \<longleftrightarrow> x \<le> 5 \<or> x = 6 \<or> x = 7 \<or> x = 8"
proof -
  have "unat x \<le> 8 \<longleftrightarrow> unat x \<le> 5 \<or> unat x = 6 \<or> unat x = 7 \<or> unat x = 8"
    by linarith
  then show ?thesis by (simp add: word_le_nat_alt word_unat_eq_iff)
qed

lemma word8_less_4: "(x :: u8) < 4 \<Longrightarrow> x = 0 \<or> x = 1 \<or> x = 2 \<or> x = 3"
proof -
  assume "x < 4"
  then have "unat x < 4" by (simp add: word_less_nat_alt)
  then have "unat x = 0 \<or> unat x = 1 \<or> unat x = 2 \<or> unat x = 3" by linarith
  then show ?thesis by (simp add: word_unat_eq_iff)
qed

subsection \<open>Memory\<close>

text \<open>\<open>memcmp\<close> of the C library: the difference of the first bytes that differ.\<close>

fun memcmp :: "bytes \<Rightarrow> bytes \<Rightarrow> int" where
  "memcmp (a # as) (b # bs) = (if a = b then memcmp as bs else uint a - uint b)"
| "memcmp _ _ = 0"

lemma memcmp_eq_0_iff: "length xs = length ys \<Longrightarrow> memcmp xs ys = 0 \<longleftrightarrow> xs = ys"
  by (induction xs ys rule: list_induct2) (auto simp: word_uint_eq_iff)

end
