(* ===== verification/PbStream.thy ===== *)
theory PbStream
  imports Prelude
begin

text \<open>
  The input and output streams of nanopb (\<open>Pods/nanopb/pb_decode.c\<close> and
  \<open>pb_encode.c\<close>, declared in \<open>pb_decode.h\<close> and \<open>pb_encode.h\<close>) on which
  the protobuf decoder and encoder of the Firebase libraries run.

  A C stream holds a callback, a \<open>state\<close> pointer the callback owns, a limit and an error
  message.  The model keeps the four: the state has an arbitrary type \<open>'s\<close>, the callback is a
  function on it that returns the success flag, the bytes stored in the caller's buffer and the new
  state; \<open>is_buf_read\<close> is the pointer comparison \<open>stream->callback == buf_read\<close>.
  For a memory stream the state is the list of the bytes from the \<open>state\<close> pointer on.
  The result of an operation is the new stream and \<open>None\<close> where the code returns
  \<open>false\<close>, \<open>Some\<close> of the outputs where it returns \<open>true\<close>.

  The contract of the callbacks is the locale \<open>input_source\<close>; \<open>buf_read\<close> meets it.
\<close>

subsection \<open>Input streams\<close>

record 's pb_istream =
  callback :: "'s \<Rightarrow> nat \<Rightarrow> bool \<times> bytes \<times> 's"
  is_buf_read :: bool
  state :: 's
  bytes_left :: nat
  errmsg :: "string option"

text \<open>\<open>PB_SET_ERROR\<close>: the first message stays.\<close>

definition pb_set_error :: "'s pb_istream \<Rightarrow> string \<Rightarrow> 's pb_istream" where
  "pb_set_error s msg = s\<lparr>errmsg := (case errmsg s of Some m \<Rightarrow> Some m | None \<Rightarrow> Some msg)\<rparr>"

definition buf_read :: "bytes \<Rightarrow> nat \<Rightarrow> bool \<times> bytes \<times> bytes" where
  "buf_read source count = (True, take count source, drop count source)"

definition pb_istream_from_buffer :: "bytes \<Rightarrow> bytes pb_istream" where
  "pb_istream_from_buffer buf =
     \<lparr>callback = buf_read, is_buf_read = True, state = buf, bytes_left = length buf, errmsg = None\<rparr>"

text \<open>
  \<open>pb_read\<close> with a buffer to fill.  The call with \<open>buf == NULL\<close>, which skips bytes, is
  \<open>pb_read_skip\<close> below.
\<close>

definition pb_read :: "'s pb_istream \<Rightarrow> nat \<Rightarrow> 's pb_istream \<times> bytes option" where
  "pb_read s count =
     (if count = 0 then (s, Some [])
      else if bytes_left s < count then (pb_set_error s ''end-of-stream'', None)
      else (case callback s (state s) count of
              (False, _, st) \<Rightarrow> (pb_set_error (s\<lparr>state := st\<rparr>) ''io error'', None)
            | (True, bs, st) \<Rightarrow> (s\<lparr>state := st, bytes_left := bytes_left s - count\<rparr>, Some bs)))"

text \<open>
  Skipping: a memory stream moves its pointer, any other stream is read in pieces of 16 bytes into
  a scratch buffer.
\<close>

fun pb_read_chunks :: "'s pb_istream \<Rightarrow> nat \<Rightarrow> 's pb_istream \<times> unit option" where
  "pb_read_chunks s count =
     (if 16 < count then
        (case pb_read s 16 of
           (s', None) \<Rightarrow> (s', None)
         | (s', Some _) \<Rightarrow> pb_read_chunks s' (count - 16))
      else (case pb_read s count of
              (s', None) \<Rightarrow> (s', None)
            | (s', Some _) \<Rightarrow> (s', Some ())))"

declare pb_read_chunks.simps [simp del]

definition pb_read_skip :: "'s pb_istream \<Rightarrow> nat \<Rightarrow> 's pb_istream \<times> unit option" where
  "pb_read_skip s count =
     (if count = 0 then (s, Some ())
      else if \<not> is_buf_read s then pb_read_chunks s count
      else (case pb_read s count of
              (s', None) \<Rightarrow> (s', None)
            | (s', Some _) \<Rightarrow> (s', Some ())))"

definition pb_readbyte :: "'s pb_istream \<Rightarrow> 's pb_istream \<times> u8 option" where
  "pb_readbyte s =
     (if bytes_left s = 0 then (pb_set_error s ''end-of-stream'', None)
      else (case callback s (state s) 1 of
              (False, _, st) \<Rightarrow> (pb_set_error (s\<lparr>state := st\<rparr>) ''io error'', None)
            | (True, bs, st) \<Rightarrow> (s\<lparr>state := st, bytes_left := bytes_left s - 1\<rparr>, Some (hd bs))))"

lemma pb_set_error_simps [simp]:
  "callback (pb_set_error s m) = callback s" "is_buf_read (pb_set_error s m) = is_buf_read s"
  "state (pb_set_error s m) = state s" "bytes_left (pb_set_error s m) = bytes_left s"
  "errmsg (pb_set_error s m) \<noteq> None"
  by (simp_all add: pb_set_error_def split: option.splits)

lemma pb_readbyte_decreases:
  "pb_readbyte s = (s', Some b) \<Longrightarrow> bytes_left s' < bytes_left s"
  by (auto simp: pb_readbyte_def split: if_splits prod.splits bool.splits)

lemma pb_read_decreases:
  "pb_read s n = (s', Some bs) \<Longrightarrow> bytes_left s' = bytes_left s - n \<and> n \<le> bytes_left s"
  by (auto simp: pb_read_def split: if_splits prod.splits bool.splits)

lemma pb_read_frame:
  "pb_read s n = (s', r) \<Longrightarrow> callback s' = callback s \<and> is_buf_read s' = is_buf_read s"
  by (auto simp: pb_read_def split: if_splits prod.splits bool.splits)

lemma pb_readbyte_frame:
  "pb_readbyte s = (s', r) \<Longrightarrow> callback s' = callback s \<and> is_buf_read s' = is_buf_read s"
  by (auto simp: pb_readbyte_def split: if_splits prod.splits bool.splits)

subsection \<open>What a stream still has to deliver\<close>

text \<open>
  \<open>pb_view c s\<close> are the bytes the stream may still read when its state stands for the bytes
  \<open>c (state s)\<close>; \<open>pb_good\<close> says the limit lies within them, so that no read goes past
  the end of the underlying memory.
\<close>

definition pb_view :: "('s \<Rightarrow> bytes) \<Rightarrow> 's pb_istream \<Rightarrow> bytes" where
  "pb_view c s = take (bytes_left s) (c (state s))"

definition pb_good ::
    "('s \<Rightarrow> nat \<Rightarrow> bool \<times> bytes \<times> 's) \<Rightarrow> ('s \<Rightarrow> bytes) \<Rightarrow> 's pb_istream \<Rightarrow> bool" where
  "pb_good rd c s \<longleftrightarrow> callback s = rd \<and> bytes_left s \<le> length (c (state s))"

text \<open>
  \<open>pb_calls s s' n\<close>: the state of \<open>s'\<close> comes from that of \<open>s\<close> by calls of the callback
  that ask for \<open>n\<close> bytes altogether, and by nothing else.
\<close>

definition pb_calls :: "'s pb_istream \<Rightarrow> 's pb_istream \<Rightarrow> nat \<Rightarrow> bool" where
  "pb_calls s s' n \<longleftrightarrow>
     (\<exists>ks. sum_list ks = n \<and> state s' = foldl (\<lambda>st k. snd (snd (callback s st k))) (state s) ks)"

lemma pb_calls_refl: "state s' = state s \<Longrightarrow> pb_calls s s' 0"
  unfolding pb_calls_def by (rule exI [of _ "[]"]) simp

lemma pb_calls_one: "state s' = snd (snd (callback s (state s) n)) \<Longrightarrow> pb_calls s s' n"
  unfolding pb_calls_def by (rule exI [of _ "[n]"]) simp

lemma pb_calls_cong:
  "pb_calls s s' n \<Longrightarrow> state t = state s \<Longrightarrow> callback t = callback s \<Longrightarrow> state t' = state s' \<Longrightarrow>
   pb_calls t t' n"
  by (simp add: pb_calls_def)

lemma pb_calls_set_error [simp]: "pb_calls s (pb_set_error s' m) n \<longleftrightarrow> pb_calls s s' n"
  by (simp add: pb_calls_def)

lemma pb_calls_trans:
  assumes "pb_calls s s' n" and "pb_calls s' s'' m" and "callback s' = callback s"
  shows "pb_calls s s'' (n + m)"
proof -
  obtain ks ls where "sum_list ks = n" "state s' = foldl (\<lambda>st k. snd (snd (callback s st k))) (state s) ks"
    "sum_list ls = m" "state s'' = foldl (\<lambda>st k. snd (snd (callback s st k))) (state s') ls"
    using assms unfolding pb_calls_def by auto
  then show ?thesis unfolding pb_calls_def by (intro exI [of _ "ks @ ls"]) simp
qed

text \<open>The same through a sub-stream \<open>u\<close>, which shares the state of the stream it is made of.\<close>

lemma pb_calls_sub:
  assumes "pb_calls s t n" and "pb_calls u u' m" and "state u = state t" and "callback u = callback s"
    and "callback t = callback s" and "state s' = state u'"
  shows "pb_calls s s' (n + m)"
  using pb_calls_trans [OF assms(1) pb_calls_cong [OF assms(2), of t s'] assms(5)] assms by simp

text \<open>
  \<open>pb_consumed rd c s s' n\<close>: \<open>s'\<close> is \<open>s\<close> after exactly \<open>n\<close> bytes have
  been read; nothing else of the stream has changed.
\<close>

definition pb_consumed ::
    "('s \<Rightarrow> nat \<Rightarrow> bool \<times> bytes \<times> 's) \<Rightarrow> ('s \<Rightarrow> bytes) \<Rightarrow>
     's pb_istream \<Rightarrow> 's pb_istream \<Rightarrow> nat \<Rightarrow> bool" where
  "pb_consumed rd c s s' n \<longleftrightarrow>
     n \<le> bytes_left s \<and> bytes_left s' = bytes_left s - n \<and>
     c (state s') = drop n (c (state s)) \<and>
     callback s' = callback s \<and> is_buf_read s' = is_buf_read s \<and> errmsg s' = errmsg s \<and> pb_calls s s' n"

text \<open>The same without the error message: what any operation does, failing or not.\<close>

definition pb_moves ::
    "('s \<Rightarrow> bytes) \<Rightarrow> 's pb_istream \<Rightarrow> 's pb_istream \<Rightarrow> bool" where
  "pb_moves c s s' \<longleftrightarrow>
     (\<exists>n \<le> bytes_left s. bytes_left s' = bytes_left s - n \<and> c (state s') = drop n (c (state s)) \<and>
        pb_calls s s' n) \<and>
     callback s' = callback s \<and> is_buf_read s' = is_buf_read s"

lemma pb_moves_refl [simp]: "pb_moves c s s"
  unfolding pb_moves_def by (intro conjI exI [of _ 0]) (simp_all add: pb_calls_refl)

lemma pb_moves_set_error [simp]: "pb_moves c s (pb_set_error s' m) \<longleftrightarrow> pb_moves c s s'"
  by (simp add: pb_moves_def)

lemma pb_moves_trans: "pb_moves c s s' \<Longrightarrow> pb_moves c s' s'' \<Longrightarrow> pb_moves c s s''"
  unfolding pb_moves_def
proof (elim conjE exE)
  fix n m
  assume "n \<le> bytes_left s" "bytes_left s' = bytes_left s - n" "c (state s') = drop n (c (state s))"
    and n: "pb_calls s s' n"
    and "m \<le> bytes_left s'" "bytes_left s'' = bytes_left s' - m" "c (state s'') = drop m (c (state s'))"
    and m: "pb_calls s' s'' m"
    and cb: "callback s' = callback s" "is_buf_read s' = is_buf_read s"
    "callback s'' = callback s'" "is_buf_read s'' = is_buf_read s'"
  then have "n + m \<le> bytes_left s \<and> bytes_left s'' = bytes_left s - (n + m) \<and>
    c (state s'') = drop (n + m) (c (state s))" by (auto simp: add.commute)
  moreover have "pb_calls s s'' (n + m)" by (rule pb_calls_trans [OF n m cb(1)])
  ultimately show "(\<exists>n \<le> bytes_left s. bytes_left s'' = bytes_left s - n \<and> c (state s'') = drop n (c (state s)) \<and>
      pb_calls s s'' n) \<and>
    callback s'' = callback s \<and> is_buf_read s'' = is_buf_read s" using cb by auto
qed

lemma pb_moves_good: "pb_moves c s s' \<Longrightarrow> pb_good rd c s \<Longrightarrow> pb_good rd c s'"
  by (auto simp: pb_moves_def pb_good_def)

lemma pb_consumed_moves: "pb_consumed rd c s s' n \<Longrightarrow> pb_moves c s s'"
  by (auto simp: pb_moves_def pb_consumed_def)

lemma pb_moves_view: "pb_moves c s s' \<Longrightarrow> \<exists>n. pb_view c s' = drop n (pb_view c s)"
  by (auto simp: pb_moves_def pb_view_def drop_take)

lemma length_pb_view: "pb_good rd c s \<Longrightarrow> length (pb_view c s) = bytes_left s"
  by (simp add: pb_view_def pb_good_def)

lemma pb_consumed_good: "pb_consumed rd c s s' n \<Longrightarrow> pb_good rd c s \<Longrightarrow> pb_good rd c s'"
  by (auto simp: pb_consumed_def pb_good_def)

lemma pb_consumed_view: "pb_consumed rd c s s' n \<Longrightarrow> pb_view c s' = drop n (pb_view c s)"
  by (simp add: pb_consumed_def pb_view_def drop_take)

lemma pb_consumed_refl: "pb_consumed rd c s s 0"
  by (simp add: pb_consumed_def pb_calls_refl)

lemma pb_consumed_trans:
  "pb_consumed rd c s s' n \<Longrightarrow> pb_consumed rd c s' s'' m \<Longrightarrow> pb_consumed rd c s s'' (n + m)"
  using pb_calls_trans [of s s' n s'' m]
  by (auto simp: pb_consumed_def add.commute [of m n])

text \<open>
  The contract of a stream callback (the rules in \<open>pb_decode.h\<close>): asked for no more than it
  has, it delivers the next bytes and moves on.
\<close>

locale input_source =
  fixes rd :: "'s \<Rightarrow> nat \<Rightarrow> bool \<times> bytes \<times> 's" and contents :: "'s \<Rightarrow> bytes"
  assumes rd_ok: "n \<le> length (contents st) \<Longrightarrow>
    \<exists>st'. rd st n = (True, take n (contents st), st') \<and> contents st' = drop n (contents st)"
begin

lemma pb_read_good:
  assumes "pb_good rd contents s" and "n \<le> bytes_left s"
  shows "\<exists>s'. pb_read s n = (s', Some (take n (pb_view contents s))) \<and> pb_consumed rd contents s s' n"
proof (cases "n = 0")
  case True
  then show ?thesis by (simp add: pb_read_def pb_consumed_refl)
next
  case False
  from assms have "n \<le> length (contents (state s))" by (simp add: pb_good_def)
  then obtain st' where st': "rd (state s) n = (True, take n (contents (state s)), st')"
    "contents st' = drop n (contents (state s))" using rd_ok by blast
  then show ?thesis using assms False
    by (auto simp: pb_read_def pb_good_def pb_view_def pb_consumed_def min_def intro!: pb_calls_one)
qed

lemma pb_readbyte_good:
  assumes "pb_good rd contents s" and "pb_view contents s = b # bs"
  shows "\<exists>s'. pb_readbyte s = (s', Some b) \<and> pb_consumed rd contents s s' 1"
proof -
  from assms have nz: "0 < bytes_left s"
    by (cases "bytes_left s") (auto simp: pb_view_def)
  with assms(1) have "1 \<le> length (contents (state s))" by (simp add: pb_good_def)
  then obtain st' where st': "rd (state s) 1 = (True, take 1 (contents (state s)), st')"
    "contents st' = drop 1 (contents (state s))" using rd_ok by blast
  moreover have "hd (take 1 (contents (state s))) = b"
    using assms(2) nz by (cases "contents (state s)") (auto simp: pb_view_def take_Cons')
  ultimately show ?thesis using assms nz
    by (auto simp: pb_readbyte_def pb_good_def pb_consumed_def intro!: pb_calls_one)
qed

lemma pb_read_moves:
  assumes "pb_good rd contents s" and "pb_read s n = (s', r)"
  shows "pb_moves contents s s'"
proof (cases "n \<le> bytes_left s")
  case True
  with pb_read_good [OF assms(1) True] assms(2) show ?thesis by (auto intro: pb_consumed_moves)
next
  case False
  with assms(2) show ?thesis by (auto simp: pb_read_def)
qed

lemma pb_readbyte_eof:
  "pb_view contents s = [] \<Longrightarrow> pb_good rd contents s \<Longrightarrow>
     pb_readbyte s = (pb_set_error s ''end-of-stream'', None)"
  by (auto simp: pb_readbyte_def pb_view_def pb_good_def)

lemma pb_readbyte_SomeD:
  assumes "pb_good rd contents s" and "pb_readbyte s = (s', Some b)"
  shows "pb_consumed rd contents s s' 1 \<and> (\<exists>bs. pb_view contents s = b # bs)"
proof (cases "pb_view contents s")
  case Nil
  with pb_readbyte_eof assms show ?thesis by simp
next
  case (Cons c cs)
  with pb_readbyte_good [OF assms(1) Cons] assms(2) show ?thesis by auto
qed

lemma pb_readbyte_moves:
  assumes "pb_good rd contents s" and "pb_readbyte s = (s', r)"
  shows "pb_moves contents s s'"
proof (cases "pb_view contents s")
  case Nil
  with pb_readbyte_eof assms show ?thesis by auto
next
  case (Cons c cs)
  with pb_readbyte_good [OF assms(1) Cons] assms(2) show ?thesis by (auto intro: pb_consumed_moves)
qed

lemma pb_read_chunks_moves:
  "pb_good rd contents s \<Longrightarrow> pb_read_chunks s n = (s', r) \<Longrightarrow> pb_moves contents s s'"
proof (induction s n rule: pb_read_chunks.induct)
  case (1 s n)
  show ?case
  proof (cases "16 < n")
    case True
    obtain s1 r1 where s1: "pb_read s 16 = (s1, r1)" by force
    have m: "pb_moves contents s s1" by (rule pb_read_moves [OF "1.prems"(1) s1])
    show ?thesis
    proof (cases r1)
      case None
      with "1.prems" s1 True m show ?thesis by (simp add: pb_read_chunks.simps [of s n])
    next
      case (Some bs)
      with "1.prems" s1 True have "pb_read_chunks s1 (n - 16) = (s', r)"
        by (simp add: pb_read_chunks.simps [of s n])
      from "1.IH" [OF True s1 [symmetric] Some pb_moves_good [OF m "1.prems"(1)] this] m
      show ?thesis by (blast intro: pb_moves_trans)
    qed
  next
    case False
    with "1.prems" show ?thesis
      by (auto simp: pb_read_chunks.simps [of s n] dest: pb_read_moves split: prod.splits option.splits)
  qed
qed

lemma pb_read_skip_moves:
  "pb_good rd contents s \<Longrightarrow> pb_read_skip s n = (s', r) \<Longrightarrow> pb_moves contents s s'"
  by (auto simp: pb_read_skip_def dest: pb_read_moves pb_read_chunks_moves
      split: if_splits prod.splits option.splits)

lemma pb_read_chunks_good:
  assumes "pb_good rd contents s" and "n \<le> bytes_left s"
  shows "\<exists>s'. pb_read_chunks s n = (s', Some ()) \<and> pb_consumed rd contents s s' n"
  using assms
proof (induction s n rule: pb_read_chunks.induct)
  case (1 s n)
  show ?case
  proof (cases "16 < n")
    case True
    with "1.prems" obtain s1 where s1: "pb_read s 16 = (s1, Some (take 16 (pb_view contents s)))"
      "pb_consumed rd contents s s1 16" using pb_read_good [of s 16] by auto
    then have g: "pb_good rd contents s1" "n - 16 \<le> bytes_left s1"
      using "1.prems" by (auto simp: pb_consumed_good) (auto simp: pb_consumed_def)
    from "1.IH" [OF True s1(1) [symmetric] refl g] obtain s2 where
      s2: "pb_read_chunks s1 (n - 16) = (s2, Some ())" "pb_consumed rd contents s1 s2 (n - 16)" by blast
    with s1 True show ?thesis using pb_consumed_trans [OF s1(2) s2(2)]
      by (simp add: pb_read_chunks.simps [of s n])
  next
    case False
    with pb_read_good [OF "1.prems"] show ?thesis by (auto simp: pb_read_chunks.simps [of s n])
  qed
qed

lemma pb_read_skip_good:
  assumes "pb_good rd contents s" and "n \<le> bytes_left s"
  shows "\<exists>s'. pb_read_skip s n = (s', Some ()) \<and> pb_consumed rd contents s s' n"
  using pb_read_chunks_good [OF assms] pb_read_good [OF assms]
  by (auto simp: pb_read_skip_def pb_consumed_refl)

end

interpretation buf: input_source buf_read "\<lambda>bs. bs"
  by unfold_locales (simp add: buf_read_def)

lemma pb_good_from_buffer [simp]: "pb_good buf_read (\<lambda>bs. bs) (pb_istream_from_buffer bs)"
  by (simp add: pb_good_def pb_istream_from_buffer_def)

lemma bytes_left_from_buffer [simp]: "bytes_left (pb_istream_from_buffer bs) = length bs"
  by (simp add: pb_istream_from_buffer_def)

lemma pb_view_from_buffer [simp]: "pb_view (\<lambda>bs. bs) (pb_istream_from_buffer bs) = bs"
  by (simp add: pb_view_def pb_istream_from_buffer_def)

lemma pb_consumed_from_buffer:
  "pb_consumed buf_read (\<lambda>bs. bs) (pb_istream_from_buffer bs) s' n \<Longrightarrow>
     s' = pb_istream_from_buffer (drop n bs)"
  by (cases s') (auto simp: pb_consumed_def pb_istream_from_buffer_def)

text \<open>
  The same memory stream, noticing when it is asked to go past the end of its buffer: the state is the
  buffer, the position (the pointer of the code) and whether all accesses so far were within the
  buffer.  \<open>buf_read\<close> has no check of its own, so a read that \<open>pb_read\<close> or \<open>pb_readbyte\<close> let
  through without their tests of \<open>bytes_left\<close> clears the flag.
\<close>

definition checked_read :: "bytes \<times> nat \<times> bool \<Rightarrow> nat \<Rightarrow> bool \<times> bytes \<times> (bytes \<times> nat \<times> bool)" where
  "checked_read st count =
     (case st of (buf, i, ok) \<Rightarrow>
        (True, take count (drop i buf), (buf, i + count, ok \<and> i + count \<le> length buf)))"

definition checked_stream :: "bytes \<Rightarrow> (bytes \<times> nat \<times> bool) pb_istream" where
  "checked_stream buf =
     \<lparr>callback = checked_read, is_buf_read = True, state = (buf, 0, True), bytes_left = length buf,
      errmsg = None\<rparr>"

interpretation checked: input_source checked_read "\<lambda>(buf, i, ok). drop i buf"
  by unfold_locales (auto simp: checked_read_def add.commute)

lemma pb_good_checked [simp]: "pb_good checked_read (\<lambda>(buf, i, ok). drop i buf) (checked_stream buf)"
  by (simp add: pb_good_def checked_stream_def)

text \<open>
  \<open>stream_upto buf e s\<close>: the stream reads \<open>buf\<close>, stands before \<open>e\<close>, all it read so far was within
  the buffer, and \<open>bytes_left\<close> is the distance to the limit \<open>e\<close> (the end of the buffer, or of the
  sub-stream).
\<close>

definition stream_upto :: "bytes \<Rightarrow> nat \<Rightarrow> (bytes \<times> nat \<times> bool) pb_istream \<Rightarrow> bool" where
  "stream_upto buf e s \<longleftrightarrow> callback s = checked_read \<and> e \<le> length buf \<and>
     (\<exists>n \<le> e. state s = (buf, n, True) \<and> bytes_left s = e - n)"

lemma stream_upto_checked [simp]: "stream_upto buf (length buf) (checked_stream buf)"
  by (simp add: stream_upto_def checked_stream_def)

lemma stream_upto_good: "stream_upto buf e s \<Longrightarrow> pb_good checked_read (\<lambda>(buf, i, ok). drop i buf) s"
  by (auto simp: stream_upto_def pb_good_def)

text \<open>Calls for no more than the buffer has are all within it.\<close>

lemma checked_calls:
  "i + sum_list ks \<le> length buf \<Longrightarrow>
   foldl (\<lambda>st k. snd (snd (checked_read st k))) (buf, i, ok) ks = (buf, i + sum_list ks, ok)"
  by (induction ks arbitrary: i) (simp_all add: checked_read_def add.assoc)

lemma checked_moves:
  assumes s: "stream_upto buf e s" and m: "pb_moves (\<lambda>(buf, i, ok). drop i buf) s s'"
  shows "stream_upto buf e s'"
proof -
  obtain n where n: "n \<le> e" "e \<le> length buf" "state s = (buf, n, True)" "bytes_left s = e - n"
    "callback s = checked_read"
    using s by (auto simp: stream_upto_def)
  obtain k ks where k: "k \<le> e - n" "bytes_left s' = e - n - k" "callback s' = checked_read"
    "sum_list ks = k" "state s' = foldl (\<lambda>st k. snd (snd (checked_read st k))) (buf, n, True) ks"
    using m n by (auto simp: pb_moves_def pb_calls_def)
  have "state s' = (buf, n + k, True)" using checked_calls [of n ks buf True] k n by simp
  then show ?thesis using n k unfolding stream_upto_def by (intro conjI exI [of _ "n + k"]) simp_all
qed

end
