(* ===== verification/PbDecode.thy ===== *)
theory PbDecode
  imports PbStream
begin

text \<open>
  The field-level decoder of nanopb (\<open>Pods/nanopb/pb_decode.c\<close>): varints, tags, skipping of
  unknown fields, sub-streams of length-delimited fields, and the decoders of the scalar, bytes and
  string fields.  \<open>uint_fast8_t\<close> is an 8-bit type on the targets of the pod, so \<open>bitpos\<close>
  is a byte that wraps around.
\<close>

subsection \<open>Varints\<close>

text \<open>
  The loop of \<open>pb_decode_varint32_eof\<close> after the first byte.  The result carries the last byte
  and the last \<open>bitpos\<close>, which the check behind the loop reads.
\<close>

function varint32_loop ::
    "'s pb_istream \<Rightarrow> u32 \<Rightarrow> u8 \<Rightarrow> 's pb_istream \<times> (u32 \<times> u8 \<times> u8) option" where
  "varint32_loop s result bitpos =
     (case pb_readbyte s of
        (s', None) \<Rightarrow> (s', None)
      | (s', Some byte) \<Rightarrow>
          let sign_extension = (if bitpos < 63 then 0xFF else 0x01 :: u8);
              bad = (32 \<le> bitpos \<and> byte AND 0x7F \<noteq> 0 \<and>
                     (drop_bit 31 result = 0 \<or> byte \<noteq> sign_extension));
              result' = (if 32 \<le> bitpos then result
                         else result OR push_bit (unat bitpos) (ucast (byte AND 0x7F)));
              bitpos' = bitpos + 7
          in if bad then (pb_set_error s' ''varint overflow'', None)
             else if byte AND 0x80 \<noteq> 0 then varint32_loop s' result' bitpos'
             else (s', Some (result', byte, bitpos')))"
  by pat_completeness auto
termination
  by (relation "measure (\<lambda>(s, _, _). bytes_left s)") (auto dest: pb_readbyte_decreases [OF sym])

declare varint32_loop.simps [simp del]

text \<open>The third component of the result is \<open>*eof\<close> (set only when the flag is asked for).\<close>

definition pb_decode_varint32_eof :: "'s pb_istream \<Rightarrow> 's pb_istream \<times> u32 option \<times> bool" where
  "pb_decode_varint32_eof s =
     (case pb_readbyte s of
        (s', None) \<Rightarrow> (s', None, bytes_left s' = 0)
      | (s', Some byte) \<Rightarrow>
          if byte AND 0x80 = 0 then (s', Some (ucast byte), False)
          else (case varint32_loop s' (ucast (byte AND 0x7F)) 7 of
                  (s'', None) \<Rightarrow> (s'', None, False)
                | (s'', Some (result, byte', bitpos)) \<Rightarrow>
                    if bitpos = 35 \<and> byte' AND 0x70 \<noteq> 0
                    then (pb_set_error s'' ''varint overflow'', None, False)
                    else (s'', Some result, False)))"

definition pb_decode_varint32 :: "'s pb_istream \<Rightarrow> 's pb_istream \<times> u32 option" where
  "pb_decode_varint32 s = (case pb_decode_varint32_eof s of (s', r, _) \<Rightarrow> (s', r))"

function varint_loop :: "'s pb_istream \<Rightarrow> u64 \<Rightarrow> u8 \<Rightarrow> 's pb_istream \<times> u64 option" where
  "varint_loop s result bitpos =
     (if 64 \<le> bitpos then (pb_set_error s ''varint overflow'', None)
      else (case pb_readbyte s of
              (s', None) \<Rightarrow> (s', None)
            | (s', Some byte) \<Rightarrow>
                let result' = result OR push_bit (unat bitpos) (ucast (byte AND 0x7F));
                    bitpos' = bitpos + 7
                in if byte AND 0x80 \<noteq> 0 then varint_loop s' result' bitpos'
                   else (s', Some result')))"
  by pat_completeness auto
termination
  by (relation "measure (\<lambda>(s, _, _). bytes_left s)") (auto dest: pb_readbyte_decreases [OF sym])

declare varint_loop.simps [simp del]

definition pb_decode_varint :: "'s pb_istream \<Rightarrow> 's pb_istream \<times> u64 option" where
  "pb_decode_varint s = varint_loop s 0 0"

subsection \<open>Skipping, tags and raw values\<close>

function pb_skip_varint :: "'s pb_istream \<Rightarrow> 's pb_istream \<times> unit option" where
  "pb_skip_varint s =
     (case pb_read s 1 of
        (s', None) \<Rightarrow> (s', None)
      | (s', Some bs) \<Rightarrow> if hd bs AND 0x80 \<noteq> 0 then pb_skip_varint s' else (s', Some ()))"
  by pat_completeness auto
termination
  by (relation "measure bytes_left") (auto dest: pb_read_decreases [OF sym])

declare pb_skip_varint.simps [simp del]

definition pb_skip_string :: "'s pb_istream \<Rightarrow> 's pb_istream \<times> unit option" where
  "pb_skip_string s =
     (case pb_decode_varint32 s of
        (s', None) \<Rightarrow> (s', None)
      | (s', Some len) \<Rightarrow> pb_read_skip s' (unat len))"

text \<open>
  The outputs of \<open>pb_decode_tag\<close>: wire type, tag and \<open>eof\<close>; the last is meaningful when the
  function fails, too.
\<close>

definition pb_decode_tag :: "'s pb_istream \<Rightarrow> 's pb_istream \<times> (u32 \<times> u32) option \<times> bool" where
  "pb_decode_tag s =
     (case pb_decode_varint32_eof s of
        (s', None, eof) \<Rightarrow> (s', None, eof)
      | (s', Some temp, _) \<Rightarrow>
          if temp = 0 then (s', None, True)
          else (s', Some (temp AND 7, drop_bit 3 temp), False))"

definition PB_WT_VARINT :: u32 where "PB_WT_VARINT = 0"
definition PB_WT_64BIT :: u32 where "PB_WT_64BIT = 1"
definition PB_WT_STRING :: u32 where "PB_WT_STRING = 2"
definition PB_WT_32BIT :: u32 where "PB_WT_32BIT = 5"

lemmas wire_type_defs = PB_WT_VARINT_def PB_WT_64BIT_def PB_WT_STRING_def PB_WT_32BIT_def

definition pb_skip_field :: "'s pb_istream \<Rightarrow> u32 \<Rightarrow> 's pb_istream \<times> unit option" where
  "pb_skip_field s wire_type =
     (if wire_type = PB_WT_VARINT then pb_skip_varint s
      else if wire_type = PB_WT_64BIT then pb_read_skip s 8
      else if wire_type = PB_WT_STRING then pb_skip_string s
      else if wire_type = PB_WT_32BIT then pb_read_skip s 4
      else (pb_set_error s ''invalid wire_type'', None))"

text \<open>
  \<open>read_raw_value\<close>: the loop of the varint case, with the bytes stored so far and the room
  left in the caller's buffer.
\<close>

function raw_varint_loop ::
    "'s pb_istream \<Rightarrow> nat \<Rightarrow> bytes \<Rightarrow> 's pb_istream \<times> bytes option" where
  "raw_varint_loop s max_size acc =
     (let sz = length acc + 1 in
      if max_size < sz then (s, None)
      else (case pb_read s 1 of
              (s', None) \<Rightarrow> (s', None)
            | (s', Some bs) \<Rightarrow>
                if hd bs AND 0x80 \<noteq> 0 then raw_varint_loop s' max_size (acc @ [hd bs])
                else (s', Some (acc @ [hd bs]))))"
  by pat_completeness auto
termination
  by (relation "measure (\<lambda>(s, _, _). bytes_left s)") (auto dest: pb_read_decreases [OF sym])

declare raw_varint_loop.simps [simp del]

definition read_raw_value ::
    "'s pb_istream \<Rightarrow> u32 \<Rightarrow> nat \<Rightarrow> 's pb_istream \<times> bytes option" where
  "read_raw_value s wire_type max_size =
     (if wire_type = PB_WT_VARINT then raw_varint_loop s max_size []
      else if wire_type = PB_WT_64BIT then pb_read s 8
      else if wire_type = PB_WT_32BIT then pb_read s 4
      else (pb_set_error s ''invalid wire_type'', None))"

subsection \<open>Sub-streams\<close>

definition pb_make_string_substream ::
    "'s pb_istream \<Rightarrow> 's pb_istream \<times> 's pb_istream option" where
  "pb_make_string_substream s =
     (case pb_decode_varint32 s of
        (s', None) \<Rightarrow> (s', None)
      | (s', Some sz) \<Rightarrow>
          if bytes_left s' < unat sz then (pb_set_error s' ''parent stream too short'', None)
          else (s'\<lparr>bytes_left := bytes_left s' - unat sz\<rparr>, Some (s'\<lparr>bytes_left := unat sz\<rparr>)))"

definition pb_close_string_substream ::
    "'s pb_istream \<Rightarrow> 's pb_istream \<Rightarrow> 's pb_istream \<times> unit option" where
  "pb_close_string_substream s sub =
     (case (if bytes_left sub \<noteq> 0 then pb_read_skip sub (bytes_left sub) else (sub, Some ())) of
        (_, None) \<Rightarrow> (s, None)
      | (sub', Some _) \<Rightarrow> (s\<lparr>state := state sub', errmsg := errmsg sub'\<rparr>, Some ()))"

subsection \<open>Decoders of the field types\<close>

text \<open>
  The part of a field descriptor (\<open>pb_field_t\<close>) these decoders read.  The destination of a
  field is the value returned: an integer for the integer fields (the value of the \<open>data_size\<close>
  bytes stored), the bytes stored for the others.
\<close>

record pb_field =
  ftag :: u32
  ftype :: u8
  data_size :: u32
  array_size :: u32

definition PB_LTYPE :: "u8 \<Rightarrow> u8" where "PB_LTYPE x = x AND 0x0F"
definition PB_HTYPE :: "u8 \<Rightarrow> u8" where "PB_HTYPE x = x AND 0x30"
definition PB_ATYPE :: "u8 \<Rightarrow> u8" where "PB_ATYPE x = x AND 0xC0"

definition PB_ATYPE_STATIC :: u8 where "PB_ATYPE_STATIC = 0x00"
definition PB_ATYPE_POINTER :: u8 where "PB_ATYPE_POINTER = 0x80"

definition pb_decode_svarint :: "'s pb_istream \<Rightarrow> 's pb_istream \<times> u64 option" where
  "pb_decode_svarint s =
     (case pb_decode_varint s of
        (s', None) \<Rightarrow> (s', None)
      | (s', Some value) \<Rightarrow>
          (s', Some (if value AND 1 \<noteq> 0 then NOT (drop_bit 1 value) else drop_bit 1 value)))"

definition le32 :: "bytes \<Rightarrow> u32" where
  "le32 bs = ucast (bs ! 0) OR push_bit 8 (ucast (bs ! 1)) OR push_bit 16 (ucast (bs ! 2)) OR
     push_bit 24 (ucast (bs ! 3))"

definition le64 :: "bytes \<Rightarrow> u64" where
  "le64 bs = ucast (bs ! 0) OR push_bit 8 (ucast (bs ! 1)) OR push_bit 16 (ucast (bs ! 2)) OR
     push_bit 24 (ucast (bs ! 3)) OR push_bit 32 (ucast (bs ! 4)) OR push_bit 40 (ucast (bs ! 5)) OR
     push_bit 48 (ucast (bs ! 6)) OR push_bit 56 (ucast (bs ! 7))"

definition pb_decode_fixed32 :: "'s pb_istream \<Rightarrow> 's pb_istream \<times> u32 option" where
  "pb_decode_fixed32 s =
     (case pb_read s 4 of (s', None) \<Rightarrow> (s', None) | (s', Some bs) \<Rightarrow> (s', Some (le32 bs)))"

definition pb_decode_fixed64 :: "'s pb_istream \<Rightarrow> 's pb_istream \<times> u64 option" where
  "pb_decode_fixed64 s =
     (case pb_read s 8 of (s', None) \<Rightarrow> (s', None) | (s', Some bs) \<Rightarrow> (s', Some (le64 bs)))"

definition pb_dec_bool :: "'s pb_istream \<Rightarrow> 's pb_istream \<times> bool option" where
  "pb_dec_bool s =
     (case pb_decode_varint32 s of
        (s', None) \<Rightarrow> (s', None)
      | (s', Some value) \<Rightarrow> (s', Some (value \<noteq> 0)))"

text \<open>A conversion to a signed or unsigned integer type of \<open>n\<close> bytes.\<close>

definition to_signed :: "u32 \<Rightarrow> int \<Rightarrow> int option" where
  "to_signed n x =
     (if n = 8 then Some (sint (word_of_int x :: 64 word))
      else if n = 4 then Some (sint (word_of_int x :: 32 word))
      else if n = 2 then Some (sint (word_of_int x :: 16 word))
      else if n = 1 then Some (sint (word_of_int x :: 8 word))
      else None)"

definition to_unsigned :: "u32 \<Rightarrow> u64 \<Rightarrow> u64 option" where
  "to_unsigned n x =
     (if n = 8 then Some x
      else if n = 4 then Some (ucast (ucast x :: u32))
      else if n = 2 then Some (ucast (ucast x :: u16))
      else if n = 1 then Some (ucast (ucast x :: u8))
      else None)"

definition pb_dec_varint :: "'s pb_istream \<Rightarrow> pb_field \<Rightarrow> 's pb_istream \<times> int option" where
  "pb_dec_varint s field =
     (case pb_decode_varint s of
        (s', None) \<Rightarrow> (s', None)
      | (s', Some value) \<Rightarrow>
          let svalue = (if data_size field = 8 then sint value else sint (ucast value :: u32))
          in (case to_signed (data_size field) svalue of
                None \<Rightarrow> (pb_set_error s' ''invalid data_size'', None)
              | Some clamped \<Rightarrow>
                  if clamped \<noteq> svalue then (pb_set_error s' ''integer too large'', None)
                  else (s', Some clamped)))"

definition pb_dec_uvarint :: "'s pb_istream \<Rightarrow> pb_field \<Rightarrow> 's pb_istream \<times> u64 option" where
  "pb_dec_uvarint s field =
     (case pb_decode_varint s of
        (s', None) \<Rightarrow> (s', None)
      | (s', Some value) \<Rightarrow>
          (case to_unsigned (data_size field) value of
             None \<Rightarrow> (pb_set_error s' ''invalid data_size'', None)
           | Some clamped \<Rightarrow>
               if clamped \<noteq> value then (pb_set_error s' ''integer too large'', None)
               else (s', Some clamped)))"

definition pb_dec_svarint :: "'s pb_istream \<Rightarrow> pb_field \<Rightarrow> 's pb_istream \<times> int option" where
  "pb_dec_svarint s field =
     (case pb_decode_svarint s of
        (s', None) \<Rightarrow> (s', None)
      | (s', Some value) \<Rightarrow>
          (case to_signed (data_size field) (sint value) of
             None \<Rightarrow> (pb_set_error s' ''invalid data_size'', None)
           | Some clamped \<Rightarrow>
               if clamped \<noteq> sint value then (pb_set_error s' ''integer too large'', None)
               else (s', Some clamped)))"

text \<open>
  \<open>allocate_field\<close>; \<open>realloc_ok n\<close> says whether the C library gives \<open>n\<close> bytes.
\<close>

definition allocate_field ::
    "(u64 \<Rightarrow> bool) \<Rightarrow> 's pb_istream \<Rightarrow> u64 \<Rightarrow> u64 \<Rightarrow> 's pb_istream \<times> unit option" where
  "allocate_field realloc_ok s dsize asize =
     (if dsize = 0 \<or> asize = 0 then (pb_set_error s ''invalid size'', None)
      else if (push_bit 32 1 \<le> dsize \<or> push_bit 32 1 \<le> asize) \<and> (- 1) div asize < dsize
        then (pb_set_error s ''size too large'', None)
      else if \<not> realloc_ok (asize * dsize) then (pb_set_error s ''realloc failed'', None)
      else (s, Some ()))"

definition pb_dec_bytes ::
    "(u64 \<Rightarrow> bool) \<Rightarrow> 's pb_istream \<Rightarrow> pb_field \<Rightarrow> 's pb_istream \<times> bytes option" where
  "pb_dec_bytes realloc_ok s field =
     (case pb_decode_varint32 s of
        (s', None) \<Rightarrow> (s', None)
      | (s', Some sz) \<Rightarrow>
          let alloc_size = (ucast sz :: u64) + 4
          in if alloc_size < ucast sz then (pb_set_error s' ''size too large'', None)
             else if PB_ATYPE (ftype field) = PB_ATYPE_POINTER then
               (if bytes_left s' < unat sz then (pb_set_error s' ''end-of-stream'', None)
                else (case allocate_field realloc_ok s' alloc_size 1 of
                        (s'', None) \<Rightarrow> (s'', None)
                      | (s'', Some _) \<Rightarrow> pb_read s'' (unat sz)))
             else if ucast (data_size field) < alloc_size then (pb_set_error s' ''bytes overflow'', None)
             else pb_read s' (unat sz))"

text \<open>The bytes stored for a string include the terminator.\<close>

definition pb_dec_string ::
    "(u64 \<Rightarrow> bool) \<Rightarrow> 's pb_istream \<Rightarrow> pb_field \<Rightarrow> 's pb_istream \<times> bytes option" where
  "pb_dec_string realloc_ok s field =
     (case pb_decode_varint32 s of
        (s', None) \<Rightarrow> (s', None)
      | (s', Some sz) \<Rightarrow>
          let alloc_size = ucast (sz + 1) :: u64;
              fill = (\<lambda>t. case pb_read t (unat sz) of
                            (t', None) \<Rightarrow> (t', None) | (t', Some bs) \<Rightarrow> (t', Some (bs @ [0])))
          in if alloc_size < ucast sz then (pb_set_error s' ''size too large'', None)
             else if PB_ATYPE (ftype field) = PB_ATYPE_POINTER then
               (if bytes_left s' < unat sz then (pb_set_error s' ''end-of-stream'', None)
                else (case allocate_field realloc_ok s' alloc_size 1 of
                        (s'', None) \<Rightarrow> (s'', None)
                      | (s'', Some _) \<Rightarrow> fill s''))
             else if ucast (data_size field) < alloc_size then (pb_set_error s' ''string overflow'', None)
             else fill s')"

definition pb_dec_fixed_length_bytes :: "'s pb_istream \<Rightarrow> pb_field \<Rightarrow> 's pb_istream \<times> bytes option" where
  "pb_dec_fixed_length_bytes s field =
     (case pb_decode_varint32 s of
        (s', None) \<Rightarrow> (s', None)
      | (s', Some sz) \<Rightarrow>
          if sz = 0 then (s', Some (replicate (unat (data_size field)) 0))
          else if sz \<noteq> data_size field
            then (pb_set_error s' ''incorrect fixed length bytes size'', None)
          else pb_read s' (unat (data_size field)))"

subsection \<open>No operation reads outside its limit\<close>

context input_source
begin

lemma varint32_loop_moves:
  "pb_good rd contents s \<Longrightarrow> varint32_loop s r p = (s', v) \<Longrightarrow> pb_moves contents s s'"
proof (induction s r p rule: varint32_loop.induct)
  case (1 s r p)
  obtain s1 b where s1: "pb_readbyte s = (s1, b)" by force
  have m: "pb_moves contents s s1" by (rule pb_readbyte_moves [OF "1.prems"(1) s1])
  have g: "pb_good rd contents s1" by (rule pb_moves_good [OF m "1.prems"(1)])
  show ?case
  proof (cases b)
    case None
    with "1.prems"(2) s1 m show ?thesis by (simp add: varint32_loop.simps [of s])
  next
    case (Some byte)
    from "1.IH" [OF s1 [symmetric] Some refl refl refl refl _ _ g] "1.prems"(2) s1 Some m
    show ?thesis
      by (auto simp: varint32_loop.simps [of s] Let_def intro: pb_moves_trans split: if_splits)
  qed
qed

lemma varint_loop_moves:
  "pb_good rd contents s \<Longrightarrow> varint_loop s r p = (s', v) \<Longrightarrow> pb_moves contents s s'"
proof (induction s r p rule: varint_loop.induct)
  case (1 s r p)
  obtain s1 b where s1: "pb_readbyte s = (s1, b)" by force
  have m: "pb_moves contents s s1" by (rule pb_readbyte_moves [OF "1.prems"(1) s1])
  have g: "pb_good rd contents s1" by (rule pb_moves_good [OF m "1.prems"(1)])
  show ?case
  proof (cases "64 \<le> p")
    case True
    with "1.prems"(2) show ?thesis by (simp add: varint_loop.simps [of s]) auto
  next
    case p: False
    show ?thesis
    proof (cases b)
      case None
      with "1.prems"(2) s1 p m show ?thesis by (simp add: varint_loop.simps [of s])
    next
      case (Some byte)
      from "1.IH" [OF p s1 [symmetric] Some refl refl _ g] "1.prems"(2) s1 p Some m
      show ?thesis
        by (auto simp: varint_loop.simps [of s] Let_def intro: pb_moves_trans split: if_splits)
    qed
  qed
qed

lemma pb_skip_varint_moves:
  "pb_good rd contents s \<Longrightarrow> pb_skip_varint s = (s', v) \<Longrightarrow> pb_moves contents s s'"
proof (induction s rule: pb_skip_varint.induct)
  case (1 s)
  obtain s1 b where s1: "pb_read s 1 = (s1, b)" by force
  have m: "pb_moves contents s s1" by (rule pb_read_moves [OF "1.prems"(1) s1])
  have g: "pb_good rd contents s1" by (rule pb_moves_good [OF m "1.prems"(1)])
  show ?case
  proof (cases b)
    case None
    with "1.prems"(2) s1 m show ?thesis by (simp add: pb_skip_varint.simps [of s])
  next
    case (Some bs)
    from "1.IH" [OF s1 [symmetric] Some _ g] "1.prems"(2) s1 Some m
    show ?thesis by (auto simp: pb_skip_varint.simps [of s] intro: pb_moves_trans split: if_splits)
  qed
qed

lemma raw_varint_loop_moves:
  "pb_good rd contents s \<Longrightarrow> raw_varint_loop s k acc = (s', v) \<Longrightarrow> pb_moves contents s s'"
proof (induction s k acc rule: raw_varint_loop.induct)
  case (1 s k acc)
  obtain s1 b where s1: "pb_read s 1 = (s1, b)" by force
  have m: "pb_moves contents s s1" by (rule pb_read_moves [OF "1.prems"(1) s1])
  have g: "pb_good rd contents s1" by (rule pb_moves_good [OF m "1.prems"(1)])
  from "1.IH" [OF refl _ s1 [symmetric] _ _ g] "1.prems"(2) s1 m
  show ?case
    by (auto simp: raw_varint_loop.simps [of s] Let_def intro: pb_moves_trans
        split: if_splits option.splits)
qed

lemma pb_decode_varint32_eof_moves:
  assumes "pb_good rd contents s" and "pb_decode_varint32_eof s = (s', v, e)"
  shows "pb_moves contents s s'"
proof -
  obtain s1 b where s1: "pb_readbyte s = (s1, b)" by force
  have m: "pb_moves contents s s1" by (rule pb_readbyte_moves [OF assms(1) s1])
  have g: "pb_good rd contents s1" by (rule pb_moves_good [OF m assms(1)])
  show ?thesis
    using assms(2) s1 m varint32_loop_moves [OF g]
    by (auto simp: pb_decode_varint32_eof_def intro: pb_moves_trans
        split: option.splits if_splits prod.splits)
qed

lemma pb_decode_varint32_moves:
  "pb_good rd contents s \<Longrightarrow> pb_decode_varint32 s = (s', v) \<Longrightarrow> pb_moves contents s s'"
  by (auto simp: pb_decode_varint32_def dest: pb_decode_varint32_eof_moves split: prod.splits)

lemma pb_decode_varint_moves:
  "pb_good rd contents s \<Longrightarrow> pb_decode_varint s = (s', v) \<Longrightarrow> pb_moves contents s s'"
  by (auto simp: pb_decode_varint_def dest: varint_loop_moves)

lemma pb_decode_tag_moves:
  "pb_good rd contents s \<Longrightarrow> pb_decode_tag s = (s', v, e) \<Longrightarrow> pb_moves contents s s'"
  by (auto simp: pb_decode_tag_def dest: pb_decode_varint32_eof_moves
      split: prod.splits option.splits if_splits)

text \<open>An operation that reads a length and then goes on from the stream behind it.\<close>

lemma varint32_then_moves:
  assumes "pb_good rd contents s" and "pb_decode_varint32 s = (s1, v)"
    and "pb_good rd contents s1 \<Longrightarrow> pb_moves contents s1 s'"
  shows "pb_moves contents s s'"
  using assms pb_decode_varint32_moves pb_moves_good pb_moves_trans by metis

lemma pb_skip_string_moves:
  assumes "pb_good rd contents s" and "pb_skip_string s = (s', v)"
  shows "pb_moves contents s s'"
proof -
  obtain s1 n where s1: "pb_decode_varint32 s = (s1, n)" by force
  show ?thesis
    by (rule varint32_then_moves [OF assms(1) s1])
      (use assms(2) s1 pb_read_skip_moves in \<open>auto simp: pb_skip_string_def split: option.splits\<close>)
qed

lemma pb_skip_field_moves:
  "pb_good rd contents s \<Longrightarrow> pb_skip_field s wt = (s', v) \<Longrightarrow> pb_moves contents s s'"
  by (auto simp: pb_skip_field_def dest: pb_skip_varint_moves pb_read_skip_moves pb_skip_string_moves
      split: if_splits)

lemma read_raw_value_moves:
  "pb_good rd contents s \<Longrightarrow> read_raw_value s wt k = (s', v) \<Longrightarrow> pb_moves contents s s'"
  by (auto simp: read_raw_value_def dest: raw_varint_loop_moves pb_read_moves split: if_splits)

lemma pb_dec_bytes_moves:
  assumes "pb_good rd contents s" and "pb_dec_bytes ok s f = (s', v)"
  shows "pb_moves contents s s'"
proof -
  obtain s1 n where s1: "pb_decode_varint32 s = (s1, n)" by force
  show ?thesis
    by (rule varint32_then_moves [OF assms(1) s1])
      (use assms(2) s1 pb_read_moves in
        \<open>auto simp: pb_dec_bytes_def allocate_field_def Let_def split: option.splits if_splits\<close>)
qed

lemma pb_dec_string_moves:
  assumes "pb_good rd contents s" and "pb_dec_string ok s f = (s', v)"
  shows "pb_moves contents s s'"
proof -
  obtain s1 n where s1: "pb_decode_varint32 s = (s1, n)" by force
  show ?thesis
    by (rule varint32_then_moves [OF assms(1) s1])
      (use assms(2) s1 pb_read_moves in
        \<open>auto simp: pb_dec_string_def allocate_field_def Let_def split: option.splits if_splits prod.splits\<close>)
qed

lemma pb_dec_fixed_length_bytes_moves:
  assumes "pb_good rd contents s" and "pb_dec_fixed_length_bytes s f = (s', v)"
  shows "pb_moves contents s s'"
proof -
  obtain s1 n where s1: "pb_decode_varint32 s = (s1, n)" by force
  show ?thesis
    by (rule varint32_then_moves [OF assms(1) s1])
      (use assms(2) s1 pb_read_moves in
        \<open>auto simp: pb_dec_fixed_length_bytes_def split: option.splits if_splits\<close>)
qed

end

end
