(* ===== verification/PbEncode.thy ===== *)
theory PbEncode
  imports PbDecode
begin

text \<open>
  The field-level encoder of nanopb (\<open>Pods/nanopb/pb_encode.c\<close>): output streams, varints,
  tags, the encoders of the field types, packed arrays and length-delimited sub-messages.

  A stream without a callback (\<open>PB_OSTREAM_SIZING\<close>) counts bytes and stores none; a memory
  stream's state is the list of the bytes stored so far.  Sizes are \<open>size_t\<close>, kept at 64 bits:
  the overflow test of \<open>pb_write\<close> is about them.  An operation returns the new stream and the
  success flag.
\<close>

subsection \<open>Output streams\<close>

record 'o pb_ostream =
  out_callback :: "('o \<Rightarrow> bytes \<Rightarrow> bool \<times> 'o) option"
  out_state :: 'o
  max_size :: u64
  bytes_written :: u64
  out_errmsg :: "string option"

definition pb_out_error :: "'o pb_ostream \<Rightarrow> string \<Rightarrow> 'o pb_ostream" where
  "pb_out_error s msg =
     s\<lparr>out_errmsg := (case out_errmsg s of Some m \<Rightarrow> Some m | None \<Rightarrow> Some msg)\<rparr>"

definition buf_write :: "bytes \<Rightarrow> bytes \<Rightarrow> bool \<times> bytes" where
  "buf_write dest buf = (True, dest @ buf)"

definition pb_ostream_from_buffer :: "u64 \<Rightarrow> bytes pb_ostream" where
  "pb_ostream_from_buffer bufsize =
     \<lparr>out_callback = Some buf_write, out_state = [], max_size = bufsize, bytes_written = 0,
      out_errmsg = None\<rparr>"

definition PB_OSTREAM_SIZING :: "'o \<Rightarrow> 'o pb_ostream" where
  "PB_OSTREAM_SIZING st =
     \<lparr>out_callback = None, out_state = st, max_size = 0, bytes_written = 0, out_errmsg = None\<rparr>"

text \<open>\<open>buf\<close> is the memory at the C pointer, of which \<open>count\<close> bytes are written.\<close>

definition pb_write :: "'o pb_ostream \<Rightarrow> bytes \<Rightarrow> u64 \<Rightarrow> 'o pb_ostream \<times> bool" where
  "pb_write s buf count =
     (case out_callback s of
        Some wr \<Rightarrow>
          if 0 < count then
            (if bytes_written s + count < bytes_written s \<or> max_size s < bytes_written s + count
             then (pb_out_error s ''stream full'', False)
             else (case wr (out_state s) (take (unat count) buf) of
                     (False, st) \<Rightarrow> (pb_out_error (s\<lparr>out_state := st\<rparr>) ''io error'', False)
                   | (True, st) \<Rightarrow>
                       (s\<lparr>out_state := st, bytes_written := bytes_written s + count\<rparr>, True)))
          else (s\<lparr>bytes_written := bytes_written s + count\<rparr>, True)
      | None \<Rightarrow> (s\<lparr>bytes_written := bytes_written s + count\<rparr>, True))"

subsection \<open>Scalars\<close>

text \<open>The loop of \<open>pb_encode_varint\<close> that fills \<open>buffer\<close>.\<close>

function varint_buffer :: "u64 \<Rightarrow> bytes" where
  "varint_buffer v =
     (if v = 0 then [] else (ucast (v AND 0x7F) OR 0x80) # varint_buffer (drop_bit 7 v))"
  by pat_completeness auto
termination
  by (relation "measure unat") (auto intro: drop_bit_lt_self)

declare varint_buffer.simps [simp del]

definition pb_encode_varint :: "'o pb_ostream \<Rightarrow> u64 \<Rightarrow> 'o pb_ostream \<times> bool" where
  "pb_encode_varint s v =
     (if v \<le> 0x7F then pb_write s [ucast v] 1
      else let buffer = varint_buffer v;
               i = length buffer;
               buffer' = buffer[i - 1 := buffer ! (i - 1) AND 0x7F]
           in pb_write s buffer' (of_nat i))"

definition pb_encode_svarint :: "'o pb_ostream \<Rightarrow> u64 \<Rightarrow> 'o pb_ostream \<times> bool" where
  "pb_encode_svarint s v =
     pb_encode_varint s (if sint v < 0 then NOT (push_bit 1 v) else push_bit 1 v)"

definition pb_encode_fixed32 :: "'o pb_ostream \<Rightarrow> u32 \<Rightarrow> 'o pb_ostream \<times> bool" where
  "pb_encode_fixed32 s v =
     pb_write s [ucast (v AND 0xFF), ucast (drop_bit 8 v AND 0xFF), ucast (drop_bit 16 v AND 0xFF),
                 ucast (drop_bit 24 v AND 0xFF)] 4"

definition pb_encode_fixed64 :: "'o pb_ostream \<Rightarrow> u64 \<Rightarrow> 'o pb_ostream \<times> bool" where
  "pb_encode_fixed64 s v =
     pb_write s [ucast (v AND 0xFF), ucast (drop_bit 8 v AND 0xFF), ucast (drop_bit 16 v AND 0xFF),
                 ucast (drop_bit 24 v AND 0xFF), ucast (drop_bit 32 v AND 0xFF),
                 ucast (drop_bit 40 v AND 0xFF), ucast (drop_bit 48 v AND 0xFF),
                 ucast (drop_bit 56 v AND 0xFF)] 8"

definition pb_encode_tag :: "'o pb_ostream \<Rightarrow> u32 \<Rightarrow> u32 \<Rightarrow> 'o pb_ostream \<times> bool" where
  "pb_encode_tag s wiretype field_number =
     pb_encode_varint s (push_bit 3 (ucast field_number) OR ucast wiretype)"

definition PB_LTYPE_LAST_PACKABLE :: u8 where "PB_LTYPE_LAST_PACKABLE = 0x05"
definition PB_LTYPE_FIXED32 :: u8 where "PB_LTYPE_FIXED32 = 0x04"
definition PB_LTYPE_FIXED64 :: u8 where "PB_LTYPE_FIXED64 = 0x05"

text \<open>The wire type of a field: \<open>None\<close> where the code rejects the descriptor.\<close>

definition wiretype_of_ltype :: "u8 \<Rightarrow> u32 option" where
  "wiretype_of_ltype lt =
     (if lt = 0x00 \<or> lt = 0x01 \<or> lt = 0x02 \<or> lt = 0x03 then Some PB_WT_VARINT
      else if lt = PB_LTYPE_FIXED32 then Some PB_WT_32BIT
      else if lt = PB_LTYPE_FIXED64 then Some PB_WT_64BIT
      else if lt = 0x06 \<or> lt = 0x07 \<or> lt = 0x08 \<or> lt = 0x0A then Some PB_WT_STRING
      else None)"

definition pb_encode_tag_for_field :: "'o pb_ostream \<Rightarrow> 'f pb_field_scheme \<Rightarrow> 'o pb_ostream \<times> bool" where
  "pb_encode_tag_for_field s field =
     (case wiretype_of_ltype (PB_LTYPE (ftype field)) of
        None \<Rightarrow> (pb_out_error s ''invalid field type'', False)
      | Some wiretype \<Rightarrow> pb_encode_tag s wiretype (ftag field))"

definition pb_encode_string :: "'o pb_ostream \<Rightarrow> bytes \<Rightarrow> u64 \<Rightarrow> 'o pb_ostream \<times> bool" where
  "pb_encode_string s buffer sz =
     (case pb_encode_varint s sz of
        (s', False) \<Rightarrow> (s', False)
      | (s', True) \<Rightarrow> pb_write s' buffer sz)"

subsection \<open>Encoders of the field types\<close>

text \<open>
  The source of an integer field is given by the eight bytes of memory at \<open>src\<close>, read as a word;
  the field's \<open>data_size\<close> says how many of them count.  For the bytes and string encoders
  \<open>None\<close> is the null pointer.
\<close>

definition pb_enc_bool :: "'o pb_ostream \<Rightarrow> bool \<Rightarrow> 'o pb_ostream \<times> bool" where
  "pb_enc_bool s b = pb_encode_varint s (if b then 1 else 0)"

definition read_signed :: "u32 \<Rightarrow> u64 \<Rightarrow> u64 option" where
  "read_signed n src =
     (if n = 1 then Some (scast (ucast src :: u8))
      else if n = 2 then Some (scast (ucast src :: u16))
      else if n = 4 then Some (scast (ucast src :: u32))
      else if n = 8 then Some src
      else None)"

definition read_unsigned :: "u32 \<Rightarrow> u64 \<Rightarrow> u64 option" where
  "read_unsigned n src =
     (if n = 1 then Some (ucast (ucast src :: u8))
      else if n = 2 then Some (ucast (ucast src :: u16))
      else if n = 4 then Some (ucast (ucast src :: u32))
      else if n = 8 then Some src
      else None)"

definition pb_enc_varint :: "'o pb_ostream \<Rightarrow> 'f pb_field_scheme \<Rightarrow> u64 \<Rightarrow> 'o pb_ostream \<times> bool" where
  "pb_enc_varint s field src =
     (case read_signed (data_size field) src of
        None \<Rightarrow> (pb_out_error s ''invalid data_size'', False)
      | Some v \<Rightarrow> pb_encode_varint s v)"

definition pb_enc_uvarint :: "'o pb_ostream \<Rightarrow> 'f pb_field_scheme \<Rightarrow> u64 \<Rightarrow> 'o pb_ostream \<times> bool" where
  "pb_enc_uvarint s field src =
     (case read_unsigned (data_size field) src of
        None \<Rightarrow> (pb_out_error s ''invalid data_size'', False)
      | Some v \<Rightarrow> pb_encode_varint s v)"

definition pb_enc_svarint :: "'o pb_ostream \<Rightarrow> 'f pb_field_scheme \<Rightarrow> u64 \<Rightarrow> 'o pb_ostream \<times> bool" where
  "pb_enc_svarint s field src =
     (case read_signed (data_size field) src of
        None \<Rightarrow> (pb_out_error s ''invalid data_size'', False)
      | Some v \<Rightarrow> pb_encode_svarint s v)"

text \<open>A \<open>pb_bytes_array_t\<close> is its bytes; its \<open>size\<close> field is a \<open>pb_size_t\<close>.\<close>

definition pb_enc_bytes :: "'o pb_ostream \<Rightarrow> 'f pb_field_scheme \<Rightarrow> (u32 \<times> bytes) option \<Rightarrow> 'o pb_ostream \<times> bool" where
  "pb_enc_bytes s field src =
     (case src of
        None \<Rightarrow> pb_encode_string s [] 0
      | Some (sz, bs) \<Rightarrow>
          let allocsize = (ucast sz :: u64) + 4
          in if allocsize < ucast sz \<or>
                PB_ATYPE (ftype field) = PB_ATYPE_STATIC \<and> ucast (data_size field) < allocsize
             then (pb_out_error s ''bytes size exceeded'', False)
             else pb_encode_string s bs (ucast sz))"

text \<open>
  The \<open>strnlen\<close> loop of \<open>pb_enc_string\<close>: \<open>room\<close> is \<open>max_size - size\<close>.
\<close>

fun c_strnlen :: "nat \<Rightarrow> bytes \<Rightarrow> nat" where
  "c_strnlen room [] = 0"
| "c_strnlen room (b # bs) = (if room = 0 \<or> b = 0 then 0 else Suc (c_strnlen (room - 1) bs))"

definition pb_enc_string :: "'o pb_ostream \<Rightarrow> 'f pb_field_scheme \<Rightarrow> bytes option \<Rightarrow> 'o pb_ostream \<times> bool" where
  "pb_enc_string s field src =
     (case src of
        None \<Rightarrow> pb_encode_string s [] 0
      | Some p \<Rightarrow>
          let max = (if PB_ATYPE (ftype field) = PB_ATYPE_POINTER then 2 ^ 64 - 1
                     else unat (data_size field))
          in pb_encode_string s p (of_nat (c_strnlen max p)))"

definition pb_enc_fixed_length_bytes :: "'o pb_ostream \<Rightarrow> 'f pb_field_scheme \<Rightarrow> bytes \<Rightarrow> 'o pb_ostream \<times> bool" where
  "pb_enc_fixed_length_bytes s field src = pb_encode_string s src (ucast (data_size field))"

subsection \<open>Arrays and sub-messages\<close>

text \<open>
  These take the encoder of an entry or of a whole message as an argument.  An encoder of messages
  follows pointers in memory and may fail to return, which is the result \<open>None\<close>;
  \<open>enc_then\<close> is \<open>if (!first) return false;\<close> followed by the rest.
\<close>

type_synonym 'o enc_result = "('o pb_ostream \<times> bool) option"

definition enc_then :: "'o enc_result \<Rightarrow> ('o pb_ostream \<Rightarrow> 'o enc_result) \<Rightarrow> 'o enc_result" where
  "enc_then r g =
     (case r of None \<Rightarrow> None | Some (s, ok) \<Rightarrow> if ok then g s else Some (s, False))"

text \<open>
  \<open>encode_array\<close>: the entries of the array as a list, \<open>func\<close> the encoder of one entry
  (for pointer arrays of strings it dereferences the entry).
\<close>

fun encode_items ::
    "('o pb_ostream \<Rightarrow> 'v \<Rightarrow> 'o enc_result) \<Rightarrow> 'o pb_ostream \<Rightarrow> 'v list \<Rightarrow> 'o enc_result" where
  "encode_items f s [] = Some (s, True)"
| "encode_items f s (p # ps) = enc_then (f s p) (\<lambda>s'. encode_items f s' ps)"

text \<open>The size of the payload; \<open>Some None\<close> when the encoder of an entry fails.\<close>

definition packed_size ::
    "('o pb_ostream \<Rightarrow> 'v \<Rightarrow> 'o enc_result) \<Rightarrow> 'o pb_ostream \<Rightarrow> 'f pb_field_scheme \<Rightarrow> 'v list \<Rightarrow>
     u64 option option" where
  "packed_size func s field items =
     (if PB_LTYPE (ftype field) = PB_LTYPE_FIXED32 then Some (Some (4 * of_nat (length items)))
      else if PB_LTYPE (ftype field) = PB_LTYPE_FIXED64 then Some (Some (8 * of_nat (length items)))
      else (case encode_items func (PB_OSTREAM_SIZING (out_state s)) items of
              None \<Rightarrow> None
            | Some (sz, ok) \<Rightarrow> Some (if ok then Some (bytes_written sz) else None)))"

definition encode_array ::
    "'o pb_ostream \<Rightarrow> 'f pb_field_scheme \<Rightarrow> 'v list \<Rightarrow> ('o pb_ostream \<Rightarrow> 'v \<Rightarrow> 'o enc_result) \<Rightarrow>
     'o enc_result" where
  "encode_array s field items func =
     (if items = [] then Some (s, True)
      else if PB_ATYPE (ftype field) \<noteq> PB_ATYPE_POINTER \<and> unat (array_size field) < length items
        then Some (pb_out_error s ''array max size exceeded'', False)
      else if PB_LTYPE (ftype field) \<le> PB_LTYPE_LAST_PACKABLE then
        enc_then (Some (pb_encode_tag s PB_WT_STRING (ftag field)))
          (\<lambda>s1. case packed_size func s1 field items of
                  None \<Rightarrow> None
                | Some None \<Rightarrow> Some (s1, False)
                | Some (Some sz) \<Rightarrow>
                    enc_then (Some (pb_encode_varint s1 sz))
                      (\<lambda>s2. if out_callback s2 = None then Some (pb_write s2 [] sz)
                            else encode_items func s2 items))
      else encode_items
             (\<lambda>t p. enc_then (Some (pb_encode_tag_for_field t field)) (\<lambda>t'. func t' p)) s items)"

text \<open>
  \<open>pb_encode_submessage\<close>; \<open>enc\<close> stands for \<open>pb_encode(_, fields, src_struct)\<close>.
\<close>

definition pb_encode_submessage ::
    "'o pb_ostream \<Rightarrow> ('o pb_ostream \<Rightarrow> 'o enc_result) \<Rightarrow> 'o enc_result" where
  "pb_encode_submessage s enc =
     (case enc (PB_OSTREAM_SIZING (out_state s)) of
        None \<Rightarrow> None
      | Some (sub, ok) \<Rightarrow>
          if \<not> ok then Some (s\<lparr>out_errmsg := out_errmsg sub\<rparr>, False)
          else
            let sz = bytes_written sub in
            enc_then (Some (pb_encode_varint s sz))
              (\<lambda>s1. if out_callback s1 = None then Some (pb_write s1 [] sz)
                    else if max_size s1 < bytes_written s1 + sz
                      then Some (pb_out_error s1 ''stream full'', False)
                    else
                      (case enc \<lparr>out_callback = out_callback s1, out_state = out_state s1, max_size = sz,
                                 bytes_written = 0, out_errmsg = None\<rparr> of
                         None \<Rightarrow> None
                       | Some (sub', status) \<Rightarrow>
                           let s2 = s1\<lparr>bytes_written := bytes_written s1 + bytes_written sub',
                                       out_state := out_state sub', out_errmsg := out_errmsg sub'\<rparr>
                           in Some (if bytes_written sub' \<noteq> sz
                                    then (pb_out_error s2 ''submsg size changed'', False)
                                    else (s2, status)))))"

subsection \<open>What a conforming output callback stores\<close>

text \<open>
  The contract of an output callback: it stores the bytes it is given behind those it has.
  \<open>pb_wrote\<close> is what a successful operation does to a stream: \<open>bs\<close> has been appended and
  counted, callback and limit are as before (a sub-message resets the error message).
\<close>

definition pb_wrote ::
    "('o \<Rightarrow> bytes) \<Rightarrow> 'o pb_ostream \<Rightarrow> 'o pb_ostream \<Rightarrow> bytes \<Rightarrow> bool" where
  "pb_wrote written s s' bs \<longleftrightarrow>
     written (out_state s') = written (out_state s) @ bs \<and> out_callback s' = out_callback s \<and>
     max_size s' = max_size s \<and> bytes_written s' = bytes_written s + of_nat (length bs)"

lemma pb_wrote_trans:
  "pb_wrote w s s' bs \<Longrightarrow> pb_wrote w s' s'' cs \<Longrightarrow> pb_wrote w s s'' (bs @ cs)"
  by (auto simp: pb_wrote_def)

lemma pb_wrote_refl: "pb_wrote w s s []"
  by (simp add: pb_wrote_def)

locale output_sink =
  fixes wr :: "'o \<Rightarrow> bytes \<Rightarrow> bool \<times> 'o" and written :: "'o \<Rightarrow> bytes"
  assumes wr_ok: "\<exists>st'. wr st bs = (True, st') \<and> written st' = written st @ bs"
begin

lemma pb_write_True:
  assumes "pb_write s buf n = (s', True)" and "out_callback s = Some wr" and "unat n \<le> length buf"
  shows "pb_wrote written s s' (take (unat n) buf)"
proof -
  obtain st' where st': "wr (out_state s) (take (unat n) buf) = (True, st')"
    "written st' = written (out_state s) @ take (unat n) buf" using wr_ok by blast
  show ?thesis
  proof (cases "0 < n")
    case True
    then show ?thesis using assms st'
      by (auto simp: pb_write_def pb_wrote_def min_def split: if_splits)
  next
    case False
    then have "n = 0" by (simp add: word_gt_0)
    then show ?thesis using assms by (auto simp: pb_write_def pb_wrote_def)
  qed
qed

text \<open>Within its limit a stream takes the bytes; beyond it, it changes nothing but the message.\<close>

lemma pb_write_fits:
  assumes "out_callback s = Some wr" and "unat n \<le> length buf"
    and "unat (bytes_written s) + unat n \<le> unat (max_size s)"
  shows "\<exists>s'. pb_write s buf n = (s', True)"
proof -
  have lt: "unat (bytes_written s) + unat n < 2 ^ 64"
    using assms(3) unat_word64_lt [of "max_size s"] by linarith
  then have "unat (bytes_written s + n) = unat (bytes_written s) + unat n"
    by (simp add: unat_word_ariths)
  then have "\<not> bytes_written s + n < bytes_written s" "\<not> max_size s < bytes_written s + n"
    using assms(3) by (simp_all add: word_less_nat_alt word_le_nat_alt)
  moreover obtain st' where "wr (out_state s) (take (unat n) buf) = (True, st')" using wr_ok by blast
  ultimately show ?thesis using assms(1) by (simp add: pb_write_def)
qed

lemma pb_write_full:
  assumes "out_callback s = Some wr" and "unat (bytes_written s) \<le> unat (max_size s)"
    and "unat (max_size s) < unat (bytes_written s) + unat n"
  shows "pb_write s buf n = (pb_out_error s ''stream full'', False)"
proof -
  have "0 < n" using assms(2,3) by (auto simp: word_less_nat_alt)
  moreover have "bytes_written s + n < bytes_written s \<or> max_size s < bytes_written s + n"
    using assms(2,3) unat_plus_if' [of "bytes_written s" n] unat_word64_lt [of n]
    by (auto simp: word_less_nat_alt split: if_splits)
  ultimately show ?thesis using assms(1) by (simp add: pb_write_def)
qed

end

interpretation mem: output_sink buf_write "\<lambda>bs. bs"
  by unfold_locales (simp add: buf_write_def)

lemma pb_wrote_from_buffer:
  "pb_wrote (\<lambda>bs. bs) (pb_ostream_from_buffer n) s' bs \<Longrightarrow> out_state s' = bs"
  by (simp add: pb_wrote_def pb_ostream_from_buffer_def)

lemma out_callback_from_buffer [simp]: "out_callback (pb_ostream_from_buffer n) = Some buf_write"
  by (simp add: pb_ostream_from_buffer_def)

end
