(* ===== verification/PbRound.thy ===== *)
theory PbRound
  imports PbEncode
begin

text \<open>
  What the encoder writes and that the decoder reads it back.  Each encoder is first shown to be a
  single \<open>pb_write\<close> of a byte string given by a reference function (\<open>varint_bytes\<close> and
  its kin); the decoders are then run on those byte strings inside the stream contract
  \<open>input_source\<close>, so that the round trips hold for every conforming stream and in particular
  for memory buffers.
\<close>

subsection \<open>The bytes of a varint\<close>

function varint_bytes :: "u64 \<Rightarrow> bytes" where
  "varint_bytes v =
     (if v \<le> 0x7F then [ucast v]
      else (ucast (v AND 0x7F) OR 0x80) # varint_bytes (drop_bit 7 v))"
  by pat_completeness auto
termination
  by (relation "measure unat") (auto intro: drop_bit_lt_self)

declare varint_bytes.simps [simp del]

lemma le_0x7F_iff: "(v :: u64) \<le> 0x7F \<longleftrightarrow> unat v < 2 ^ 7"
  by (simp add: word_le_nat_alt) linarith

lemma le_0x7F_bit: "(v :: u64) \<le> 0x7F \<Longrightarrow> bit v n \<Longrightarrow> n < 7"
  unfolding le_0x7F_iff by (rule bit_less_exp)

lemma le_0x7F_drop_bit: "(v :: u64) \<le> 0x7F \<longleftrightarrow> drop_bit 7 v = 0"
  unfolding le_0x7F_iff word_unat_eq_iff unat_drop_bit_eq by (simp add: drop_bit_eq_div div_eq_0_iff)

lemma varint_bytes_not_Nil [simp]: "varint_bytes v \<noteq> []"
  by (subst varint_bytes.simps) simp

lemma varint_digit_last:
  assumes "(v :: u64) \<le> 0x7F"
  shows "(ucast (v AND 0x7F) OR 0x80) AND 0x7F = (ucast v :: u8)"
  using le_0x7F_bit [OF assms]
  by (intro bit_word_eqI)
    (auto simp: bit_simps mask_numerals bit_0x80_iff simp del: bit_numeral_word_iff)

lemma varint_digit_value:
  "ucast ((ucast (v AND 0x7F) OR 0x80 :: u8) AND 0x7F) = (v :: u64) AND 0x7F"
  by (rule bit_word_eqI)
    (auto simp: bit_simps mask_numerals bit_0x80_iff simp del: bit_numeral_word_iff)

lemma varint_digit_more: "bit (ucast (v AND 0x7F) OR 0x80 :: u8) 7"
  by (simp add: bit_or_iff bit_0x80_iff del: bit_numeral_word_iff)

lemma varint_last_value:
  assumes "(v :: u64) \<le> 0x7F"
  shows "ucast ((ucast v :: u8) AND 0x7F) = v"
  using le_0x7F_bit [OF assms]
  by (intro bit_word_eqI) (force simp: bit_simps mask_numerals simp del: bit_numeral_word_iff)

lemma varint_last_more: "(v :: u64) \<le> 0x7F \<Longrightarrow> \<not> bit (ucast v :: u8) 7"
  by (auto simp: bit_simps dest: le_0x7F_bit)

lemma varint_split:
  "push_bit p (v AND 0x7F) OR push_bit (p + 7) (drop_bit 7 v) = push_bit p (v :: u64)"
proof (rule bit_word_eqI)
  fix n
  have "p + 7 \<le> n \<Longrightarrow> 7 + (n - (p + 7)) = n - p" by simp
  then show "bit (push_bit p (v AND 0x7F) OR push_bit (p + 7) (drop_bit 7 v)) n = bit (push_bit p v) n"
    by (cases "p + 7 \<le> n") (auto simp: bit_simps mask_numerals simp del: bit_numeral_word_iff)
qed

lemma varint_digit_value32:
  "ucast ((ucast (v AND 0x7F) OR 0x80 :: u8) AND 0x7F) = (ucast ((v :: u64) AND 0x7F) :: u32)"
  by (rule bit_word_eqI)
    (auto simp: bit_simps mask_numerals bit_0x80_iff simp del: bit_numeral_word_iff)

lemma varint_last_value32:
  assumes "(v :: u64) \<le> 0x7F"
  shows "ucast ((ucast v :: u8) AND 0x7F) = (ucast v :: u32)"
  using le_0x7F_bit [OF assms]
  by (intro bit_word_eqI) (force simp: bit_simps mask_numerals simp del: bit_numeral_word_iff)

lemma varint_last_ucast:
  assumes "(v :: u64) \<le> 0x7F"
  shows "ucast (ucast v :: u8) = (ucast v :: u32)"
  using le_0x7F_bit [OF assms] by (intro bit_word_eqI) (force simp: bit_simps)

lemma varint_split32:
  "push_bit p (ucast (v AND 0x7F)) OR push_bit (p + 7) (ucast (drop_bit 7 v)) =
     push_bit p (ucast (v :: u64) :: u32)"
proof (rule bit_word_eqI)
  fix n
  have "p + 7 \<le> n \<Longrightarrow> 7 + (n - (p + 7)) = n - p" by simp
  then show "bit (push_bit p (ucast (v AND 0x7F)) OR push_bit (p + 7) (ucast (drop_bit 7 v)) :: u32) n
      = bit (push_bit p (ucast v) :: u32) n"
    by (cases "p + 7 \<le> n") (auto simp: bit_simps mask_numerals simp del: bit_numeral_word_iff)
qed

lemma varint_buffer_bytes:
  "v \<noteq> 0 \<Longrightarrow> varint_buffer v \<noteq> [] \<and>
     (varint_buffer v)[length (varint_buffer v) - 1 :=
        varint_buffer v ! (length (varint_buffer v) - 1) AND 0x7F] = varint_bytes v"
proof (induction v rule: varint_buffer.induct)
  case (1 v)
  let ?d = "ucast (v AND 0x7F) OR 0x80 :: u8"
  have eq: "varint_buffer v = ?d # varint_buffer (drop_bit 7 v)"
    using "1.prems" by (simp add: varint_buffer.simps [of v])
  show ?case
  proof (cases "v \<le> 0x7F")
    case True
    then have "drop_bit 7 v = 0" by (simp add: le_0x7F_drop_bit)
    then have "varint_buffer v = [?d]" using eq by (simp add: varint_buffer.simps [of 0])
    then show ?thesis using True by (simp add: varint_bytes.simps [of v] varint_digit_last)
  next
    case False
    then have "drop_bit 7 v \<noteq> 0" by (simp add: le_0x7F_drop_bit)
    with "1.IH" "1.prems" have IH: "varint_buffer (drop_bit 7 v) \<noteq> []"
      "(varint_buffer (drop_bit 7 v))[length (varint_buffer (drop_bit 7 v)) - 1 :=
         varint_buffer (drop_bit 7 v) ! (length (varint_buffer (drop_bit 7 v)) - 1) AND 0x7F]
       = varint_bytes (drop_bit 7 v)" by auto
    then obtain n where "length (varint_buffer (drop_bit 7 v)) = Suc n"
      by (cases "varint_buffer (drop_bit 7 v)") auto
    with IH eq False show ?thesis by (simp add: varint_bytes.simps [of v])
  qed
qed

lemma pb_encode_varint_bytes:
  "pb_encode_varint s v = pb_write s (varint_bytes v) (of_nat (length (varint_bytes v)))"
proof (cases "v \<le> 0x7F")
  case True
  then show ?thesis by (simp add: pb_encode_varint_def varint_bytes.simps [of v])
next
  case False
  then have "v \<noteq> 0" by auto
  from varint_buffer_bytes [OF this]
  have b: "varint_bytes v = (varint_buffer v)[length (varint_buffer v) - 1 :=
        varint_buffer v ! (length (varint_buffer v) - 1) AND 0x7F]" by simp
  show ?thesis using False by (simp add: pb_encode_varint_def b Let_def)
qed

text \<open>A varint takes as many bytes as its value has groups of seven bits, at most ten.\<close>

lemma length_varint_bytes_le_iff:
  "0 < n \<Longrightarrow> length (varint_bytes v) \<le> n \<longleftrightarrow> unat v < 2 ^ (7 * n)"
proof (induction v arbitrary: n rule: varint_bytes.induct)
  case (1 v)
  show ?case
  proof (cases "v \<le> 0x7F")
    case True
    then have "unat v < 2 ^ 7" by (simp add: le_0x7F_iff)
    also have "(2::nat) ^ 7 \<le> 2 ^ (7 * n)" using "1.prems" by (intro power_increasing) auto
    finally show ?thesis using True "1.prems" by (simp add: varint_bytes.simps [of v])
  next
    case False
    then have ge: "2 ^ 7 \<le> unat v" by (simp add: le_0x7F_iff)
    have len: "length (varint_bytes v) = Suc (length (varint_bytes (drop_bit 7 v)))"
      using False by (simp add: varint_bytes.simps [of v])
    show ?thesis
    proof (cases "n = 1")
      case True
      then show ?thesis using ge len by (simp add: Suc_le_eq)
    next
      case n: False
      then obtain m where m: "n = Suc m" "0 < m" using "1.prems" by (cases n) auto
      have "unat (drop_bit 7 v) < 2 ^ (7 * m) \<longleftrightarrow> unat v < 2 ^ (7 * n)"
        unfolding unat_drop_bit_div
        by (simp add: m(1) power_add div_less_iff_less_mult mult.commute)
      then show ?thesis using "1.IH" [OF False m(2)] len m(1) by simp
    qed
  qed
qed

lemma length_varint_bytes: "length (varint_bytes v) \<le> 10"
proof -
  have "unat v < 2 ^ 64" by (rule unat_word64_lt)
  also have "(2::nat) ^ 64 \<le> 2 ^ (7 * 10)" by (intro power_increasing) auto
  finally show ?thesis by (simp add: length_varint_bytes_le_iff)
qed

subsection \<open>Reading varints back\<close>

context input_source
begin

lemma varint_loop_decode:
  "pb_good rd contents s \<Longrightarrow> pb_view contents s = varint_bytes v @ rest \<Longrightarrow> p < 64 \<Longrightarrow>
   unat v < 2 ^ (64 - p) \<Longrightarrow>
   \<exists>s'. varint_loop s r (of_nat p) = (s', Some (r OR push_bit p v)) \<and>
        pb_consumed rd contents s s' (length (varint_bytes v))"
proof (induction v arbitrary: s r p rule: varint_bytes.induct)
  case (1 v)
  have p: "unat (of_nat p :: u8) = p" "\<not> 64 \<le> (of_nat p :: u8)"
    using "1.prems"(3) by (simp_all add: unat_of_nat word_le_nat_alt)
  show ?case
  proof (cases "v \<le> 0x7F")
    case True
    then have "pb_view contents s = ucast v # rest"
      using "1.prems"(2) by (simp add: varint_bytes.simps [of v])
    from pb_readbyte_good [OF "1.prems"(1) this] obtain s' where
      "pb_readbyte s = (s', Some (ucast v))" "pb_consumed rd contents s s' 1" by blast
    then show ?thesis
      using True p by (simp add: varint_loop.simps [of s] varint_bytes.simps [of v] and_0x80_eq_0_iff
          varint_last_more varint_last_value)
  next
    case False
    let ?d = "ucast (v AND 0x7F) OR 0x80 :: u8"
    from False have d: "pb_view contents s = ?d # (varint_bytes (drop_bit 7 v) @ rest)"
      using "1.prems"(2) by (simp add: varint_bytes.simps [of v])
    from pb_readbyte_good [OF "1.prems"(1) d] obtain s1 where
      s1: "pb_readbyte s = (s1, Some ?d)" "pb_consumed rd contents s s1 1" by blast
    have view: "pb_view contents s1 = varint_bytes (drop_bit 7 v) @ rest"
      using pb_consumed_view [OF s1(2)] d by simp
    have "2 ^ 7 \<le> unat v" using False by (simp add: le_0x7F_iff)
    then have "(2::nat) ^ 7 < 2 ^ (64 - p)" using "1.prems"(4) by linarith
    then have "7 < 64 - p" by (rule power_less_imp_less_exp [rotated]) simp
    then have p7: "p + 7 < 64" by simp
    have v7: "unat (drop_bit 7 v) < 2 ^ (64 - (p + 7))"
    proof -
      have "(2::nat) ^ (64 - p) = 2 ^ (7 + (64 - (p + 7)))" using p7 by simp
      also have "\<dots> = 2 ^ 7 * 2 ^ (64 - (p + 7))" by (rule power_add)
      finally have "(2::nat) ^ (64 - p) = 2 ^ 7 * 2 ^ (64 - (p + 7))" .
      then show ?thesis using "1.prems"(4)
        unfolding unat_drop_bit_div by (simp add: less_mult_imp_div_less mult.commute)
    qed
    from "1.IH" [OF False pb_consumed_good [OF s1(2) "1.prems"(1)] view p7 v7,
        of "r OR push_bit p (v AND 0x7F)"] obtain s2 where
      s2: "varint_loop s1 (r OR push_bit p (v AND 0x7F)) (of_nat (p + 7)) =
             (s2, Some ((r OR push_bit p (v AND 0x7F)) OR push_bit (p + 7) (drop_bit 7 v)))"
        "pb_consumed rd contents s1 s2 (length (varint_bytes (drop_bit 7 v)))" by blast
    have "varint_loop s r (of_nat p) = varint_loop s1 (r OR push_bit p (v AND 0x7F)) (of_nat (p + 7))"
      using s1(1) p
      by (simp add: varint_loop.simps [of s] Let_def and_0x80_eq_0_iff varint_digit_more
          varint_digit_value add.commute)
    with s2 show ?thesis
      using pb_consumed_trans [OF s1(2) s2(2)] False
      by (simp add: varint_bytes.simps [of v] or.assoc varint_split del: push_bit_and)
  qed
qed

lemma pb_decode_varint_good:
  assumes "pb_good rd contents s" and "pb_view contents s = varint_bytes v @ rest"
  shows "\<exists>s'. pb_decode_varint s = (s', Some v) \<and>
              pb_consumed rd contents s s' (length (varint_bytes v))"
  using varint_loop_decode [OF assms, of 0 0] unat_word64_lt [of v]
  by (simp add: pb_decode_varint_def)

text \<open>
  A value of 32 bits is read back by \<open>pb_decode_varint32\<close>, too; the check behind its loop
  (at most four bits in the fifth byte) passes.
\<close>

lemma varint32_loop_decode:
  "pb_good rd contents s \<Longrightarrow> pb_view contents s = varint_bytes v @ rest \<Longrightarrow> p < 32 \<Longrightarrow>
   unat v < 2 ^ (32 - p) \<Longrightarrow>
   \<exists>s' b q. varint32_loop s r (of_nat p) = (s', Some (r OR push_bit p (ucast v), b, q)) \<and>
        (q = 35 \<longrightarrow> b AND 0x70 = 0) \<and>
        pb_consumed rd contents s s' (length (varint_bytes v))"
proof (induction v arbitrary: s r p rule: varint_bytes.induct)
  case (1 v)
  have p: "unat (of_nat p :: u8) = p" "\<not> 32 \<le> (of_nat p :: u8)"
    using "1.prems"(3) by (simp_all add: unat_of_nat word_le_nat_alt)
  show ?case
  proof (cases "v \<le> 0x7F")
    case True
    then have "pb_view contents s = ucast v # rest"
      using "1.prems"(2) by (simp add: varint_bytes.simps [of v])
    from pb_readbyte_good [OF "1.prems"(1) this] obtain s' where
      s': "pb_readbyte s = (s', Some (ucast v))" "pb_consumed rd contents s s' 1" by blast
    have last: "(of_nat p + 7 :: u8) = 35 \<longrightarrow> (ucast v :: u8) AND 0x70 = 0"
    proof
      assume "(of_nat p + 7 :: u8) = 35"
      then have "(of_nat p :: u8) = 28" by (simp add: eq_diff_eq [symmetric])
      then have "p = 28" using p(1) by simp
      then have "unat v < 2 ^ 4" using "1.prems"(4) by simp
      then have "\<And>n. bit v n \<Longrightarrow> n < 4" by (rule bit_less_exp)
      then show "(ucast v :: u8) AND 0x70 = 0"
        by (intro bit_word_eqI)
          (force simp: bit_simps bit_0x70_iff simp del: bit_numeral_word_iff)
    qed
    have "varint32_loop s r (of_nat p) = (s', Some (r OR push_bit p (ucast v), ucast v, of_nat p + 7))"
      using s' True p
      by (simp add: varint32_loop.simps [of s] Let_def and_0x80_eq_0_iff varint_last_more
          varint_last_value32)
    then show ?thesis using s' True last by (simp add: varint_bytes.simps [of v])
  next
    case False
    let ?d = "ucast (v AND 0x7F) OR 0x80 :: u8"
    from False have d: "pb_view contents s = ?d # (varint_bytes (drop_bit 7 v) @ rest)"
      using "1.prems"(2) by (simp add: varint_bytes.simps [of v])
    from pb_readbyte_good [OF "1.prems"(1) d] obtain s1 where
      s1: "pb_readbyte s = (s1, Some ?d)" "pb_consumed rd contents s s1 1" by blast
    have view: "pb_view contents s1 = varint_bytes (drop_bit 7 v) @ rest"
      using pb_consumed_view [OF s1(2)] d by simp
    have "2 ^ 7 \<le> unat v" using False by (simp add: le_0x7F_iff)
    then have "(2::nat) ^ 7 < 2 ^ (32 - p)" using "1.prems"(4) by linarith
    then have "7 < 32 - p" by (rule power_less_imp_less_exp [rotated]) simp
    then have p7: "p + 7 < 32" by simp
    have v7: "unat (drop_bit 7 v) < 2 ^ (32 - (p + 7))"
    proof -
      have "(2::nat) ^ (32 - p) = 2 ^ (7 + (32 - (p + 7)))" using p7 by simp
      also have "\<dots> = 2 ^ 7 * 2 ^ (32 - (p + 7))" by (rule power_add)
      finally have "(2::nat) ^ (32 - p) = 2 ^ 7 * 2 ^ (32 - (p + 7))" .
      then show ?thesis using "1.prems"(4)
        unfolding unat_drop_bit_div by (simp add: less_mult_imp_div_less mult.commute)
    qed
    let ?r = "r OR push_bit p (ucast (v AND 0x7F))"
    from "1.IH" [OF False pb_consumed_good [OF s1(2) "1.prems"(1)] view p7 v7, of ?r]
    obtain s2 b q where
      s2: "varint32_loop s1 ?r (of_nat (p + 7)) =
             (s2, Some (?r OR push_bit (p + 7) (ucast (drop_bit 7 v)), b, q))"
        "q = 35 \<longrightarrow> b AND 0x70 = 0"
        "pb_consumed rd contents s1 s2 (length (varint_bytes (drop_bit 7 v)))" by blast
    have "varint32_loop s r (of_nat p) = varint32_loop s1 ?r (of_nat (p + 7))"
      using s1(1) p
      by (simp add: varint32_loop.simps [of s] Let_def and_0x80_eq_0_iff varint_digit_more
          varint_digit_value32 add.commute)
    with s2 show ?thesis
      using pb_consumed_trans [OF s1(2) s2(3)] False
      by (simp add: varint_bytes.simps [of v] or.assoc varint_split32)
  qed
qed

lemma pb_decode_varint32_eof_good:
  assumes good: "pb_good rd contents s" and view: "pb_view contents s = varint_bytes v @ rest"
    and v: "unat v < 2 ^ 32"
  shows "\<exists>s'. pb_decode_varint32_eof s = (s', Some (ucast v), False) \<and>
              pb_consumed rd contents s s' (length (varint_bytes v))"
proof (cases "v \<le> 0x7F")
  case True
  then have "pb_view contents s = ucast v # rest"
    using view by (simp add: varint_bytes.simps [of v])
  from pb_readbyte_good [OF good this] obtain s' where
    "pb_readbyte s = (s', Some (ucast v))" "pb_consumed rd contents s s' 1" by blast
  then show ?thesis using True
    by (simp add: pb_decode_varint32_eof_def varint_bytes.simps [of v] and_0x80_eq_0_iff
        varint_last_more varint_last_ucast)
next
  case False
  let ?d = "ucast (v AND 0x7F) OR 0x80 :: u8"
  from False have d: "pb_view contents s = ?d # (varint_bytes (drop_bit 7 v) @ rest)"
    using view by (simp add: varint_bytes.simps [of v])
  from pb_readbyte_good [OF good d] obtain s1 where
    s1: "pb_readbyte s = (s1, Some ?d)" "pb_consumed rd contents s s1 1" by blast
  have view1: "pb_view contents s1 = varint_bytes (drop_bit 7 v) @ rest"
    using pb_consumed_view [OF s1(2)] d by simp
  have "unat (drop_bit 7 v) < 2 ^ (32 - 7)"
    using v unfolding unat_drop_bit_div by (simp add: less_mult_imp_div_less)
  from varint32_loop_decode [OF pb_consumed_good [OF s1(2) good] view1 _ this]
  obtain s2 b q where
    s2: "varint32_loop s1 (ucast (v AND 0x7F)) 7 =
           (s2, Some (ucast (v AND 0x7F) OR push_bit 7 (ucast (drop_bit 7 v)), b, q))"
      "q = 35 \<longrightarrow> b AND 0x70 = 0"
      "pb_consumed rd contents s1 s2 (length (varint_bytes (drop_bit 7 v)))" by fastforce
  show ?thesis
    using s1 s2 False pb_consumed_trans [OF s1(2) s2(3)] varint_split32 [of 0 v]
    by (auto simp: pb_decode_varint32_eof_def varint_bytes.simps [of v] and_0x80_eq_0_iff
        varint_digit_more varint_digit_value32)
qed

lemma pb_decode_varint32_good:
  assumes "pb_good rd contents s" and "pb_view contents s = varint_bytes v @ rest"
    and "unat v < 2 ^ 32"
  shows "\<exists>s'. pb_decode_varint32 s = (s', Some (ucast v)) \<and>
              pb_consumed rd contents s s' (length (varint_bytes v))"
  using pb_decode_varint32_eof_good [OF assms] by (auto simp: pb_decode_varint32_def)

end

subsection \<open>Writing varints\<close>

lemma unat_length_varint_bytes [simp]:
  "unat (of_nat (length (varint_bytes v)) :: u64) = length (varint_bytes v)"
  using length_varint_bytes [of v] by (simp add: unat_of_nat)

context output_sink
begin

lemma pb_encode_varint_True:
  assumes "pb_encode_varint s v = (s', True)" and "out_callback s = Some wr"
  shows "pb_wrote written s s' (varint_bytes v)"
  using pb_write_True [OF assms(1) [unfolded pb_encode_varint_bytes] assms(2)] by simp

lemma pb_encode_string_True:
  assumes "pb_encode_string s bs n = (s', True)" and "out_callback s = Some wr"
    and "unat n \<le> length bs"
  shows "pb_wrote written s s' (varint_bytes n @ take (unat n) bs)"
proof -
  obtain s1 where s1: "pb_encode_varint s n = (s1, True)" "pb_write s1 bs n = (s', True)"
    using assms(1) by (auto simp: pb_encode_string_def split: prod.splits bool.splits)
  have w1: "pb_wrote written s s1 (varint_bytes n)"
    by (rule pb_encode_varint_True [OF s1(1) assms(2)])
  then have "out_callback s1 = Some wr" using assms(2) by (simp add: pb_wrote_def)
  from pb_write_True [OF s1(2) this assms(3)] w1 show ?thesis by (blast intro: pb_wrote_trans)
qed

end

subsection \<open>Zigzag and fixed-width values\<close>

definition zigzag :: "u64 \<Rightarrow> u64" where
  "zigzag v = (if sint v < 0 then NOT (push_bit 1 v) else push_bit 1 v)"

definition unzigzag :: "u64 \<Rightarrow> u64" where
  "unzigzag v = (if v AND 1 \<noteq> 0 then NOT (drop_bit 1 v) else drop_bit 1 v)"

lemma unzigzag_zigzag: "unzigzag (zigzag v) = v"
proof (cases "bit v 63")
  case True
  then have z: "zigzag v = NOT (push_bit 1 v)" by (simp add: zigzag_def sint_neg_iff64)
  have odd: "zigzag v AND 1 \<noteq> 0"
    by (simp only: z and_1_eq_0_iff bit_not_iff bit_push_bit_iff) simp
  have "NOT (drop_bit 1 (zigzag v)) = v"
  proof (rule bit_word_eqI)
    fix n :: nat assume "n < LENGTH(64)"
    then show "bit (NOT (drop_bit 1 (zigzag v))) n = bit v n"
      unfolding z bit_not_iff bit_drop_bit_eq bit_push_bit_iff o_def possible_bit_word
      using True by (cases "n = 63") auto
  qed
  with odd show ?thesis by (simp add: unzigzag_def)
next
  case False
  then have z: "zigzag v = push_bit 1 v" by (simp add: zigzag_def sint_neg_iff64)
  have even: "zigzag v AND 1 = 0"
    by (simp only: z and_1_eq_0_iff bit_push_bit_iff) simp
  have "drop_bit 1 (zigzag v) = v"
  proof (rule bit_word_eqI)
    fix n :: nat assume "n < LENGTH(64)"
    then show "bit (drop_bit 1 (zigzag v)) n = bit v n"
      unfolding z bit_not_iff bit_drop_bit_eq bit_push_bit_iff o_def possible_bit_word
      using False by (cases "n = 63") auto
  qed
  with even show ?thesis by (simp add: unzigzag_def)
qed

lemma le32_eq: "length bs = 4 \<Longrightarrow> le32 bs = le_word bs"
  by (auto simp: le32_def length_Suc_conv numeral_eq_Suc push_bit_or or.assoc)

lemma le64_eq: "length bs = 8 \<Longrightarrow> le64 bs = le_word bs"
  by (auto simp: le64_def length_Suc_conv numeral_eq_Suc push_bit_or or.assoc)

subsection \<open>Reading the other values back\<close>

context input_source
begin

lemma pb_skip_varint_good:
  "pb_good rd contents s \<Longrightarrow> pb_view contents s = varint_bytes v @ rest \<Longrightarrow>
   \<exists>s'. pb_skip_varint s = (s', Some ()) \<and> pb_consumed rd contents s s' (length (varint_bytes v))"
proof (induction v arbitrary: s rule: varint_bytes.induct)
  case (1 v)
  have "1 \<le> length (pb_view contents s)" using "1.prems"(2) by (simp add: Suc_le_eq)
  then have "1 \<le> bytes_left s" using length_pb_view [OF "1.prems"(1)] by simp
  from pb_read_good [OF "1.prems"(1) this] obtain s1 where
    s1: "pb_read s 1 = (s1, Some (take 1 (varint_bytes v @ rest)))" "pb_consumed rd contents s s1 1"
    using "1.prems"(2) by auto
  show ?case
  proof (cases "v \<le> 0x7F")
    case True
    then show ?thesis using s1
      by (simp add: pb_skip_varint.simps [of s] varint_bytes.simps [of v] and_0x80_eq_0_iff varint_last_more)
  next
    case False
    have "pb_view contents s1 = varint_bytes (drop_bit 7 v) @ rest"
      using pb_consumed_view [OF s1(2)] "1.prems"(2) False by (simp add: varint_bytes.simps [of v])
    from "1.IH" [OF False pb_consumed_good [OF s1(2) "1.prems"(1)] this] obtain s2 where
      s2: "pb_skip_varint s1 = (s2, Some ())"
        "pb_consumed rd contents s1 s2 (length (varint_bytes (drop_bit 7 v)))" by blast
    then show ?thesis using s1 False pb_consumed_trans [OF s1(2) s2(2)]
      by (simp add: pb_skip_varint.simps [of s] varint_bytes.simps [of v] and_0x80_eq_0_iff varint_digit_more)
  qed
qed

text \<open>A length-delimited field: the sub-stream has exactly the bytes of the field.\<close>

lemma pb_make_string_substream_good:
  assumes good: "pb_good rd contents s"
    and view: "pb_view contents s = varint_bytes (of_nat (length bs)) @ bs @ rest"
    and len: "length bs < 2 ^ 32"
  shows "\<exists>s1 sub. pb_make_string_substream s = (s1, Some sub) \<and>
     pb_good rd contents sub \<and> pb_view contents sub = bs \<and> errmsg sub = errmsg s \<and>
     (\<forall>sub'. pb_consumed rd contents sub sub' (length bs) \<longrightarrow>
        (\<exists>s2. pb_close_string_substream s1 sub' = (s2, Some ()) \<and>
           pb_consumed rd contents s s2 (length (varint_bytes (of_nat (length bs))) + length bs)))"
proof -
  let ?n = "of_nat (length bs) :: u64"
  have n: "unat ?n = length bs" "unat (ucast ?n :: u32) = length bs"
    using len by (simp_all add: unat_of_nat unsigned_ucast_eq take_bit_nat_eq_self)
  have "unat ?n < 2 ^ 32" using n len by simp
  from pb_decode_varint32_good [OF good view this] obtain s1 where
    s1: "pb_decode_varint32 s = (s1, Some (ucast ?n))" "pb_consumed rd contents s s1 (length (varint_bytes ?n))"
    by blast
  have g1: "pb_good rd contents s1" by (rule pb_consumed_good [OF s1(2) good])
  have v1: "pb_view contents s1 = bs @ rest" using pb_consumed_view [OF s1(2)] view by simp
  have le: "length bs \<le> bytes_left s1" using length_pb_view [OF g1] v1 by simp
  let ?sub = "s1\<lparr>bytes_left := length bs\<rparr>"
  let ?par = "s1\<lparr>bytes_left := bytes_left s1 - length bs\<rparr>"
  have mk: "pb_make_string_substream s = (?par, Some ?sub)"
    using s1 n le by (simp add: pb_make_string_substream_def)
  have gs: "pb_good rd contents ?sub" using g1 le by (simp add: pb_good_def)
  have vs: "pb_view contents ?sub = bs"
  proof -
    have "take (length bs) (contents (state s1)) = take (length bs) (pb_view contents s1)"
      using le by (simp add: pb_view_def min_absorb1)
    also have "\<dots> = bs" by (simp add: v1)
    finally show ?thesis by (simp add: pb_view_def)
  qed
  have cl: "\<exists>s2. pb_close_string_substream ?par sub' = (s2, Some ()) \<and>
      pb_consumed rd contents s s2 (length (varint_bytes ?n) + length bs)"
    if "pb_consumed rd contents ?sub sub' (length bs)" for sub'
  proof -
    have "pb_calls s (?par\<lparr>state := state sub', errmsg := errmsg sub'\<rparr>) (length (varint_bytes ?n) + length bs)"
      by (rule pb_calls_sub [where u = ?sub and u' = sub' and t = s1])
        (use that s1(2) in \<open>simp_all add: pb_consumed_def\<close>)
    then show ?thesis
      using that s1(2) le by (auto simp: pb_close_string_substream_def pb_consumed_def add.commute)
  qed
  show ?thesis using mk gs vs cl s1(2) by (auto simp: pb_consumed_def)
qed

lemma pb_skip_string_good:
  assumes good: "pb_good rd contents s"
    and view: "pb_view contents s = varint_bytes (of_nat (length bs)) @ bs @ rest"
    and len: "length bs < 2 ^ 32"
  shows "\<exists>s'. pb_skip_string s = (s', Some ()) \<and>
     pb_consumed rd contents s s' (length (varint_bytes (of_nat (length bs))) + length bs)"
proof -
  let ?n = "of_nat (length bs) :: u64"
  have n: "unat ?n < 2 ^ 32" "unat (ucast ?n :: u32) = length bs"
    using len by (simp_all add: unat_of_nat unsigned_ucast_eq take_bit_nat_eq_self)
  from pb_decode_varint32_good [OF good view n(1)] obtain s1 where
    s1: "pb_decode_varint32 s = (s1, Some (ucast ?n))" "pb_consumed rd contents s s1 (length (varint_bytes ?n))"
    by blast
  have g1: "pb_good rd contents s1" by (rule pb_consumed_good [OF s1(2) good])
  have "pb_view contents s1 = bs @ rest" using pb_consumed_view [OF s1(2)] view by simp
  then have "length bs \<le> bytes_left s1" using length_pb_view [OF g1] by simp
  from pb_read_skip_good [OF g1 this] obtain s2 where
    "pb_read_skip s1 (length bs) = (s2, Some ())" "pb_consumed rd contents s1 s2 (length bs)" by blast
  then show ?thesis using s1 n pb_consumed_trans [OF s1(2)] by (auto simp: pb_skip_string_def)
qed

lemma pb_decode_tag_good:
  assumes good: "pb_good rd contents s"
    and view: "pb_view contents s = varint_bytes (push_bit 3 (ucast fieldno) OR ucast wt) @ rest"
    and wt: "unat (wt :: u32) < 8" and f: "0 < unat (fieldno :: u32)" "unat fieldno < 2 ^ 29"
  shows "\<exists>s'. pb_decode_tag s = (s', Some (wt, fieldno), False) \<and>
     pb_consumed rd contents s s' (length (varint_bytes (push_bit 3 (ucast fieldno) OR ucast wt)))"
proof -
  let ?v = "push_bit 3 (ucast fieldno) OR ucast wt :: u64"
  have wb: "bit wt n \<Longrightarrow> n < 3" for n using bit_less_exp [of wt 3 n] wt by simp
  have fb: "bit fieldno n \<Longrightarrow> n < 29" for n using bit_less_exp [of fieldno 29 n] f by simp
  have "unat ?v < 2 ^ 32"
    by (rule unat_less_expI) (auto simp: bit_simps dest!: wb fb)
  from pb_decode_varint32_eof_good [OF good view this] obtain s' where
    s': "pb_decode_varint32_eof s = (s', Some (ucast ?v), False)"
      "pb_consumed rd contents s s' (length (varint_bytes ?v))" by blast
  have d: "drop_bit 3 (ucast ?v :: u32) = fieldno"
    by (rule bit_word_eqI) (auto simp: bit_simps dest: wb fb)
  have w: "(ucast ?v :: u32) AND 7 = wt"
    by (rule bit_word_eqI)
      (auto simp: bit_simps mask_numerals simp del: bit_numeral_word_iff dest: wb)
  have "(ucast ?v :: u32) \<noteq> 0" using d f by auto
  then show ?thesis using s' d w by (simp add: pb_decode_tag_def)
qed

end

lemma fixed32_bytes_eq:
  "[ucast (v AND 0xFF), ucast (drop_bit 8 v AND 0xFF), ucast (drop_bit 16 v AND 0xFF),
    ucast (drop_bit 24 v AND 0xFF)] = le_bytes 4 (v :: u32)"
  by (simp add: and_0xFF_ucast numeral_eq_Suc)

lemma fixed64_bytes_eq:
  "[ucast (v AND 0xFF), ucast (drop_bit 8 v AND 0xFF), ucast (drop_bit 16 v AND 0xFF),
    ucast (drop_bit 24 v AND 0xFF), ucast (drop_bit 32 v AND 0xFF), ucast (drop_bit 40 v AND 0xFF),
    ucast (drop_bit 48 v AND 0xFF), ucast (drop_bit 56 v AND 0xFF)] = le_bytes 8 (v :: u64)"
  by (simp add: and_0xFF_ucast numeral_eq_Suc)

subsection \<open>What an encoder means: one byte string, on every stream\<close>

text \<open>
  \<open>encodes_as wr written f bs\<close>: \<open>f\<close> returns; on a sizing stream it counts \<open>bs\<close> and
  stores nothing; on a stream with callback \<open>wr\<close> a successful \<open>f\<close> has appended exactly
  \<open>bs\<close>; and it does succeed where \<open>bs\<close> fits.  This is the contract \<open>encode_array\<close> and
  \<open>pb_encode_submessage\<close> rely on: they size first and write afterwards.
\<close>

definition encodes_as ::
    "('o \<Rightarrow> bytes \<Rightarrow> bool \<times> 'o) \<Rightarrow> ('o \<Rightarrow> bytes) \<Rightarrow> ('o pb_ostream \<Rightarrow> 'o enc_result) \<Rightarrow> bytes \<Rightarrow> bool" where
  "encodes_as wr written f bs \<longleftrightarrow>
     (\<forall>s. out_callback s = None \<longrightarrow>
        f s = Some (s\<lparr>bytes_written := bytes_written s + of_nat (length bs)\<rparr>, True)) \<and>
     (\<forall>s. out_callback s = Some wr \<longrightarrow>
        (\<exists>s' ok. f s = Some (s', ok) \<and> (ok \<longrightarrow> pb_wrote written s s' bs) \<and>
           (unat (bytes_written s) + length bs \<le> unat (max_size s) \<longrightarrow> ok)))"

lemma encodes_asD:
  assumes "encodes_as wr written f bs"
  shows "out_callback s = None \<Longrightarrow>
           f s = Some (s\<lparr>bytes_written := bytes_written s + of_nat (length bs)\<rparr>, True)"
    and "out_callback s = Some wr \<Longrightarrow> f s = Some (s', True) \<Longrightarrow> pb_wrote written s s' bs"
    and "out_callback s = Some wr \<Longrightarrow> unat (bytes_written s) + length bs \<le> unat (max_size s) \<Longrightarrow>
           \<exists>s'. f s = Some (s', True)"
    and "out_callback s = Some wr \<Longrightarrow> \<exists>s' ok. f s = Some (s', ok)"
  using assms unfolding encodes_as_def by fastforce+

lemma encodes_asI:
  assumes "\<And>s. out_callback s = None \<Longrightarrow>
        f s = Some (s\<lparr>bytes_written := bytes_written s + of_nat (length bs)\<rparr>, True)"
    and "\<And>s. out_callback s = Some wr \<Longrightarrow> \<exists>s' ok. f s = Some (s', ok)"
    and "\<And>s s'. out_callback s = Some wr \<Longrightarrow> f s = Some (s', True) \<Longrightarrow> pb_wrote written s s' bs"
    and "\<And>s. out_callback s = Some wr \<Longrightarrow>
        unat (bytes_written s) + length bs \<le> unat (max_size s) \<Longrightarrow> \<exists>s'. f s = Some (s', True)"
  shows "encodes_as wr written f bs"
  unfolding encodes_as_def
proof (intro conjI allI impI assms(1))
  fix s :: "'a pb_ostream" assume cb: "out_callback s = Some wr"
  obtain s' ok where f: "f s = Some (s', ok)" using assms(2) [OF cb] by blast
  then show "\<exists>s' ok. f s = Some (s', ok) \<and> (ok \<longrightarrow> pb_wrote written s s' bs) \<and>
      (unat (bytes_written s) + length bs \<le> unat (max_size s) \<longrightarrow> ok)"
    using assms(3) [OF cb] assms(4) [OF cb] by (cases ok) auto
qed

lemma pb_wrote_room:
  assumes "pb_wrote written s s' bs" and "unat (bytes_written s) + length bs + k \<le> unat (max_size s)"
  shows "unat (bytes_written s') + k \<le> unat (max_size s')"
proof -
  have "unat (bytes_written s) + length bs < 2 ^ 64"
    using assms(2) unat_word64_lt [of "max_size s"] by linarith
  then have "unat (bytes_written s + of_nat (length bs)) = unat (bytes_written s) + length bs"
    by (simp add: unat_word_ariths unat_of_nat)
  then show ?thesis using assms by (simp add: pb_wrote_def)
qed

lemma enc_then_simps [simp]:
  "enc_then (Some (s, True)) g = g s" "enc_then (Some (s, False)) g = Some (s, False)"
  "enc_then None g = None"
  by (simp_all add: enc_then_def)

lemma enc_then_True:
  assumes "enc_then r g = Some (s', True)"
  obtains s1 where "r = Some (s1, True)" "g s1 = Some (s', True)"
  using assms by (auto simp: enc_then_def split: option.splits if_splits)

text \<open>Two encoders in a row.\<close>

lemma encodes_as_seq:
  assumes f: "encodes_as wr written f bs" and g: "encodes_as wr written g cs"
  shows "encodes_as wr written (\<lambda>s. enc_then (f s) g) (bs @ cs)"
proof (rule encodes_asI)
  fix s :: "'a pb_ostream" assume "out_callback s = None"
  then show "enc_then (f s) g = Some (s\<lparr>bytes_written := bytes_written s + of_nat (length (bs @ cs))\<rparr>, True)"
    by (simp add: encodes_asD(1) [OF f] encodes_asD(1) [OF g] add.assoc)
next
  fix s :: "'a pb_ostream" assume cb: "out_callback s = Some wr"
  obtain s1 ok where s1: "f s = Some (s1, ok)" using encodes_asD(4) [OF f cb] by blast
  show "\<exists>s' ok. enc_then (f s) g = Some (s', ok)"
  proof (cases ok)
    case True
    then have "out_callback s1 = Some wr"
      using encodes_asD(2) [OF f cb] s1 cb by (simp add: pb_wrote_def)
    then show ?thesis using encodes_asD(4) [OF g] s1 True by simp
  qed (use s1 in auto)
next
  fix s s' :: "'a pb_ostream" assume cb: "out_callback s = Some wr"
    and "enc_then (f s) g = Some (s', True)"
  from this(2) obtain s1 where s1: "f s = Some (s1, True)" "g s1 = Some (s', True)"
    by (rule enc_then_True)
  have w1: "pb_wrote written s s1 bs" by (rule encodes_asD(2) [OF f cb s1(1)])
  then have "out_callback s1 = Some wr" using cb by (simp add: pb_wrote_def)
  from pb_wrote_trans [OF w1 encodes_asD(2) [OF g this s1(2)]]
  show "pb_wrote written s s' (bs @ cs)" .
next
  fix s :: "'a pb_ostream" assume cb: "out_callback s = Some wr"
    and room: "unat (bytes_written s) + length (bs @ cs) \<le> unat (max_size s)"
  then obtain s1 where s1: "f s = Some (s1, True)" using encodes_asD(3) [OF f cb] by auto
  have w1: "pb_wrote written s s1 bs" by (rule encodes_asD(2) [OF f cb s1])
  then have cb1: "out_callback s1 = Some wr" using cb by (simp add: pb_wrote_def)
  have "unat (bytes_written s1) + length cs \<le> unat (max_size s1)"
    by (rule pb_wrote_room [OF w1]) (use room in simp)
  from encodes_asD(3) [OF g cb1 this] s1
  show "\<exists>s'. enc_then (f s) g = Some (s', True)" by simp
qed

lemma encodes_as_Nil: "encodes_as wr written (\<lambda>s. Some (s, True)) []"
  by (auto simp: encodes_as_def pb_wrote_refl)

lemma encodes_as_items:
  "(\<And>p. p \<in> set items \<Longrightarrow> encodes_as wr written (\<lambda>s. f s p) (enc p)) \<Longrightarrow>
   encodes_as wr written (\<lambda>s. encode_items f s items) (concat (map enc items))"
proof (induction items)
  case Nil
  then show ?case by (simp add: encodes_as_Nil)
next
  case (Cons p ps)
  have "encodes_as wr written (\<lambda>s. f s p) (enc p)" using Cons.prems by simp
  moreover have "encodes_as wr written (\<lambda>s. encode_items f s ps) (concat (map enc ps))"
    by (rule Cons.IH) (use Cons.prems in simp)
  ultimately show ?case using encodes_as_seq by fastforce
qed

context output_sink
begin

lemma encodes_as_write:
  assumes "unat n = length bs"
  shows "encodes_as wr written (\<lambda>s. Some (pb_write s bs n)) bs"
proof (rule encodes_asI)
  have n: "n = of_nat (length bs)" using assms using assms [symmetric] by simp
  show "Some (pb_write s bs n) = Some (s\<lparr>bytes_written := bytes_written s + of_nat (length bs)\<rparr>, True)"
    if "out_callback s = None" for s :: "'o pb_ostream"
    using that by (simp add: pb_write_def n)
  show "\<exists>s' ok. Some (pb_write s bs n) = Some (s', ok)" for s :: "'o pb_ostream"
    by (cases "pb_write s bs n") simp
  show "pb_wrote written s s' bs"
    if "out_callback s = Some wr" "Some (pb_write s bs n) = Some (s', True)" for s s' :: "'o pb_ostream"
    using pb_write_True [of s bs n s'] that assms by simp
  show "\<exists>s'. Some (pb_write s bs n) = Some (s', True)"
    if "out_callback s = Some wr" "unat (bytes_written s) + length bs \<le> unat (max_size s)"
    for s :: "'o pb_ostream"
    using pb_write_fits [of s n bs] that assms by simp
qed

lemma encodes_as_varint: "encodes_as wr written (\<lambda>s. Some (pb_encode_varint s v)) (varint_bytes v)"
  unfolding pb_encode_varint_bytes by (rule encodes_as_write) simp

lemma encodes_as_tag:
  "encodes_as wr written (\<lambda>s. Some (pb_encode_tag s wt n))
     (varint_bytes (push_bit 3 (ucast n) OR ucast wt))"
  unfolding pb_encode_tag_def by (rule encodes_as_varint)

lemma encodes_as_svarint:
  "encodes_as wr written (\<lambda>s. Some (pb_encode_svarint s v)) (varint_bytes (zigzag v))"
  using encodes_as_varint [of "zigzag v"] by (simp add: pb_encode_svarint_def zigzag_def)

lemma enc_then_string:
  "Some (pb_encode_string s bs n) =
     enc_then (Some (pb_encode_varint s n)) (\<lambda>s'. Some (pb_write s' bs n))"
  by (simp add: pb_encode_string_def enc_then_def split: prod.splits bool.splits)

lemma encodes_as_string:
  assumes "unat n = length bs"
  shows "encodes_as wr written (\<lambda>s. Some (pb_encode_string s bs n)) (varint_bytes n @ bs)"
  unfolding enc_then_string
  by (rule encodes_as_seq [OF encodes_as_varint encodes_as_write [OF assms]])

text \<open>
  Arrays: a packed array is one length-delimited field whose payload is the concatenation of the
  entries, an unpacked one repeats the field header.
\<close>

lemma encodes_as_packed_array:
  assumes items: "\<And>p. p \<in> set items \<Longrightarrow> encodes_as wr written (\<lambda>s. func s p) (enc p)"
    and ne: "items \<noteq> []"
    and room: "PB_ATYPE (ftype field) = PB_ATYPE_POINTER \<or> length items \<le> unat (array_size field)"
    and packable: "PB_LTYPE (ftype field) \<le> PB_LTYPE_LAST_PACKABLE"
    and w32: "PB_LTYPE (ftype field) = PB_LTYPE_FIXED32 \<Longrightarrow> \<forall>p \<in> set items. length (enc p) = 4"
    and w64: "PB_LTYPE (ftype field) = PB_LTYPE_FIXED64 \<Longrightarrow> \<forall>p \<in> set items. length (enc p) = 8"
  defines "payload \<equiv> concat (map enc items)"
  shows "encodes_as wr written (\<lambda>s. encode_array s field items func)
    (varint_bytes (push_bit 3 (ucast (ftag field)) OR ucast PB_WT_STRING) @
     varint_bytes (of_nat (length payload)) @ payload)"
proof -
  have all: "encodes_as wr written (\<lambda>s. encode_items func s items) payload"
    unfolding payload_def by (rule encodes_as_items) (rule items)
  have const: "length (concat (map enc items)) = k * length items"
    if "\<forall>p \<in> set items. length (enc p) = k" for k
    using that by (induction items) auto
  have size: "packed_size func s field items = Some (Some (of_nat (length payload)))" for s :: "'o pb_ostream"
    using const [OF w32] const [OF w64] encodes_asD(1) [OF all, of "PB_OSTREAM_SIZING (out_state s)"]
    by (auto simp: packed_size_def payload_def PB_OSTREAM_SIZING_def PB_LTYPE_FIXED32_def
        PB_LTYPE_FIXED64_def)
  let ?rest = "\<lambda>s2. if out_callback s2 = None then Some (pb_write s2 [] (of_nat (length payload)))
                     else encode_items func s2 items"
  have rest: "encodes_as wr written ?rest payload"
    using encodes_asD [OF all] by (intro encodes_asI) (simp_all add: pb_write_def)
  have eq: "encode_array s field items func =
      enc_then (Some (pb_encode_tag s PB_WT_STRING (ftag field)))
        (\<lambda>s1. enc_then (Some (pb_encode_varint s1 (of_nat (length payload)))) ?rest)" for s :: "'o pb_ostream"
    using ne room packable by (auto simp: encode_array_def size)
  show ?thesis unfolding eq
    by (rule encodes_as_seq [OF encodes_as_tag encodes_as_seq [OF encodes_as_varint rest]])
qed

text \<open>A sub-message: its length, then its bytes.\<close>

lemma encodes_as_submessage:
  assumes enc: "encodes_as wr written enc bs"
  shows "encodes_as wr written (\<lambda>s. pb_encode_submessage s enc)
    (varint_bytes (of_nat (length bs)) @ bs)"
proof -
  let ?n = "of_nat (length bs) :: u64"
  let ?sz = "\<lambda>s. PB_OSTREAM_SIZING (out_state s)"
  have size: "enc (?sz s) = Some ((?sz s)\<lparr>bytes_written := ?n\<rparr>, True)" for s :: "'o pb_ostream"
    using encodes_asD(1) [OF enc, of "?sz s"] by (simp add: PB_OSTREAM_SIZING_def)
  let ?sub = "\<lambda>s1. \<lparr>out_callback = out_callback s1, out_state = out_state s1, max_size = ?n,
                       bytes_written = 0, out_errmsg = None\<rparr>"
  let ?rest = "\<lambda>s1. if out_callback s1 = None then Some (pb_write s1 [] ?n)
      else if max_size s1 < bytes_written s1 + ?n then Some (pb_out_error s1 ''stream full'', False)
      else (case enc (?sub s1) of
              None \<Rightarrow> None
            | Some (sub', status) \<Rightarrow>
                let s2 = s1\<lparr>bytes_written := bytes_written s1 + bytes_written sub',
                            out_state := out_state sub', out_errmsg := out_errmsg sub'\<rparr>
                in Some (if bytes_written sub' \<noteq> ?n
                         then (pb_out_error s2 ''submsg size changed'', False) else (s2, status)))"
  have eq: "pb_encode_submessage s enc = enc_then (Some (pb_encode_varint s ?n)) ?rest"
    for s :: "'o pb_ostream"
    by (simp add: pb_encode_submessage_def size Let_def)
  have "encodes_as wr written ?rest bs"
  proof (rule encodes_asI)
    show "?rest s = Some (s\<lparr>bytes_written := bytes_written s + of_nat (length bs)\<rparr>, True)"
      if "out_callback s = None" for s :: "'o pb_ostream"
      using that by (simp add: pb_write_def)
  next
    fix s1 :: "'o pb_ostream" assume "out_callback s1 = Some wr"
    then obtain sub' ok where "enc (?sub s1) = Some (sub', ok)"
      using encodes_asD(4) [OF enc, of "?sub s1"] by auto
    then show "\<exists>s' ok. ?rest s1 = Some (s', ok)" by (auto simp: Let_def)
  next
    fix s1 s' :: "'o pb_ostream" assume cb1: "out_callback s1 = Some wr" and eq: "?rest s1 = Some (s', True)"
    obtain sub' ok where sub': "enc (?sub s1) = Some (sub', ok)"
      using encodes_asD(4) [OF enc, of "?sub s1"] cb1 by auto
    have fin: "\<not> max_size s1 < bytes_written s1 + ?n" "bytes_written sub' = ?n" "ok"
      "s' = s1\<lparr>bytes_written := bytes_written s1 + ?n, out_state := out_state sub',
               out_errmsg := out_errmsg sub'\<rparr>"
      using eq cb1 sub' by (auto simp: Let_def split: if_splits)
    have "pb_wrote written (?sub s1) sub' bs"
      using encodes_asD(2) [OF enc, of "?sub s1"] cb1 sub' fin(3) by simp
    then show "pb_wrote written s1 s' bs" using fin(4) cb1 by (auto simp: pb_wrote_def)
  next
    fix s1 :: "'o pb_ostream" assume cb1: "out_callback s1 = Some wr"
      and room1: "unat (bytes_written s1) + length bs \<le> unat (max_size s1)"
    have n: "unat ?n = length bs"
      using room1 unat_word64_lt [of "max_size s1"] by (simp add: unat_of_nat)
    have fit: "\<not> max_size s1 < bytes_written s1 + ?n"
      using room1 n unat_word64_lt [of "max_size s1"]
      by (simp add: word_less_nat_alt unat_word_ariths)
    obtain sub' where sub': "enc (?sub s1) = Some (sub', True)"
      using encodes_asD(3) [OF enc, of "?sub s1"] cb1 n by auto
    have "bytes_written sub' = ?n"
      using encodes_asD(2) [OF enc, of "?sub s1"] cb1 sub' by (simp add: pb_wrote_def)
    then show "\<exists>s'. ?rest s1 = Some (s', True)" using cb1 fit sub' by (simp add: Let_def)
  qed
  from encodes_as_seq [OF encodes_as_varint this] show ?thesis unfolding eq .
qed

end

end
