(* ===== verification/PbProps.thy ===== *)
theory PbProps
  imports PbRound
begin

text \<open>
  The properties of the nanopb stream layer: round trips between encoder and decoder on memory
  streams, the agreement of sizing and writing, the bounds every reader keeps, and the boundary
  cases of the 32-bit varint decoder.
\<close>

subsection \<open>Round trips\<close>

text \<open>The bytes a successful encoder leaves in a memory stream.\<close>

lemma encode_varint_buffer:
  "pb_encode_varint (pb_ostream_from_buffer n) v = (os, True) \<Longrightarrow> out_state os = varint_bytes v"
  using mem.pb_encode_varint_True pb_wrote_from_buffer by fastforce

lemma encode_string_buffer:
  assumes "pb_encode_string (pb_ostream_from_buffer n) bs (of_nat (length bs)) = (os, True)"
    and "length bs < 2 ^ 64"
  shows "out_state os = varint_bytes (of_nat (length bs)) @ bs"
  using mem.pb_encode_string_True [OF assms(1)] assms(2) pb_wrote_from_buffer
  by (fastforce simp: unat_of_nat64)

lemma pb_encode_varint_fits:
  "10 \<le> unat n \<Longrightarrow> \<exists>os. pb_encode_varint (pb_ostream_from_buffer n) v = (os, True)"
  unfolding pb_encode_varint_bytes
  by (rule mem.pb_write_fits) (use length_varint_bytes [of v] in \<open>auto simp: pb_ostream_from_buffer_def\<close>)

lemma pb_write_buffer_fits:
  "unat k \<le> length bs \<Longrightarrow> unat k \<le> unat n \<Longrightarrow>
     \<exists>os. pb_write (pb_ostream_from_buffer n) bs k = (os, True)"
  by (rule mem.pb_write_fits) (simp_all add: pb_ostream_from_buffer_def)

text \<open>C3: Decoding the bytes \<open>pb_encode_varint\<close> wrote gives the value back and leaves the
  stream exactly behind them, for all 64-bit values.\<close>

theorem pb_varint_roundtrip:
  assumes "pb_encode_varint (pb_ostream_from_buffer n) v = (os, True)"
  shows "pb_decode_varint (pb_istream_from_buffer (out_state os @ rest)) =
           (pb_istream_from_buffer rest, Some v)"
  using buf.pb_decode_varint_good [of "pb_istream_from_buffer (out_state os @ rest)" v rest]
    encode_varint_buffer [OF assms] by (auto dest!: pb_consumed_from_buffer)

theorem pb_varint_roundtrip_witness:
  "\<exists>os. pb_encode_varint (pb_ostream_from_buffer 10) 300 = (os, True) \<and>
        pb_decode_varint (pb_istream_from_buffer (out_state os @ [7])) =
          (pb_istream_from_buffer [7], Some 300)"
proof -
  obtain os where os: "pb_encode_varint (pb_ostream_from_buffer 10) 300 = (os, True)"
    using pb_encode_varint_fits [of 10 300] by auto
  show ?thesis using os pb_varint_roundtrip [OF os, of "[7]"] by blast
qed

lemma svarint_roundtrip:
  assumes "pb_encode_svarint (pb_ostream_from_buffer n) v = (os, True)"
  shows "pb_decode_svarint (pb_istream_from_buffer (out_state os @ rest)) =
           (pb_istream_from_buffer rest, Some v)"
proof -
  have "pb_encode_varint (pb_ostream_from_buffer n) (zigzag v) = (os, True)"
    using assms by (simp add: pb_encode_svarint_def zigzag_def split: if_splits)
  then have os: "out_state os = varint_bytes (zigzag v)" by (rule encode_varint_buffer)
  have "pb_decode_varint (pb_istream_from_buffer (out_state os @ rest)) =
          (pb_istream_from_buffer rest, Some (zigzag v))"
    using buf.pb_decode_varint_good [of "pb_istream_from_buffer (out_state os @ rest)" "zigzag v" rest] os
    by (auto dest!: pb_consumed_from_buffer)
  then show ?thesis
    using unzigzag_zigzag [of v] by (simp add: pb_decode_svarint_def unzigzag_def)
qed

lemma encode_fixed32_buffer:
  assumes "pb_encode_fixed32 (pb_ostream_from_buffer n) v = (os, True)"
  shows "out_state os = le_bytes 4 v"
  using pb_wrote_from_buffer
    [OF mem.pb_write_True [OF assms [unfolded pb_encode_fixed32_def fixed32_bytes_eq]]] by simp

lemma encode_fixed64_buffer:
  assumes "pb_encode_fixed64 (pb_ostream_from_buffer n) v = (os, True)"
  shows "out_state os = le_bytes 8 v"
  using pb_wrote_from_buffer
    [OF mem.pb_write_True [OF assms [unfolded pb_encode_fixed64_def fixed64_bytes_eq]]] by simp

lemma pb_read_from_buffer:
  "k \<le> length bs \<Longrightarrow>
     pb_read (pb_istream_from_buffer bs) k = (pb_istream_from_buffer (drop k bs), Some (take k bs))"
  using buf.pb_read_good [of "pb_istream_from_buffer bs" k]
  by (auto dest: pb_consumed_from_buffer)

lemma fixed_roundtrip:
  assumes "pb_encode_fixed32 (pb_ostream_from_buffer n) v = (os, True)"
    and "pb_encode_fixed64 (pb_ostream_from_buffer m) w = (ot, True)"
  shows "length (out_state os) = 4 \<and> length (out_state ot) = 8 \<and>
    pb_decode_fixed32 (pb_istream_from_buffer (out_state os @ rest)) =
      (pb_istream_from_buffer rest, Some v) \<and>
    pb_decode_fixed64 (pb_istream_from_buffer (out_state ot @ rest)) =
      (pb_istream_from_buffer rest, Some w)"
  using encode_fixed32_buffer [OF assms(1)] encode_fixed64_buffer [OF assms(2)]
  by (simp add: pb_decode_fixed32_def pb_decode_fixed64_def pb_read_from_buffer le32_eq le64_eq
      le_word_le_bytes)

lemma tag_roundtrip:
  assumes "pb_encode_tag (pb_ostream_from_buffer n) wt fieldno = (os, True)"
    and "unat wt < 8" and "0 < unat fieldno" and "unat fieldno < 2 ^ 29"
  shows "pb_decode_tag (pb_istream_from_buffer (out_state os @ rest)) =
           (pb_istream_from_buffer rest, Some (wt, fieldno), False)"
proof -
  have "out_state os = varint_bytes (push_bit 3 (ucast fieldno) OR ucast wt)"
    using assms(1) unfolding pb_encode_tag_def by (rule encode_varint_buffer)
  then show ?thesis
    using buf.pb_decode_tag_good [of "pb_istream_from_buffer (out_state os @ rest)" fieldno wt rest] assms
    by (auto dest!: pb_consumed_from_buffer)
qed

text \<open>C20: The other scalar forms read back exactly: the zigzag form of a signed value, negative
  values included; the fixed-width forms, least significant byte first, in four and eight bytes; and
  the header of a field, for a field number from 1 to 2^29 - 1 and a wire type below 8, which
  \<open>pb_decode_tag\<close> does not take for the end of the message.\<close>

theorem pb_scalars_roundtrip:
  assumes "pb_encode_svarint (pb_ostream_from_buffer n1) x = (o1, True)"
    and "pb_encode_fixed32 (pb_ostream_from_buffer n2) v = (o2, True)"
    and "pb_encode_fixed64 (pb_ostream_from_buffer n3) w = (o3, True)"
    and "pb_encode_tag (pb_ostream_from_buffer n4) wt fieldno = (o4, True)"
    and "unat wt < 8" and "0 < unat fieldno" and "unat fieldno < 2 ^ 29"
  shows "length (out_state o2) = 4 \<and> length (out_state o3) = 8 \<and>
    pb_decode_svarint (pb_istream_from_buffer (out_state o1 @ rest)) =
      (pb_istream_from_buffer rest, Some x) \<and>
    pb_decode_fixed32 (pb_istream_from_buffer (out_state o2 @ rest)) =
      (pb_istream_from_buffer rest, Some v) \<and>
    pb_decode_fixed64 (pb_istream_from_buffer (out_state o3 @ rest)) =
      (pb_istream_from_buffer rest, Some w) \<and>
    pb_decode_tag (pb_istream_from_buffer (out_state o4 @ rest)) =
      (pb_istream_from_buffer rest, Some (wt, fieldno), False)"
  using svarint_roundtrip [OF assms(1)] fixed_roundtrip [OF assms(2,3)] tag_roundtrip [OF assms(4-7)]
  by simp

theorem pb_scalars_roundtrip_witness:
  "\<exists>o1 o2 o3 o4. pb_encode_svarint (pb_ostream_from_buffer 10) (- 3) = (o1, True) \<and>
     pb_encode_fixed32 (pb_ostream_from_buffer 4) 0xDEADBEEF = (o2, True) \<and>
     pb_encode_fixed64 (pb_ostream_from_buffer 8) 1 = (o3, True) \<and>
     pb_encode_tag (pb_ostream_from_buffer 10) 2 15 = (o4, True) \<and>
     pb_decode_svarint (pb_istream_from_buffer (out_state o1 @ [])) =
       (pb_istream_from_buffer [], Some (- 3)) \<and>
     pb_decode_tag (pb_istream_from_buffer (out_state o4 @ [])) =
       (pb_istream_from_buffer [], Some (2, 15), False)"
proof -
  obtain o1 where 1: "pb_encode_svarint (pb_ostream_from_buffer 10) (- 3) = (o1, True)"
    using pb_encode_varint_fits [of 10] by (auto simp: pb_encode_svarint_def)
  obtain o2 where 2: "pb_encode_fixed32 (pb_ostream_from_buffer 4) 0xDEADBEEF = (o2, True)"
    using pb_write_buffer_fits [of 4 "le_bytes 4 (0xDEADBEEF :: u32)" 4]
    unfolding pb_encode_fixed32_def fixed32_bytes_eq by auto
  obtain o3 where 3: "pb_encode_fixed64 (pb_ostream_from_buffer 8) 1 = (o3, True)"
    using pb_write_buffer_fits [of 8 "le_bytes 8 (1 :: u64)" 8]
    unfolding pb_encode_fixed64_def fixed64_bytes_eq by auto
  obtain o4 where 4: "pb_encode_tag (pb_ostream_from_buffer 10) 2 15 = (o4, True)"
    using pb_encode_varint_fits [of 10] by (auto simp: pb_encode_tag_def)
  show ?thesis using 1 2 3 4 pb_scalars_roundtrip [OF 1 2 3 4, of "[]"] by simp
qed

lemma pb_read_skip_from_buffer:
  "k \<le> length bs \<Longrightarrow>
     pb_read_skip (pb_istream_from_buffer bs) k = (pb_istream_from_buffer (drop k bs), Some ())"
  using buf.pb_read_skip_good [of "pb_istream_from_buffer bs" k]
  by (auto dest: pb_consumed_from_buffer)

text \<open>C9: Unknown fields are skipped exactly: behind the value any of the four encoders wrote,
  \<open>pb_skip_field\<close> with that encoder's wire type leaves the stream at the next byte.\<close>

theorem pb_skip_field_skips:
  assumes "pb_encode_varint (pb_ostream_from_buffer n1) v = (o1, True)"
    and "pb_encode_fixed64 (pb_ostream_from_buffer n2) w = (o2, True)"
    and "pb_encode_string (pb_ostream_from_buffer n3) bs (of_nat (length bs)) = (o3, True)"
    and "length bs < 2 ^ 32"
    and "pb_encode_fixed32 (pb_ostream_from_buffer n4) x = (o4, True)"
  shows "pb_skip_field (pb_istream_from_buffer (out_state o1 @ rest)) PB_WT_VARINT =
           (pb_istream_from_buffer rest, Some ()) \<and>
         pb_skip_field (pb_istream_from_buffer (out_state o2 @ rest)) PB_WT_64BIT =
           (pb_istream_from_buffer rest, Some ()) \<and>
         pb_skip_field (pb_istream_from_buffer (out_state o3 @ rest)) PB_WT_STRING =
           (pb_istream_from_buffer rest, Some ()) \<and>
         pb_skip_field (pb_istream_from_buffer (out_state o4 @ rest)) PB_WT_32BIT =
           (pb_istream_from_buffer rest, Some ())"
proof -
  have 1: "pb_skip_varint (pb_istream_from_buffer (out_state o1 @ rest)) =
             (pb_istream_from_buffer rest, Some ())"
    using buf.pb_skip_varint_good [of "pb_istream_from_buffer (out_state o1 @ rest)" v rest]
      encode_varint_buffer [OF assms(1)] by (auto dest!: pb_consumed_from_buffer)
  have 3: "pb_skip_string (pb_istream_from_buffer (out_state o3 @ rest)) =
             (pb_istream_from_buffer rest, Some ())"
    using buf.pb_skip_string_good [of "pb_istream_from_buffer (out_state o3 @ rest)" bs rest]
      encode_string_buffer [OF assms(3)] assms(4) by (auto dest!: pb_consumed_from_buffer)
  show ?thesis using 1 3 encode_fixed64_buffer [OF assms(2)] encode_fixed32_buffer [OF assms(5)]
    by (simp add: pb_skip_field_def wire_type_defs pb_read_skip_from_buffer)
qed

theorem pb_skip_field_skips_witness:
  "\<exists>o1 o2 o3 o4. pb_encode_varint (pb_ostream_from_buffer 10) 300 = (o1, True) \<and>
     pb_encode_fixed64 (pb_ostream_from_buffer 8) 1 = (o2, True) \<and>
     pb_encode_string (pb_ostream_from_buffer 16) [104, 105] (of_nat (length [104, 105 :: u8])) = (o3, True) \<and>
     pb_encode_fixed32 (pb_ostream_from_buffer 4) 7 = (o4, True) \<and>
     pb_skip_field (pb_istream_from_buffer (out_state o3 @ [9])) PB_WT_STRING =
       (pb_istream_from_buffer [9], Some ())"
proof -
  obtain o1 where 1: "pb_encode_varint (pb_ostream_from_buffer 10) 300 = (o1, True)"
    using pb_encode_varint_fits [of 10 300] by auto
  obtain o2 where 2: "pb_encode_fixed64 (pb_ostream_from_buffer 8) 1 = (o2, True)"
    using pb_write_buffer_fits [of 8 "le_bytes 8 (1 :: u64)" 8]
    unfolding pb_encode_fixed64_def fixed64_bytes_eq by auto
  obtain o3 where 3: "pb_encode_string (pb_ostream_from_buffer 16) [104, 105]
      (of_nat (length [104, 105 :: u8])) = (o3, True)"
    using encodes_asD(3) [OF mem.encodes_as_string [of 2 "[104, 105]"], of "pb_ostream_from_buffer 16"]
      length_varint_bytes [of 2] by (auto simp: pb_ostream_from_buffer_def)
  obtain o4 where 4: "pb_encode_fixed32 (pb_ostream_from_buffer 4) 7 = (o4, True)"
    using pb_write_buffer_fits [of 4 "le_bytes 4 (7 :: u32)" 4]
    unfolding pb_encode_fixed32_def fixed32_bytes_eq by auto
  show ?thesis using 1 2 3 4 pb_skip_field_skips [OF 1 2 3 _ 4, of "[9]"] by auto
qed

lemma sint_ucast_scast:
  assumes "is_up (scast :: 'b::len word \<Rightarrow> u32)"
  shows "sint (ucast (scast (b :: 'b word) :: u64) :: u32) = sint b"
proof -
  have "(ucast (scast b :: u64) :: u32) = scast b"
    by (rule bit_word_eqI) (auto simp: bit_simps)
  then show ?thesis using sint_up_scast [OF assms] by simp
qed

lemma sint_scast64:
  "is_up (scast :: 'b::len word \<Rightarrow> u64) \<Longrightarrow> sint (scast (b :: 'b word) :: u64) = sint b"
  by (rule sint_up_scast)

lemma ucast_ucast_ucast:
  "(ucast (ucast (ucast (w :: 'b::len word) :: u64) :: 'b word) :: u64) = ucast w"
  by (rule bit_word_eqI) (auto simp: bit_simps dest: bit_imp_le_length)

lemma to_signed_read:
  assumes "read_signed n src = Some v"
  shows "to_signed n (sint v) = Some (sint v)" and "n \<noteq> 8 \<Longrightarrow> sint (ucast v :: u32) = sint v"
  using assms
  by (auto simp: read_signed_def to_signed_def is_up sint_scast64 sint_ucast_scast
      scast_up_scast_id split: if_splits)

lemma to_unsigned_read: "read_unsigned n src = Some v \<Longrightarrow> to_unsigned n v = Some v"
  by (auto simp: read_unsigned_def to_unsigned_def ucast_ucast_ucast split: if_splits)

text \<open>C21: Integer fields of every declared size (1, 2, 4 and 8 bytes): what
  \<open>pb_enc_varint\<close>, \<open>pb_enc_uvarint\<close> and \<open>pb_enc_svarint\<close> write for the value in
  memory, the decoder of the same field type stores back, negative values of small fields
  included.\<close>

theorem pb_int_field_roundtrip:
  assumes "pb_enc_varint (pb_ostream_from_buffer n1) f src = (o1, True)"
    and "pb_enc_uvarint (pb_ostream_from_buffer n2) f src = (o2, True)"
    and "pb_enc_svarint (pb_ostream_from_buffer n3) f src = (o3, True)"
  shows "\<exists>v u. read_signed (data_size f) src = Some v \<and> read_unsigned (data_size f) src = Some u \<and>
    pb_dec_varint (pb_istream_from_buffer (out_state o1 @ rest)) f =
      (pb_istream_from_buffer rest, Some (sint v)) \<and>
    pb_dec_uvarint (pb_istream_from_buffer (out_state o2 @ rest)) f =
      (pb_istream_from_buffer rest, Some u) \<and>
    pb_dec_svarint (pb_istream_from_buffer (out_state o3 @ rest)) f =
      (pb_istream_from_buffer rest, Some (sint v))"
proof -
  obtain v where v: "read_signed (data_size f) src = Some v"
      "pb_encode_varint (pb_ostream_from_buffer n1) v = (o1, True)"
    using assms(1) by (auto simp: pb_enc_varint_def split: option.splits)
  obtain u where u: "read_unsigned (data_size f) src = Some u"
      "pb_encode_varint (pb_ostream_from_buffer n2) u = (o2, True)"
    using assms(2) by (auto simp: pb_enc_uvarint_def split: option.splits)
  have s: "pb_encode_varint (pb_ostream_from_buffer n3) (zigzag v) = (o3, True)"
    using assms(3) v by (simp add: pb_enc_svarint_def pb_encode_svarint_def zigzag_def split: if_splits)
  have dec: "pb_decode_varint (pb_istream_from_buffer (varint_bytes w @ rest)) =
      (pb_istream_from_buffer rest, Some w)" for w
    using buf.pb_decode_varint_good [of "pb_istream_from_buffer (varint_bytes w @ rest)" w rest]
    by (auto dest!: pb_consumed_from_buffer)
  note os = encode_varint_buffer [OF v(2)] encode_varint_buffer [OF u(2)] encode_varint_buffer [OF s]
  have "pb_dec_varint (pb_istream_from_buffer (out_state o1 @ rest)) f =
      (pb_istream_from_buffer rest, Some (sint v))"
    using to_signed_read [OF v(1)]
    by (cases "data_size f = 8") (simp_all add: pb_dec_varint_def os dec Let_def)
  moreover have "pb_dec_uvarint (pb_istream_from_buffer (out_state o2 @ rest)) f =
      (pb_istream_from_buffer rest, Some u)"
    using to_unsigned_read [OF u(1)] by (simp add: pb_dec_uvarint_def os dec)
  moreover have "pb_dec_svarint (pb_istream_from_buffer (out_state o3 @ rest)) f =
      (pb_istream_from_buffer rest, Some (sint v))"
    using to_signed_read(1) [OF v(1)] unzigzag_zigzag [of v]
    by (simp add: pb_dec_svarint_def pb_decode_svarint_def os dec unzigzag_def)
  ultimately show ?thesis using v u by blast
qed

theorem pb_int_field_roundtrip_witness:
  "\<exists>(f :: pb_field) o1 o2 o3 v u. data_size f = 2 \<and>
    pb_enc_varint (pb_ostream_from_buffer 10) f 0xFFFE = (o1, True) \<and>
    pb_enc_uvarint (pb_ostream_from_buffer 10) f 0xFFFE = (o2, True) \<and>
    pb_enc_svarint (pb_ostream_from_buffer 10) f 0xFFFE = (o3, True) \<and>
    read_signed (data_size f) 0xFFFE = Some v \<and> read_unsigned (data_size f) 0xFFFE = Some u \<and>
    pb_dec_varint (pb_istream_from_buffer (out_state o1 @ [])) f =
      (pb_istream_from_buffer [], Some (sint v))"
proof -
  let ?f = "\<lparr>ftag = 1, ftype = 1, data_size = 2, array_size = 0\<rparr>"
  obtain o1 where 1: "pb_enc_varint (pb_ostream_from_buffer 10) ?f 0xFFFE = (o1, True)"
    using pb_encode_varint_fits [of 10] by (auto simp: pb_enc_varint_def read_signed_def)
  obtain o2 where 2: "pb_enc_uvarint (pb_ostream_from_buffer 10) ?f 0xFFFE = (o2, True)"
    using pb_encode_varint_fits [of 10] by (auto simp: pb_enc_uvarint_def read_unsigned_def)
  obtain o3 where 3: "pb_enc_svarint (pb_ostream_from_buffer 10) ?f 0xFFFE = (o3, True)"
    using pb_encode_varint_fits [of 10]
    by (auto simp: pb_enc_svarint_def pb_encode_svarint_def read_signed_def)
  show ?thesis using 1 2 3 pb_int_field_roundtrip [OF 1 2 3, of "[]"] by force
qed

subsection \<open>Length-delimited fields\<close>

lemma decode_len_from_buffer:
  assumes "k < 2 ^ 32"
  shows "pb_decode_varint32 (pb_istream_from_buffer (varint_bytes (of_nat k) @ bs)) =
           (pb_istream_from_buffer bs, Some (of_nat k))"
proof -
  have k: "unat (of_nat k :: u64) < 2 ^ 32" using assms by (simp add: unat_of_nat)
  have "(ucast (of_nat k :: u64) :: u32) = of_nat k"
    using assms by (simp add: word_unat_eq_iff unsigned_ucast_eq unat_of_nat take_bit_nat_eq_self)
  then show ?thesis
    using buf.pb_decode_varint32_good [of "pb_istream_from_buffer (varint_bytes (of_nat k) @ bs)"
        "of_nat k" bs] k by (auto dest!: pb_consumed_from_buffer)
qed

lemma unat_of_nat32: "k < 2 ^ 32 \<Longrightarrow> unat (of_nat k :: u32) = k"
  by (simp add: unat_of_nat)

lemma ucast_of_nat32: "k < 2 ^ 32 \<Longrightarrow> (ucast (of_nat k :: u32) :: u64) = of_nat k"
  by (simp add: word_unat_eq_iff unsigned_ucast_eq unat_of_nat take_bit_nat_eq_self)

lemma bytes_field_roundtrip:
  assumes "pb_enc_bytes (pb_ostream_from_buffer n) f (Some (of_nat (length bs), bs)) = (os, True)"
    and "length bs < 2 ^ 32" and "PB_ATYPE (ftype f) = PB_ATYPE_STATIC"
  shows "pb_dec_bytes ok (pb_istream_from_buffer (out_state os @ rest)) f =
           (pb_istream_from_buffer rest, Some bs)"
proof -
  have size: "\<not> ucast (data_size f) < (of_nat (length bs) + 4 :: u64)"
    and nov: "\<not> (of_nat (length bs) + 4 :: u64) < of_nat (length bs)"
    and enc: "pb_encode_string (pb_ostream_from_buffer n) bs (of_nat (length bs)) = (os, True)"
    using assms by (auto simp: pb_enc_bytes_def Let_def ucast_of_nat32 split: if_splits)
  have os: "out_state os = varint_bytes (of_nat (length bs)) @ bs"
    using encode_string_buffer [OF enc] assms(2) by simp
  show ?thesis using assms(2,3) size nov
    by (simp add: pb_dec_bytes_def os decode_len_from_buffer Let_def ucast_of_nat32
        PB_ATYPE_STATIC_def PB_ATYPE_POINTER_def unat_of_nat32 pb_read_from_buffer)
qed

lemma c_strnlen_prefix:
  "0 \<notin> set str \<Longrightarrow> length str < room \<Longrightarrow> c_strnlen room (str @ 0 # junk) = length str"
  by (induction str arbitrary: room) auto

lemma c_strnlen_le: "c_strnlen room bs \<le> length bs"
  by (induction room bs rule: c_strnlen.induct) auto

lemma string_field_roundtrip:
  assumes "pb_enc_string (pb_ostream_from_buffer n) f (Some (str @ 0 # junk)) = (os, True)"
    and "0 \<notin> set str" and "length str < unat (data_size f)" and "PB_ATYPE (ftype f) = PB_ATYPE_STATIC"
  shows "out_state os = varint_bytes (of_nat (length str)) @ str \<and>
    pb_dec_string ok (pb_istream_from_buffer (out_state os @ rest)) f =
      (pb_istream_from_buffer rest, Some (str @ [0]))"
proof -
  have len: "length str < 2 ^ 32 - 1" using assms(3) unat_word32_lt [of "data_size f"] by linarith
  have enc: "pb_encode_string (pb_ostream_from_buffer n) (str @ 0 # junk) (of_nat (length str)) = (os, True)"
    using assms by (simp add: pb_enc_string_def c_strnlen_prefix PB_ATYPE_STATIC_def PB_ATYPE_POINTER_def)
  have os: "out_state os = varint_bytes (of_nat (length str)) @ str"
    using pb_wrote_from_buffer [OF mem.pb_encode_string_True [OF enc]] len
    by (simp add: unat_of_nat64)
  have sz: "ucast (of_nat (length str) + 1 :: u32) = (of_nat (length str + 1) :: u64)"
    using len ucast_of_nat32 [of "length str + 1"] by (simp add: add.commute)
  have c1: "\<not> (of_nat (length str + 1) :: u64) < ucast (of_nat (length str) :: u32)"
    using len by (simp add: ucast_of_nat32 word_less_nat_alt unat_of_nat64 del: of_nat_Suc of_nat_add)
  have c2: "\<not> ucast (data_size f) < (of_nat (length str + 1) :: u64)"
    using len assms(3)
    by (simp add: word_less_nat_alt unat_of_nat64 unsigned_ucast_eq take_bit_nat_eq_self
        unat_word32_lt [THEN order.strict_trans] del: of_nat_Suc of_nat_add)
  show ?thesis using os len c1 c2 assms(4)
    by (simp add: pb_dec_string_def decode_len_from_buffer Let_def sz unat_of_nat32
        PB_ATYPE_STATIC_def PB_ATYPE_POINTER_def pb_read_from_buffer del: of_nat_Suc of_nat_add)
qed

subsection \<open>Sizing and sub-messages\<close>

lemma pb_enc_uvarint_encodes_as:
  assumes "read_unsigned (data_size f) src = Some v"
  shows "encodes_as buf_write (\<lambda>bs. bs) (\<lambda>s. Some (pb_enc_uvarint s f src)) (varint_bytes v)"
  using assms mem.encodes_as_varint [of v] by (simp add: pb_enc_uvarint_def)

lemma pb_encode_submessage_fits:
  "\<exists>os. pb_encode_submessage (pb_ostream_from_buffer 20) (\<lambda>s. Some (pb_encode_varint s v)) = Some (os, True)"
proof (rule encodes_asD(3) [OF mem.encodes_as_submessage [OF mem.encodes_as_varint]])
  show "unat (bytes_written (pb_ostream_from_buffer 20)) +
      length (varint_bytes (of_nat (length (varint_bytes v))) @ varint_bytes v)
      \<le> unat (max_size (pb_ostream_from_buffer 20))"
    using length_varint_bytes [of v] length_varint_bytes [of "of_nat (length (varint_bytes v))"]
    by (simp add: pb_ostream_from_buffer_def)
qed simp

lemma submessage_framed:
  assumes "encodes_as buf_write (\<lambda>bs. bs) enc msg" and "length msg < 2 ^ 32"
    and "pb_encode_submessage (pb_ostream_from_buffer n) enc = Some (os, True)"
  shows "\<exists>par sub. pb_make_string_substream (pb_istream_from_buffer (out_state os @ rest)) =
      (par, Some sub) \<and> pb_view (\<lambda>bs. bs) sub = msg \<and> bytes_left sub = length msg \<and>
    (\<forall>fin. pb_consumed buf_read (\<lambda>bs. bs) sub fin (length msg) \<longrightarrow>
       pb_close_string_substream par fin = (pb_istream_from_buffer rest, Some ()))"
proof -
  have os: "out_state os = varint_bytes (of_nat (length msg)) @ msg"
    using encodes_asD(2) [OF mem.encodes_as_submessage [OF assms(1)] _ assms(3)]
    by (simp add: pb_wrote_from_buffer)
  have view: "pb_view (\<lambda>bs. bs) (pb_istream_from_buffer (out_state os @ rest)) =
      varint_bytes (of_nat (length msg)) @ msg @ rest" by (simp add: os)
  obtain par sub where ps: "pb_make_string_substream (pb_istream_from_buffer (out_state os @ rest)) =
      (par, Some sub)" "pb_good buf_read (\<lambda>bs. bs) sub" "pb_view (\<lambda>bs. bs) sub = msg"
    and close: "\<And>fin. pb_consumed buf_read (\<lambda>bs. bs) sub fin (length msg) \<Longrightarrow>
      \<exists>s2. pb_close_string_substream par fin = (s2, Some ()) \<and>
        pb_consumed buf_read (\<lambda>bs. bs) (pb_istream_from_buffer (out_state os @ rest)) s2
          (length (varint_bytes (of_nat (length msg))) + length msg)"
    using buf.pb_make_string_substream_good [OF pb_good_from_buffer view assms(2)] by blast
  have "bytes_left sub = length msg" using length_pb_view [OF ps(2)] ps(3) by simp
  moreover have "pb_close_string_substream par fin = (pb_istream_from_buffer rest, Some ())"
    if "pb_consumed buf_read (\<lambda>bs. bs) sub fin (length msg)" for fin
    using close [OF that] os by (auto dest!: pb_consumed_from_buffer)
  ultimately show ?thesis using ps by blast
qed

text \<open>C11: Sub-messages: for any encoder that writes a fixed byte string (which every field encoder
  does), \<open>pb_encode_submessage\<close> writes the length and the message, and counts on a sizing stream
  exactly the bytes it writes to memory, so that the check "submsg size changed" never fires.  The
  sub-stream \<open>pb_make_string_substream\<close> opens on the result shows exactly the bytes of the
  message, and closing it after the message has been read leaves the parent at the byte behind.\<close>

theorem pb_submessage_sizing:
  assumes "encodes_as buf_write (\<lambda>bs. bs) enc msg" and "length msg < 2 ^ 32"
    and "pb_encode_submessage (pb_ostream_from_buffer n) enc = Some (os, True)"
  shows "out_state os = varint_bytes (of_nat (length msg)) @ msg \<and>
    pb_encode_submessage (PB_OSTREAM_SIZING st) enc =
      Some ((PB_OSTREAM_SIZING st)\<lparr>bytes_written := of_nat (length (out_state os))\<rparr>, True) \<and>
    (\<exists>par sub. pb_make_string_substream (pb_istream_from_buffer (out_state os @ rest)) =
        (par, Some sub) \<and> pb_view (\<lambda>bs. bs) sub = msg \<and> bytes_left sub = length msg \<and>
      (\<forall>fin. pb_consumed buf_read (\<lambda>bs. bs) sub fin (length msg) \<longrightarrow>
         pb_close_string_substream par fin = (pb_istream_from_buffer rest, Some ())))"
proof -
  note e = mem.encodes_as_submessage [OF assms(1)]
  have os: "out_state os = varint_bytes (of_nat (length msg)) @ msg"
    using encodes_asD(2) [OF e _ assms(3)] by (simp add: pb_wrote_from_buffer)
  moreover have "pb_encode_submessage (PB_OSTREAM_SIZING st) enc =
      Some ((PB_OSTREAM_SIZING st)\<lparr>bytes_written := of_nat (length (out_state os))\<rparr>, True)"
    using os encodes_asD(1) [OF e, of "PB_OSTREAM_SIZING st"] by (simp add: PB_OSTREAM_SIZING_def)
  ultimately show ?thesis using submessage_framed [OF assms] by blast
qed

theorem pb_submessage_sizing_witness:
  "\<exists>os par sub. pb_encode_submessage (pb_ostream_from_buffer 20) (\<lambda>s. Some (pb_encode_varint s 300)) = Some (os, True) \<and>
     pb_encode_submessage (PB_OSTREAM_SIZING ([] :: bytes)) (\<lambda>s. Some (pb_encode_varint s 300)) =
       Some ((PB_OSTREAM_SIZING [])\<lparr>bytes_written := of_nat (length (out_state os))\<rparr>, True) \<and>
     pb_make_string_substream (pb_istream_from_buffer (out_state os @ [9])) = (par, Some sub) \<and>
     pb_view (\<lambda>bs. bs) sub = varint_bytes 300"
proof -
  note e = mem.encodes_as_varint [of 300]
  obtain os where
    os: "pb_encode_submessage (pb_ostream_from_buffer 20) (\<lambda>s. Some (pb_encode_varint s 300)) = Some (os, True)"
    using pb_encode_submessage_fits ..
  have "length (varint_bytes 300) < 2 ^ 32" using length_varint_bytes [of 300] by simp
  from pb_submessage_sizing [OF e this os, of "[]" "[9]"] os show ?thesis by blast
qed

text \<open>A packed field of unsigned integers: the header, the total length and the varints of the
  entries; the sizing pass counts exactly these bytes.\<close>

lemma packed_array_bytes:
  assumes "PB_LTYPE (ftype f) = 0x01" and "items \<noteq> []"
    and "PB_ATYPE (ftype f) = PB_ATYPE_POINTER \<or> length items \<le> unat (array_size f)"
    and "data_size f = 4"
    and "encode_array (pb_ostream_from_buffer n) f items (\<lambda>s p. Some (pb_enc_uvarint s f p)) = Some (os, True)"
  shows "out_state os =
      varint_bytes (push_bit 3 (ucast (ftag f)) OR 2) @
      varint_bytes (of_nat (length (concat (map (\<lambda>p. varint_bytes (ucast (ucast p :: u32))) items)))) @
      concat (map (\<lambda>p. varint_bytes (ucast (ucast p :: u32))) items) \<and>
    encode_array (PB_OSTREAM_SIZING (st :: bytes)) f items (\<lambda>s p. Some (pb_enc_uvarint s f p)) =
      Some ((PB_OSTREAM_SIZING st)\<lparr>bytes_written := of_nat (length (out_state os))\<rparr>, True)"
proof -
  have rd: "read_unsigned (data_size f) p = Some (ucast (ucast p :: u32))" for p
    by (simp add: read_unsigned_def assms(4))
  have e: "encodes_as buf_write (\<lambda>bs. bs) (\<lambda>s. encode_array s f items (\<lambda>s p. Some (pb_enc_uvarint s f p)))
     (varint_bytes (push_bit 3 (ucast (ftag f)) OR ucast PB_WT_STRING) @
      varint_bytes (of_nat (length (concat (map (\<lambda>p. varint_bytes (ucast (ucast p :: u32))) items)))) @
      concat (map (\<lambda>p. varint_bytes (ucast (ucast p :: u32))) items))"
    by (rule mem.encodes_as_packed_array)
      (use assms(1-3) pb_enc_uvarint_encodes_as [OF rd] in
        \<open>simp_all add: PB_LTYPE_LAST_PACKABLE_def PB_LTYPE_FIXED32_def PB_LTYPE_FIXED64_def\<close>)
  have os: "out_state os =
      varint_bytes (push_bit 3 (ucast (ftag f)) OR 2) @
      varint_bytes (of_nat (length (concat (map (\<lambda>p. varint_bytes (ucast (ucast p :: u32))) items)))) @
      concat (map (\<lambda>p. varint_bytes (ucast (ucast p :: u32))) items)"
    using pb_wrote_from_buffer [OF encodes_asD(2) [OF e _ assms(5)]] by (simp add: PB_WT_STRING_def)
  show ?thesis
    using os encodes_asD(1) [OF e, of "PB_OSTREAM_SIZING st"]
    by (simp add: PB_OSTREAM_SIZING_def PB_WT_STRING_def)
qed

subsection \<open>Bounds and boundary cases\<close>

text \<open>The readers on a stream that checks each access.\<close>

lemma stream_upto_fst:
  "stream_upto buf e s \<Longrightarrow> (\<And>s' r. f = (s', r) \<Longrightarrow> pb_moves (\<lambda>(buf, i, ok). drop i buf) s s') \<Longrightarrow>
   stream_upto buf e (fst f)"
  by (cases f) (auto intro: checked_moves)

lemma stream_upto_substream:
  assumes "stream_upto buf e s" and "pb_make_string_substream s = (s1, Some sub)"
  shows "\<exists>e' \<le> e. stream_upto buf e' sub"
proof -
  obtain t sz where t: "pb_decode_varint32 s = (t, Some sz)" "unat sz \<le> bytes_left t"
    and sub: "sub = t\<lparr>bytes_left := unat sz\<rparr>"
    using assms(2) by (auto simp: pb_make_string_substream_def split: prod.splits option.splits if_splits)
  have "stream_upto buf e t"
    by (rule checked_moves [OF assms(1) checked.pb_decode_varint32_moves [OF stream_upto_good [OF assms(1)] t(1)]])
  then obtain n where "n \<le> e" "e \<le> length buf" "state t = (buf, n, True)" "bytes_left t = e - n"
    "callback t = checked_read" by (auto simp: stream_upto_def)
  then show ?thesis using t(2) unfolding sub stream_upto_def
    by (intro exI [of _ "n + unat sz"] conjI exI [of _ n]) simp_all
qed

lemma stream_upto_tag: "stream_upto buf e s \<Longrightarrow> stream_upto buf e (fst (pb_decode_tag s))"
  using checked.pb_decode_tag_moves [OF stream_upto_good] checked_moves prod_cases3
  by (cases "pb_decode_tag s") (metis fst_conv)

text \<open>C22: No reader leaves the buffer: on a stream that notes every access past the end of its memory,
  each reading operation, whatever the input and also when it fails, only makes accesses within the
  buffer, stays before the limit of the stream, and keeps \<open>bytes_left\<close> equal to the distance to
  that limit; a sub-stream made from it has a limit of its own that is no further.\<close>

theorem pb_reads_in_bounds:
  assumes "stream_upto buf e s"
  shows "stream_upto buf e (fst (pb_read s n)) \<and>
     stream_upto buf e (fst (pb_read_skip s n)) \<and>
     stream_upto buf e (fst (pb_readbyte s)) \<and>
     stream_upto buf e (fst (pb_decode_varint s)) \<and>
     stream_upto buf e (fst (pb_decode_varint32 s)) \<and>
     stream_upto buf e (fst (pb_decode_tag s)) \<and>
     stream_upto buf e (fst (pb_skip_field s wt)) \<and>
     stream_upto buf e (fst (read_raw_value s wt room)) \<and>
     stream_upto buf e (fst (pb_dec_bytes ok s f)) \<and>
     stream_upto buf e (fst (pb_dec_string ok s f)) \<and>
     stream_upto buf e (fst (pb_dec_fixed_length_bytes s f)) \<and>
     (\<forall>s1 sub. pb_make_string_substream s = (s1, Some sub) \<longrightarrow> (\<exists>e' \<le> e. stream_upto buf e' sub))"
proof (intro conjI)
  note g = stream_upto_good [OF assms]
  note up = stream_upto_fst [OF assms]
  show "stream_upto buf e (fst (pb_read s n))" by (rule up) (rule checked.pb_read_moves [OF g])
  show "stream_upto buf e (fst (pb_read_skip s n))" by (rule up) (rule checked.pb_read_skip_moves [OF g])
  show "stream_upto buf e (fst (pb_readbyte s))" by (rule up) (rule checked.pb_readbyte_moves [OF g])
  show "stream_upto buf e (fst (pb_decode_varint s))"
    by (rule up) (rule checked.pb_decode_varint_moves [OF g])
  show "stream_upto buf e (fst (pb_decode_varint32 s))"
    by (rule up) (rule checked.pb_decode_varint32_moves [OF g])
  show "stream_upto buf e (fst (pb_decode_tag s))" by (rule stream_upto_tag [OF assms])
  show "stream_upto buf e (fst (pb_skip_field s wt))"
    by (rule up) (rule checked.pb_skip_field_moves [OF g])
  show "stream_upto buf e (fst (read_raw_value s wt room))"
    by (rule up) (rule checked.read_raw_value_moves [OF g])
  show "stream_upto buf e (fst (pb_dec_bytes ok s f))"
    by (rule up) (rule checked.pb_dec_bytes_moves [OF g])
  show "stream_upto buf e (fst (pb_dec_string ok s f))"
    by (rule up) (rule checked.pb_dec_string_moves [OF g])
  show "stream_upto buf e (fst (pb_dec_fixed_length_bytes s f))"
    by (rule up) (rule checked.pb_dec_fixed_length_bytes_moves [OF g])
  show "\<forall>s1 sub. pb_make_string_substream s = (s1, Some sub) \<longrightarrow> (\<exists>e' \<le> e. stream_upto buf e' sub)"
    by (intro allI impI) (rule stream_upto_substream [OF assms])
qed

lemma pb_reads_in_bounds_witness:
  "stream_upto [0x05, 0x41, 0x42] 3 (fst (pb_read (checked_stream [0x05, 0x41, 0x42]) 4)) \<and>
   stream_upto [0x05, 0x41, 0x42] 3 (fst (pb_skip_field (checked_stream [0x05, 0x41, 0x42]) PB_WT_STRING))"
proof -
  have "stream_upto [0x05, 0x41, 0x42] 3 (checked_stream [0x05, 0x41, 0x42])"
    by (simp add: stream_upto_def checked_stream_def)
  from pb_reads_in_bounds [OF this, of 4] pb_reads_in_bounds [OF this, where wt = PB_WT_STRING]
  show ?thesis by blast
qed

lemma pb_readbyte_from_buffer:
  "pb_readbyte (pb_istream_from_buffer (b # bs)) = (pb_istream_from_buffer bs, Some b)"
  by (simp add: pb_readbyte_def pb_istream_from_buffer_def buf_read_def)

lemma pb_readbyte_from_Nil:
  "pb_readbyte (pb_istream_from_buffer []) =
     (pb_set_error (pb_istream_from_buffer []) ''end-of-stream'', None)"
  by (simp add: pb_readbyte_def pb_istream_from_buffer_def)

lemma varint_loop_truncated:
  "k < length (varint_bytes v) \<Longrightarrow> p < 64 \<Longrightarrow> unat v < 2 ^ (64 - p) \<Longrightarrow>
   varint_loop (pb_istream_from_buffer (take k (varint_bytes v))) r (of_nat p) =
     (pb_set_error (pb_istream_from_buffer []) ''end-of-stream'', None)"
proof (induction v arbitrary: k r p rule: varint_bytes.induct)
  case (1 v)
  have p: "\<not> 64 \<le> (of_nat p :: u8)"
    using "1.prems"(2) by (simp add: unat_of_nat word_le_nat_alt)
  show ?case
  proof (cases k)
    case 0
    then show ?thesis using p by (simp add: varint_loop.simps [of "pb_istream_from_buffer []"] pb_readbyte_from_Nil)
  next
    case (Suc j)
    then have big: "\<not> v \<le> 0x7F" using "1.prems"(1) by (auto simp: varint_bytes.simps [of v])
    let ?d = "ucast (v AND 0x7F) OR 0x80 :: u8"
    have vb: "varint_bytes v = ?d # varint_bytes (drop_bit 7 v)"
      using big by (simp add: varint_bytes.simps [of v])
    have j: "j < length (varint_bytes (drop_bit 7 v))" using "1.prems"(1) Suc vb by simp
    have "2 ^ 7 \<le> unat v" using big by (simp add: le_0x7F_iff)
    then have "(2::nat) ^ 7 < 2 ^ (64 - p)" using "1.prems"(3) by linarith
    then have "7 < 64 - p" by (rule power_less_imp_less_exp [rotated]) simp
    then have p7: "p + 7 < 64" by simp
    have v7: "unat (drop_bit 7 v) < 2 ^ (64 - (p + 7))"
    proof -
      have "(2::nat) ^ (64 - p) = 2 ^ (7 + (64 - (p + 7)))" using p7 by simp
      also have "\<dots> = 2 ^ 7 * 2 ^ (64 - (p + 7))" by (rule power_add)
      finally have "(2::nat) ^ (64 - p) = 2 ^ 7 * 2 ^ (64 - (p + 7))" .
      then show ?thesis using "1.prems"(3)
        unfolding unat_drop_bit_div by (simp add: less_mult_imp_div_less mult.commute)
    qed
    let ?s = "pb_istream_from_buffer (?d # take j (varint_bytes (drop_bit 7 v)))"
    have "unat (of_nat p :: u8) = p" using "1.prems"(2) by (simp add: unat_of_nat)
    then have "varint_loop ?s r (of_nat p) =
        varint_loop (pb_istream_from_buffer (take j (varint_bytes (drop_bit 7 v))))
          (r OR push_bit p (v AND 0x7F)) (of_nat (p + 7))"
      using p by (simp add: varint_loop.simps [of ?s] pb_readbyte_from_buffer Let_def
          and_0x80_eq_0_iff varint_digit_more varint_digit_value add.commute)
    then show ?thesis using "1.IH" [OF big j p7 v7] Suc vb by simp
  qed
qed

lemma varint_sample:
  obtains os where "pb_encode_varint (pb_ostream_from_buffer 10) 300 = (os, True)" "1 < length (out_state os)"
proof -
  obtain os where os: "pb_encode_varint (pb_ostream_from_buffer 10) 300 = (os, True)"
    using pb_encode_varint_fits [of 10 300] by auto
  moreover have "1 < length (out_state os)"
    by (simp add: encode_varint_buffer [OF os] varint_bytes.simps [of 300] Suc_le_eq)
  ultimately show thesis by (rule that)
qed

text \<open>C23: The length of varints: \<open>pb_encode_varint\<close> writes at most \<open>n\<close> bytes exactly for
  the values below \<open>2^(7 n)\<close>, hence never more than ten; and any proper prefix of what it wrote
  makes \<open>pb_decode_varint\<close> fail with the message end-of-stream, with the whole prefix read.\<close>

theorem pb_varint_length:
  assumes "pb_encode_varint (pb_ostream_from_buffer sz) v = (os, True)" and "0 < n"
    and "k < length (out_state os)"
  shows "(length (out_state os) \<le> n \<longleftrightarrow> unat v < 2 ^ (7 * n)) \<and> length (out_state os) \<le> 10 \<and>
    pb_decode_varint (pb_istream_from_buffer (take k (out_state os))) =
      (pb_set_error (pb_istream_from_buffer []) ''end-of-stream'', None)"
  using encode_varint_buffer [OF assms(1)] length_varint_bytes_le_iff [OF assms(2), of v]
    length_varint_bytes [of v] varint_loop_truncated [of k v 0 0] assms(3) unat_word64_lt [of v]
  by (simp add: pb_decode_varint_def)

theorem pb_varint_length_witness:
  "\<exists>os. pb_encode_varint (pb_ostream_from_buffer 10) 300 = (os, True) \<and> length (out_state os) \<le> 2 \<and>
     pb_decode_varint (pb_istream_from_buffer (take 1 (out_state os))) =
       (pb_set_error (pb_istream_from_buffer []) ''end-of-stream'', None)"
proof -
  obtain os where os: "pb_encode_varint (pb_ostream_from_buffer 10) 300 = (os, True)" "1 < length (out_state os)"
    by (rule varint_sample)
  then show ?thesis using pb_varint_length [OF os(1), of 2 1] by auto
qed

lemma low7_small: "b AND 0x80 = 0 \<Longrightarrow> b AND 0x7F = (b :: u8)"
proof -
  assume a: "b AND 0x80 = 0"
  have "\<not> bit b 7"
  proof
    assume "bit b 7"
    then have "bit (b AND 0x80) 7" by (simp add: bit_simps bit_numeral_rec)
    then show False using a by simp
  qed
  then have "bit (b AND 0x7F) n = bit b n" if "n < 8" for n
  proof -
    have "n = 7 \<or> n < 7" using that by linarith
    moreover have "b AND 0x7F = take_bit 7 b" by (simp add: take_bit_eq_mask mask_eq_exp_minus_1)
    ultimately show ?thesis using \<open>\<not> bit b 7\<close> by (auto simp: bit_simps)
  qed
  then show ?thesis by (intro bit_word_eqI) simp
qed

lemma varint_loop_0x80:
  "\<not> (64 :: u8) \<le> p \<Longrightarrow> varint_loop (pb_istream_from_buffer (0x80 # bs)) 0 p =
     varint_loop (pb_istream_from_buffer bs) 0 (p + 7)"
  by (simp add: varint_loop.simps [of "pb_istream_from_buffer (0x80 # bs)"] pb_readbyte_from_buffer Let_def)

lemma varint32_loop_0x80:
  "varint32_loop (pb_istream_from_buffer (0x80 # bs)) 0 p = varint32_loop (pb_istream_from_buffer bs) 0 (p + 7)"
  by (simp add: varint32_loop.simps [of "pb_istream_from_buffer (0x80 # bs)"] pb_readbyte_from_buffer Let_def)

lemma of_nat_unat_u8: "of_nat (p mod 256) = (of_nat p :: u8)"
  by (simp add: word_unat_eq_iff unat_of_nat)

lemma varint32_loop_padding:
  "b AND 0x80 = 0 \<Longrightarrow>
   snd (varint32_loop (pb_istream_from_buffer (replicate n 0x80 @ b # rest)) 0 (of_nat p)) =
     (let q = (p + 7 * n) mod 256 in
      if q < 32 then Some (push_bit q (ucast b), b, of_nat (q + 7))
      else if b = 0 then Some (0, b, of_nat (q + 7)) else None)"
proof (induction n arbitrary: p)
  case 0
  have q: "(32 :: u8) \<le> of_nat p \<longleftrightarrow> \<not> p mod 256 < 32" "unat (of_nat p :: u8) = p mod 256"
    by (auto simp: word_le_nat_alt unat_of_nat)
  have q7: "(7 + of_nat (p mod 256) :: u8) = of_nat p + 7"
    using of_nat_unat_u8 [of p] by simp
  show ?case
    by (simp add: varint32_loop.simps [of "pb_istream_from_buffer (b # rest)"] pb_readbyte_from_buffer
        0 low7_small q q7 Let_def add.commute)
next
  case (Suc n)
  have "snd (varint32_loop (pb_istream_from_buffer (replicate (Suc n) 0x80 @ b # rest)) 0 (of_nat p)) =
      snd (varint32_loop (pb_istream_from_buffer (replicate n 0x80 @ b # rest)) 0 (of_nat (p + 7)))"
    by (simp add: varint32_loop_0x80)
  then show ?case using Suc.IH [OF Suc.prems, of "p + 7"] by (simp add: add.assoc)
qed

lemma varint_loop_padding:
  "b AND 0x80 = 0 \<Longrightarrow> p < 71 \<Longrightarrow>
   snd (varint_loop (pb_istream_from_buffer (replicate n 0x80 @ b # rest)) 0 (of_nat p)) =
     (if p + 7 * n < 64 then Some (push_bit (p + 7 * n) (ucast b)) else None)"
proof (induction n arbitrary: p)
  case 0
  have q: "(64 :: u8) \<le> of_nat p \<longleftrightarrow> \<not> p < 64" "unat (of_nat p :: u8) = p"
    using 0(2) by (auto simp: word_le_nat_alt unat_of_nat)
  show ?case
    by (simp add: varint_loop.simps [of "pb_istream_from_buffer (b # rest)"] pb_readbyte_from_buffer
        0 low7_small q Let_def)
next
  case (Suc n)
  have q: "(64 :: u8) \<le> of_nat p \<longleftrightarrow> \<not> p < 64"
    using Suc.prems(2) by (auto simp: word_le_nat_alt unat_of_nat)
  show ?case
  proof (cases "p < 64")
    case True
    have "snd (varint_loop (pb_istream_from_buffer (replicate (Suc n) 0x80 @ b # rest)) 0 (of_nat p)) =
        snd (varint_loop (pb_istream_from_buffer (replicate n 0x80 @ b # rest)) 0 (of_nat (p + 7)))"
      using True q
      by (simp add: varint_loop_0x80)
    then show ?thesis using Suc.IH [OF Suc.prems(1), of "p + 7"] True by (simp add: add.assoc)
  next
    case False
    then show ?thesis using q by (simp add: varint_loop.simps [of "pb_istream_from_buffer (0x80 # replicate n 0x80 @ b # rest)"])
  qed
qed

lemma byte_pos_35: "q < 256 \<Longrightarrow> (of_nat (q + 7) :: u8) = 35 \<longleftrightarrow> q = 28"
proof -
  assume q: "q < 256"
  have "(of_nat (q + 7) :: u8) = 35 \<longleftrightarrow> (q + 7) mod 256 = 35"
    by (simp add: word_unat_eq_iff unat_of_nat del: of_nat_add)
  then show ?thesis using q by (cases "q + 7 < 256") (auto simp: le_mod_geq)
qed

text \<open>C24: A run of padding bytes \<open>0x80\<close> and a last byte \<open>b\<close>: \<open>pb_decode_varint\<close> takes at most nine
  padding bytes and shifts \<open>b\<close> to its place, and rejects the rest.  \<open>pb_decode_varint32\<close> has no such
  limit: its \<open>bitpos\<close> is a byte, so \<open>b\<close> lands at position \<open>7 * n mod 256\<close>.  Runs of any length are
  accepted when that position is below 32 again (37 bytes place \<open>b\<close> at bit 3), and always when
  \<open>b\<close> is 0.\<close>

theorem pb_varint32_overlong_accepted:
  assumes "b AND 0x80 = 0"
  shows "snd (pb_decode_varint32 (pb_istream_from_buffer (replicate n 0x80 @ b # rest))) =
     (let q = (7 * n) mod 256 in
      if q < 32 then (if q = 28 \<and> b AND 0x70 \<noteq> 0 then None else Some (push_bit q (ucast b)))
      else if b = 0 then Some 0 else None) \<and>
   snd (pb_decode_varint (pb_istream_from_buffer (replicate n 0x80 @ b # rest))) =
     (if n < 10 then Some (push_bit (7 * n) (ucast b)) else None)"
proof
  show "snd (pb_decode_varint (pb_istream_from_buffer (replicate n 0x80 @ b # rest))) =
     (if n < 10 then Some (push_bit (7 * n) (ucast b)) else None)"
    using varint_loop_padding [OF assms, of 0 n rest] by (simp add: pb_decode_varint_def)
  show "snd (pb_decode_varint32 (pb_istream_from_buffer (replicate n 0x80 @ b # rest))) =
     (let q = (7 * n) mod 256 in
      if q < 32 then (if q = 28 \<and> b AND 0x70 \<noteq> 0 then None else Some (push_bit q (ucast b)))
      else if b = 0 then Some 0 else None)"
  proof (cases n)
    case 0
    then show ?thesis using assms
      by (simp add: pb_decode_varint32_def pb_decode_varint32_eof_def pb_readbyte_from_buffer)
  next
    case (Suc k)
    let ?q = "(7 + 7 * k) mod 256"
    have q35: "(of_nat (?q + 7) :: u8) = 35 \<longleftrightarrow> ?q = 28" by (rule byte_pos_35) simp
    have "snd (pb_decode_varint32 (pb_istream_from_buffer (replicate n 0x80 @ b # rest))) =
        (case snd (varint32_loop (pb_istream_from_buffer (replicate k 0x80 @ b # rest)) 0 7) of
           None \<Rightarrow> None
         | Some (result, byte', bitpos) \<Rightarrow> if bitpos = 35 \<and> byte' AND 0x70 \<noteq> 0 then None else Some result)"
      by (simp add: Suc pb_decode_varint32_def pb_decode_varint32_eof_def pb_readbyte_from_buffer
          split: prod.splits option.splits)
    then show ?thesis using varint32_loop_padding [OF assms, of k rest 7] q35
      by (simp add: Suc Let_def)
  qed
qed

lemma pb_varint32_overlong_accepted_witness:
  "snd (pb_decode_varint32 (pb_istream_from_buffer (replicate 37 0x80 @ [0x01]))) = Some 8 \<and>
   snd (pb_decode_varint (pb_istream_from_buffer (replicate 37 0x80 @ [0x01]))) = None"
  using pb_varint32_overlong_accepted [of 1 37 "[]"] by (simp add: push_bit_eq_mult)

end
