(* ===== verification/PbMem.thy ===== *)
theory PbMem
  imports PbEncode
begin

text \<open>
  The memory the message structures of nanopb live in: a byte at every 64-bit address.  Pointers,
  counts and integers are stored in little-endian order, as on the targets of the pods.
\<close>

unbundle bit_operations_syntax

type_synonym mem = "u64 \<Rightarrow> u8"

fun store :: "mem \<Rightarrow> u64 \<Rightarrow> bytes \<Rightarrow> mem" where
  "store m a [] = m"
| "store m a (b # bs) = store (m(a := b)) (a + 1) bs"

fun load :: "mem \<Rightarrow> u64 \<Rightarrow> nat \<Rightarrow> bytes" where
  "load m a 0 = []"
| "load m a (Suc n) = m a # load m (a + 1) n"

text \<open>\<open>pb_size_t\<close>, pointers and \<open>bool\<close>.\<close>

definition load_size :: "mem \<Rightarrow> u64 \<Rightarrow> u32" where
  "load_size m a = le_word (load m a 4)"

definition store_size :: "mem \<Rightarrow> u64 \<Rightarrow> u32 \<Rightarrow> mem" where
  "store_size m a v = store m a (le_bytes 4 v)"

definition load_ptr :: "mem \<Rightarrow> u64 \<Rightarrow> u64" where
  "load_ptr m a = le_word (load m a 8)"

definition store_ptr :: "mem \<Rightarrow> u64 \<Rightarrow> u64 \<Rightarrow> mem" where
  "store_ptr m a v = store m a (le_bytes 8 v)"

definition store_bool :: "mem \<Rightarrow> u64 \<Rightarrow> bool \<Rightarrow> mem" where
  "store_bool m a b = m(a := if b then 1 else 0)"

definition memset_zero :: "mem \<Rightarrow> u64 \<Rightarrow> u32 \<Rightarrow> mem" where
  "memset_zero m a n = store m a (replicate (unat n) 0)"

definition c_memcpy :: "mem \<Rightarrow> u64 \<Rightarrow> u64 \<Rightarrow> u32 \<Rightarrow> mem" where
  "c_memcpy m dst src n = store m dst (load m src (unat n))"

subsection \<open>Blocks of memory\<close>

text \<open>The \<open>n\<close> addresses from \<open>a\<close> on.\<close>

definition block :: "u64 \<Rightarrow> nat \<Rightarrow> u64 set" where
  "block a n = {x. unat (x - a) < n}"

lemma block_iff: "x \<in> block a n \<longleftrightarrow> unat (x - a) < n"
  by (simp add: block_def)

lemma unat_succ_diff: "x \<noteq> a \<Longrightarrow> unat (x - (a + 1)) = unat (x - a :: u64) - 1"
proof -
  assume "x \<noteq> a"
  then have "x - a \<noteq> 0" by simp
  then have "1 \<le> unat (x - a)" by (metis less_one linorder_not_le unat_eq_0)
  then show ?thesis by (simp add: diff_diff_eq [symmetric] unat_sub_if')
qed

lemma block_Suc: "n < 2 ^ 64 \<Longrightarrow> block a (Suc n) = insert a (block (a + 1) n)"
proof (rule set_eqI)
  fix x assume n: "n < 2 ^ 64"
  show "x \<in> block a (Suc n) \<longleftrightarrow> x \<in> insert a (block (a + 1) n)"
  proof (cases "x = a")
    case False
    then have "0 < unat (x - a)" by (simp add: unat_gt_0)
    then show ?thesis using False by (auto simp: block_iff unat_succ_diff)
  qed (simp add: block_iff)
qed

lemma not_in_next_block: "n < 2 ^ 64 \<Longrightarrow> a \<notin> block (a + 1) n"
proof -
  assume "n < 2 ^ 64"
  moreover have "a - (a + 1) = - (1 :: u64)" by simp
  then have "unat (a - (a + 1)) = 2 ^ 64 - 1" by (simp add: unsigned_minus_1_eq_mask mask_eq_exp_minus_1)
  ultimately show ?thesis by (simp add: block_iff)
qed

lemma store_outside:
  "length bs \<le> 2 ^ 64 \<Longrightarrow> x \<notin> block a (length bs) \<Longrightarrow> store m a bs x = m x"
proof (induction bs arbitrary: m a)
  case (Cons b bs)
  then have n: "length bs < 2 ^ 64" by (simp only: list.size(4) add_Suc_right add_0_right Suc_le_eq)
  have x: "x \<noteq> a" "x \<notin> block (a + 1) (length bs)" using block_Suc [OF n, of a] Cons(3) by auto
  have "store (m(a := b)) (a + 1) bs x = (m(a := b)) x"
    using n x(2) by (intro Cons.IH) simp_all
  then show ?case using x(1) by simp
qed simp

lemma store_nth:
  "length bs \<le> 2 ^ 64 \<Longrightarrow> i < length bs \<Longrightarrow> store m a bs (a + of_nat i) = bs ! i"
proof (induction bs arbitrary: m a i)
  case (Cons b bs)
  then have n: "length bs < 2 ^ 64" by (simp only: list.size(4) add_Suc_right add_0_right Suc_le_eq)
  show ?case
  proof (cases i)
    case 0
    have "store (m(a := b)) (a + 1) bs a = (m(a := b)) a"
      using n by (intro store_outside not_in_next_block) simp_all
    then show ?thesis using 0 by simp
  next
    case (Suc j)
    have "store (m(a := b)) (a + 1) bs (a + 1 + of_nat j) = bs ! j"
      using n Suc Cons(3) by (intro Cons.IH) simp_all
    then show ?thesis using Suc by (simp add: add.assoc)
  qed
qed simp

lemma load_eq_map: "load m a n = map (\<lambda>i. m (a + of_nat i)) [0..<n]"
proof (induction m a n rule: load.induct)
  case (2 m a n)
  have "[0..<Suc n] = 0 # map Suc [0..<n]" by (simp add: map_Suc_upt upt_conv_Cons del: upt_Suc)
  then show ?case using 2 by (simp add: add.assoc del: upt_Suc)
qed simp

lemma length_load [simp]: "length (load m a n) = n"
  by (simp add: load_eq_map)

lemma load_cong: "(\<And>x. x \<in> block a n \<Longrightarrow> m x = m' x) \<Longrightarrow> n \<le> 2 ^ 64 \<Longrightarrow> load m a n = load m' a n"
  by (auto simp: load_eq_map block_iff unat_of_nat)

lemma load_store_same: "length bs \<le> 2 ^ 64 \<Longrightarrow> load (store m a bs) a (length bs) = bs"
  by (rule nth_equalityI) (simp_all add: load_eq_map store_nth)

lemma load_store_other:
  "block a n \<inter> block b (length bs) = {} \<Longrightarrow> n \<le> 2 ^ 64 \<Longrightarrow> length bs \<le> 2 ^ 64 \<Longrightarrow>
   load (store m b bs) a n = load m a n"
  by (rule load_cong) (auto intro!: store_outside)

end
