(* ===== verification/PbIter.thy ===== *)
theory PbIter
  imports PbMem
begin

text \<open>
  Field tables and the iterator over the fields of a message struct
  (\<open>Pods/nanopb/pb.h\<close>, \<open>pb_common.c\<close>).  A table is the list of its descriptors without
  the terminating one, whose tag is 0; an iterator holds the position in the list.
\<close>

unbundle bit_operations_syntax

record pb_desc = pb_field +
  data_offset :: u32
  size_offset :: u32
  ptr :: u64

definition PB_LAST_FIELD :: pb_desc where
  "PB_LAST_FIELD = \<lparr>ftag = 0, ftype = 0, data_size = 0, array_size = 0, data_offset = 0,
     size_offset = 0, ptr = 0\<rparr>"

definition PB_HTYPE_REQUIRED :: u8 where "PB_HTYPE_REQUIRED = 0x00"
definition PB_HTYPE_OPTIONAL :: u8 where "PB_HTYPE_OPTIONAL = 0x10"
definition PB_HTYPE_REPEATED :: u8 where "PB_HTYPE_REPEATED = 0x20"
definition PB_HTYPE_ONEOF :: u8 where "PB_HTYPE_ONEOF = 0x30"
definition PB_ATYPE_CALLBACK :: u8 where "PB_ATYPE_CALLBACK = 0x40"
definition PB_LTYPE_BYTES :: u8 where "PB_LTYPE_BYTES = 0x06"
definition PB_LTYPE_STRING :: u8 where "PB_LTYPE_STRING = 0x07"
definition PB_LTYPE_SUBMESSAGE :: u8 where "PB_LTYPE_SUBMESSAGE = 0x08"
definition PB_LTYPE_EXTENSION :: u8 where "PB_LTYPE_EXTENSION = 0x09"
definition PB_LTYPE_FIXED_LENGTH_BYTES :: u8 where "PB_LTYPE_FIXED_LENGTH_BYTES = 0x0A"

lemmas pb_type_defs = PB_HTYPE_REQUIRED_def PB_HTYPE_OPTIONAL_def PB_HTYPE_REPEATED_def
  PB_HTYPE_ONEOF_def PB_ATYPE_CALLBACK_def PB_LTYPE_BYTES_def PB_LTYPE_STRING_def
  PB_LTYPE_SUBMESSAGE_def PB_LTYPE_EXTENSION_def PB_LTYPE_FIXED_LENGTH_BYTES_def
  PB_ATYPE_STATIC_def PB_ATYPE_POINTER_def PB_LTYPE_FIXED32_def PB_LTYPE_FIXED64_def
  PB_LTYPE_LAST_PACKABLE_def

lemma htype_cases:
  "PB_HTYPE t = PB_HTYPE_REQUIRED \<or> PB_HTYPE t = PB_HTYPE_OPTIONAL \<or> PB_HTYPE t = PB_HTYPE_REPEATED \<or>
   PB_HTYPE t = PB_HTYPE_ONEOF"
proof -
  let ?x = "drop_bit 4 t AND mask 2 :: u8"
  have m: "(0x30 :: u8) = push_bit 4 (mask 2)" by (simp add: mask_eq_exp_minus_1)
  have e: "t AND push_bit 4 (mask 2) = push_bit 4 ?x"
    by (rule bit_word_eqI) (auto simp only: bit_and_iff bit_push_bit_iff bit_drop_bit_eq bit_mask_iff o_def le_add_diff_inverse)
  have c: "x < 4 \<Longrightarrow> push_bit 4 x = 0 \<or> push_bit 4 x = 0x10 \<or> push_bit 4 x = 0x20 \<or> push_bit 4 x = 0x30"
    for x :: u8 by (drule word8_less_4) auto
  have "?x < 4" by (rule le_less_trans [OF word_and_le1]) (simp add: mask_eq_exp_minus_1)
  from c [OF this] show ?thesis
    unfolding PB_HTYPE_def pb_type_defs m e by (simp only: m [symmetric])
qed

definition PB_SIZE_MAX :: u32 where "PB_SIZE_MAX = 0xFFFFFFFF"

text \<open>
  \<open>pSize\<close> points into the message struct, into an extension, or, for a repeated field of fixed
  count, to the variable \<open>fixed_count_size\<close> of \<open>pb_decode_noinit\<close>.
\<close>

datatype size_ref = InMem u64 | FixedCount

record pb_field_iter =
  start :: "pb_desc list"
  pos :: nat
  required_field_index :: u32
  dest_struct :: u64
  pData :: u64
  pSize :: size_ref

definition iter_field :: "pb_field_iter \<Rightarrow> pb_desc" where
  "iter_field it = (if pos it < length (start it) then start it ! pos it else PB_LAST_FIELD)"

definition pb_field_iter_begin :: "pb_desc list \<Rightarrow> u64 \<Rightarrow> pb_field_iter \<times> bool" where
  "pb_field_iter_begin fs dest =
     (let field = (if fs = [] then PB_LAST_FIELD else fs ! 0);
          data = dest + ucast (data_offset field)
      in (\<lparr>start = fs, pos = 0, required_field_index = 0, dest_struct = dest, pData = data,
           pSize = InMem (data + scast (size_offset field))\<rparr>, ftag field \<noteq> 0))"

definition pb_field_iter_next :: "pb_field_iter \<Rightarrow> pb_field_iter \<times> bool" where
  "pb_field_iter_next it =
     (let prev = iter_field it in
      if ftag prev = 0 then (it, False)
      else
        let it1 = it\<lparr>pos := pos it + 1\<rparr>; field = iter_field it1
        in if ftag field = 0 then (fst (pb_field_iter_begin (start it) (dest_struct it)), False)
           else if PB_HTYPE (ftype prev) = PB_HTYPE_ONEOF \<and> PB_HTYPE (ftype field) = PB_HTYPE_ONEOF \<and>
                   data_offset field = PB_SIZE_MAX
             then (it1, True)
           else
             let prev_size =
                   (if PB_ATYPE (ftype prev) = PB_ATYPE_STATIC \<and> PB_HTYPE (ftype prev) = PB_HTYPE_REPEATED
                    then ucast (data_size prev) * ucast (array_size prev)
                    else if PB_ATYPE (ftype prev) = PB_ATYPE_POINTER then 8
                    else ucast (data_size prev)) :: u64;
                 data = pData it + prev_size + ucast (data_offset field)
             in (it1\<lparr>required_field_index :=
                       (if PB_HTYPE (ftype prev) = PB_HTYPE_REQUIRED then required_field_index it + 1
                        else required_field_index it),
                     pData := data, pSize := InMem (data + scast (size_offset field))\<rparr>, True))"

text \<open>
  The search loops of \<open>pb_field_iter_find\<close> and \<open>find_extension_field\<close>, which go once around
  the table; \<open>k\<close> is the number of fields, after which the iterator is back at its start.
\<close>

fun iter_search :: "(pb_desc \<Rightarrow> bool) \<Rightarrow> nat \<Rightarrow> nat \<Rightarrow> pb_field_iter \<Rightarrow> pb_field_iter \<times> bool" where
  "iter_search P first 0 it = (it, P (iter_field it))"
| "iter_search P first (Suc k) it =
     (if P (iter_field it) then (it, True)
      else let it' = fst (pb_field_iter_next it)
           in if pos it' = first then (it', False) else iter_search P first k it')"

definition pb_field_iter_find :: "pb_field_iter \<Rightarrow> u32 \<Rightarrow> pb_field_iter \<times> bool" where
  "pb_field_iter_find it tag =
     iter_search (\<lambda>field. ftag field = tag \<and> PB_LTYPE (ftype field) \<noteq> PB_LTYPE_EXTENSION)
       (pos it) (length (start it)) it"

definition find_extension_field :: "pb_field_iter \<Rightarrow> pb_field_iter \<times> bool" where
  "find_extension_field it =
     iter_search (\<lambda>field. PB_LTYPE (ftype field) = PB_LTYPE_EXTENSION) (pos it) (length (start it)) it"

subsection \<open>Where the iterator stands\<close>

text \<open>A table whose descriptors all have a tag; the iterator after \<open>i\<close> steps from the first
  field.\<close>

definition table_ok :: "pb_desc list \<Rightarrow> bool" where
  "table_ok fs \<longleftrightarrow> (\<forall>f \<in> set fs. ftag f \<noteq> 0)"

lemma table_ok_list_all [code]: "table_ok fs \<longleftrightarrow> list_all (\<lambda>f. ftag f \<noteq> 0) fs"
  by (simp add: table_ok_def list_all_iff)

primrec iter_at :: "pb_desc list \<Rightarrow> u64 \<Rightarrow> nat \<Rightarrow> pb_field_iter" where
  "iter_at fs dest 0 = fst (pb_field_iter_begin fs dest)"
| "iter_at fs dest (Suc i) = fst (pb_field_iter_next (iter_at fs dest i))"

lemma iter_begin_simps [simp]:
  "start (fst (pb_field_iter_begin fs dest)) = fs" "pos (fst (pb_field_iter_begin fs dest)) = 0"
  "dest_struct (fst (pb_field_iter_begin fs dest)) = dest"
  by (simp_all add: pb_field_iter_begin_def Let_def)

lemma iter_next_frame [simp]:
  "start (fst (pb_field_iter_next it)) = start it"
  "dest_struct (fst (pb_field_iter_next it)) = dest_struct it"
  by (simp_all add: pb_field_iter_next_def Let_def)

lemma iter_at_frame [simp]:
  "start (iter_at fs dest i) = fs" "dest_struct (iter_at fs dest i) = dest"
  by (induction i) simp_all

lemma iter_next_moves:
  assumes "pb_field_iter_next it = (it', True)"
  shows "pos it' = Suc (pos it)" and "Suc (pos it) < length (start it)" and "start it' = start it"
proof -
  have "ftag (iter_field (it\<lparr>pos := Suc (pos it)\<rparr>)) \<noteq> 0"
    using assms by (auto simp: pb_field_iter_next_def Let_def split: if_splits)
  then show "Suc (pos it) < length (start it)"
    by (auto simp: iter_field_def PB_LAST_FIELD_def split: if_splits)
  show "pos it' = Suc (pos it)" "start it' = start it"
    using assms by (auto simp: pb_field_iter_next_def Let_def split: if_splits)
qed

lemma iter_next_measure:
  "(it', True) = pb_field_iter_next it \<Longrightarrow>
   length (start it') - pos it' < length (start it) - pos it"
  using iter_next_moves [of it it'] by simp

lemma iter_field_in: "pos it < length (start it) \<Longrightarrow> iter_field it = start it ! pos it"
  by (simp add: iter_field_def)

lemma iter_next_pos:
  assumes "table_ok (start it)" and "pos it < length (start it)"
  shows "snd (pb_field_iter_next it) \<longleftrightarrow> Suc (pos it) < length (start it)"
    and "pos (fst (pb_field_iter_next it)) =
      (if Suc (pos it) < length (start it) then Suc (pos it) else 0)"
    and "\<not> Suc (pos it) < length (start it) \<Longrightarrow>
      fst (pb_field_iter_next it) = fst (pb_field_iter_begin (start it) (dest_struct it))"
proof -
  have "ftag (iter_field it) \<noteq> 0"
    using assms by (simp add: iter_field_in table_ok_def)
  moreover have "ftag (iter_field (it\<lparr>pos := Suc (pos it)\<rparr>)) = 0 \<longleftrightarrow> \<not> Suc (pos it) < length (start it)"
    using assms(1) by (auto simp: iter_field_def table_ok_def PB_LAST_FIELD_def)
  ultimately show "snd (pb_field_iter_next it) \<longleftrightarrow> Suc (pos it) < length (start it)"
    and "pos (fst (pb_field_iter_next it)) =
      (if Suc (pos it) < length (start it) then Suc (pos it) else 0)"
    and "\<not> Suc (pos it) < length (start it) \<Longrightarrow>
      fst (pb_field_iter_next it) = fst (pb_field_iter_begin (start it) (dest_struct it))"
    by (auto simp: pb_field_iter_next_def Let_def)
qed

lemma iter_at_pos [simp]:
  "table_ok fs \<Longrightarrow> i < length fs \<Longrightarrow> pos (iter_at fs dest i) = i"
  by (induction i) (simp_all add: iter_next_pos)

lemma iter_at_next:
  assumes "table_ok fs" and "i < length fs"
  shows "fst (pb_field_iter_next (iter_at fs dest i)) = iter_at fs dest (Suc i mod length fs)"
proof (cases "Suc i < length fs")
  case False
  then have "Suc i = length fs" using assms(2) by simp
  then show ?thesis using assms iter_next_pos(3) [of "iter_at fs dest i"] by simp
qed simp

text \<open>The search visits the fields in cyclic order and stops at the first that satisfies the
  predicate, or back at the start.\<close>

definition cyclic :: "nat \<Rightarrow> nat \<Rightarrow> nat \<Rightarrow> nat list" where
  "cyclic n s c = (if s \<le> c then [c..<n] @ [0..<s] else [c..<s])"

lemma cyclic_Cons:
  assumes "s < n" and "c < n"
  shows "cyclic n s c = c # (if Suc c mod n = s then [] else cyclic n s (Suc c mod n))"
proof (cases "Suc c < n")
  case True
  then show ?thesis using assms
    by (cases "Suc c = s") (auto simp: cyclic_def upt_conv_Cons)
next
  case False
  then have "Suc c = n" using assms by simp
  then show ?thesis using assms by (auto simp: cyclic_def upt_conv_Cons)
qed

lemma iter_search_at:
  assumes "table_ok fs" and "s < length fs" and "c < length fs"
    and "length (cyclic (length fs) s c) \<le> k"
  shows "iter_search P s k (iter_at fs dest c) =
    (case find (\<lambda>n. P (fs ! n)) (cyclic (length fs) s c) of
       Some n \<Rightarrow> (iter_at fs dest n, True) | None \<Rightarrow> (iter_at fs dest s, False))"
  using assms(3,4)
proof (induction k arbitrary: c)
  case 0
  then show ?case using cyclic_Cons [OF assms(2), of c] by simp
next
  case (Suc k)
  let ?c = "Suc c mod length fs"
  have f: "iter_field (iter_at fs dest c) = fs ! c"
    using assms(1) Suc.prems by (simp add: iter_field_def)
  have c: "?c < length fs" using assms(2) by (intro mod_less_divisor) linarith
  show ?case
  proof (cases "P (fs ! c)")
    case True
    then show ?thesis using f cyclic_Cons [OF assms(2) Suc.prems(1)] by simp
  next
    case False
    have "?c = s \<or> length (cyclic (length fs) s ?c) \<le> k"
      using Suc.prems(2) cyclic_Cons [OF assms(2) Suc.prems(1)] by (auto split: if_splits)
    then show ?thesis
      using False f c Suc.IH [OF c] cyclic_Cons [OF assms(2) Suc.prems(1)] assms(1) Suc.prems(1)
      by (auto simp: iter_at_next Let_def)
  qed
qed

lemma iter_find_at:
  assumes "table_ok fs" and "i < length fs"
  shows "pb_field_iter_find (iter_at fs dest i) tag =
    (case find (\<lambda>n. ftag (fs ! n) = tag \<and> PB_LTYPE (ftype (fs ! n)) \<noteq> PB_LTYPE_EXTENSION)
            ([i..<length fs] @ [0..<i]) of
       Some n \<Rightarrow> (iter_at fs dest n, True) | None \<Rightarrow> (iter_at fs dest i, False))"
  unfolding pb_field_iter_find_def iter_at_pos [OF assms] iter_at_frame
  by (subst iter_search_at [OF assms(1,2,2)]) (use assms in \<open>simp_all add: cyclic_def\<close>)

lemma find_extension_at:
  assumes "table_ok fs" and "i < length fs"
  shows "find_extension_field (iter_at fs dest i) =
    (case find (\<lambda>n. PB_LTYPE (ftype (fs ! n)) = PB_LTYPE_EXTENSION) ([i..<length fs] @ [0..<i]) of
       Some n \<Rightarrow> (iter_at fs dest n, True) | None \<Rightarrow> (iter_at fs dest i, False))"
  unfolding find_extension_field_def iter_at_pos [OF assms] iter_at_frame
  by (subst iter_search_at [OF assms(1,2,2)]) (use assms in \<open>simp_all add: cyclic_def\<close>)

end
