(* ===== verification/PbMessage.thy ===== *)
theory PbMessage
  imports PbIter
begin

text \<open>
  Decoding whole messages (\<open>Pods/nanopb/pb_decode.c\<close>): the storing decoders of the field types,
  static, allocated and callback fields, extensions, default values, release of allocated fields and
  the loop over the fields of the input.

  What the code calls and does not contain is in the environment \<open>pb_env\<close>: the constant field
  tables by address, the C library's \<open>realloc\<close> and \<open>free\<close> on the memory, the callback
  functions of the application by their address, and the memory stream at the type of the input
  streams.  Loops and recursions that the data or a callback can prolong count down fuel; the result
  \<open>None\<close> means that the fuel was used up (or, for a field of a type that has no decoder, that
  the C code calls a null pointer).  A callback of an input stream that fails is taken to have stored
  nothing.
\<close>

unbundle bit_operations_syntax

record 's pb_env =
  fields_at :: "u64 \<Rightarrow> pb_desc list"
  env_realloc :: "mem \<Rightarrow> u64 \<Rightarrow> u64 \<Rightarrow> mem \<times> u64"
  env_free :: "mem \<Rightarrow> u64 \<Rightarrow> mem"
  field_callback ::
    "u64 \<Rightarrow> 's pb_istream \<Rightarrow> pb_desc \<Rightarrow> u64 \<Rightarrow> mem \<Rightarrow> 's pb_istream \<times> mem \<times> bool"
  extension_callback ::
    "u64 \<Rightarrow> 's pb_istream \<Rightarrow> u64 \<Rightarrow> u32 \<Rightarrow> u32 \<Rightarrow> mem \<Rightarrow> 's pb_istream \<times> mem \<times> bool"
  buffer_stream :: "bytes \<Rightarrow> 's pb_istream"

text \<open>The results of the operations: the stream, the memory and the success flag.\<close>

type_synonym 's dec_result = "('s pb_istream \<times> mem \<times> bool) option"

text \<open>A decoder of messages: table, destination.\<close>

type_synonym 's msg_decoder = "'s pb_istream \<Rightarrow> u64 \<Rightarrow> u64 \<Rightarrow> mem \<Rightarrow> 's dec_result"

subsection \<open>Decoders that store\<close>

definition pb_dec_bool_to :: "'s pb_istream \<Rightarrow> u64 \<Rightarrow> mem \<Rightarrow> 's pb_istream \<times> mem \<times> bool" where
  "pb_dec_bool_to s dest m =
     (case pb_decode_varint32 s of
        (s', None) \<Rightarrow> (s', m, False)
      | (s', Some value) \<Rightarrow> (s', store_bool m dest (value \<noteq> 0), True))"

text \<open>An integer field stores the low \<open>data_size\<close> bytes; the check that nothing was cut off
  comes after the store.\<close>

definition store_int :: "mem \<Rightarrow> u64 \<Rightarrow> u32 \<Rightarrow> u64 \<Rightarrow> mem option" where
  "store_int m dest n v =
     (if n = 8 \<or> n = 4 \<or> n = 2 \<or> n = 1 then Some (store m dest (le_bytes (unat n) v)) else None)"

definition pb_dec_varint_to ::
    "'s pb_istream \<Rightarrow> pb_desc \<Rightarrow> u64 \<Rightarrow> mem \<Rightarrow> 's pb_istream \<times> mem \<times> bool" where
  "pb_dec_varint_to s field dest m =
     (case pb_decode_varint s of
        (s', None) \<Rightarrow> (s', m, False)
      | (s', Some value) \<Rightarrow>
          let svalue = (if data_size field = 8 then value else scast (ucast value :: u32))
          in (case store_int m dest (data_size field) svalue of
                None \<Rightarrow> (pb_set_error s' ''invalid data_size'', m, False)
              | Some m' \<Rightarrow>
                  if to_signed (data_size field) (sint svalue) \<noteq> Some (sint svalue)
                  then (pb_set_error s' ''integer too large'', m', False)
                  else (s', m', True)))"

definition pb_dec_uvarint_to ::
    "'s pb_istream \<Rightarrow> pb_desc \<Rightarrow> u64 \<Rightarrow> mem \<Rightarrow> 's pb_istream \<times> mem \<times> bool" where
  "pb_dec_uvarint_to s field dest m =
     (case pb_decode_varint s of
        (s', None) \<Rightarrow> (s', m, False)
      | (s', Some value) \<Rightarrow>
          (case store_int m dest (data_size field) value of
             None \<Rightarrow> (pb_set_error s' ''invalid data_size'', m, False)
           | Some m' \<Rightarrow>
               if to_unsigned (data_size field) value \<noteq> Some value
               then (pb_set_error s' ''integer too large'', m', False)
               else (s', m', True)))"

definition pb_dec_svarint_to ::
    "'s pb_istream \<Rightarrow> pb_desc \<Rightarrow> u64 \<Rightarrow> mem \<Rightarrow> 's pb_istream \<times> mem \<times> bool" where
  "pb_dec_svarint_to s field dest m =
     (case pb_decode_svarint s of
        (s', None) \<Rightarrow> (s', m, False)
      | (s', Some value) \<Rightarrow>
          (case store_int m dest (data_size field) value of
             None \<Rightarrow> (pb_set_error s' ''invalid data_size'', m, False)
           | Some m' \<Rightarrow>
               if to_signed (data_size field) (sint value) \<noteq> Some (sint value)
               then (pb_set_error s' ''integer too large'', m', False)
               else (s', m', True)))"

definition pb_dec_fixed32_to :: "'s pb_istream \<Rightarrow> u64 \<Rightarrow> mem \<Rightarrow> 's pb_istream \<times> mem \<times> bool" where
  "pb_dec_fixed32_to s dest m =
     (case pb_decode_fixed32 s of
        (s', None) \<Rightarrow> (s', m, False)
      | (s', Some v) \<Rightarrow> (s', store m dest (le_bytes 4 v), True))"

definition pb_dec_fixed64_to :: "'s pb_istream \<Rightarrow> u64 \<Rightarrow> mem \<Rightarrow> 's pb_istream \<times> mem \<times> bool" where
  "pb_dec_fixed64_to s dest m =
     (case pb_decode_fixed64 s of
        (s', None) \<Rightarrow> (s', m, False)
      | (s', Some v) \<Rightarrow> (s', store m dest (le_bytes 8 v), True))"

text \<open>\<open>allocate_field\<close> on the pointer stored at \<open>pd\<close>.\<close>

definition allocate_field_at ::
    "'s pb_env \<Rightarrow> 's pb_istream \<Rightarrow> u64 \<Rightarrow> u64 \<Rightarrow> u64 \<Rightarrow> mem \<Rightarrow> 's pb_istream \<times> mem \<times> bool" where
  "allocate_field_at env s pd dsize asize m =
     (if dsize = 0 \<or> asize = 0 then (pb_set_error s ''invalid size'', m, False)
      else if (push_bit 32 1 \<le> dsize \<or> push_bit 32 1 \<le> asize) \<and> (- 1) div asize < dsize
        then (pb_set_error s ''size too large'', m, False)
      else (case env_realloc env m (load_ptr m pd) (asize * dsize) of
              (m', p) \<Rightarrow> if p = 0 then (pb_set_error s ''realloc failed'', m', False)
                         else (s, store_ptr m' pd p, True)))"

text \<open>Reading \<open>n\<close> bytes into memory.\<close>

definition pb_read_to :: "'s pb_istream \<Rightarrow> nat \<Rightarrow> u64 \<Rightarrow> mem \<Rightarrow> 's pb_istream \<times> mem \<times> bool" where
  "pb_read_to s n dest m =
     (case pb_read s n of
        (s', None) \<Rightarrow> (s', m, False)
      | (s', Some bs) \<Rightarrow> (s', store m dest bs, True))"

definition pb_dec_bytes_to ::
    "'s pb_env \<Rightarrow> 's pb_istream \<Rightarrow> pb_desc \<Rightarrow> u64 \<Rightarrow> mem \<Rightarrow> 's pb_istream \<times> mem \<times> bool" where
  "pb_dec_bytes_to env s field dest m =
     (let fill = (\<lambda>t bdest sz m. pb_read_to t (unat sz) (bdest + 4) (store_size m bdest sz)) in
      case pb_decode_varint32 s of
        (s', None) \<Rightarrow> (s', m, False)
      | (s', Some sz) \<Rightarrow>
          let alloc_size = (ucast sz :: u64) + 4
          in if alloc_size < ucast sz then (pb_set_error s' ''size too large'', m, False)
             else if PB_ATYPE (ftype field) = PB_ATYPE_POINTER then
               (if bytes_left s' < unat sz then (pb_set_error s' ''end-of-stream'', m, False)
                else (case allocate_field_at env s' dest alloc_size 1 m of
                        (s'', m', False) \<Rightarrow> (s'', m', False)
                      | (s'', m', True) \<Rightarrow> fill s'' (load_ptr m' dest) sz m'))
             else if ucast (data_size field) < alloc_size then (pb_set_error s' ''bytes overflow'', m, False)
             else fill s' dest sz m)"

text \<open>The terminator is stored whether the read succeeds or not.\<close>

definition pb_dec_string_to ::
    "'s pb_env \<Rightarrow> 's pb_istream \<Rightarrow> pb_desc \<Rightarrow> u64 \<Rightarrow> mem \<Rightarrow> 's pb_istream \<times> mem \<times> bool" where
  "pb_dec_string_to env s field dest m =
     (let fill = (\<lambda>t sdest sz m.
            case pb_read_to t (unat sz) sdest m of
              (t', m', status) \<Rightarrow> (t', store m' (sdest + ucast sz) [0], status)) in
      case pb_decode_varint32 s of
        (s', None) \<Rightarrow> (s', m, False)
      | (s', Some sz) \<Rightarrow>
          let alloc_size = ucast (sz + 1) :: u64
          in if alloc_size < ucast sz then (pb_set_error s' ''size too large'', m, False)
             else if PB_ATYPE (ftype field) = PB_ATYPE_POINTER then
               (if bytes_left s' < unat sz then (pb_set_error s' ''end-of-stream'', m, False)
                else (case allocate_field_at env s' dest alloc_size 1 m of
                        (s'', m', False) \<Rightarrow> (s'', m', False)
                      | (s'', m', True) \<Rightarrow> fill s'' (load_ptr m' dest) sz m'))
             else if ucast (data_size field) < alloc_size then (pb_set_error s' ''string overflow'', m, False)
             else fill s' dest sz m)"

definition pb_dec_fixed_length_bytes_to ::
    "'s pb_istream \<Rightarrow> pb_desc \<Rightarrow> u64 \<Rightarrow> mem \<Rightarrow> 's pb_istream \<times> mem \<times> bool" where
  "pb_dec_fixed_length_bytes_to s field dest m =
     (case pb_decode_varint32 s of
        (s', None) \<Rightarrow> (s', m, False)
      | (s', Some sz) \<Rightarrow>
          if sz = 0 then (s', memset_zero m dest (data_size field), True)
          else if sz \<noteq> data_size field
            then (pb_set_error s' ''incorrect fixed length bytes size'', m, False)
          else pb_read_to s' (unat (data_size field)) dest m)"

text \<open>\<open>dec_init\<close> and \<open>dec_noinit\<close> are \<open>pb_decode\<close> and \<open>pb_decode_noinit\<close>.\<close>

definition pb_dec_submessage ::
    "'s msg_decoder \<Rightarrow> 's msg_decoder \<Rightarrow> 's pb_istream \<Rightarrow> pb_desc \<Rightarrow> u64 \<Rightarrow> mem \<Rightarrow> 's dec_result" where
  "pb_dec_submessage dec_init dec_noinit s field dest m =
     (case pb_make_string_substream s of
        (s', None) \<Rightarrow> Some (s', m, False)
      | (s', Some sub) \<Rightarrow>
          if ptr field = 0 then Some (pb_set_error s' ''invalid field descriptor'', m, False)
          else
            (case (if PB_HTYPE (ftype field) = PB_HTYPE_REPEATED then dec_init sub (ptr field) dest m
                   else dec_noinit sub (ptr field) dest m) of
               None \<Rightarrow> None
             | Some (sub', m', status) \<Rightarrow>
                 (case pb_close_string_substream s' sub' of
                    (s'', None) \<Rightarrow> Some (s'', m', False)
                  | (s'', Some _) \<Rightarrow> Some (s'', m', status))))"

text \<open>The table \<open>PB_DECODERS\<close>; the entry of extensions is null.\<close>

definition PB_DECODERS ::
    "'s pb_env \<Rightarrow> 's msg_decoder \<Rightarrow> 's msg_decoder \<Rightarrow> pb_desc \<Rightarrow>
     's pb_istream \<Rightarrow> u64 \<Rightarrow> mem \<Rightarrow> 's dec_result" where
  "PB_DECODERS env dec_init dec_noinit field s dest m =
     (let lt = PB_LTYPE (ftype field) in
      if lt = 0x00 then Some (pb_dec_bool_to s dest m)
      else if lt = 0x01 then Some (pb_dec_varint_to s field dest m)
      else if lt = 0x02 then Some (pb_dec_uvarint_to s field dest m)
      else if lt = 0x03 then Some (pb_dec_svarint_to s field dest m)
      else if lt = PB_LTYPE_FIXED32 then Some (pb_dec_fixed32_to s dest m)
      else if lt = PB_LTYPE_FIXED64 then Some (pb_dec_fixed64_to s dest m)
      else if lt = PB_LTYPE_BYTES then Some (pb_dec_bytes_to env s field dest m)
      else if lt = PB_LTYPE_STRING then Some (pb_dec_string_to env s field dest m)
      else if lt = PB_LTYPE_SUBMESSAGE then pb_dec_submessage dec_init dec_noinit s field dest m
      else if lt = PB_LTYPE_FIXED_LENGTH_BYTES then Some (pb_dec_fixed_length_bytes_to s field dest m)
      else None)"

subsection \<open>Extensions in memory\<close>

text \<open>The members of \<open>pb_extension_t\<close> and \<open>pb_extension_type_t\<close>.\<close>

definition ext_type :: "mem \<Rightarrow> u64 \<Rightarrow> u64" where "ext_type m e = load_ptr m e"
definition ext_dest :: "mem \<Rightarrow> u64 \<Rightarrow> u64" where "ext_dest m e = load_ptr m (e + 8)"
definition ext_next :: "mem \<Rightarrow> u64 \<Rightarrow> u64" where "ext_next m e = load_ptr m (e + 16)"
definition ext_decode :: "mem \<Rightarrow> u64 \<Rightarrow> u64" where "ext_decode m e = load_ptr m (ext_type m e)"
definition ext_arg :: "mem \<Rightarrow> u64 \<Rightarrow> u64" where "ext_arg m e = load_ptr m (ext_type m e + 16)"
definition set_ext_found :: "mem \<Rightarrow> u64 \<Rightarrow> bool \<Rightarrow> mem" where
  "set_ext_found m e b = store_bool m (e + 24) b"

definition iter_from_extension :: "'s pb_env \<Rightarrow> mem \<Rightarrow> u64 \<Rightarrow> pb_field_iter" where
  "iter_from_extension env m e =
     (let it = fst (pb_field_iter_begin (fields_at env (ext_arg m e)) (ext_dest m e))
      in it\<lparr>pData := (if PB_ATYPE (ftype (iter_field it)) = PB_ATYPE_POINTER then e + 8 else ext_dest m e),
            pSize := InMem (e + 24)\<rparr>)"

subsection \<open>Default values\<close>

text \<open>The \<open>pSize\<close> of a field in memory: \<open>*(bool*\<close>)\<open>pSize\<close> and
  \<open>*(pb_size_t*)pSize\<close>; \<open>fc\<close> is \<open>fixed_count_size\<close>.\<close>

definition set_has :: "pb_field_iter \<Rightarrow> bool \<Rightarrow> mem \<Rightarrow> mem" where
  "set_has it b m = (case pSize it of InMem a \<Rightarrow> store_bool m a b | FixedCount \<Rightarrow> m)"

definition get_count :: "pb_field_iter \<Rightarrow> mem \<Rightarrow> u32 \<Rightarrow> u32" where
  "get_count it m fc = (case pSize it of InMem a \<Rightarrow> load_size m a | FixedCount \<Rightarrow> fc)"

definition set_count :: "pb_field_iter \<Rightarrow> u32 \<Rightarrow> mem \<Rightarrow> u32 \<Rightarrow> mem \<times> u32" where
  "set_count it n m fc =
     (case pSize it of InMem a \<Rightarrow> (store_size m a n, fc) | FixedCount \<Rightarrow> (m, n))"

definition has_own_size :: "pb_field_iter \<Rightarrow> bool" where
  "has_own_size it \<longleftrightarrow> pSize it \<noteq> InMem (pData it)"

text \<open>
  \<open>for_fields f\<close> is the loop \<open>do f(&iter); while (pb_field_iter_next(&iter))\<close>,
  \<open>for_extensions f\<close> the one along the \<open>next\<close> pointers of a list of extensions.
\<close>

function for_fields ::
    "(pb_field_iter \<Rightarrow> 'c \<Rightarrow> 'c option) \<Rightarrow> pb_field_iter \<Rightarrow> 'c \<Rightarrow> 'c option" where
  "for_fields f it m =
     (case f it m of
        None \<Rightarrow> None
      | Some m' \<Rightarrow>
          (case pb_field_iter_next it of
             (it', b) \<Rightarrow> if b then for_fields f it' m' else Some m'))"
  by pat_completeness auto
termination for_fields
  by (relation "measure (\<lambda>(_, it, _). length (start it) - pos it)")
     (auto intro: iter_next_measure)

declare for_fields.simps [simp del]

primrec for_extensions ::
    "(u64 \<Rightarrow> mem \<Rightarrow> mem option) \<Rightarrow> nat \<Rightarrow> u64 \<Rightarrow> mem \<Rightarrow> mem option" where
  "for_extensions f 0 e m = None"
| "for_extensions f (Suc k) e m =
     (if e = 0 then Some m
      else (case f e m of
              None \<Rightarrow> None
            | Some m' \<Rightarrow> for_extensions f k (ext_next m' e) m'))"

text \<open>The loops over the fields of a message, on what is done with one field.\<close>

definition message_fields ::
    "'s pb_env \<Rightarrow> (pb_field_iter \<Rightarrow> mem \<Rightarrow> mem option) \<Rightarrow> u64 \<Rightarrow> u64 \<Rightarrow> mem \<Rightarrow> mem option" where
  "message_fields env f tab dest m =
     (case pb_field_iter_begin (fields_at env tab) dest of
        (it, False) \<Rightarrow> Some m
      | (it, True) \<Rightarrow> for_fields f it m)"

primrec pb_field_set_to_default :: "'s pb_env \<Rightarrow> nat \<Rightarrow> pb_field_iter \<Rightarrow> mem \<Rightarrow> mem option" where
  "pb_field_set_to_default env 0 it m = None"
| "pb_field_set_to_default env (Suc k) it m =
     (let field = iter_field it; t = ftype field in
      if PB_LTYPE t = PB_LTYPE_EXTENSION then
        for_extensions
          (\<lambda>e m. let m' = set_ext_found m e False
                 in pb_field_set_to_default env k (iter_from_extension env m' e) m')
          k (load_ptr m (pData it)) m
      else if PB_ATYPE t = PB_ATYPE_STATIC then
        (let is_array = (PB_HTYPE t = PB_HTYPE_REPEATED \<or> PB_HTYPE t = PB_HTYPE_ONEOF);
             m' = (if PB_HTYPE t = PB_HTYPE_OPTIONAL \<and> has_own_size it then set_has it False m
                   else if is_array then fst (set_count it 0 m 0) else m)
         in if is_array then Some m'
            else if PB_LTYPE t = PB_LTYPE_SUBMESSAGE
              then message_fields env (pb_field_set_to_default env k) (ptr field) (pData it) m'
            else if ptr field \<noteq> 0 then Some (c_memcpy m' (pData it) (ptr field) (data_size field))
            else Some (memset_zero m' (pData it) (data_size field)))
      else if PB_ATYPE t = PB_ATYPE_POINTER then
        (let m' = store_ptr m (pData it) 0
         in Some (if PB_HTYPE t = PB_HTYPE_REPEATED \<or> PB_HTYPE t = PB_HTYPE_ONEOF
                  then fst (set_count it 0 m' 0) else m'))
      else Some m)"

definition pb_message_set_to_defaults :: "'s pb_env \<Rightarrow> nat \<Rightarrow> u64 \<Rightarrow> u64 \<Rightarrow> mem \<Rightarrow> mem option" where
  "pb_message_set_to_defaults env k tab dest m =
     message_fields env (pb_field_set_to_default env k) tab dest m"

subsection \<open>Static fields\<close>

text \<open>
  An operation on a field gives the stream, the memory, \<open>fixed_count_size\<close> and the success flag.
\<close>

type_synonym 's field_result = "('s pb_istream \<times> mem \<times> u32 \<times> bool) option"

definition with_count :: "u32 \<Rightarrow> 's dec_result \<Rightarrow> 's field_result" where
  "with_count fc r = (case r of None \<Rightarrow> None | Some (s, m, ok) \<Rightarrow> Some (s, m, fc, ok))"

text \<open>The address of entry \<open>n\<close>: the product is computed in \<open>pb_size_t\<close>.\<close>

definition array_item :: "u64 \<Rightarrow> pb_desc \<Rightarrow> u32 \<Rightarrow> u64" where
  "array_item base field n = base + ucast (data_size field * n)"

text \<open>The loop over a packed array; the stream is the sub-stream.\<close>

fun packed_static_loop ::
    "('s pb_istream \<Rightarrow> u64 \<Rightarrow> mem \<Rightarrow> 's dec_result) \<Rightarrow> nat \<Rightarrow> pb_field_iter \<Rightarrow>
     's pb_istream \<Rightarrow> mem \<Rightarrow> u32 \<Rightarrow> 's field_result" where
  "packed_static_loop func 0 it sub m fc = None"
| "packed_static_loop func (Suc k) it sub m fc =
     (let n = get_count it m fc in
      if 0 < bytes_left sub \<and> n < array_size (iter_field it) then
        (case func sub (array_item (pData it) (iter_field it) n) m of
           None \<Rightarrow> None
         | Some (sub', m', False) \<Rightarrow> Some (sub', m', fc, False)
         | Some (sub', m', True) \<Rightarrow>
             (case set_count it (get_count it m' fc + 1) m' fc of
                (m'', fc') \<Rightarrow> packed_static_loop func k it sub' m'' fc'))
      else Some (sub, m, fc, True))"

definition decode_static_field ::
    "'s pb_env \<Rightarrow> nat \<Rightarrow> 's msg_decoder \<Rightarrow> 's msg_decoder \<Rightarrow> 's pb_istream \<Rightarrow> u32 \<Rightarrow>
     pb_field_iter \<Rightarrow> mem \<Rightarrow> u32 \<Rightarrow> 's field_result" where
  "decode_static_field env k dec_init dec_noinit s wire_type it m fc =
     (let field = iter_field it; t = ftype field; func = PB_DECODERS env dec_init dec_noinit field in
      if PB_HTYPE t = PB_HTYPE_REQUIRED then with_count fc (func s (pData it) m)
      else if PB_HTYPE t = PB_HTYPE_OPTIONAL then
        with_count fc (func s (pData it) (if has_own_size it then set_has it True m else m))
      else if PB_HTYPE t = PB_HTYPE_REPEATED then
        (if wire_type = PB_WT_STRING \<and> PB_LTYPE t \<le> PB_LTYPE_LAST_PACKABLE then
           (case pb_make_string_substream s of
              (s', None) \<Rightarrow> Some (s', m, fc, False)
            | (s', Some sub) \<Rightarrow>
                (case packed_static_loop func k it sub m fc of
                   None \<Rightarrow> None
                 | Some (sub', m', fc', status) \<Rightarrow>
                     if bytes_left sub' \<noteq> 0 then Some (pb_set_error s' ''array overflow'', m', fc', False)
                     else (case pb_close_string_substream s' sub' of
                             (s'', None) \<Rightarrow> Some (s'', m', fc', False)
                           | (s'', Some _) \<Rightarrow> Some (s'', m', fc', status))))
         else
           (let n = get_count it m fc in
            case set_count it (n + 1) m fc of
              (m', fc') \<Rightarrow>
                if array_size field \<le> n then Some (pb_set_error s ''array overflow'', m', fc', False)
                else with_count fc' (func s (array_item (pData it) field n) m')))
      else
        (let m1 = (if PB_LTYPE t = PB_LTYPE_SUBMESSAGE \<and> get_count it m fc \<noteq> ftag field
                   then pb_message_set_to_defaults env k (ptr field) (pData it)
                          (memset_zero m (pData it) (data_size field))
                   else Some m)
         in case m1 of
              None \<Rightarrow> None
            | Some m2 \<Rightarrow>
                (case set_count it (ftag field) m2 fc of
                   (m3, fc') \<Rightarrow> with_count fc' (func s (pData it) m3))))"

subsection \<open>Releasing allocated fields\<close>

text \<open>
  \<open>release_items\<close> is the loop over the messages of an array, \<open>release_strings\<close> the one over
  the pointers of an array of strings.
\<close>

fun release_strings :: "'s pb_env \<Rightarrow> nat \<Rightarrow> u64 \<Rightarrow> mem \<Rightarrow> mem" where
  "release_strings env 0 p m = m"
| "release_strings env (Suc n) p m =
     release_strings env n (p + 8) (store_ptr (env_free env m (load_ptr m p)) p 0)"

definition release_count :: "pb_field_iter \<Rightarrow> mem \<Rightarrow> u32" where
  "release_count it m =
     (let field = iter_field it; t = ftype field in
      if PB_HTYPE t \<noteq> PB_HTYPE_REPEATED then 1
      else
        let count = (if PB_ATYPE t = PB_ATYPE_STATIC \<and> \<not> has_own_size it then array_size field
                     else get_count it m 0)
        in if PB_ATYPE t = PB_ATYPE_STATIC \<and> array_size field < count then array_size field else count)"

text \<open>The end of \<open>pb_release_single_field\<close>, for pointer fields.\<close>

definition release_pointer :: "'s pb_env \<Rightarrow> pb_field_iter \<Rightarrow> mem \<Rightarrow> mem" where
  "release_pointer env it m =
     (let t = ftype (iter_field it);
          m1 = (if PB_HTYPE t = PB_HTYPE_REPEATED \<and>
                   (PB_LTYPE t = PB_LTYPE_STRING \<or> PB_LTYPE t = PB_LTYPE_BYTES)
                then release_strings env (unat (get_count it m 0)) (load_ptr m (pData it)) m else m);
          m2 = (if PB_HTYPE t = PB_HTYPE_REPEATED then fst (set_count it 0 m1 0) else m1)
      in store_ptr (env_free env m2 (load_ptr m2 (pData it))) (pData it) 0)"

fun release_items ::
    "(u64 \<Rightarrow> u64 \<Rightarrow> mem \<Rightarrow> mem option) \<Rightarrow> pb_desc \<Rightarrow> nat \<Rightarrow> u64 \<Rightarrow> mem \<Rightarrow> mem option" where
  "release_items rel field 0 item m = Some m"
| "release_items rel field (Suc n) item m =
     (case rel (ptr field) item m of
        None \<Rightarrow> None
      | Some m' \<Rightarrow> release_items rel field n (item + ucast (data_size field)) m')"

definition release_message ::
    "'s pb_env \<Rightarrow> (pb_field_iter \<Rightarrow> mem \<Rightarrow> mem option) \<Rightarrow> u64 \<Rightarrow> u64 \<Rightarrow> mem \<Rightarrow> mem option" where
  "release_message env single tab dest m =
     (if dest = 0 then Some m else message_fields env single tab dest m)"

primrec pb_release_single_field :: "'s pb_env \<Rightarrow> nat \<Rightarrow> pb_field_iter \<Rightarrow> mem \<Rightarrow> mem option" where
  "pb_release_single_field env 0 it m = None"
| "pb_release_single_field env (Suc k) it m =
     (let field = iter_field it; t = ftype field in
      if PB_HTYPE t = PB_HTYPE_ONEOF \<and> get_count it m 0 \<noteq> ftag field then Some m
      else
        let m1 =
          (if PB_LTYPE t = PB_LTYPE_EXTENSION then
             for_extensions (\<lambda>e m. pb_release_single_field env k (iter_from_extension env m e) m)
               k (load_ptr m (pData it)) m
           else if PB_LTYPE t = PB_LTYPE_SUBMESSAGE \<and> PB_ATYPE t \<noteq> PB_ATYPE_CALLBACK then
             (let item = (if PB_ATYPE t = PB_ATYPE_POINTER then load_ptr m (pData it) else pData it)
              in if item = 0 then Some m
                 else release_items (release_message env (pb_release_single_field env k)) field
                        (unat (release_count it m)) item m)
           else Some m)
        in (case m1 of
              None \<Rightarrow> None
            | Some m2 \<Rightarrow> Some (if PB_ATYPE t = PB_ATYPE_POINTER then release_pointer env it m2 else m2)))"

definition pb_release :: "'s pb_env \<Rightarrow> nat \<Rightarrow> u64 \<Rightarrow> u64 \<Rightarrow> mem \<Rightarrow> mem option" where
  "pb_release env k tab dest m = release_message env (pb_release_single_field env k) tab dest m"

text \<open>The iterator may end up elsewhere, so it is part of the result.\<close>

definition pb_release_union_field ::
    "'s pb_env \<Rightarrow> nat \<Rightarrow> 's pb_istream \<Rightarrow> pb_field_iter \<Rightarrow> mem \<Rightarrow>
     ('s pb_istream \<times> pb_field_iter \<times> mem \<times> bool) option" where
  "pb_release_union_field env k s it m =
     (let old_tag = get_count it m 0; new_tag = ftag (iter_field it) in
      if old_tag = 0 \<or> old_tag = new_tag then Some (s, it, m, True)
      else (case pb_field_iter_find it old_tag of
              (it1, False) \<Rightarrow> Some (pb_set_error s ''invalid union tag'', it1, m, False)
            | (it1, True) \<Rightarrow>
                (case pb_release_single_field env k it1 m of
                   None \<Rightarrow> None
                 | Some m1 \<Rightarrow>
                     (case pb_field_iter_find it1 new_tag of
                        (it2, False) \<Rightarrow> Some (pb_set_error s ''iterator error'', it2, m1, False)
                      | (it2, True) \<Rightarrow>
                          Some (s, it2,
                                if PB_ATYPE (ftype (iter_field it2)) = PB_ATYPE_POINTER
                                then store_ptr m1 (pData it2) 0 else m1, True)))))"

subsection \<open>Allocated fields\<close>

definition initialize_pointer_field ::
    "'s pb_env \<Rightarrow> nat \<Rightarrow> u64 \<Rightarrow> pb_field_iter \<Rightarrow> mem \<Rightarrow> mem option" where
  "initialize_pointer_field env k item it m =
     (let field = iter_field it; t = ftype field in
      if PB_LTYPE t = PB_LTYPE_STRING \<or> PB_LTYPE t = PB_LTYPE_BYTES then Some (store_ptr m item 0)
      else if PB_LTYPE t = PB_LTYPE_SUBMESSAGE
        then pb_message_set_to_defaults env k (ptr field) item (memset_zero m item (data_size field))
      else Some m)"

text \<open>The loop over a packed array in allocated memory; \<open>alloc\<close> is \<open>allocated_size\<close>, the
  second stream is the one that gets the error message.\<close>

fun packed_pointer_loop ::
    "'s pb_env \<Rightarrow> ('s pb_istream \<Rightarrow> u64 \<Rightarrow> mem \<Rightarrow> 's dec_result) \<Rightarrow> nat \<Rightarrow> pb_field_iter \<Rightarrow>
     's pb_istream \<Rightarrow> u64 \<Rightarrow> 's pb_istream \<Rightarrow> mem \<Rightarrow> u32 \<Rightarrow>
     ('s pb_istream \<times> 's pb_istream \<times> mem \<times> u32 \<times> bool) option" where
  "packed_pointer_loop env func 0 it s alloc sub m fc = None"
| "packed_pointer_loop env func (Suc k) it s alloc sub m fc =
     (let field = iter_field it; n = get_count it m fc in
      if bytes_left sub = 0 then Some (s, sub, m, fc, True)
      else if n = PB_SIZE_MAX
        then Some (s\<lparr>errmsg := Some ''too many array entries''\<rparr>, sub, m, fc, False)
      else
        let grow = (alloc < ucast n + 1);
            remain = of_nat ((bytes_left sub - 1) div unat (data_size field) + 1) :: u64;
            alloc' = (if \<not> grow then alloc
                      else if remain < ucast PB_SIZE_MAX - alloc then alloc + remain else alloc + 1)
        in (case (if grow then allocate_field_at env sub (pData it) (ucast (data_size field)) alloc' m
                  else (sub, m, True)) of
              (sub1, m1, False) \<Rightarrow> Some (s, sub1, m1, fc, False)
            | (sub1, m1, True) \<Rightarrow>
                let item = array_item (load_ptr m1 (pData it)) field (get_count it m1 fc)
                in (case initialize_pointer_field env k item it m1 of
                      None \<Rightarrow> None
                    | Some m2 \<Rightarrow>
                        (case func sub1 item m2 of
                           None \<Rightarrow> None
                         | Some (sub2, m3, False) \<Rightarrow> Some (s, sub2, m3, fc, False)
                         | Some (sub2, m3, True) \<Rightarrow>
                             (case set_count it (get_count it m3 fc + 1) m3 fc of
                                (m4, fc') \<Rightarrow> packed_pointer_loop env func k it s alloc' sub2 m4 fc')))))"

definition decode_pointer_field ::
    "'s pb_env \<Rightarrow> nat \<Rightarrow> 's msg_decoder \<Rightarrow> 's msg_decoder \<Rightarrow> 's pb_istream \<Rightarrow> u32 \<Rightarrow>
     pb_field_iter \<Rightarrow> mem \<Rightarrow> u32 \<Rightarrow> 's field_result" where
  "decode_pointer_field env k dec_init dec_noinit s wire_type it m fc =
     (let field = iter_field it; t = ftype field; func = PB_DECODERS env dec_init dec_noinit field;
          is_string = (PB_LTYPE t = PB_LTYPE_STRING \<or> PB_LTYPE t = PB_LTYPE_BYTES) in
      if PB_HTYPE t \<noteq> PB_HTYPE_REPEATED then
        (case (if PB_LTYPE t = PB_LTYPE_SUBMESSAGE \<and> load_ptr m (pData it) \<noteq> 0
               then pb_release_single_field env k it m else Some m) of
           None \<Rightarrow> None
         | Some m1 \<Rightarrow>
             (case (if PB_HTYPE t = PB_HTYPE_ONEOF then set_count it (ftag field) m1 fc else (m1, fc)) of
                (m2, fc1) \<Rightarrow>
                  if is_string then with_count fc1 (func s (pData it) m2)
                  else (case allocate_field_at env s (pData it) (ucast (data_size field)) 1 m2 of
                          (s', m3, False) \<Rightarrow> Some (s', m3, fc1, False)
                        | (s', m3, True) \<Rightarrow>
                            (case initialize_pointer_field env k (load_ptr m3 (pData it)) it m3 of
                               None \<Rightarrow> None
                             | Some m4 \<Rightarrow> with_count fc1 (func s' (load_ptr m4 (pData it)) m4)))))
      else if wire_type = PB_WT_STRING \<and> PB_LTYPE t \<le> PB_LTYPE_LAST_PACKABLE then
        (case pb_make_string_substream s of
           (s', None) \<Rightarrow> Some (s', m, fc, False)
         | (s', Some sub) \<Rightarrow>
             (case packed_pointer_loop env func k it s' (ucast (get_count it m fc)) sub m fc of
                None \<Rightarrow> None
              | Some (s1, sub', m', fc', status) \<Rightarrow>
                  (case pb_close_string_substream s1 sub' of
                     (s2, None) \<Rightarrow> Some (s2, m', fc', False)
                   | (s2, Some _) \<Rightarrow> Some (s2, m', fc', status))))
      else
        let n = get_count it m fc
        in if n = PB_SIZE_MAX then Some (pb_set_error s ''too many array entries'', m, fc, False)
           else (case allocate_field_at env s (pData it) (ucast (data_size field)) (ucast (n + 1)) m of
                   (s', m1, False) \<Rightarrow> Some (s', m1, fc, False)
                 | (s', m1, True) \<Rightarrow>
                     let n1 = get_count it m1 fc;
                         item = array_item (load_ptr m1 (pData it)) field n1
                     in (case set_count it (n1 + 1) m1 fc of
                           (m2, fc') \<Rightarrow>
                             (case initialize_pointer_field env k item it m2 of
                                None \<Rightarrow> None
                              | Some m3 \<Rightarrow> with_count fc' (func s' item m3)))))"

subsection \<open>Callback fields and extensions\<close>

text \<open>The call of the application's function: the function pointer is read from the
  \<open>pb_callback_t\<close> in the message, \<open>arg\<close> is the address of its second member.\<close>

definition call_decode ::
    "'s pb_env \<Rightarrow> pb_field_iter \<Rightarrow> 's pb_istream \<Rightarrow> mem \<Rightarrow> 's pb_istream \<times> mem \<times> bool" where
  "call_decode env it s m =
     field_callback env (load_ptr m (pData it)) s (iter_field it) (pData it + 8) m"

primrec callback_loop ::
    "'s pb_env \<Rightarrow> nat \<Rightarrow> pb_field_iter \<Rightarrow> 's pb_istream \<Rightarrow> mem \<Rightarrow> 's dec_result" where
  "callback_loop env 0 it sub m = None"
| "callback_loop env (Suc k) it sub m =
     (case call_decode env it sub m of
        (sub', m', False) \<Rightarrow> Some (sub', m', False)
      | (sub', m', True) \<Rightarrow>
          if bytes_left sub' \<noteq> 0 then callback_loop env k it sub' m' else Some (sub', m', True))"

definition decode_callback_field ::
    "'s pb_env \<Rightarrow> nat \<Rightarrow> 's pb_istream \<Rightarrow> u32 \<Rightarrow> pb_field_iter \<Rightarrow> mem \<Rightarrow> 's dec_result" where
  "decode_callback_field env k s wire_type it m =
     (if pData it = 0 \<or> load_ptr m (pData it) = 0 then
        (case pb_skip_field s wire_type of (s', r) \<Rightarrow> Some (s', m, r \<noteq> None))
      else if wire_type = PB_WT_STRING then
        (case pb_make_string_substream s of
           (s', None) \<Rightarrow> Some (s', m, False)
         | (s', Some sub) \<Rightarrow>
             (case callback_loop env k it sub m of
                None \<Rightarrow> None
              | Some (sub', m', False) \<Rightarrow> Some (pb_set_error s' ''callback failed'', m', False)
              | Some (sub', m', True) \<Rightarrow>
                  (case pb_close_string_substream s' sub' of (s'', r) \<Rightarrow> Some (s'', m', r \<noteq> None))))
      else
        (case read_raw_value s wire_type 10 of
           (s', None) \<Rightarrow> Some (s', m, False)
         | (s', Some bs) \<Rightarrow>
             (case call_decode env it (buffer_stream env bs) m of
                (_, m', status) \<Rightarrow> Some (s', m', status))))"

text \<open>The iterator after the call is part of the result.\<close>

definition decode_field ::
    "'s pb_env \<Rightarrow> nat \<Rightarrow> 's msg_decoder \<Rightarrow> 's msg_decoder \<Rightarrow> 's pb_istream \<Rightarrow> u32 \<Rightarrow>
     pb_field_iter \<Rightarrow> mem \<Rightarrow> u32 \<Rightarrow> (pb_field_iter \<times> 's pb_istream \<times> mem \<times> u32 \<times> bool) option" where
  "decode_field env k dec_init dec_noinit s wire_type it m fc =
     (case (if PB_HTYPE (ftype (iter_field it)) = PB_HTYPE_ONEOF then pb_release_union_field env k s it m
            else Some (s, it, m, True)) of
        None \<Rightarrow> None
      | Some (s1, it1, m1, False) \<Rightarrow> Some (it1, s1, m1, fc, False)
      | Some (s1, it1, m1, True) \<Rightarrow>
          let t = ftype (iter_field it1) in
          map_option (\<lambda>r. (it1, r))
            (if PB_ATYPE t = PB_ATYPE_STATIC
             then decode_static_field env k dec_init dec_noinit s1 wire_type it1 m1 fc
             else if PB_ATYPE t = PB_ATYPE_POINTER
             then decode_pointer_field env k dec_init dec_noinit s1 wire_type it1 m1 fc
             else if PB_ATYPE t = PB_ATYPE_CALLBACK
             then with_count fc (decode_callback_field env k s1 wire_type it1 m1)
             else Some (pb_set_error s1 ''invalid field type'', m1, fc, False)))"

definition default_extension_decoder ::
    "'s pb_env \<Rightarrow> nat \<Rightarrow> 's msg_decoder \<Rightarrow> 's msg_decoder \<Rightarrow> 's pb_istream \<Rightarrow> u64 \<Rightarrow> u32 \<Rightarrow> u32 \<Rightarrow>
     mem \<Rightarrow> 's dec_result" where
  "default_extension_decoder env k dec_init dec_noinit s e tag wire_type m =
     (let fs = fields_at env (ext_arg m e); field = (if fs = [] then PB_LAST_FIELD else fs ! 0) in
      if ftag field \<noteq> tag then Some (s, m, True)
      else
        let it = iter_from_extension env m e; m1 = set_ext_found m e True
        in (case decode_field env k dec_init dec_noinit s wire_type it m1 0 of
              None \<Rightarrow> None
            | Some (_, s', m', _, status) \<Rightarrow> Some (s', m', status)))"

text \<open>\<open>left\<close> is the number of bytes left before the first extension was tried.\<close>

primrec extension_loop ::
    "'s pb_env \<Rightarrow> 's msg_decoder \<Rightarrow> 's msg_decoder \<Rightarrow> nat \<Rightarrow> nat \<Rightarrow> u32 \<Rightarrow> u32 \<Rightarrow> u64 \<Rightarrow>
     's pb_istream \<Rightarrow> mem \<Rightarrow> 's dec_result" where
  "extension_loop env dec_init dec_noinit left 0 tag wire_type e s m = None"
| "extension_loop env dec_init dec_noinit left (Suc k) tag wire_type e s m =
     (if e = 0 \<or> bytes_left s \<noteq> left then Some (s, m, True)
      else (case (if ext_decode m e \<noteq> 0
                  then Some (extension_callback env (ext_decode m e) s e tag wire_type m)
                  else default_extension_decoder env k dec_init dec_noinit s e tag wire_type m) of
              None \<Rightarrow> None
            | Some (s', m', False) \<Rightarrow> Some (s', m', False)
            | Some (s', m', True) \<Rightarrow>
                extension_loop env dec_init dec_noinit left k tag wire_type (ext_next m' e) s' m'))"

definition decode_extension ::
    "'s pb_env \<Rightarrow> nat \<Rightarrow> 's msg_decoder \<Rightarrow> 's msg_decoder \<Rightarrow> 's pb_istream \<Rightarrow> u32 \<Rightarrow> u32 \<Rightarrow>
     pb_field_iter \<Rightarrow> mem \<Rightarrow> 's dec_result" where
  "decode_extension env k dec_init dec_noinit s tag wire_type it m =
     extension_loop env dec_init dec_noinit (bytes_left s) k tag wire_type (load_ptr m (pData it)) s m"

subsection \<open>All fields\<close>

text \<open>The local variables of \<open>pb_decode_noinit\<close>; \<open>fixed_count_field\<close> is a position in the
  table.\<close>

record dec_vars =
  iter :: pb_field_iter
  fields_seen :: "u32 list"
  extension_range_start :: u32
  fixed_count_field :: "nat option"
  fixed_count_size :: u32

definition PB_MAX_REQUIRED_FIELDS :: u32 where "PB_MAX_REQUIRED_FIELDS = 64"

text \<open>A field that is not in the table.\<close>

definition decode_unknown ::
    "'s pb_env \<Rightarrow> nat \<Rightarrow> 's msg_decoder \<Rightarrow> 's msg_decoder \<Rightarrow> 's pb_istream \<Rightarrow> u32 \<Rightarrow> u32 \<Rightarrow>
     dec_vars \<Rightarrow> mem \<Rightarrow> ('s pb_istream \<times> dec_vars \<times> mem \<times> bool) option" where
  "decode_unknown env k dec_init dec_noinit s tag wire_type v m =
     (let skip = (\<lambda>s v m. case pb_skip_field s wire_type of (s', r) \<Rightarrow> Some (s', v, m, r \<noteq> None)) in
      if tag < extension_range_start v then skip s v m
      else
        (case find_extension_field (iter v) of
           (it, found) \<Rightarrow>
             let range = (if found then ftag (iter_field it) else - 1);
                 v' = v\<lparr>iter := it, extension_range_start := range\<rparr>
             in if tag < range then skip s v' m
                else (case decode_extension env k dec_init dec_noinit s tag wire_type it m of
                        None \<Rightarrow> None
                      | Some (s', m', False) \<Rightarrow> Some (s', v', m', False)
                      | Some (s', m', True) \<Rightarrow>
                          if bytes_left s' \<noteq> bytes_left s then Some (s', v', m', True)
                          else skip s' v' m')))"

text \<open>The preparation of a field of the table: \<open>None\<close> when the last fixed count field was not
  complete.\<close>

definition fixed_count_incomplete :: "dec_vars \<Rightarrow> bool" where
  "fixed_count_incomplete v \<longleftrightarrow>
     (case fixed_count_field v of
        None \<Rightarrow> False
      | Some p \<Rightarrow> fixed_count_size v \<noteq> array_size (pb_field_iter.start (iter v) ! p))"

definition enter_fixed_count :: "dec_vars \<Rightarrow> dec_vars option" where
  "enter_fixed_count v =
     (let it = iter v in
      if PB_HTYPE (ftype (iter_field it)) = PB_HTYPE_REPEATED \<and> \<not> has_own_size it then
        (if fixed_count_field v \<noteq> Some (pos it) then
           (if fixed_count_incomplete v then None
            else Some (v\<lparr>fixed_count_field := Some (pos it), fixed_count_size := 0,
                         iter := it\<lparr>pSize := FixedCount\<rparr>\<rparr>))
         else Some (v\<lparr>iter := it\<lparr>pSize := FixedCount\<rparr>\<rparr>))
      else Some v)"

definition mark_seen :: "dec_vars \<Rightarrow> dec_vars" where
  "mark_seen v =
     (let it = iter v; i = required_field_index it; w = unat (drop_bit 5 i) in
      if PB_HTYPE (ftype (iter_field it)) = PB_HTYPE_REQUIRED \<and> i < PB_MAX_REQUIRED_FIELDS
      then v\<lparr>fields_seen := (fields_seen v)[w := fields_seen v ! w OR push_bit (unat (i AND 31)) 1]\<rparr>
      else v)"

definition decode_known ::
    "'s pb_env \<Rightarrow> nat \<Rightarrow> 's msg_decoder \<Rightarrow> 's msg_decoder \<Rightarrow> 's pb_istream \<Rightarrow> u32 \<Rightarrow>
     dec_vars \<Rightarrow> mem \<Rightarrow> ('s pb_istream \<times> dec_vars \<times> mem \<times> bool) option" where
  "decode_known env k dec_init dec_noinit s wire_type v m =
     (case enter_fixed_count v of
        None \<Rightarrow> Some (pb_set_error s ''wrong size for fixed count field'', v, m, False)
      | Some v1 \<Rightarrow>
          let v2 = mark_seen v1 in
          (case decode_field env k dec_init dec_noinit s wire_type (iter v2) m (fixed_count_size v2) of
             None \<Rightarrow> None
           | Some (it, s', m', fc, status) \<Rightarrow>
               Some (s', v2\<lparr>iter := it, fixed_count_size := fc\<rparr>, m', status)))"

text \<open>The checks behind the loop.\<close>

function seek_end :: "pb_field_iter \<Rightarrow> u32 \<times> u8 \<times> pb_field_iter" where
  "seek_end it =
     (case pb_field_iter_next it of
        (it', b) \<Rightarrow>
          if b then seek_end it' else (required_field_index it, ftype (iter_field it), it'))"
  by pat_completeness auto
termination seek_end
  by (relation "measure (\<lambda>it. length (start it) - pos it)") (auto intro: iter_next_measure)

declare seek_end.simps [simp del]

definition required_missing :: "dec_vars \<Rightarrow> bool" where
  "required_missing v =
     (case seek_end (iter v) of
        (i, last_type, it) \<Rightarrow>
          let n = (if PB_HTYPE last_type = PB_HTYPE_REQUIRED \<and> ftag (iter_field it) \<noteq> 0 then i + 1 else i);
              n = (if PB_MAX_REQUIRED_FIELDS < n then PB_MAX_REQUIRED_FIELDS else n)
          in 0 < n \<and>
             ((\<exists>w \<in> set (take (unat (drop_bit 5 n)) (fields_seen v)). w \<noteq> - 1) \<or>
              (n AND 31 \<noteq> 0 \<and>
               fields_seen v ! unat (drop_bit 5 n) \<noteq> drop_bit (unat (32 - (n AND 31))) (- 1))))"

definition noinit_with ::
    "('s pb_istream \<Rightarrow> dec_vars \<Rightarrow> mem \<Rightarrow> ('s pb_istream \<times> dec_vars \<times> mem \<times> bool) option) \<Rightarrow>
     's pb_env \<Rightarrow> 's msg_decoder" where
  "noinit_with loop env s tab dest m =
     (case loop s \<lparr>iter = fst (pb_field_iter_begin (fields_at env tab) dest), fields_seen = [0, 0],
                   extension_range_start = 0, fixed_count_field = None, fixed_count_size = 0\<rparr> m of
        None \<Rightarrow> None
      | Some (s', v, m', False) \<Rightarrow> Some (s', m', False)
      | Some (s', v, m', True) \<Rightarrow>
          if fixed_count_incomplete v
          then Some (pb_set_error s' ''wrong size for fixed count field'', m', False)
          else if required_missing v then Some (pb_set_error s' ''missing required field'', m', False)
          else Some (s', m', True))"

definition init_with :: "'s msg_decoder \<Rightarrow> 's pb_env \<Rightarrow> nat \<Rightarrow> 's msg_decoder" where
  "init_with noinit env k s tab dest m =
     (case pb_message_set_to_defaults env k tab dest m of
        None \<Rightarrow> None
      | Some m1 \<Rightarrow>
          (case noinit s tab dest m1 of
             None \<Rightarrow> None
           | Some (s', m2, True) \<Rightarrow> Some (s', m2, True)
           | Some (s', m2, False) \<Rightarrow>
               (case pb_release env k tab dest m2 of
                  None \<Rightarrow> None
                | Some m3 \<Rightarrow> Some (s', m3, False))))"

primrec decode_msg_loop ::
    "'s pb_env \<Rightarrow> nat \<Rightarrow> 's pb_istream \<Rightarrow> dec_vars \<Rightarrow> mem \<Rightarrow>
     ('s pb_istream \<times> dec_vars \<times> mem \<times> bool) option" where
  "decode_msg_loop env 0 s v m = None"
| "decode_msg_loop env (Suc k) s v m =
     (let noinit = noinit_with (decode_msg_loop env k) env; init = init_with noinit env k in
      if bytes_left s = 0 then Some (s, v, m, True)
      else (case pb_decode_tag s of
              (s1, None, eof) \<Rightarrow> Some (s1, v, m, eof)
            | (s1, Some (wire_type, tag), _) \<Rightarrow>
                (case (case pb_field_iter_find (iter v) tag of
                         (it, False) \<Rightarrow>
                           decode_unknown env k init noinit s1 tag wire_type (v\<lparr>iter := it\<rparr>) m
                       | (it, True) \<Rightarrow>
                           decode_known env k init noinit s1 wire_type (v\<lparr>iter := it\<rparr>) m) of
                   None \<Rightarrow> None
                 | Some (s2, v', m', False) \<Rightarrow> Some (s2, v', m', False)
                 | Some (s2, v', m', True) \<Rightarrow> decode_msg_loop env k s2 v' m')))"

definition pb_decode_noinit :: "'s pb_env \<Rightarrow> nat \<Rightarrow> 's msg_decoder" where
  "pb_decode_noinit env k = noinit_with (decode_msg_loop env k) env"

definition pb_decode :: "'s pb_env \<Rightarrow> nat \<Rightarrow> 's msg_decoder" where
  "pb_decode env k = init_with (pb_decode_noinit env k) env k"

definition decode_delimited :: "'s msg_decoder \<Rightarrow> 's msg_decoder" where
  "decode_delimited dec s tab dest m =
     (case pb_make_string_substream s of
        (s', None) \<Rightarrow> Some (s', m, False)
      | (s', Some sub) \<Rightarrow>
          (case dec sub tab dest m of
             None \<Rightarrow> None
           | Some (sub', m', status) \<Rightarrow>
               (case pb_close_string_substream s' sub' of
                  (s'', None) \<Rightarrow> Some (s'', m', False)
                | (s'', Some _) \<Rightarrow> Some (s'', m', status))))"

definition pb_decode_delimited_noinit :: "'s pb_env \<Rightarrow> nat \<Rightarrow> 's msg_decoder" where
  "pb_decode_delimited_noinit env k = decode_delimited (pb_decode_noinit env k)"

definition pb_decode_delimited :: "'s pb_env \<Rightarrow> nat \<Rightarrow> 's msg_decoder" where
  "pb_decode_delimited env k = decode_delimited (pb_decode env k)"

definition pb_decode_nullterminated :: "'s pb_env \<Rightarrow> nat \<Rightarrow> 's msg_decoder" where
  "pb_decode_nullterminated env k = pb_decode env k"

end
