(* ===== verification/PbValueSafe.thy ===== *)
theory PbValueSafe
  imports PbMessage
begin

text \<open>
  Which memory the storing decoders change.  A static table has no callbacks, allocated fields or
  extensions, and its fields lie inside the message struct; each decoder of a value writes only to
  the room of its field and leaves a well-formed stream.
\<close>

unbundle bit_operations_syntax

subsection \<open>Memory outside a block\<close>

definition keeps :: "u64 set \<Rightarrow> mem \<Rightarrow> mem \<Rightarrow> bool" where
  "keeps B m m' \<longleftrightarrow> (\<forall>a. a \<notin> B \<longrightarrow> m' a = m a)"

lemma keeps_refl [simp]: "keeps B m m"
  by (simp add: keeps_def)

lemma keeps_trans: "keeps B m m' \<Longrightarrow> keeps B m' m'' \<Longrightarrow> keeps B m m''"
  by (simp add: keeps_def)

lemma keeps_mono: "keeps A m m' \<Longrightarrow> A \<subseteq> B \<Longrightarrow> keeps B m m'"
  by (auto simp: keeps_def)

lemma keeps_store: "block a (length bs) \<subseteq> B \<Longrightarrow> length bs \<le> 2 ^ 64 \<Longrightarrow> keeps B m (store m a bs)"
  unfolding keeps_def using store_outside by blast

lemma block_self: "a \<in> block a 1"
  by (simp add: block_iff)

lemma keeps_store_bool: "block a 1 \<subseteq> B \<Longrightarrow> keeps B m (store_bool m a b)"
  using block_self [of a] by (auto simp: keeps_def store_bool_def)

definition inside :: "nat \<Rightarrow> u64 \<Rightarrow> nat \<Rightarrow> bool" where
  "inside n off len \<longleftrightarrow> unat off + len \<le> n"

lemma block_inside:
  assumes "inside n off len" and "n \<le> 2 ^ 64"
  shows "block (dest + off) len \<subseteq> block dest n"
proof
  fix x assume "x \<in> block (dest + off) len"
  moreover define y where "y = x - (dest + off)"
  ultimately have j: "unat y < len" by (simp add: block_iff)
  then have "unat (off + y) = unat off + unat y"
    using assms unfolding inside_def by (simp add: unat_plus_if')
  moreover have "x - dest = off + y" by (simp add: y_def)
  ultimately show "x \<in> block dest n" using j assms(1) by (simp add: block_iff inside_def)
qed

lemma block_mono: "k \<le> n \<Longrightarrow> block a k \<subseteq> block a n"
  by (auto simp: block_iff)

subsection \<open>Static tables\<close>

definition field_span :: "pb_desc \<Rightarrow> nat" where
  "field_span f =
     (if PB_HTYPE (ftype f) = PB_HTYPE_REPEATED then unat (data_size f) * unat (array_size f)
      else unat (data_size f))"

text \<open>The room the count or has-flag of a field takes.\<close>

definition size_inside :: "nat \<Rightarrow> pb_field_iter \<Rightarrow> nat \<Rightarrow> bool" where
  "size_inside n it len \<longleftrightarrow> (case pSize it of InMem a \<Rightarrow> inside n a len | FixedCount \<Rightarrow> True)"

definition static_item :: "(u64 \<Rightarrow> nat \<Rightarrow> bool) \<Rightarrow> pb_desc \<Rightarrow> bool" where
  "static_item submsg f \<longleftrightarrow>
     (let t = ftype f; lt = PB_LTYPE t in
      PB_ATYPE t = PB_ATYPE_STATIC \<and>
      (lt \<le> 0x08 \<or> lt = PB_LTYPE_FIXED_LENGTH_BYTES) \<and>
      (lt = 0x00 \<longrightarrow> data_size f = 1) \<and>
      (lt = PB_LTYPE_FIXED32 \<longrightarrow> data_size f = 4) \<and> (lt = PB_LTYPE_FIXED64 \<longrightarrow> data_size f = 8) \<and>
      (lt = PB_LTYPE_SUBMESSAGE \<longrightarrow> ptr f \<noteq> 0 \<and> submsg (ptr f) (unat (data_size f))))"

definition static_field :: "(u64 \<Rightarrow> nat \<Rightarrow> bool) \<Rightarrow> nat \<Rightarrow> pb_field_iter \<Rightarrow> bool" where
  "static_field submsg n it \<longleftrightarrow>
     (let f = iter_field it; ht = PB_HTYPE (ftype f) in
      static_item submsg f \<and>
      inside n (pData it) (field_span f) \<and>
      (ht = PB_HTYPE_REPEATED \<longrightarrow> unat (data_size f * array_size f) = unat (data_size f) * unat (array_size f)) \<and>
      (ht = PB_HTYPE_OPTIONAL \<and> has_own_size it \<longrightarrow> size_inside n it 1) \<and>
      (ht = PB_HTYPE_REPEATED \<or> ht = PB_HTYPE_ONEOF \<longrightarrow> size_inside n it 4))"

text \<open>The table at an address describes a message of \<open>n\<close> bytes, nested at most \<open>d\<close>
  deep.\<close>

primrec static_msg :: "'s pb_env \<Rightarrow> nat \<Rightarrow> u64 \<Rightarrow> nat \<Rightarrow> bool" where
  "static_msg env 0 tab n = False"
| "static_msg env (Suc d) tab n =
     (let fs = fields_at env tab in
      table_ok fs \<and> 0 < n \<and>
      list_all (\<lambda>i. static_field (static_msg env d) n (iter_at fs 0 i)) [0..<length fs])"

subsection \<open>Iterators at a destination\<close>

definition shift_iter :: "u64 \<Rightarrow> pb_field_iter \<Rightarrow> pb_field_iter" where
  "shift_iter dest it =
     it\<lparr>dest_struct := dest, pData := dest + pData it,
        pSize := (case pSize it of InMem a \<Rightarrow> InMem (dest + a) | FixedCount \<Rightarrow> FixedCount)\<rparr>"

lemma iter_field_shift [simp]: "iter_field (shift_iter dest it) = iter_field it"
  by (simp add: shift_iter_def iter_field_def)

lemma iter_begin_shift: "fst (pb_field_iter_begin fs dest) = shift_iter dest (fst (pb_field_iter_begin fs 0))"
  by (simp add: pb_field_iter_begin_def shift_iter_def Let_def add.assoc)

lemma iter_next_shift:
  "dest_struct it = 0 \<Longrightarrow>
   fst (pb_field_iter_next (shift_iter dest it)) = shift_iter dest (fst (pb_field_iter_next it))"
  unfolding pb_field_iter_next_def Let_def iter_field_shift
  by (auto simp: shift_iter_def iter_field_def iter_begin_shift [of _ dest] add_ac)

lemma iter_at_shift: "iter_at fs dest i = shift_iter dest (iter_at fs 0 i)"
proof (induction i)
  case 0
  show ?case by (simp add: iter_begin_shift [of fs dest])
next
  case (Suc i)
  then show ?case by (simp add: iter_next_shift)
qed

subsection \<open>One field\<close>

definition tri_ok ::
    "('s \<Rightarrow> bytes) \<Rightarrow> u64 set \<Rightarrow> 's pb_istream \<Rightarrow> mem \<Rightarrow> 's pb_istream \<times> mem \<times> bool \<Rightarrow> bool" where
  "tri_ok c B s m r \<longleftrightarrow>
     (case r of (s', m', ok) \<Rightarrow> keeps B m m' \<and> (ok \<longrightarrow> pb_moves c s s'))"

definition dec_ok ::
    "('s \<Rightarrow> bytes) \<Rightarrow> u64 set \<Rightarrow> 's pb_istream \<Rightarrow> mem \<Rightarrow> 's dec_result \<Rightarrow> bool" where
  "dec_ok c B s m r \<longleftrightarrow> (\<exists>t. r = Some t \<and> tri_ok c B s m t)"

lemma varint_loop_decreases:
  "varint_loop s r p = (s', Some v) \<Longrightarrow> bytes_left s' < bytes_left s"
proof (induction s r p rule: varint_loop.induct)
  case (1 s r p)
  obtain s1 b where s1: "pb_readbyte s = (s1, b)" by force
  note step = "1.prems" [unfolded varint_loop.simps [of s] s1 prod.case]
  show ?case
  proof (cases b)
    case (Some byte)
    then have "bytes_left s1 < bytes_left s" using s1 pb_readbyte_decreases by simp
    then show ?thesis using step "1.IH" s1 Some
      by (fastforce simp: Let_def split: if_splits)
  qed (use step in \<open>simp split: if_splits\<close>)
qed

lemma varint32_loop_decreases:
  "varint32_loop s r p = (s', Some v) \<Longrightarrow> bytes_left s' < bytes_left s"
proof (induction s r p rule: varint32_loop.induct)
  case (1 s r p)
  obtain s1 b where s1: "pb_readbyte s = (s1, b)" by force
  note step = "1.prems" [unfolded varint32_loop.simps [of s] s1 prod.case]
  show ?case
  proof (cases b)
    case (Some byte)
    then have "bytes_left s1 < bytes_left s" using s1 pb_readbyte_decreases by simp
    then show ?thesis using step "1.IH" s1 Some
      by (fastforce simp: Let_def split: if_splits)
  qed (use step in \<open>simp split: if_splits\<close>)
qed

lemma pb_decode_varint_decreases:
  "pb_decode_varint s = (s', Some v) \<Longrightarrow> bytes_left s' < bytes_left s"
  by (simp add: pb_decode_varint_def varint_loop_decreases)

lemma pb_decode_varint32_eof_decreases:
  "pb_decode_varint32_eof s = (s', Some v, e) \<Longrightarrow> bytes_left s' < bytes_left s"
  by (fastforce simp: pb_decode_varint32_eof_def split: prod.splits option.splits if_splits
      dest: pb_readbyte_decreases varint32_loop_decreases)

lemma pb_decode_varint32_decreases:
  "pb_decode_varint32 s = (s', Some v) \<Longrightarrow> bytes_left s' < bytes_left s"
  by (auto simp: pb_decode_varint32_def split: prod.splits dest: pb_decode_varint32_eof_decreases)

lemma pb_decode_tag_decreases:
  "pb_decode_tag s = (s', Some v, e) \<Longrightarrow> bytes_left s' < bytes_left s"
  by (auto simp: pb_decode_tag_def split: prod.splits option.splits if_splits
      dest: pb_decode_varint32_eof_decreases)

lemma keeps_store_int:
  "store_int m dest n v = Some m' \<Longrightarrow> block dest (unat n) \<subseteq> B \<Longrightarrow> keeps B m m'"
  by (auto simp: store_int_def split: if_splits intro!: keeps_store)

lemma keeps_store_sub:
  "block dest k \<subseteq> B \<Longrightarrow> length bs \<le> k \<Longrightarrow> length bs \<le> 2 ^ 64 \<Longrightarrow> keeps B m (store m dest bs)"
  using block_mono [of "length bs" k dest] by (intro keeps_store) auto

context input_source
begin

lemma pb_dec_bool_to_ok:
  "pb_good rd contents s \<Longrightarrow> block dest 1 \<subseteq> B \<Longrightarrow> tri_ok contents B s m (pb_dec_bool_to s dest m)"
  by (auto simp: tri_ok_def pb_dec_bool_to_def keeps_store_bool dest: pb_decode_varint32_moves
      split: prod.splits option.splits)

lemma pb_decode_svarint_moves:
  "pb_good rd contents s \<Longrightarrow> pb_decode_svarint s = (s', v) \<Longrightarrow> pb_moves contents s s'"
  by (auto simp: pb_decode_svarint_def dest: pb_decode_varint_moves split: prod.splits option.splits)

lemma pb_dec_ints_to_ok:
  assumes "pb_good rd contents s" and "block dest (unat (data_size f)) \<subseteq> B"
  shows "tri_ok contents B s m (pb_dec_varint_to s f dest m)"
    and "tri_ok contents B s m (pb_dec_uvarint_to s f dest m)"
    and "tri_ok contents B s m (pb_dec_svarint_to s f dest m)"
  using assms keeps_store_int [OF _ assms(2)]
  by (auto simp: tri_ok_def pb_dec_varint_to_def pb_dec_uvarint_to_def pb_dec_svarint_to_def Let_def
      dest: pb_decode_varint_moves pb_decode_svarint_moves split: prod.splits option.splits if_splits)

lemma pb_decode_fixed_moves:
  "pb_good rd contents s \<Longrightarrow> pb_decode_fixed32 s = (s', v) \<Longrightarrow> pb_moves contents s s'"
  "pb_good rd contents s \<Longrightarrow> pb_decode_fixed64 s = (s', w) \<Longrightarrow> pb_moves contents s s'"
  by (auto simp: pb_decode_fixed32_def pb_decode_fixed64_def dest: pb_read_moves
      split: prod.splits option.splits)

lemma pb_dec_fixed_to_ok:
  assumes "pb_good rd contents s"
  shows "block dest 4 \<subseteq> B \<Longrightarrow> tri_ok contents B s m (pb_dec_fixed32_to s dest m)"
    and "block dest 8 \<subseteq> B \<Longrightarrow> tri_ok contents B s m (pb_dec_fixed64_to s dest m)"
  using assms
  by (auto simp: tri_ok_def pb_dec_fixed32_to_def pb_dec_fixed64_to_def
      dest: pb_decode_fixed_moves split: prod.splits option.splits intro!: keeps_store)

lemma pb_read_length:
  assumes "pb_good rd contents s" and "pb_read s n = (s', Some bs)"
  shows "length bs = n"
proof -
  have le: "n \<le> bytes_left s" using pb_read_decreases [OF assms(2)] by simp
  then show ?thesis using pb_read_good [OF assms(1) le] assms(2) length_pb_view [OF assms(1)] by auto
qed

lemma pb_read_to_ok:
  "pb_good rd contents s \<Longrightarrow> block dest n \<subseteq> B \<Longrightarrow> n \<le> 2 ^ 64 \<Longrightarrow>
   tri_ok contents B s m (pb_read_to s n dest m)"
  by (auto simp: tri_ok_def pb_read_to_def dest: pb_read_moves pb_read_length
      split: prod.splits option.splits intro!: keeps_store)

lemma tri_ok_trans:
  "pb_moves contents s s1 \<Longrightarrow> keeps B m m1 \<Longrightarrow> tri_ok contents B s1 m1 r \<Longrightarrow> tri_ok contents B s m r"
  by (auto simp: tri_ok_def intro: keeps_trans pb_moves_trans)

lemma pb_dec_bytes_to_ok:
  assumes g: "pb_good rd contents s" and st: "PB_ATYPE (ftype f) \<noteq> PB_ATYPE_POINTER"
    and B: "block dest (unat (data_size f)) \<subseteq> B"
  shows "tri_ok contents B s m (pb_dec_bytes_to env s f dest m)"
proof -
  obtain s1 v where s1: "pb_decode_varint32 s = (s1, v)" by force
  have mv: "pb_moves contents s s1" by (rule pb_decode_varint32_moves [OF g s1])
  have fill: "tri_ok contents B s m (pb_read_to s1 (unat sz) (dest + 4) (store_size m dest sz))"
    if "\<not> ucast (data_size f) < (ucast (sz :: u32) :: u64) + 4" for sz
  proof -
    have u: "unat ((ucast sz :: u64) + 4) = unat sz + 4"
      using unat_word32_lt [of sz] by (simp add: unat_plus_if' unat_ucast_less)
    then have le: "4 + unat sz \<le> unat (data_size f)"
      using that by (simp add: word_less_nat_alt unat_ucast_less)
    have "keeps B m (store_size m dest sz)"
      unfolding store_size_def by (rule keeps_store_sub [OF B]) (use le in simp_all)
    moreover have "block (dest + 4) (unat sz) \<subseteq> block dest (unat (data_size f))"
      using le unat_word32_lt [of "data_size f"] by (intro block_inside) (simp_all add: inside_def)
    then have "tri_ok contents B s1 (store_size m dest sz)
        (pb_read_to s1 (unat sz) (dest + 4) (store_size m dest sz))"
      using B unat_word32_lt [of sz] by (intro pb_read_to_ok pb_moves_good [OF mv g]) auto
    ultimately show ?thesis by (rule tri_ok_trans [OF mv])
  qed
  show ?thesis
    using s1 mv st fill by (auto simp: pb_dec_bytes_to_def Let_def tri_ok_def split: option.splits)
qed

lemma pb_dec_string_to_ok:
  assumes g: "pb_good rd contents s" and st: "PB_ATYPE (ftype f) \<noteq> PB_ATYPE_POINTER"
    and B: "block dest (unat (data_size f)) \<subseteq> B"
  shows "tri_ok contents B s m (pb_dec_string_to env s f dest m)"
proof -
  obtain s1 v where s1: "pb_decode_varint32 s = (s1, v)" by force
  have mv: "pb_moves contents s s1" by (rule pb_decode_varint32_moves [OF g s1])
  have fill: "keeps B m (store m' (dest + ucast sz) [0])" "ok \<Longrightarrow> pb_moves contents s s'"
    if v: "\<not> (ucast (sz + 1) :: u64) < ucast (sz :: u32)" "\<not> ucast (data_size f) < (ucast (sz + 1) :: u64)"
      and r: "pb_read_to s1 (unat sz) dest m = (s', m', ok)" for sz s' m' ok
  proof -
    have "unat (sz + 1) = unat sz + 1"
      using v(1) by (simp add: word_less_nat_alt unat_ucast_less unat_plus_if' split: if_splits)
    then have le: "unat sz + 1 \<le> unat (data_size f)"
      using v(2) by (simp add: word_less_nat_alt unat_ucast_less)
    have "tri_ok contents B s1 m (s', m', ok)"
      unfolding r [symmetric] using B le unat_word32_lt [of sz] block_mono [of "unat sz" "unat (data_size f)" dest]
      by (intro pb_read_to_ok pb_moves_good [OF mv g]) auto
    then have t: "keeps B m m'" "ok \<longrightarrow> pb_moves contents s1 s'" by (simp_all add: tri_ok_def)
    have "block (dest + ucast sz) 1 \<subseteq> block dest (unat (data_size f))"
      using le unat_word32_lt [of "data_size f"]
      by (intro block_inside) (simp_all add: inside_def unat_ucast_less)
    then have "keeps B m' (store m' (dest + ucast sz) [0])" using B by (intro keeps_store) auto
    with t(1) show "keeps B m (store m' (dest + ucast sz) [0])" by (rule keeps_trans)
    show "pb_moves contents s s'" if ok using t(2) that mv by (blast intro: pb_moves_trans)
  qed
  show ?thesis
    using s1 mv st fill
    by (auto simp: pb_dec_string_to_def Let_def tri_ok_def split: option.splits prod.splits)
qed

lemma pb_dec_fixed_length_bytes_to_ok:
  assumes g: "pb_good rd contents s" and B: "block dest (unat (data_size f)) \<subseteq> B"
  shows "tri_ok contents B s m (pb_dec_fixed_length_bytes_to s f dest m)"
proof -
  obtain s1 v where s1: "pb_decode_varint32 s = (s1, v)" by force
  have mv: "pb_moves contents s s1" by (rule pb_decode_varint32_moves [OF g s1])
  have "tri_ok contents B s1 m (pb_read_to s1 (unat (data_size f)) dest m)"
    using B unat_word32_lt [of "data_size f"] by (intro pb_read_to_ok pb_moves_good [OF mv g]) auto
  then have "tri_ok contents B s m (pb_read_to s1 (unat (data_size f)) dest m)"
    by (rule tri_ok_trans [OF mv keeps_refl])
  moreover have "keeps B m (memset_zero m dest (data_size f))"
    unfolding memset_zero_def using B unat_word32_lt [of "data_size f"] by (intro keeps_store) auto
  ultimately show ?thesis
    using s1 mv by (auto simp: pb_dec_fixed_length_bytes_to_def tri_ok_def split: option.splits)
qed

text \<open>A sub-stream that was read with success and closed leaves the parent behind the field.\<close>

lemma substream_moves:
  assumes g: "pb_good rd contents s" and mk: "pb_make_string_substream s = (s1, Some sub)"
  shows "pb_good rd contents sub" "bytes_left sub < bytes_left s"
    and "pb_moves contents sub sub' \<Longrightarrow> pb_close_string_substream s1 sub' = (s2, Some u) \<Longrightarrow>
      pb_moves contents s s2"
proof -
  obtain t sz where t: "pb_decode_varint32 s = (t, Some sz)" "unat sz \<le> bytes_left t"
    and s1: "s1 = t\<lparr>bytes_left := bytes_left t - unat sz\<rparr>" and sub: "sub = t\<lparr>bytes_left := unat sz\<rparr>"
    using mk by (auto simp: pb_make_string_substream_def split: prod.splits option.splits if_splits)
  have mv: "pb_moves contents s t" by (rule pb_decode_varint32_moves [OF g t(1)])
  have gt: "pb_good rd contents t" by (rule pb_moves_good [OF mv g])
  show gs: "pb_good rd contents sub" using gt t(2) by (simp add: sub pb_good_def)
  show "bytes_left sub < bytes_left s" using pb_decode_varint32_decreases [OF t(1)] t(2) by (simp add: sub)
  assume m: "pb_moves contents sub sub'" and cl: "pb_close_string_substream s1 sub' = (s2, Some u)"
  from m have gs': "pb_good rd contents sub'" by (rule pb_moves_good) (rule gs)
  obtain n where n: "n \<le> unat sz" "bytes_left sub' = unat sz - n"
    "contents (state sub') = drop n (contents (state t))" "pb_calls sub sub' n"
    using m by (auto simp: pb_moves_def sub)
  obtain e where e: "pb_read_skip sub' (bytes_left sub') = (e, Some ())"
    "pb_consumed rd contents sub' e (bytes_left sub')"
    using pb_read_skip_good [OF gs' order_refl] by blast
  define e' where "e' = (if bytes_left sub' \<noteq> 0 then e else sub')"
  have "s2 = s1\<lparr>state := state e', errmsg := errmsg e'\<rparr>"
    using cl e(1) by (auto simp: pb_close_string_substream_def e'_def split: if_splits)
  moreover have "contents (state e') = drop (unat sz) (contents (state t))"
    using e(2) n by (auto simp: pb_consumed_def e'_def)
  moreover have "pb_calls t s2 (unat sz)"
  proof -
    have "pb_calls sub' e' (unat sz - n)" using e(2) n by (auto simp: pb_consumed_def e'_def pb_calls_refl)
    then have "pb_calls sub e' (n + (unat sz - n))"
      by (rule pb_calls_trans [OF n(4)]) (use m in \<open>simp add: pb_moves_def\<close>)
    then have "pb_calls sub e' (unat sz)" using n by simp
    then show ?thesis by (rule pb_calls_cong) (simp_all add: calculation(1) sub s1)
  qed
  ultimately have "pb_moves contents t s2" using t(2) by (auto simp: pb_moves_def s1 intro!: exI [of _ "unat sz"])
  with mv show "pb_moves contents s s2" by (rule pb_moves_trans)
qed

end

end
