(* ===== verification/PbSafe.thy ===== *)
theory PbSafe
  imports PbValueSafe
begin

text \<open>
  Decoding into static messages: for a static table, decoding returns for every input as soon as the
  fuel exceeds the bytes of the input plus the nesting depth of the table, and changes no byte outside
  the message struct.
\<close>

subsection \<open>Defaults and release\<close>

lemma for_fields_total:
  assumes ok: "table_ok fs" and "i < length fs"
    and step: "\<And>i m. i < length fs \<Longrightarrow> \<exists>m'. f (iter_at fs dest i) m = Some m' \<and> R m m'"
    and trans: "\<And>a b c. R a b \<Longrightarrow> R b c \<Longrightarrow> R a c"
  shows "\<exists>m'. for_fields f (iter_at fs dest i) m = Some m' \<and> R m m'"
  using assms(2)
proof (induction "length fs - i" arbitrary: i m rule: less_induct)
  case less
  obtain m1 where m1: "f (iter_at fs dest i) m = Some m1" "R m m1" using step less.prems by blast
  obtain it b where nx: "pb_field_iter_next (iter_at fs dest i) = (it, b)" by force
  have b: "b \<longleftrightarrow> Suc i < length fs"
    using iter_next_pos(1) [of "iter_at fs dest i"] ok less.prems nx by simp
  have it: "it = iter_at fs dest (Suc i)" using nx by simp
  show ?case
  proof (cases b)
    case True
    have "Suc i < length fs" "length fs - Suc i < length fs - i" using b True by linarith+
    then obtain m2 where m2: "for_fields f (iter_at fs dest (Suc i)) m1 = Some m2" "R m1 m2"
      using less.hyps [of "Suc i" m1] by blast
    have "for_fields f (iter_at fs dest i) m = Some m2"
      using m2(1) unfolding it [symmetric] by (subst for_fields.simps) (simp add: m1(1) nx True)
    then show ?thesis using trans [OF m1(2) m2(2)] by blast
  next
    case False
    then show ?thesis using m1 nx by (subst for_fields.simps) simp
  qed
qed

lemma message_fields_total:
  assumes ok: "table_ok (fields_at env tab)"
    and step: "\<And>i m. i < length (fields_at env tab) \<Longrightarrow>
      \<exists>m'. f (iter_at (fields_at env tab) dest i) m = Some m' \<and> keeps B m m'"
  shows "\<exists>m'. message_fields env f tab dest m = Some m' \<and> keeps B m m'"
proof (cases "fields_at env tab")
  case Nil
  then show ?thesis by (auto simp: message_fields_def pb_field_iter_begin_def PB_LAST_FIELD_def Let_def)
next
  case (Cons x xs)
  have "snd (pb_field_iter_begin (fields_at env tab) dest)"
    using ok Cons by (auto simp: pb_field_iter_begin_def table_ok_def Let_def)
  moreover have "\<exists>m'. for_fields f (iter_at (fields_at env tab) dest 0) m = Some m' \<and> keeps B m m'"
    using step keeps_trans by (intro for_fields_total [OF ok]) (auto simp: Cons)
  ultimately show ?thesis
    by (auto simp: message_fields_def split: prod.splits)
qed

text \<open>The parts of a static field at its destination.\<close>

lemma static_fieldD:
  assumes "static_field sub n it0" and "n \<le> 2 ^ 64" and "it = shift_iter dest it0"
  defines "f \<equiv> iter_field it"
  shows "PB_ATYPE (ftype f) = PB_ATYPE_STATIC" "PB_LTYPE (ftype f) \<noteq> PB_LTYPE_EXTENSION"
    and "static_item sub f"
    and "block (pData it) (field_span f) \<subseteq> block dest n"
    and "PB_LTYPE (ftype f) = PB_LTYPE_SUBMESSAGE \<Longrightarrow> ptr f \<noteq> 0 \<and> sub (ptr f) (unat (data_size f))"
    and "PB_HTYPE (ftype f) = PB_HTYPE_REPEATED \<Longrightarrow> unat (data_size f) * unat (array_size f) < 2 ^ 32"
    and "PB_HTYPE (ftype f) = PB_HTYPE_OPTIONAL \<Longrightarrow> has_own_size it \<Longrightarrow> keeps (block dest n) m (set_has it b m)"
    and "PB_HTYPE (ftype f) = PB_HTYPE_REPEATED \<or> PB_HTYPE (ftype f) = PB_HTYPE_ONEOF \<Longrightarrow>
      set_count it k m fc = (m', fc') \<Longrightarrow> keeps (block dest n) m m'"
proof -
  have own: "has_own_size it \<longleftrightarrow> has_own_size it0"
    by (simp add: assms(3) has_own_size_def shift_iter_def split: size_ref.splits)
  have pd: "pData it = dest + pData it0" by (simp add: assms(3) shift_iter_def)
  have ps: "block a len \<subseteq> block dest n" if "pSize it = InMem a" "size_inside n it0 len" for a len
    using that assms(2)
    by (auto simp: assms(3) shift_iter_def size_inside_def split: size_ref.splits
        dest: subsetD [OF block_inside])
  note st = assms(1) [unfolded static_field_def Let_def]
  have f: "iter_field it0 = f" by (simp add: f_def assms(3))
  show "PB_ATYPE (ftype f) = PB_ATYPE_STATIC" "PB_LTYPE (ftype f) \<noteq> PB_LTYPE_EXTENSION"
    "static_item sub f"
    "PB_LTYPE (ftype f) = PB_LTYPE_SUBMESSAGE \<Longrightarrow> ptr f \<noteq> 0 \<and> sub (ptr f) (unat (data_size f))"
    using st unfolding f by (auto simp: static_item_def Let_def pb_type_defs)
  show "unat (data_size f) * unat (array_size f) < 2 ^ 32" if "PB_HTYPE (ftype f) = PB_HTYPE_REPEATED"
    using st that unat_word32_lt [of "data_size f * array_size f"] unfolding f by simp
  show "block (pData it) (field_span f) \<subseteq> block dest n"
    unfolding pd using st assms(2) unfolding f by (intro block_inside) simp_all
  show "keeps (block dest n) m (set_has it b m)"
    if "PB_HTYPE (ftype f) = PB_HTYPE_OPTIONAL" "has_own_size it"
    using that st ps [of _ 1] unfolding f own
    by (auto simp: set_has_def split: size_ref.splits intro!: keeps_store_bool)
  show "keeps (block dest n) m m'"
    if "PB_HTYPE (ftype f) = PB_HTYPE_REPEATED \<or> PB_HTYPE (ftype f) = PB_HTYPE_ONEOF"
      "set_count it k m fc = (m', fc')"
    using that st ps [of _ 4] unfolding f
    by (auto simp: set_count_def store_size_def split: size_ref.splits intro!: keeps_store)
qed

text \<open>The iterators of a static message, and the fields they stand on.\<close>

lemma static_msgD:
  assumes "static_msg env d tab n"
  obtains d' where "d = Suc d'" and "table_ok (fields_at env tab)"
    and "\<And>i. i < length (fields_at env tab) \<Longrightarrow>
      static_field (static_msg env d') n (iter_at (fields_at env tab) 0 i)"
  using assms by (cases d) (auto simp: list_all_iff Let_def)

lemma defaults_total:
  assumes "static_msg env d tab n" and "n \<le> 2 ^ 64" and "d \<le> k"
  shows "\<exists>m'. pb_message_set_to_defaults env k tab dest m = Some m' \<and> keeps (block dest n) m m'"
  using assms
proof (induction d arbitrary: k tab n dest m)
  case (Suc d)
  obtain k' where k: "k = Suc k'" "d \<le> k'" using Suc.prems(3) by (cases k) auto
  let ?fs = "fields_at env tab"
  from Suc.prems(1) have ok: "table_ok ?fs"
    and st: "i < length ?fs \<Longrightarrow> static_field (static_msg env d) n (iter_at ?fs 0 i)" for i
    by (auto simp: list_all_iff Let_def)
  have "\<exists>m'. pb_field_set_to_default env k (iter_at ?fs dest i) m = Some m' \<and> keeps (block dest n) m m'"
    if i: "i < length ?fs" for i m
  proof -
    let ?it = "iter_at ?fs dest i"
    let ?f = "iter_field ?it"
    note D = static_fieldD [OF st [OF i] Suc.prems(2) iter_at_shift [of ?fs dest i]]
    show ?thesis
    proof (cases "PB_HTYPE (ftype ?f) = PB_HTYPE_REPEATED \<or> PB_HTYPE (ftype ?f) = PB_HTYPE_ONEOF")
      case True
      then show ?thesis using D(1,2) D(8) [OF True, of 0 m 0]
        by (cases "set_count ?it 0 m 0") (auto simp: k(1) Let_def pb_type_defs)
    next
      case False
      define m1 where "m1 = (if PB_HTYPE (ftype ?f) = PB_HTYPE_OPTIONAL \<and> has_own_size ?it
        then set_has ?it False m else m)"
      have m1: "keeps (block dest n) m m1" using D(7) by (simp add: m1_def)
      have B: "block (pData ?it) (unat (data_size ?f)) \<subseteq> block dest n"
        using D(4) False by (simp add: field_span_def)
      have le: "unat (data_size ?f) \<le> 2 ^ 64" using unat_word32_lt [of "data_size ?f"] by simp
      have eq: "pb_field_set_to_default env k ?it m =
          (if PB_LTYPE (ftype ?f) = PB_LTYPE_SUBMESSAGE
           then pb_message_set_to_defaults env k' (ptr ?f) (pData ?it) m1
           else if ptr ?f \<noteq> 0 then Some (c_memcpy m1 (pData ?it) (ptr ?f) (data_size ?f))
           else Some (memset_zero m1 (pData ?it) (data_size ?f)))"
        using D(1,2) False by (simp add: k(1) Let_def m1_def pb_message_set_to_defaults_def)
      show ?thesis
      proof (cases "PB_LTYPE (ftype ?f) = PB_LTYPE_SUBMESSAGE")
        case sub: True
        then have "static_msg env d (ptr ?f) (unat (data_size ?f))" using D(5) by simp
        from Suc.IH [OF this le k(2)] obtain m2 where
          m2: "pb_message_set_to_defaults env k' (ptr ?f) (pData ?it) m1 = Some m2"
          "keeps (block (pData ?it) (unat (data_size ?f))) m1 m2" by blast
        show ?thesis unfolding eq using sub m2(1) keeps_trans [OF m1 keeps_mono [OF m2(2) B]] by simp
      next
        case sub: False
        have "keeps (block dest n) m1 (c_memcpy m1 (pData ?it) (ptr ?f) (data_size ?f))"
          "keeps (block dest n) m1 (memset_zero m1 (pData ?it) (data_size ?f))"
          unfolding c_memcpy_def memset_zero_def using B le by (auto intro!: keeps_store)
        then show ?thesis unfolding eq using sub keeps_trans [OF m1] by simp
      qed
    qed
  qed
  then show ?case
    unfolding pb_message_set_to_defaults_def by (intro message_fields_total [OF ok])
qed simp

lemma keeps_empty [simp]: "keeps {} m m' \<longleftrightarrow> m' = m"
  by (auto simp: keeps_def)

lemma release_items_same:
  "(\<And>item. rel (ptr f) item m = Some m) \<Longrightarrow> release_items rel f c item m = Some m"
  by (induction c arbitrary: item) auto

lemma release_single_same:
  assumes "static_item (static_msg env d) (iter_field it)"
    and sub: "\<And>tab n item. static_msg env d tab n \<Longrightarrow> pb_release env k tab item m = Some m"
  shows "pb_release_single_field env (Suc k) it m = Some m"
proof -
  let ?f = "iter_field it"
  note s = assms(1) [unfolded static_item_def Let_def]
  have "release_items (release_message env (pb_release_single_field env k)) ?f c item m = Some m"
    if "PB_LTYPE (ftype ?f) = PB_LTYPE_SUBMESSAGE" for c item
  proof -
    have "static_msg env d (ptr ?f) (unat (data_size ?f))" using s that by simp
    then show ?thesis using sub by (intro release_items_same) (simp add: pb_release_def)
  qed
  moreover have "PB_ATYPE (ftype ?f) = PB_ATYPE_STATIC" using s by simp
  then have "PB_ATYPE (ftype ?f) \<noteq> PB_ATYPE_POINTER" by (simp add: pb_type_defs)
  moreover have "PB_LTYPE (ftype ?f) \<le> 8 \<or> PB_LTYPE (ftype ?f) = 10"
    using s by (simp add: pb_type_defs)
  then have "PB_LTYPE (ftype ?f) \<noteq> PB_LTYPE_EXTENSION" by (auto simp: pb_type_defs)
  ultimately show ?thesis by (simp add: Let_def)
qed

lemma release_same:
  assumes "static_msg env d tab n" and "d \<le> k"
  shows "pb_release env k tab dest m = Some m"
  using assms
proof (induction d arbitrary: k tab n dest m)
  case (Suc d)
  obtain k' where k: "k = Suc k'" "d \<le> k'" using Suc.prems(2) by (cases k) auto
  let ?fs = "fields_at env tab"
  from Suc.prems(1) have ok: "table_ok ?fs"
    and st: "i < length ?fs \<Longrightarrow> static_field (static_msg env d) n (iter_at ?fs 0 i)" for i
    by (auto simp: list_all_iff Let_def)
  have "pb_release_single_field env k (iter_at ?fs dest i) m = Some m" if i: "i < length ?fs" for i m
    unfolding k(1) using st [OF i] Suc.IH [OF _ k(2)]
    by (intro release_single_same) (auto simp: static_field_def Let_def iter_at_shift [of ?fs dest])
  then have "\<exists>m'. message_fields env (pb_release_single_field env k) tab dest m = Some m' \<and> keeps {} m m'"
    by (intro message_fields_total [OF ok]) simp
  then show ?case by (auto simp: pb_release_def release_message_def)
qed simp

subsection \<open>The loops\<close>

context input_source
begin

text \<open>What the recursion has established about the decoders of sub-messages when \<open>k\<close> steps of
  fuel are left.\<close>

definition decoder_ok :: "'s pb_env \<Rightarrow> nat \<Rightarrow> 's msg_decoder \<Rightarrow> bool" where
  "decoder_ok env k dec \<longleftrightarrow>
     (\<forall>s tab d n dest m. pb_good rd contents s \<longrightarrow> static_msg env d tab n \<longrightarrow> n \<le> 2 ^ 64 \<longrightarrow>
        bytes_left s + d < k \<longrightarrow> dec_ok contents (block dest n) s m (dec s tab dest m))"

lemma pb_dec_submessage_ok:
  assumes dec: "decoder_ok env k init" "decoder_ok env k noinit"
    and g: "pb_good rd contents s" and st: "static_msg env d (ptr f) (unat (data_size f))"
    and k: "bytes_left s + d \<le> k" and p: "ptr f \<noteq> 0"
    and B: "block dest (unat (data_size f)) \<subseteq> B"
  shows "dec_ok contents B s m (pb_dec_submessage init noinit s f dest m)"
proof -
  obtain s1 r where mk: "pb_make_string_substream s = (s1, r)" by force
  show ?thesis
  proof (cases r)
    case None
    then show ?thesis using mk by (simp add: pb_dec_submessage_def dec_ok_def tri_ok_def)
  next
    case (Some sub)
    note sub = substream_moves [OF g mk [unfolded Some]]
    have le: "unat (data_size f) \<le> 2 ^ 64" using unat_word32_lt [of "data_size f"] by simp
    have "bytes_left sub + d < k" using sub(2) k by simp
    then have "dec_ok contents (block dest (unat (data_size f))) sub m
        (if PB_HTYPE (ftype f) = PB_HTYPE_REPEATED then init sub (ptr f) dest m
         else noinit sub (ptr f) dest m)"
      using dec st le sub(1) by (simp add: decoder_ok_def)
    then obtain sub' m' ok where run: "(if PB_HTYPE (ftype f) = PB_HTYPE_REPEATED
        then init sub (ptr f) dest m else noinit sub (ptr f) dest m) = Some (sub', m', ok)"
      and kp: "keeps (block dest (unat (data_size f))) m m'" and mv: "ok \<longrightarrow> pb_moves contents sub sub'"
      by (auto simp: dec_ok_def tri_ok_def)
    show ?thesis
      using mk Some p run keeps_mono [OF kp B] mv sub(3) [of sub']
      by (auto simp: pb_dec_submessage_def dec_ok_def tri_ok_def split: prod.splits option.splits)
  qed
qed

end

lemma pb_dec_fixed_decreases:
  "pb_decode_fixed32 s = (s', Some v) \<Longrightarrow> bytes_left s' < bytes_left s"
  "pb_decode_fixed64 s = (s', Some w) \<Longrightarrow> bytes_left s' < bytes_left s"
  by (auto simp: pb_decode_fixed32_def pb_decode_fixed64_def split: prod.splits option.splits
      dest!: pb_read_decreases)

lemma pb_decode_svarint_decreases:
  "pb_decode_svarint s = (s', Some v) \<Longrightarrow> bytes_left s' < bytes_left s"
  by (auto simp: pb_decode_svarint_def split: prod.splits option.splits
      dest: pb_decode_varint_decreases)

lemmas decreases = pb_decode_varint_decreases pb_decode_varint32_decreases pb_decode_svarint_decreases
  pb_dec_fixed_decreases

lemma packable_decreases:
  assumes "PB_LTYPE (ftype f) \<le> PB_LTYPE_LAST_PACKABLE"
    and "PB_DECODERS env init noinit f s dest m = Some (s', m', True)"
  shows "bytes_left s' < bytes_left s"
proof -
  have "PB_LTYPE (ftype f) = 0 \<or> PB_LTYPE (ftype f) = 1 \<or> PB_LTYPE (ftype f) = 2 \<or>
      PB_LTYPE (ftype f) = 3 \<or> PB_LTYPE (ftype f) = 4 \<or> PB_LTYPE (ftype f) = 5"
    using assms(1) by (simp only: PB_LTYPE_LAST_PACKABLE_def word8_le_5)
  then show ?thesis using assms(2)
    by (elim disjE)
       (auto simp: PB_DECODERS_def pb_type_defs pb_dec_bool_to_def pb_dec_varint_to_def
          pb_dec_uvarint_to_def pb_dec_svarint_to_def pb_dec_fixed32_to_def pb_dec_fixed64_to_def Let_def
          dest: decreases split: prod.splits option.splits if_splits)
qed

context input_source
begin

lemma field_decoder_ok:
  assumes dec: "decoder_ok env k init" "decoder_ok env k noinit"
    and g: "pb_good rd contents s" and st: "static_item (static_msg env d) f"
    and k: "bytes_left s + d \<le> k" and B: "block dest (unat (data_size f)) \<subseteq> B"
  shows "dec_ok contents B s m (PB_DECODERS env init noinit f s dest m)"
proof -
  let ?lt = "PB_LTYPE (ftype f)"
  have na: "PB_ATYPE (ftype f) \<noteq> PB_ATYPE_POINTER"
    using st by (auto simp: static_item_def Let_def pb_type_defs)
  have "?lt = 0 \<or> ?lt = 1 \<or> ?lt = 2 \<or> ?lt = 3 \<or> ?lt = 4 \<or> ?lt = 5 \<or> ?lt = 6 \<or> ?lt = 7 \<or> ?lt = 8 \<or> ?lt = 10"
    using st by (auto simp: static_item_def Let_def word8_le_8 word8_le_5 pb_type_defs)
  moreover have "?lt = 0 \<Longrightarrow> data_size f = 1" "?lt = 4 \<Longrightarrow> data_size f = 4" "?lt = 5 \<Longrightarrow> data_size f = 8"
    "?lt = 8 \<Longrightarrow> ptr f \<noteq> 0 \<and> static_msg env d (ptr f) (unat (data_size f))"
    using st by (auto simp: static_item_def Let_def pb_type_defs)
  ultimately show ?thesis
    using pb_dec_bool_to_ok [OF g, of dest B m] pb_dec_ints_to_ok [OF g B, of m] pb_dec_fixed_to_ok [OF g]
      pb_dec_bytes_to_ok [OF g na B, of m env] pb_dec_string_to_ok [OF g na B, of m env]
      pb_dec_fixed_length_bytes_to_ok [OF g B, of m] pb_dec_submessage_ok [OF dec g _ k _ B, of m] B
    by (elim disjE) (simp_all add: PB_DECODERS_def pb_type_defs dec_ok_def)
qed

end

definition field_ok ::
    "('s \<Rightarrow> bytes) \<Rightarrow> u64 set \<Rightarrow> 's pb_istream \<Rightarrow> mem \<Rightarrow> 's field_result \<Rightarrow> bool" where
  "field_ok c B s m r \<longleftrightarrow>
     (\<exists>s' m' fc ok. r = Some (s', m', fc, ok) \<and> tri_ok c B s m (s', m', ok))"

lemma field_okI:
  "keeps B m m' \<Longrightarrow> (ok \<Longrightarrow> pb_moves c s s') \<Longrightarrow> field_ok c B s m (Some (s', m', fc, ok))"
  by (simp add: field_ok_def tri_ok_def)

lemma field_ok_with_count: "dec_ok c B s m r \<Longrightarrow> field_ok c B s m (with_count fc r)"
  by (auto simp: field_ok_def dec_ok_def with_count_def)

lemma field_ok_keeps: "keeps B m m1 \<Longrightarrow> field_ok c B s m1 r \<Longrightarrow> field_ok c B s m r"
  unfolding field_ok_def tri_ok_def by (elim exE conjE) (force intro: keeps_trans)

context input_source
begin

lemma field_ok_trans:
  assumes "keeps B m m1" and "pb_moves contents s s1" and "field_ok contents B s1 m1 r"
  shows "field_ok contents B s m r"
proof -
  obtain s' m' fc ok where "r = Some (s', m', fc, ok)" "tri_ok contents B s1 m1 (s', m', ok)"
    using assms(3) unfolding field_ok_def by blast
  then show ?thesis using tri_ok_trans [OF assms(2,1)] unfolding field_ok_def by blast
qed

lemma packed_static_loop_ok:
  assumes func: "\<And>s m dest. pb_good rd contents s \<Longrightarrow> bytes_left s + d \<le> k \<Longrightarrow>
      block dest (unat (data_size (iter_field it))) \<subseteq> B \<Longrightarrow> dec_ok contents B s m (func s dest m)"
    and dec: "\<And>s m dest s' m'. func s dest m = Some (s', m', True) \<Longrightarrow> bytes_left s' < bytes_left s"
    and items: "\<And>n. n < array_size (iter_field it) \<Longrightarrow>
      block (array_item (pData it) (iter_field it) n) (unat (data_size (iter_field it))) \<subseteq> B"
    and count: "\<And>n m fc m' fc'. set_count it n m fc = (m', fc') \<Longrightarrow> keeps B m m'"
    and g: "pb_good rd contents sub" and fuel: "bytes_left sub < j" and k: "bytes_left sub + d \<le> k"
  shows "field_ok contents B sub m (packed_static_loop func j it sub m fc)"
  using g fuel k
proof (induction j arbitrary: sub m fc)
  case (Suc j)
  let ?n = "get_count it m fc"
  show ?case
  proof (cases "0 < bytes_left sub \<and> ?n < array_size (iter_field it)")
    case False
    then show ?thesis by (auto simp: Let_def intro: field_okI)
  next
    case True
    then obtain s1 m1 ok where
      r: "func sub (array_item (pData it) (iter_field it) ?n) m = Some (s1, m1, ok)"
      and t: "keeps B m m1" "ok \<longrightarrow> pb_moves contents sub s1"
      using func [OF Suc.prems(1,3) items [OF conjunct2 [OF True]], of m]
      unfolding dec_ok_def tri_ok_def by (elim exE conjE) (simp split: prod.splits)
    show ?thesis
    proof (cases ok)
      case False
      then show ?thesis using True r t by (auto simp: Let_def intro: field_okI)
    next
      case ok: True
      obtain m2 fc2 where c: "set_count it (get_count it m1 fc + 1) m1 fc = (m2, fc2)" by force
      have lt: "bytes_left s1 < bytes_left sub" using dec r ok by simp
      have mv: "pb_moves contents sub s1" using t(2) ok by simp
      have "field_ok contents B s1 m2 (packed_static_loop func j it s1 m2 fc2)"
        using lt Suc.prems by (intro Suc.IH pb_moves_good [OF mv]) auto
      from field_ok_trans [OF keeps_trans [OF t(1) count [OF c]] mv this] show ?thesis
        using True r ok c by (simp add: Let_def)
    qed
  qed
qed simp

end

text \<open>The entries of an array lie in its block.\<close>

lemma array_item_inside:
  assumes "n < array_size f" and "unat (data_size f) * unat (array_size f) < 2 ^ 32"
  shows "block (array_item p f n) (unat (data_size f)) \<subseteq> block p (unat (data_size f) * unat (array_size f))"
proof -
  let ?s = "unat (data_size f)" and ?a = "unat (array_size f)"
  have "unat n + 1 \<le> ?a" using assms(1) by (simp add: word_less_nat_alt)
  then have le: "?s * unat n + ?s \<le> ?s * ?a"
    by (metis add_mult_distrib2 mult.right_neutral mult_le_mono2)
  then have "unat (data_size f * n) = ?s * unat n"
    using assms(2) by (simp add: unat_word_ariths)
  then have "inside (?s * ?a) (ucast (data_size f * n) :: u64) ?s"
    using le by (simp add: inside_def unat_ucast_less)
  then show ?thesis unfolding array_item_def using assms(2) by (intro block_inside) auto
qed

text \<open>The iterator of the decoding loop stands on field \<open>i\<close>, possibly with the count in
  \<open>fixed_count_size\<close>.\<close>

definition at_field :: "pb_desc list \<Rightarrow> u64 \<Rightarrow> nat \<Rightarrow> pb_field_iter \<Rightarrow> bool" where
  "at_field fs dest i it \<longleftrightarrow>
     it = iter_at fs dest i \<or>
     it = (iter_at fs dest i)\<lparr>pSize := FixedCount\<rparr> \<and>
     PB_HTYPE (ftype (iter_field it)) = PB_HTYPE_REPEATED"

lemma iter_field_pSize [simp]: "iter_field (it\<lparr>pSize := x\<rparr>) = iter_field it"
  by (simp add: iter_field_def)

lemma at_field_iter_field: "at_field fs dest i it \<Longrightarrow> iter_field it = iter_field (iter_at fs dest i)"
  by (auto simp: at_field_def)

lemma at_fieldD:
  assumes at: "at_field fs dest i it" and st: "static_field sub n (iter_at fs 0 i)" and n: "n \<le> 2 ^ 64"
  defines "f \<equiv> iter_field it"
  shows "PB_ATYPE (ftype f) = PB_ATYPE_STATIC" "PB_LTYPE (ftype f) \<noteq> PB_LTYPE_EXTENSION"
    and "static_item sub f" "block (pData it) (field_span f) \<subseteq> block dest n"
    and "PB_LTYPE (ftype f) = PB_LTYPE_SUBMESSAGE \<Longrightarrow> ptr f \<noteq> 0 \<and> sub (ptr f) (unat (data_size f))"
    and "PB_HTYPE (ftype f) = PB_HTYPE_REPEATED \<Longrightarrow> unat (data_size f) * unat (array_size f) < 2 ^ 32"
    and "PB_HTYPE (ftype f) = PB_HTYPE_OPTIONAL \<Longrightarrow> has_own_size it \<Longrightarrow> keeps (block dest n) m (set_has it b m)"
    and "PB_HTYPE (ftype f) = PB_HTYPE_REPEATED \<or> PB_HTYPE (ftype f) = PB_HTYPE_ONEOF \<Longrightarrow>
      set_count it k m fc = (m', fc') \<Longrightarrow> keeps (block dest n) m m'"
proof -
  note D = static_fieldD [OF st n iter_at_shift [of fs dest i]]
  have f: "f = iter_field (iter_at fs dest i)" using at by (auto simp: f_def at_field_def)
  have p: "pData it = pData (iter_at fs dest i)" using at by (auto simp: at_field_def)
  show "PB_ATYPE (ftype f) = PB_ATYPE_STATIC" "PB_LTYPE (ftype f) \<noteq> PB_LTYPE_EXTENSION"
    "static_item sub f" "block (pData it) (field_span f) \<subseteq> block dest n"
    "PB_LTYPE (ftype f) = PB_LTYPE_SUBMESSAGE \<Longrightarrow> ptr f \<noteq> 0 \<and> sub (ptr f) (unat (data_size f))"
    "PB_HTYPE (ftype f) = PB_HTYPE_REPEATED \<Longrightarrow> unat (data_size f) * unat (array_size f) < 2 ^ 32"
    unfolding f p using D(1-6) by blast+
  show "keeps (block dest n) m (set_has it b m)"
    if "PB_HTYPE (ftype f) = PB_HTYPE_OPTIONAL" "has_own_size it"
    using at D(7) that unfolding f at_field_def by (auto simp: set_has_def)
  show "keeps (block dest n) m m'"
    if "PB_HTYPE (ftype f) = PB_HTYPE_REPEATED \<or> PB_HTYPE (ftype f) = PB_HTYPE_ONEOF"
      "set_count it k m fc = (m', fc')"
    using at D(8) that unfolding f at_field_def by (auto simp: set_count_def)
qed

lemma iter_next_pSize:
  "PB_HTYPE (ftype (iter_field it)) = PB_HTYPE_REPEATED \<Longrightarrow> ftag (iter_field it) \<noteq> 0 \<Longrightarrow>
   pb_field_iter_next (it\<lparr>pSize := x\<rparr>) = pb_field_iter_next it"
proof -
  have "PB_HTYPE_REPEATED \<noteq> PB_HTYPE_ONEOF" by (simp add: pb_type_defs)
  moreover have "iter_field (it\<lparr>pSize := x, pos := p\<rparr>) = iter_field (it\<lparr>pos := p\<rparr>)" for p
    by (simp add: iter_field_def)
  ultimately show "pb_field_iter_next (it\<lparr>pSize := x\<rparr>) = pb_field_iter_next it"
    if "PB_HTYPE (ftype (iter_field it)) = PB_HTYPE_REPEATED" "ftag (iter_field it) \<noteq> 0"
    using that by (simp add: pb_field_iter_next_def Let_def)
qed

lemma iter_search_pSize:
  "PB_HTYPE (ftype (iter_field it)) = PB_HTYPE_REPEATED \<Longrightarrow> ftag (iter_field it) \<noteq> 0 \<Longrightarrow>
   iter_search P s (Suc k) (it\<lparr>pSize := x\<rparr>) =
     (if P (iter_field it) then (it\<lparr>pSize := x\<rparr>, True) else iter_search P s (Suc k) it)"
  by (simp add: iter_next_pSize)

lemma at_field_search:
  assumes fs: "table_ok fs" "i < length fs" and at: "at_field fs dest i it"
    and search: "iter_search P i (length fs) it = (it', b)"
  obtains j where "j < length fs" "at_field fs dest j it'" and "b \<Longrightarrow> P (fs ! j)"
proof -
  let ?it = "iter_at fs dest i"
  note result = that
  have plain: thesis if "iter_search P i (length fs) ?it = (it', b)"
  proof (cases "find (\<lambda>n. P (fs ! n)) ([i..<length fs] @ [0..<i])")
    case None
    then have "(it', b) = (?it, False)"
      using that fs iter_search_at [OF fs(1,2,2), of "length fs" P dest] by (simp add: cyclic_def)
    then show thesis using fs(2) by (intro result [of i]) (simp_all add: at_field_def)
  next
    case (Some j)
    then have j: "j < length fs" "P (fs ! j)" using fs(2) by (auto simp: find_Some_iff nth_append)
    have "(it', b) = (iter_at fs dest j, True)"
      using that Some fs iter_search_at [OF fs(1,2,2), of "length fs" P dest] by (simp add: cyclic_def)
    then show thesis using j by (intro result [of j]) (simp_all add: at_field_def)
  qed
  have f: "iter_field ?it = fs ! i" using fs by (simp add: iter_field_def)
  have t: "ftag (iter_field ?it) \<noteq> 0" using fs by (simp add: f table_ok_def)
  obtain k where k: "length fs = Suc k" using fs(2) by (cases "length fs") simp_all
  show thesis
  proof (cases "it = ?it")
    case False
    then have it: "it = ?it\<lparr>pSize := FixedCount\<rparr>" and h: "PB_HTYPE (ftype (iter_field ?it)) = PB_HTYPE_REPEATED"
      using at by (auto simp: at_field_def)
    show thesis
    proof (cases "P (fs ! i)")
      case True
      then have "(it', b) = (it, True)"
        using search unfolding it k iter_search_pSize [OF h t] by (simp add: f)
      then show thesis using True fs(2) at by (intro result [of i]) simp_all
    next
      case False
      then have "iter_search P i (length fs) ?it = (it', b)"
        using search unfolding it k iter_search_pSize [OF h t] by (simp add: f)
      then show thesis by (rule plain)
    qed
  qed (use search plain in simp)
qed

lemma at_field_pos: "table_ok fs \<Longrightarrow> i < length fs \<Longrightarrow> at_field fs dest i it \<Longrightarrow> pos it = i"
  by (auto simp: at_field_def)

lemma at_field_start: "at_field fs dest i it \<Longrightarrow> start it = fs"
  by (auto simp: at_field_def)

lemma at_field_find:
  assumes fs: "table_ok fs" "i < length fs" and at: "at_field fs dest i it"
    and find: "pb_field_iter_find it tag = (it', b)"
  obtains j where "j < length fs" "at_field fs dest j it'"
  using find unfolding pb_field_iter_find_def at_field_pos [OF assms(1-3)] at_field_start [OF at]
  by (rule at_field_search [OF assms(1-3)]) (rule that)

lemma at_field_find_extension:
  assumes fs: "table_ok fs" "i < length fs" and at: "at_field fs dest i it"
    and find: "find_extension_field it = (it', b)"
    and none: "\<And>j. j < length fs \<Longrightarrow> PB_LTYPE (ftype (fs ! j)) \<noteq> PB_LTYPE_EXTENSION"
  obtains j where "j < length fs" "at_field fs dest j it'" "\<not> b"
  using find unfolding find_extension_field_def at_field_pos [OF assms(1-3)] at_field_start [OF at]
  by (rule at_field_search [OF assms(1-3)]) (use none that in blast)

context input_source
begin

lemma decode_static_field_ok:
  assumes dec: "decoder_ok env k init" "decoder_ok env k noinit"
    and g: "pb_good rd contents s" and at: "at_field fs dest i it"
    and st: "static_field (static_msg env d) n (iter_at fs 0 i)" and n: "n \<le> 2 ^ 64"
    and k: "bytes_left s + d \<le> k"
  shows "field_ok contents (block dest n) s m (decode_static_field env k init noinit s w it m fc)"
proof -
  let ?f = "iter_field it"
  let ?func = "PB_DECODERS env init noinit ?f"
  note D = at_fieldD [OF at st n]
  have func: "dec_ok contents (block dest n) s m (?func s a m)"
    if "pb_good rd contents s" "bytes_left s + d \<le> k" "block a (unat (data_size ?f)) \<subseteq> block dest n" for s m a
    using field_decoder_ok [OF dec that(1) D(3) that(2,3)] .
  consider "PB_HTYPE (ftype ?f) = PB_HTYPE_REQUIRED" | "PB_HTYPE (ftype ?f) = PB_HTYPE_OPTIONAL"
    | "PB_HTYPE (ftype ?f) = PB_HTYPE_REPEATED" | "PB_HTYPE (ftype ?f) = PB_HTYPE_ONEOF"
    using htype_cases by blast
  then show ?thesis
  proof cases
    case 1
    then have "block (pData it) (unat (data_size ?f)) \<subseteq> block dest n"
      using D(4) by (simp add: field_span_def pb_type_defs)
    from func [OF g k this] have "field_ok contents (block dest n) s m (with_count fc (?func s (pData it) m))"
      by (rule field_ok_with_count)
    then show ?thesis using 1 by (simp add: decode_static_field_def Let_def)
  next
    case 2
    let ?m = "if has_own_size it then set_has it True m else m"
    have "block (pData it) (unat (data_size ?f)) \<subseteq> block dest n"
      using D(4) 2 by (simp add: field_span_def pb_type_defs)
    from func [OF g k this, of ?m] have
      "field_ok contents (block dest n) s ?m (with_count fc (?func s (pData it) ?m))"
      by (rule field_ok_with_count)
    moreover have "keeps (block dest n) m ?m" using D(7) [OF 2] by simp
    ultimately have "field_ok contents (block dest n) s m (with_count fc (?func s (pData it) ?m))"
      by (rule field_ok_keeps [rotated])
    then show ?thesis using 2 by (simp add: decode_static_field_def Let_def pb_type_defs)
  next
    case 3
    have items: "block (array_item (pData it) ?f c) (unat (data_size ?f)) \<subseteq> block dest n"
      if "c < array_size ?f" for c
      using array_item_inside [OF that D(6) [OF 3], of "pData it"] D(4) 3 by (simp add: field_span_def)
    have count: "keeps (block dest n) m m'" if "set_count it c m fc = (m', fc')" for c m fc m' fc'
      using D(8) that 3 by blast
    show ?thesis
    proof (cases "w = PB_WT_STRING \<and> PB_LTYPE (ftype ?f) \<le> PB_LTYPE_LAST_PACKABLE")
      case packed: True
      obtain s1 r where mk: "pb_make_string_substream s = (s1, r)" by force
      show ?thesis
      proof (cases r)
        case None
        then show ?thesis using 3 packed mk
          by (simp add: decode_static_field_def Let_def pb_type_defs field_okI)
      next
        case (Some sub)
        note sub = substream_moves [OF g mk [unfolded Some]]
        have "field_ok contents (block dest n) sub m (packed_static_loop ?func k it sub m fc)"
          using sub(2) k packed packable_decreases
          by (intro packed_static_loop_ok [where d = d and k = k] func items count sub(1)) auto
        then obtain s2 m2 fc2 ok where run: "packed_static_loop ?func k it sub m fc = Some (s2, m2, fc2, ok)"
          and kp: "keeps (block dest n) m m2" and mv: "ok \<longrightarrow> pb_moves contents sub s2"
          unfolding field_ok_def tri_ok_def by auto
        obtain s3 q where cl: "pb_close_string_substream s1 s2 = (s3, q)" by force
        have eq: "decode_static_field env k init noinit s w it m fc =
            (if bytes_left s2 \<noteq> 0 then Some (pb_set_error s1 ''array overflow'', m2, fc2, False)
             else Some (s3, m2, fc2, q \<noteq> None \<and> ok))"
          using 3 packed mk run cl
          by (simp add: decode_static_field_def Let_def pb_type_defs Some split: option.splits)
        show ?thesis unfolding eq using kp mv sub(3) [of s2 s3] cl
          by (cases q) (auto intro!: field_okI)
      qed
    next
      case single: False
      let ?c = "get_count it m fc"
      obtain m1 fc1 where c: "set_count it (?c + 1) m fc = (m1, fc1)" by force
      have eq: "decode_static_field env k init noinit s w it m fc =
          (if array_size ?f \<le> ?c then Some (pb_set_error s ''array overflow'', m1, fc1, False)
           else with_count fc1 (?func s (array_item (pData it) ?f ?c) m1))"
        using 3 c unfolding decode_static_field_def Let_def if_not_P [OF single]
        by (simp add: pb_type_defs)
      have "field_ok contents (block dest n) s m1 (with_count fc1 (?func s (array_item (pData it) ?f ?c) m1))"
        if "\<not> array_size ?f \<le> ?c"
        using that g k by (intro field_ok_with_count func items) auto
      then show ?thesis unfolding eq using count [OF c] field_ok_keeps [OF count [OF c]]
        by (auto intro: field_okI)
    qed
  next
    case 4
    have B: "block (pData it) (unat (data_size ?f)) \<subseteq> block dest n"
      using D(4) 4 by (simp add: field_span_def pb_type_defs)
    have le: "unat (data_size ?f) \<le> 2 ^ 64" using unat_word32_lt [of "data_size ?f"] by simp
    have ex: "\<exists>m2. (if PB_LTYPE (ftype ?f) = PB_LTYPE_SUBMESSAGE \<and> get_count it m fc \<noteq> ftag ?f
        then pb_message_set_to_defaults env k (ptr ?f) (pData it) (memset_zero m (pData it) (data_size ?f))
        else Some m) = Some m2 \<and> keeps (block dest n) m m2"
    proof (cases "PB_LTYPE (ftype ?f) = PB_LTYPE_SUBMESSAGE \<and> get_count it m fc \<noteq> ftag ?f")
      case True
      let ?m = "memset_zero m (pData it) (data_size ?f)"
      have zero: "keeps (block dest n) m ?m"
        unfolding memset_zero_def using B le by (intro keeps_store) simp_all
      have "\<exists>m2. pb_message_set_to_defaults env k (ptr ?f) (pData it) ?m = Some m2 \<and>
          keeps (block (pData it) (unat (data_size ?f))) ?m m2"
        using True D(5) k by (intro defaults_total [where d = d] le) auto
      then obtain m2 where m2: "pb_message_set_to_defaults env k (ptr ?f) (pData it) ?m = Some m2"
        and kp: "keeps (block (pData it) (unat (data_size ?f))) ?m m2" by blast
      show ?thesis using True m2 keeps_trans [OF zero keeps_mono [OF kp B]] by simp
    qed auto
    then obtain m2 where m2: "(if PB_LTYPE (ftype ?f) = PB_LTYPE_SUBMESSAGE \<and> get_count it m fc \<noteq> ftag ?f
        then pb_message_set_to_defaults env k (ptr ?f) (pData it) (memset_zero m (pData it) (data_size ?f))
        else Some m) = Some m2" and kp: "keeps (block dest n) m m2" by blast
    obtain m3 fc3 where c: "set_count it (ftag ?f) m2 fc = (m3, fc3)" by force
    have k3: "keeps (block dest n) m m3" using keeps_trans [OF kp D(8) [OF _ c]] 4 by blast
    have eq: "decode_static_field env k init noinit s w it m fc =
        with_count fc3 (?func s (pData it) m3)"
      using 4 unfolding decode_static_field_def Let_def m2 by (simp add: pb_type_defs c)
    have "field_ok contents (block dest n) s m3 (with_count fc3 (?func s (pData it) m3))"
      using g k B by (intro field_ok_with_count func)
    with k3 show ?thesis unfolding eq by (rule field_ok_keeps)
  qed
qed

end

subsection \<open>The loop over the input\<close>

text \<open>The iterator of the loop; an empty table leaves it on the terminating descriptor.\<close>

definition at_table :: "pb_desc list \<Rightarrow> u64 \<Rightarrow> pb_field_iter \<Rightarrow> bool" where
  "at_table fs dest it \<longleftrightarrow>
     (if fs = [] then it = iter_at [] dest 0 else \<exists>i < length fs. at_field fs dest i it)"

lemma at_table_begin: "at_table fs dest (fst (pb_field_iter_begin fs dest))"
  by (auto simp: at_table_def at_field_def intro: exI [of _ 0])

lemma at_field_at_table: "at_field fs dest i it \<Longrightarrow> i < length fs \<Longrightarrow> at_table fs dest it"
  by (auto simp: at_table_def)

lemma iter_search_empty: "iter_search P a (length []) it = (it, P (iter_field it))"
  by simp

lemma at_table_find:
  assumes "table_ok fs" and "at_table fs dest it" and "pb_field_iter_find it tag = (it', b)"
  shows "at_table fs dest it'"
proof (cases "fs = []")
  case True
  then show ?thesis using assms(2,3) by (simp add: at_table_def pb_field_iter_find_def)
next
  case False
  then obtain i where i: "i < length fs" "at_field fs dest i it" using assms(2) by (auto simp: at_table_def)
  obtain j where "j < length fs" "at_field fs dest j it'"
    using at_field_find [OF assms(1) i assms(3)] by blast
  then show ?thesis by (simp add: at_field_at_table)
qed

lemma at_table_find_extension:
  assumes ok: "table_ok fs" and at: "at_table fs dest it" and find: "find_extension_field it = (it', b)"
    and none: "\<And>j. j < length fs \<Longrightarrow> PB_LTYPE (ftype (fs ! j)) \<noteq> PB_LTYPE_EXTENSION"
  shows "at_table fs dest it' \<and> \<not> b"
proof (cases "fs = []")
  case True
  have "PB_LTYPE (ftype PB_LAST_FIELD) \<noteq> PB_LTYPE_EXTENSION"
    by (simp add: PB_LAST_FIELD_def PB_LTYPE_def pb_type_defs)
  then show ?thesis using True at find
    by (auto simp: at_table_def find_extension_field_def iter_field_def)
next
  case False
  then obtain i where i: "i < length fs" "at_field fs dest i it" using at by (auto simp: at_table_def)
  obtain j where "j < length fs" "at_field fs dest j it'" "\<not> b"
    using at_field_find_extension [OF ok i find none] by blast
  then show ?thesis by (simp add: at_field_at_table)
qed

lemma release_union_ok:
  assumes ok: "table_ok fs" and at: "at_table fs dest it" and ne: "fs \<noteq> []"
    and st: "\<And>i. i < length fs \<Longrightarrow> static_field (static_msg env d) n (iter_at fs 0 i)" and d: "d < k"
  obtains s' it' b where "pb_release_union_field env k s it m = Some (s', it', m, b)"
    and "at_table fs dest it'" and "b \<Longrightarrow> s' = s"
proof -
  obtain k' where k: "k = Suc k'" "d \<le> k'" using d by (cases k) auto
  obtain it1 b1 where f1: "pb_field_iter_find it (get_count it m 0) = (it1, b1)" by force
  obtain it2 b2 where f2: "pb_field_iter_find it1 (ftag (iter_field it)) = (it2, b2)" by force
  have at1: "at_table fs dest it1" by (rule at_table_find [OF ok at f1])
  have at2: "at_table fs dest it2" by (rule at_table_find [OF ok at1 f2])
  have item: "static_item (static_msg env d) (iter_field x)" if x: "at_table fs dest x" for x
  proof -
    obtain i where "i < length fs" "at_field fs dest i x" using x ne by (auto simp: at_table_def)
    then show ?thesis using st [of i]
      by (auto simp: at_field_def static_field_def Let_def iter_at_shift [of fs dest])
  qed
  have rel: "pb_release_single_field env k it1 m = Some m"
    unfolding k(1) using k(2) by (intro release_single_same [OF item [OF at1]] release_same)
  have np: "PB_ATYPE (ftype (iter_field it2)) \<noteq> PB_ATYPE_POINTER"
    using item [OF at2] by (simp add: static_item_def Let_def pb_type_defs)
  let ?r = "if get_count it m 0 = 0 \<or> get_count it m 0 = ftag (iter_field it) then (s, it, m, True)
    else if \<not> b1 then (pb_set_error s ''invalid union tag'', it1, m, False)
    else if \<not> b2 then (pb_set_error s ''iterator error'', it2, m, False)
    else (s, it2, m, True)"
  have eq: "pb_release_union_field env k s it m = Some ?r"
    by (cases b1; cases b2) (simp_all add: pb_release_union_field_def Let_def f1 f2 rel np)
  have "\<exists>s' it' b. ?r = (s', it', m, b) \<and> at_table fs dest it' \<and> (b \<longrightarrow> s' = s)"
    using at at1 at2 by auto
  then show thesis using that unfolding eq by blast
qed

context input_source
begin

text \<open>What every step of the loop keeps.\<close>

definition step_ok ::
    "u64 set \<Rightarrow> pb_desc list \<Rightarrow> u64 \<Rightarrow> 's pb_istream \<Rightarrow> mem \<Rightarrow>
     ('s pb_istream \<times> dec_vars \<times> mem \<times> bool) option \<Rightarrow> bool" where
  "step_ok B fs dest s m r \<longleftrightarrow>
     (\<exists>s' v' m' ok. r = Some (s', v', m', ok) \<and> at_table fs dest (iter v') \<and>
        tri_ok contents B s m (s', m', ok))"

lemma step_okI:
  "at_table fs dest (iter v) \<Longrightarrow> keeps B m m' \<Longrightarrow> (ok \<Longrightarrow> pb_moves contents s s') \<Longrightarrow>
   step_ok B fs dest s m (Some (s', v, m', ok))"
  by (simp add: step_ok_def tri_ok_def)

lemma decode_field_ok:
  assumes dec: "decoder_ok env k init" "decoder_ok env k noinit"
    and g: "pb_good rd contents s" and ok: "table_ok fs" and at: "at_table fs dest it"
    and st: "\<And>i. i < length fs \<Longrightarrow> static_field (static_msg env d) n (iter_at fs 0 i)"
    and n: "0 < n" "n \<le> 2 ^ 64" and k: "bytes_left s + d < k"
  shows "\<exists>it' s' m' fc' ok. decode_field env k init noinit s w it m fc = Some (it', s', m', fc', ok) \<and>
    at_table fs dest it' \<and> tri_ok contents (block dest n) s m (s', m', ok)"
proof (cases "fs = []")
  case True
  then have it: "it = iter_at [] dest 0" using at by (simp add: at_table_def)
  have f: "iter_field it = PB_LAST_FIELD" "pData it = dest"
    by (simp_all add: it iter_field_def pb_field_iter_begin_def PB_LAST_FIELD_def Let_def)
  have "block dest 1 \<subseteq> block dest n" using n(1) by (intro block_mono) simp
  from pb_dec_bool_to_ok [OF g this, of m] obtain s' m' b where
    b: "pb_dec_bool_to s dest m = (s', m', b)" "tri_ok contents (block dest n) s m (s', m', b)"
    by (metis prod_cases3)
  have "decode_field env k init noinit s w it m fc = Some (it, s', m', fc, b)"
  proof -
    have t: "PB_HTYPE (ftype (iter_field it)) = PB_HTYPE_REQUIRED"
      "PB_ATYPE (ftype (iter_field it)) = PB_ATYPE_STATIC" "PB_LTYPE (ftype (iter_field it)) = 0"
      unfolding f(1) by (simp_all add: PB_LAST_FIELD_def PB_HTYPE_def PB_ATYPE_def PB_LTYPE_def pb_type_defs)
    have "PB_HTYPE_REQUIRED \<noteq> PB_HTYPE_ONEOF" by (simp add: pb_type_defs)
    then show ?thesis
      by (simp add: decode_field_def decode_static_field_def Let_def PB_DECODERS_def t f(2) b with_count_def)
  qed
  then show ?thesis using b(2) at by blast
next
  case False
  have inner: "\<exists>s' m' fc' ok. map_option (Pair it1)
        (if PB_ATYPE (ftype (iter_field it1)) = PB_ATYPE_STATIC
         then decode_static_field env k init noinit s w it1 m fc else q) = Some (it1, s', m', fc', ok) \<and>
      tri_ok contents (block dest n) s m (s', m', ok)"
    if at1: "at_table fs dest it1" for it1 q
  proof -
    obtain i where i: "i < length fs" "at_field fs dest i it1"
      using at1 False by (auto simp: at_table_def)
    have "field_ok contents (block dest n) s m (decode_static_field env k init noinit s w it1 m fc)"
      using k by (intro decode_static_field_ok [OF dec g i(2) st [OF i(1)] n(2)]) simp
    moreover have "PB_ATYPE (ftype (iter_field it1)) = PB_ATYPE_STATIC"
      using at_fieldD(1) [OF i(2) st [OF i(1)] n(2)] .
    ultimately show ?thesis by (auto simp: field_ok_def)
  qed
  show ?thesis
  proof (cases "PB_HTYPE (ftype (iter_field it)) = PB_HTYPE_ONEOF")
    case one: True
    have "d < k" using k by simp
    from release_union_ok [OF ok at False st this, of s m] obtain s1 it1 b where
      u: "pb_release_union_field env k s it m = Some (s1, it1, m, b)" "at_table fs dest it1" "b \<Longrightarrow> s1 = s"
      by blast
    show ?thesis
    proof (cases b)
      case True
      then show ?thesis using one u inner [OF u(2)]
        by (simp add: decode_field_def Let_def)
    next
      case False
      then show ?thesis using one u by (auto simp: decode_field_def tri_ok_def)
    qed
  next
    case False
    then show ?thesis using inner [OF at] at
      by (simp add: decode_field_def Let_def)
  qed
qed

lemma decode_unknown_ok:
  assumes g: "pb_good rd contents s" and ok: "table_ok fs" and at: "at_table fs dest (iter v)"
    and none: "\<And>j. j < length fs \<Longrightarrow> PB_LTYPE (ftype (fs ! j)) \<noteq> PB_LTYPE_EXTENSION"
    and tag: "tag < - 1"
  shows "step_ok B fs dest s m (decode_unknown env k init noinit s tag w v m)"
proof -
  obtain s' r where skip: "pb_skip_field s w = (s', r)" by force
  have mv: "pb_moves contents s s'" by (rule pb_skip_field_moves [OF g skip])
  obtain it b where f: "find_extension_field (iter v) = (it, b)" by force
  have at': "at_table fs dest it" "\<not> b" using at_table_find_extension [OF ok at f none] by blast+
  let ?v = "if tag < extension_range_start v then v else v\<lparr>iter := it, extension_range_start := - 1\<rparr>"
  have "decode_unknown env k init noinit s tag w v m = Some (s', ?v, m, r \<noteq> None)"
    using tag at'(2) by (simp add: decode_unknown_def Let_def skip f)
  then show ?thesis using at at'(1) mv by (simp add: step_ok_def tri_ok_def)
qed

end

lemma enter_fixed_count_at:
  assumes "enter_fixed_count v = Some v1" and "at_table fs dest (iter v)"
  shows "at_table fs dest (iter v1)"
proof (cases "iter v1 = iter v")
  case False
  then have it: "iter v1 = (iter v)\<lparr>pSize := FixedCount\<rparr>"
    and h: "PB_HTYPE (ftype (iter_field (iter v))) = PB_HTYPE_REPEATED"
    using assms(1) by (auto simp: enter_fixed_count_def Let_def split: if_splits)
  have "fs \<noteq> []"
  proof
    assume "fs = []"
    then have "iter_field (iter v) = PB_LAST_FIELD" using assms(2) by (simp add: at_table_def iter_field_def)
    then show False using h by (simp add: PB_LAST_FIELD_def PB_HTYPE_def pb_type_defs)
  qed
  then show ?thesis using assms(2) h by (auto simp: at_table_def at_field_def it)
qed (use assms(2) in simp)

lemma mark_seen_iter [simp]: "iter (mark_seen v) = iter v"
  by (simp add: mark_seen_def Let_def)

lemma mark_seen_size [simp]: "fixed_count_size (mark_seen v) = fixed_count_size v"
  by (simp add: mark_seen_def Let_def)

context input_source
begin

lemma decode_known_ok:
  assumes dec: "decoder_ok env k init" "decoder_ok env k noinit"
    and g: "pb_good rd contents s" and ok: "table_ok fs" and at: "at_table fs dest (iter v)"
    and st: "\<And>i. i < length fs \<Longrightarrow> static_field (static_msg env d) n (iter_at fs 0 i)"
    and n: "0 < n" "n \<le> 2 ^ 64" and k: "bytes_left s + d < k"
  shows "step_ok (block dest n) fs dest s m (decode_known env k init noinit s w v m)"
proof (cases "enter_fixed_count v")
  case None
  then show ?thesis using at by (auto simp: decode_known_def step_ok_def tri_ok_def)
next
  case (Some v1)
  have at1: "at_table fs dest (iter v1)" by (rule enter_fixed_count_at [OF Some at])
  obtain it s' m' fc' b where
    "decode_field env k init noinit s w (iter v1) m (fixed_count_size v1) = Some (it, s', m', fc', b)"
    and "at_table fs dest it" "tri_ok contents (block dest n) s m (s', m', b)"
    using decode_field_ok [OF dec g ok at1 st n k] by blast
  then show ?thesis using Some by (simp add: decode_known_def step_ok_def Let_def)
qed

definition loop_ok :: "'s pb_env \<Rightarrow> nat \<Rightarrow> bool" where
  "loop_ok env k \<longleftrightarrow>
     (\<forall>s v m tab d n dest. pb_good rd contents s \<longrightarrow> static_msg env d tab n \<longrightarrow> n \<le> 2 ^ 64 \<longrightarrow>
        at_table (fields_at env tab) dest (iter v) \<longrightarrow> bytes_left s + d < k \<longrightarrow>
        step_ok (block dest n) (fields_at env tab) dest s m (decode_msg_loop env k s v m))"

lemma noinit_with_ok:
  assumes "loop_ok env k" shows "decoder_ok env k (noinit_with (decode_msg_loop env k) env)"
  unfolding decoder_ok_def
proof (intro allI impI)
  fix s tab d n dest m
  assume "pb_good rd contents s" "static_msg env d tab n" "n \<le> 2 ^ 64" "bytes_left s + d < k"
  moreover define v where "v = \<lparr>iter = fst (pb_field_iter_begin (fields_at env tab) dest),
    fields_seen = [0, 0], extension_range_start = 0, fixed_count_field = None, fixed_count_size = 0\<rparr>"
  moreover have "at_table (fields_at env tab) dest (iter v)" by (simp add: v_def at_table_begin)
  ultimately have "step_ok (block dest n) (fields_at env tab) dest s m (decode_msg_loop env k s v m)"
    using assms unfolding loop_ok_def by blast
  then obtain s' v' m' b where r: "decode_msg_loop env k s v m = Some (s', v', m', b)"
    and t: "tri_ok contents (block dest n) s m (s', m', b)" by (auto simp: step_ok_def)
  have "noinit_with (decode_msg_loop env k) env s tab dest m =
      Some (if \<not> b then (s', m', False)
            else if fixed_count_incomplete v' then (pb_set_error s' ''wrong size for fixed count field'', m', False)
            else if required_missing v' then (pb_set_error s' ''missing required field'', m', False)
            else (s', m', True))"
    using r by (cases b) (simp_all add: noinit_with_def v_def [symmetric])
  then show "dec_ok contents (block dest n) s m (noinit_with (decode_msg_loop env k) env s tab dest m)"
    using t by (auto simp: dec_ok_def tri_ok_def)
qed

lemma init_with_ok:
  assumes "decoder_ok env k noinit" shows "decoder_ok env k (init_with noinit env k)"
  unfolding decoder_ok_def
proof (intro allI impI)
  fix s tab d n dest m
  assume s: "pb_good rd contents s" and st: "static_msg env d tab n" and n: "n \<le> 2 ^ 64"
    and k: "bytes_left s + d < k"
  have "d \<le> k" using k by simp
  from defaults_total [OF st n this] obtain m1 where
    m1: "pb_message_set_to_defaults env k tab dest m = Some m1" "keeps (block dest n) m m1" by blast
  have "dec_ok contents (block dest n) s m1 (noinit s tab dest m1)"
    using assms s st n k unfolding decoder_ok_def by blast
  then obtain s' m2 b where r: "noinit s tab dest m1 = Some (s', m2, b)"
    and t: "keeps (block dest n) m1 m2" "b \<longrightarrow> pb_moves contents s s'"
    by (auto simp: dec_ok_def tri_ok_def)
  have "init_with noinit env k s tab dest m = Some (s', m2, b)"
    using m1(1) r release_same [OF st \<open>d \<le> k\<close>, of dest m2] by (cases b) (simp_all add: init_with_def)
  then show "dec_ok contents (block dest n) s m (init_with noinit env k s tab dest m)"
    using keeps_trans [OF m1(2) t(1)] t(2) by (simp add: dec_ok_def tri_ok_def)
qed

lemma pb_decode_tag_bound: "pb_decode_tag s = (s', Some (w, tag), e) \<Longrightarrow> tag < - 1"
proof -
  assume "pb_decode_tag s = (s', Some (w, tag), e)"
  then obtain t :: u32 where "tag = drop_bit 3 t"
    by (auto simp: pb_decode_tag_def split: prod.splits option.splits if_splits)
  moreover have "unat (drop_bit 3 t) < 2 ^ 32 - 1"
  proof -
    have "unat t div 8 < 4294967295" using unat_word32_lt [of t] by simp
    then show ?thesis by (simp add: unat_drop_bit_div)
  qed
  ultimately show ?thesis by (simp add: word_less_nat_alt unsigned_minus_1_eq_mask mask_eq_exp_minus_1)
qed

lemma decode_msg_loop_ok: "loop_ok env k"
proof (induction k)
  case 0
  then show ?case by (simp add: loop_ok_def)
next
  case (Suc k)
  let ?noinit = "noinit_with (decode_msg_loop env k) env"
  let ?init = "init_with ?noinit env k"
  have dec: "decoder_ok env k ?init" "decoder_ok env k ?noinit"
    using noinit_with_ok [OF Suc.IH] init_with_ok by blast+
  show ?case
    unfolding loop_ok_def
  proof (intro allI impI)
    fix s and v :: dec_vars and m :: mem and tab d n dest
    assume g: "pb_good rd contents s" and sm: "static_msg env d tab n" and n: "n \<le> 2 ^ 64"
      and at: "at_table (fields_at env tab) dest (iter v)" and k: "bytes_left s + d < Suc k"
    let ?fs = "fields_at env tab"
    let ?B = "block dest n"
    obtain d' where d: "d = Suc d'" "table_ok ?fs"
      and st: "\<And>i. i < length ?fs \<Longrightarrow> static_field (static_msg env d') n (iter_at ?fs 0 i)"
      using static_msgD [OF sm] by blast
    have n0: "0 < n" using sm d(1) by (simp add: Let_def)
    show "step_ok ?B ?fs dest s m (decode_msg_loop env (Suc k) s v m)"
    proof (cases "bytes_left s = 0")
      case True
      then show ?thesis using at by (simp add: Let_def step_okI)
    next
      case False
      obtain s1 r eof where tag: "pb_decode_tag s = (s1, r, eof)" by (cases "pb_decode_tag s") auto
      have mv: "pb_moves contents s s1" by (rule pb_decode_tag_moves [OF g tag])
      have g1: "pb_good rd contents s1" by (rule pb_moves_good [OF mv g])
      show ?thesis
      proof (cases r)
        case None
        then show ?thesis using False tag at mv by (simp add: Let_def step_okI)
      next
        case (Some p)
        obtain w t where p: "p = (w, t)" by force
        note tag' = tag [unfolded Some p]
        obtain it b where f: "pb_field_iter_find (iter v) t = (it, b)" by force
        have at1: "at_table ?fs dest (iter (v\<lparr>iter := it\<rparr>))" using at_table_find [OF d(2) at f] by simp
        have lt: "bytes_left s1 < bytes_left s" by (rule pb_decode_tag_decreases [OF tag'])
        let ?one = "if b then decode_known env k ?init ?noinit s1 w (v\<lparr>iter := it\<rparr>) m
          else decode_unknown env k ?init ?noinit s1 t w (v\<lparr>iter := it\<rparr>) m"
        have none: "PB_LTYPE (ftype (?fs ! j)) \<noteq> PB_LTYPE_EXTENSION" if "j < length ?fs" for j
          using static_fieldD(2) [OF st [OF that] n iter_at_shift [of ?fs dest j]] that d(2)
          by (simp add: iter_field_def)
        have "step_ok ?B ?fs dest s1 m ?one"
          using decode_known_ok [OF dec g1 d(2) at1 st n0 n] k lt d(1)
            decode_unknown_ok [OF g1 d(2) at1 none pb_decode_tag_bound [OF tag']] by simp
        then obtain s2 v2 m2 c where one: "?one = Some (s2, v2, m2, c)" and at2: "at_table ?fs dest (iter v2)"
          and t2: "keeps ?B m m2" "c \<longrightarrow> pb_moves contents s1 s2"
          unfolding step_ok_def tri_ok_def by auto
        have eq: "decode_msg_loop env (Suc k) s v m =
            (if c then decode_msg_loop env k s2 v2 m2 else Some (s2, v2, m2, False))"
          using False tag' f one by (cases b; cases c) (simp_all add: Let_def)
        show ?thesis
        proof (cases c)
          case True
          have mv2: "pb_moves contents s1 s2" using t2 True by simp
          have "bytes_left s2 \<le> bytes_left s1" using mv2 by (auto simp: pb_moves_def)
          then have "bytes_left s2 + d < k" using k lt by simp
          then have "step_ok ?B ?fs dest s2 m2 (decode_msg_loop env k s2 v2 m2)"
            using Suc.IH pb_moves_good [OF mv2 g1] sm n at2 unfolding loop_ok_def by blast
          then obtain s3 v3 m3 e where r3: "decode_msg_loop env k s2 v2 m2 = Some (s3, v3, m3, e)"
            and at3: "at_table ?fs dest (iter v3)" and t3: "tri_ok contents ?B s2 m2 (s3, m3, e)"
            unfolding step_ok_def by blast
          have "tri_ok contents ?B s m (s3, m3, e)"
            using tri_ok_trans [OF pb_moves_trans [OF mv mv2] t2(1) t3] .
          then show ?thesis using True r3 at3 unfolding eq step_ok_def by simp
        next
          case False
          then show ?thesis using t2(1) at2 unfolding eq by (simp add: step_okI)
        qed
      qed
    qed
  qed
qed

lemma pb_decode_ok:
  "decoder_ok env k (pb_decode_noinit env k)" "decoder_ok env k (pb_decode env k)"
proof -
  show "decoder_ok env k (pb_decode_noinit env k)"
    unfolding pb_decode_noinit_def by (rule noinit_with_ok [OF decode_msg_loop_ok])
  then show "decoder_ok env k (pb_decode env k)"
    unfolding pb_decode_def by (rule init_with_ok)
qed

end

context input_source
begin

lemma decode_delimited_ok:
  assumes dec: "decoder_ok env k dec" shows "decoder_ok env k (decode_delimited dec)"
  unfolding decoder_ok_def
proof (intro allI impI)
  fix s tab d n dest m
  assume g: "pb_good rd contents s" and st: "static_msg env d tab n" and n: "n \<le> 2 ^ 64"
    and k: "bytes_left s + d < k"
  obtain s1 r where mk: "pb_make_string_substream s = (s1, r)" by force
  show "dec_ok contents (block dest n) s m (decode_delimited dec s tab dest m)"
  proof (cases r)
    case None
    then show ?thesis using mk by (simp add: decode_delimited_def dec_ok_def tri_ok_def)
  next
    case (Some sub)
    note sub = substream_moves [OF g mk [unfolded Some]]
    have "bytes_left sub + d < k" using sub(2) k by simp
    then have "dec_ok contents (block dest n) sub m (dec sub tab dest m)"
      using dec st n sub(1) unfolding decoder_ok_def by blast
    then obtain sub' m' ok where run: "dec sub tab dest m = Some (sub', m', ok)"
      and kp: "keeps (block dest n) m m'" and mv: "ok \<longrightarrow> pb_moves contents sub sub'"
      by (auto simp: dec_ok_def tri_ok_def)
    show ?thesis
      using mk Some run kp mv sub(3) [of sub']
      by (auto simp: decode_delimited_def dec_ok_def tri_ok_def split: prod.splits option.splits)
  qed
qed

lemma entry_points_ok:
  "list_all (decoder_ok env k)
     [pb_decode env k, pb_decode_noinit env k, pb_decode_delimited env k,
      pb_decode_delimited_noinit env k, pb_decode_nullterminated env k]"
  using pb_decode_ok [of env k] decode_delimited_ok
  by (simp add: pb_decode_delimited_def pb_decode_delimited_noinit_def pb_decode_nullterminated_def)

end

end
