(* ===== verification/PbMsgEncode.thy ===== *)
theory PbMsgEncode
  imports PbMessage
begin

text \<open>
  Encoding whole messages (\<open>Pods/nanopb/pb_encode.c\<close>) from the memory of \<open>PbMem\<close>: the
  encoders of the field types at an address, the presence of fields, callback fields, extensions and
  the loop over the fields of a table.

  The environment has the field tables by address and the application's callbacks by theirs.  An
  encoding callback writes to the stream and leaves the memory of the message as it is, as nanopb
  asks of it: it is called for the size and for the data.  Sub-messages and extensions count down
  fuel; \<open>None\<close> means that it was used up, that the C code calls a null pointer (a type without
  encoder), or that it reads the count of a oneof field that has no place in the struct.
\<close>

unbundle bit_operations_syntax

record 'o pb_enc_env =
  enc_fields_at :: "u64 \<Rightarrow> pb_desc list"
  encode_callback :: "u64 \<Rightarrow> 'o pb_ostream \<Rightarrow> pb_desc \<Rightarrow> u64 \<Rightarrow> mem \<Rightarrow> 'o pb_ostream \<times> bool"
  extension_encode :: "u64 \<Rightarrow> 'o pb_ostream \<Rightarrow> u64 \<Rightarrow> mem \<Rightarrow> 'o pb_ostream \<times> bool"

text \<open>An encoder of messages: table, source.\<close>

type_synonym 'o msg_encoder = "u64 \<Rightarrow> u64 \<Rightarrow> 'o pb_ostream \<Rightarrow> 'o enc_result"

subsection \<open>Encoders at an address\<close>

definition safe_read_bool :: "mem \<Rightarrow> u64 \<Rightarrow> bool" where
  "safe_read_bool m p \<longleftrightarrow> m p \<noteq> 0"

text \<open>The loop of \<open>pb_enc_string\<close>: the bytes before the terminator, at most \<open>room\<close>.\<close>

function mem_strnlen :: "mem \<Rightarrow> u64 \<Rightarrow> u64 \<Rightarrow> u64" where
  "mem_strnlen m p room =
     (if room = 0 \<or> m p = 0 then 0 else 1 + mem_strnlen m (p + 1) (room - 1))"
  by pat_completeness auto
termination mem_strnlen
  by (relation "measure (\<lambda>(m, p, room). unat room)") (auto intro: measure_unat)

declare mem_strnlen.simps [simp del]

definition pb_enc_bytes_from :: "'o pb_ostream \<Rightarrow> pb_desc \<Rightarrow> mem \<Rightarrow> u64 \<Rightarrow> 'o pb_ostream \<times> bool" where
  "pb_enc_bytes_from s field m src =
     pb_enc_bytes s field
       (if src = 0 then None
        else let sz = load_size m src in Some (sz, load m (src + 4) (unat sz)))"

definition pb_enc_string_from :: "'o pb_ostream \<Rightarrow> pb_desc \<Rightarrow> mem \<Rightarrow> u64 \<Rightarrow> 'o pb_ostream \<times> bool" where
  "pb_enc_string_from s field m src =
     (let max = (if PB_ATYPE (ftype field) = PB_ATYPE_POINTER then - 1 else ucast (data_size field));
          sz = (if src = 0 then 0 else mem_strnlen m src max)
      in pb_encode_string s (load m src (unat sz)) sz)"

definition pb_enc_submessage ::
    "'o msg_encoder \<Rightarrow> 'o pb_ostream \<Rightarrow> pb_desc \<Rightarrow> u64 \<Rightarrow> 'o enc_result" where
  "pb_enc_submessage enc s field src =
     (if ptr field = 0 then Some (pb_out_error s ''invalid field descriptor'', False)
      else pb_encode_submessage s (enc (ptr field) src))"

definition PB_ENCODERS ::
    "'o msg_encoder \<Rightarrow> mem \<Rightarrow> pb_desc \<Rightarrow> 'o pb_ostream \<Rightarrow> u64 \<Rightarrow> 'o enc_result" where
  "PB_ENCODERS enc m field s src =
     (let lt = PB_LTYPE (ftype field) in
      if lt = 0x00 then Some (pb_enc_bool s (safe_read_bool m src))
      else if lt = 0x01 then Some (pb_enc_varint s field (load_ptr m src))
      else if lt = 0x02 then Some (pb_enc_uvarint s field (load_ptr m src))
      else if lt = 0x03 then Some (pb_enc_svarint s field (load_ptr m src))
      else if lt = PB_LTYPE_FIXED32 then Some (pb_encode_fixed32 s (load_size m src))
      else if lt = PB_LTYPE_FIXED64 then Some (pb_encode_fixed64 s (load_ptr m src))
      else if lt = PB_LTYPE_BYTES then Some (pb_enc_bytes_from s field m src)
      else if lt = PB_LTYPE_STRING then Some (pb_enc_string_from s field m src)
      else if lt = PB_LTYPE_SUBMESSAGE then pb_enc_submessage enc s field src
      else if lt = PB_LTYPE_FIXED_LENGTH_BYTES
        then Some (pb_enc_fixed_length_bytes s field (load m src (unat (data_size field))))
      else None)"

subsection \<open>Presence\<close>

definition size_at :: "pb_desc \<Rightarrow> u64 \<Rightarrow> u64" where
  "size_at field p = p + scast (size_offset field)"

definition all_zero :: "mem \<Rightarrow> u64 \<Rightarrow> u32 \<Rightarrow> bool" where
  "all_zero m p n \<longleftrightarrow> list_all (\<lambda>b. b = 0) (load m p (unat n))"

text \<open>\<open>sub\<close> is the loop over the fields of a sub-message.\<close>

definition default_value_with ::
    "(u64 \<Rightarrow> u64 \<Rightarrow> bool option) \<Rightarrow> mem \<Rightarrow> pb_desc \<Rightarrow> u64 \<Rightarrow> bool option" where
  "default_value_with sub m field p =
     (let t = ftype field in
      if PB_HTYPE t = PB_HTYPE_REQUIRED then Some False
      else if PB_HTYPE t = PB_HTYPE_REPEATED \<and> size_offset field \<noteq> 0
        then Some (load_size m (size_at field p) = 0)
      else if PB_HTYPE t = PB_HTYPE_REPEATED \<and> PB_ATYPE t = PB_ATYPE_STATIC then Some False
      else if PB_HTYPE t = PB_HTYPE_ONEOF then Some (load_size m (size_at field p) = 0)
      else if PB_HTYPE t = PB_HTYPE_OPTIONAL \<and> size_offset field \<noteq> 0
        then Some (\<not> safe_read_bool m (size_at field p))
      else if PB_ATYPE t = PB_ATYPE_STATIC \<and> PB_LTYPE t = PB_LTYPE_BYTES
        then Some (load_size m p = 0)
      else if PB_ATYPE t = PB_ATYPE_STATIC \<and> PB_LTYPE t = PB_LTYPE_STRING then Some (m p = 0)
      else if PB_ATYPE t = PB_ATYPE_STATIC \<and> PB_LTYPE t = PB_LTYPE_FIXED_LENGTH_BYTES
        then Some (data_size field = 0)
      else if PB_ATYPE t = PB_ATYPE_STATIC \<and> PB_LTYPE t = PB_LTYPE_SUBMESSAGE
        then sub (ptr field) p
      else if PB_ATYPE t = PB_ATYPE_POINTER \<and> PB_LTYPE_LAST_PACKABLE < PB_LTYPE t
        then Some (load_ptr m p = 0)
      else Some (all_zero m p (data_size field)))"

text \<open>The loop leaves at the first field that is set; what is carried along says whether one
  was.\<close>

definition default_fields ::
    "'o pb_enc_env \<Rightarrow> (pb_desc \<Rightarrow> u64 \<Rightarrow> bool option) \<Rightarrow> u64 \<Rightarrow> u64 \<Rightarrow> bool option" where
  "default_fields env check tab p =
     (case pb_field_iter_begin (enc_fields_at env tab) p of
        (it, nonempty) \<Rightarrow>
          if nonempty then
            for_fields (\<lambda>it b. if b then check (iter_field it) (pData it) else Some False) it True
          else Some True)"

primrec pb_check_proto3_default_value ::
    "'o pb_enc_env \<Rightarrow> mem \<Rightarrow> nat \<Rightarrow> pb_desc \<Rightarrow> u64 \<Rightarrow> bool option" where
  "pb_check_proto3_default_value env m 0 field p = None"
| "pb_check_proto3_default_value env m (Suc k) field p =
     default_value_with (default_fields env (pb_check_proto3_default_value env m k)) m field p"

subsection \<open>Fields\<close>

text \<open>The entries of an array; of an array of pointers to strings, what they point to.\<close>

definition array_entries :: "mem \<Rightarrow> pb_desc \<Rightarrow> u64 \<Rightarrow> u32 \<Rightarrow> u64 list" where
  "array_entries m field p count =
     map (\<lambda>i. let item = p + of_nat i * ucast (data_size field) in
              if PB_ATYPE (ftype field) = PB_ATYPE_POINTER \<and>
                 (PB_LTYPE (ftype field) = PB_LTYPE_STRING \<or> PB_LTYPE (ftype field) = PB_LTYPE_BYTES)
              then load_ptr m item else item)
       [0..<unat count]"

text \<open>\<open>implicit_has\<close> of \<open>encode_basic_field\<close>: the flag that \<open>pSize\<close> points to when the
  field has no flag or count of its own.\<close>

definition implicit_has ::
    "'o pb_enc_env \<Rightarrow> mem \<Rightarrow> nat \<Rightarrow> pb_desc \<Rightarrow> u64 \<Rightarrow> bool option" where
  "implicit_has env m k field p =
     (if size_offset field \<noteq> 0 \<or> PB_HTYPE (ftype field) \<noteq> PB_HTYPE_OPTIONAL then Some True
      else (case pb_check_proto3_default_value env m k field p of
              None \<Rightarrow> None
            | Some unset \<Rightarrow>
                Some (if PB_ATYPE (ftype field) = PB_ATYPE_POINTER then load_ptr m p \<noteq> 0
                      else \<not> unset)))"

definition encode_basic_field ::
    "'o pb_enc_env \<Rightarrow> nat \<Rightarrow> 'o msg_encoder \<Rightarrow> mem \<Rightarrow> pb_desc \<Rightarrow> u64 \<Rightarrow> 'o pb_ostream \<Rightarrow> 'o enc_result" where
  "encode_basic_field env k enc m field p s =
     (let t = ftype field; func = PB_ENCODERS enc m field;
          p' = (if PB_ATYPE t = PB_ATYPE_POINTER then load_ptr m p else p);
          value = (\<lambda>s. enc_then (Some (pb_encode_tag_for_field s field)) (\<lambda>s1. func s1 p')) in
      case implicit_has env m k field p of
        None \<Rightarrow> None
      | Some has \<Rightarrow>
          if PB_HTYPE t = PB_HTYPE_REQUIRED then
            (if p' = 0 then Some (pb_out_error s ''missing required field'', False) else value s)
          else if PB_HTYPE t = PB_HTYPE_OPTIONAL then
            (if (if size_offset field \<noteq> 0 then safe_read_bool m (size_at field p) else has)
             then value s else Some (s, True))
          else if PB_HTYPE t = PB_HTYPE_REPEATED then
            encode_array s field
              (array_entries m field p'
                 (if size_offset field \<noteq> 0 then load_size m (size_at field p) else array_size field))
              func
          else if size_offset field = 0 then None
          else if load_size m (size_at field p) = ftag field then value s
          else Some (s, True))"

definition encode_callback_field ::
    "'o pb_enc_env \<Rightarrow> mem \<Rightarrow> pb_desc \<Rightarrow> u64 \<Rightarrow> 'o pb_ostream \<Rightarrow> 'o pb_ostream \<times> bool" where
  "encode_callback_field env m field p s =
     (if load_ptr m p = 0 then (s, True)
      else (case encode_callback env (load_ptr m p) s field (p + 8) m of
              (s', ok) \<Rightarrow> if ok then (s', True) else (pb_out_error s' ''callback error'', False)))"

definition encode_field ::
    "'o pb_enc_env \<Rightarrow> nat \<Rightarrow> 'o msg_encoder \<Rightarrow> mem \<Rightarrow> pb_desc \<Rightarrow> u64 \<Rightarrow> 'o pb_ostream \<Rightarrow> 'o enc_result" where
  "encode_field env k enc m field p s =
     (let t = ftype field in
      if PB_ATYPE t = PB_ATYPE_STATIC \<or> PB_ATYPE t = PB_ATYPE_POINTER
        then encode_basic_field env k enc m field p s
      else if PB_ATYPE t = PB_ATYPE_CALLBACK then Some (encode_callback_field env m field p s)
      else Some (pb_out_error s ''invalid field type'', False))"

definition ext_encode :: "mem \<Rightarrow> u64 \<Rightarrow> u64" where "ext_encode m e = load_ptr m (ext_type m e + 8)"

definition default_extension_encoder ::
    "'o pb_enc_env \<Rightarrow> nat \<Rightarrow> 'o msg_encoder \<Rightarrow> mem \<Rightarrow> u64 \<Rightarrow> 'o pb_ostream \<Rightarrow> 'o enc_result" where
  "default_extension_encoder env k enc m e s =
     (let fs = enc_fields_at env (ext_arg m e); field = (if fs = [] then PB_LAST_FIELD else fs ! 0)
      in encode_field env k enc m field
           (if PB_ATYPE (ftype field) = PB_ATYPE_POINTER then e + 8 else ext_dest m e) s)"

primrec encode_extension_field ::
    "'o pb_enc_env \<Rightarrow> 'o msg_encoder \<Rightarrow> mem \<Rightarrow> nat \<Rightarrow> u64 \<Rightarrow> 'o pb_ostream \<Rightarrow> 'o enc_result" where
  "encode_extension_field env enc m 0 e s = None"
| "encode_extension_field env enc m (Suc k) e s =
     (if e = 0 then Some (s, True)
      else enc_then (if ext_encode m e \<noteq> 0 then Some (extension_encode env (ext_encode m e) s e m)
                     else default_extension_encoder env k enc m e s)
             (\<lambda>s'. encode_extension_field env enc m k (ext_next m e) s'))"

subsection \<open>Messages\<close>

text \<open>One field of the loop of \<open>pb_encode\<close>; after a failure the loop has been left.\<close>

definition encode_one ::
    "'o pb_enc_env \<Rightarrow> nat \<Rightarrow> 'o msg_encoder \<Rightarrow> mem \<Rightarrow> pb_field_iter \<Rightarrow> 'o pb_ostream \<Rightarrow> 'o enc_result" where
  "encode_one env k enc m it s =
     (let field = iter_field it in
      if PB_LTYPE (ftype field) = PB_LTYPE_EXTENSION
      then encode_extension_field env enc m k (load_ptr m (pData it)) s
      else encode_field env k enc m field (pData it) s)"

primrec pb_encode :: "'o pb_enc_env \<Rightarrow> mem \<Rightarrow> nat \<Rightarrow> 'o msg_encoder" where
  "pb_encode env m 0 tab src s = None"
| "pb_encode env m (Suc k) tab src s =
     (case pb_field_iter_begin (enc_fields_at env tab) src of
        (it, nonempty) \<Rightarrow>
          if nonempty then
            for_fields (\<lambda>it (s, ok). if ok then encode_one env k (pb_encode env m k) m it s
                                      else Some (s, False)) it (s, True)
          else Some (s, True))"

definition pb_encode_delimited :: "'o pb_enc_env \<Rightarrow> mem \<Rightarrow> nat \<Rightarrow> 'o msg_encoder" where
  "pb_encode_delimited env m k tab src s = pb_encode_submessage s (pb_encode env m k tab src)"

definition pb_encode_nullterminated :: "'o pb_enc_env \<Rightarrow> mem \<Rightarrow> nat \<Rightarrow> 'o msg_encoder" where
  "pb_encode_nullterminated env m k tab src s =
     enc_then (pb_encode env m k tab src s) (\<lambda>s'. Some (pb_write s' [0] 1))"

text \<open>The size; \<open>Some None\<close> when encoding fails.\<close>

definition pb_get_encoded_size :: "'o pb_enc_env \<Rightarrow> mem \<Rightarrow> nat \<Rightarrow> u64 \<Rightarrow> u64 \<Rightarrow> 'o \<Rightarrow> u64 option option" where
  "pb_get_encoded_size env m k tab src st =
     (case pb_encode env m k tab src (PB_OSTREAM_SIZING st) of
        None \<Rightarrow> None
      | Some (s, ok) \<Rightarrow> Some (if ok then Some (bytes_written s) else None))"

end
