(* ===== verification/PbFuel.thy ===== *)
theory PbFuel
  imports PbMsgEncode
begin

text \<open>
  Fuel is only a bound: a result that decoding or encoding has with some fuel it has with any more.
  This holds for all tables, callbacks and extensions included, so \<open>None\<close> never stands for a
  result of the code.
\<close>

subsection \<open>More defined results\<close>

definition fuel_le :: "'a option \<Rightarrow> 'a option \<Rightarrow> bool" where
  "fuel_le a b \<longleftrightarrow> a = None \<or> a = b"

lemma fuel_leD: "fuel_le a b \<Longrightarrow> a = Some r \<Longrightarrow> b = Some r"
  by (auto simp: fuel_le_def)

lemma fuel_None: "fuel_le None b"
  by (simp add: fuel_le_def)

lemma fuel_refl: "fuel_le a a"
  by (simp add: fuel_le_def)

lemma fuel_bind:
  "fuel_le a a' \<Longrightarrow> (\<And>x. fuel_le (f x) (f' x)) \<Longrightarrow>
   fuel_le (case a of None \<Rightarrow> None | Some x \<Rightarrow> f x) (case a' of None \<Rightarrow> None | Some x \<Rightarrow> f' x)"
  by (auto simp: fuel_le_def split: option.split)

lemma fuel_option:
  "fuel_le a a' \<Longrightarrow> (\<And>x. fuel_le (f x) (f' x)) \<Longrightarrow>
   fuel_le (case q of None \<Rightarrow> a | Some x \<Rightarrow> f x) (case q of None \<Rightarrow> a' | Some x \<Rightarrow> f' x)"
  by (cases q) simp_all

lemma fuel_prod:
  "(\<And>x y. fuel_le (f x y) (f' x y)) \<Longrightarrow>
   fuel_le (case p of (x, y) \<Rightarrow> f x y) (case p of (x, y) \<Rightarrow> f' x y)"
  by (cases p) simp

lemma fuel_bool:
  "fuel_le a a' \<Longrightarrow> fuel_le b b' \<Longrightarrow>
   fuel_le (case c of True \<Rightarrow> a | False \<Rightarrow> b) (case c of True \<Rightarrow> a' | False \<Rightarrow> b')"
  by (cases c) simp_all

lemma fuel_if:
  "fuel_le a a' \<Longrightarrow> fuel_le b b' \<Longrightarrow> fuel_le (if c then a else b) (if c then a' else b')"
  by simp

lemma fuel_map: "fuel_le a a' \<Longrightarrow> fuel_le (map_option f a) (map_option f a')"
  by (auto simp: fuel_le_def)

lemmas fuel_intros = fuel_bind fuel_option fuel_prod fuel_bool fuel_if fuel_map fuel_None fuel_refl

definition dec_le :: "'s msg_decoder \<Rightarrow> 's msg_decoder \<Rightarrow> bool" where
  "dec_le d d' \<longleftrightarrow> (\<forall>s tab dest m. fuel_le (d s tab dest m) (d' s tab dest m))"

subsection \<open>Fields and extensions\<close>

lemma for_fields_fuel:
  "(\<And>it m. fuel_le (f it m) (g it m)) \<Longrightarrow> fuel_le (for_fields f it m) (for_fields g it m)"
proof (induction f it m rule: for_fields.induct)
  case (1 f it m)
  obtain it' b where nx: "pb_field_iter_next it = (it', b)" by force
  have "fuel_le (if b then for_fields f it' m' else Some m') (if b then for_fields g it' m' else Some m')"
    if "f it m = Some m'" for m'
    using "1.IH" [OF that nx [symmetric]] "1.prems" by (auto simp: fuel_refl)
  then show ?case
    using "1.prems" [of it m] unfolding for_fields.simps [of f it] for_fields.simps [of g it] nx
    by (cases b) (auto simp: fuel_le_def split: option.split)
qed

lemma message_fields_fuel:
  "(\<And>it m. fuel_le (f it m) (g it m)) \<Longrightarrow>
   fuel_le (message_fields env f tab dest m) (message_fields env g tab dest m)"
  unfolding message_fields_def by (intro fuel_intros for_fields_fuel)

lemma for_extensions_fuel:
  "(\<And>e m. fuel_le (f e m) (g e m)) \<Longrightarrow> k \<le> k' \<Longrightarrow>
   fuel_le (for_extensions f k e m) (for_extensions g k' e m)"
proof (induction k arbitrary: k' e m)
  case (Suc k)
  obtain j where j: "k' = Suc j" "k \<le> j" using Suc.prems(2) by (cases k') auto
  show ?case
    unfolding j(1) for_extensions.simps
    by (intro fuel_if fuel_refl fuel_bind Suc.prems(1) Suc.IH j(2))
qed (simp add: fuel_None)

lemma set_to_default_fuel:
  "k \<le> k' \<Longrightarrow> fuel_le (pb_field_set_to_default env k it m) (pb_field_set_to_default env k' it m)"
proof (induction k arbitrary: k' it m)
  case (Suc k)
  obtain j where j: "k' = Suc j" "k \<le> j" using Suc.prems by (cases k') auto
  show ?case
    unfolding j(1) pb_field_set_to_default.simps Let_def
    by (intro fuel_if fuel_refl for_extensions_fuel message_fields_fuel Suc.IH j(2))
qed (simp add: fuel_None)

lemma message_defaults_fuel:
  "k \<le> k' \<Longrightarrow> fuel_le (pb_message_set_to_defaults env k tab dest m) (pb_message_set_to_defaults env k' tab dest m)"
  unfolding pb_message_set_to_defaults_def by (intro message_fields_fuel set_to_default_fuel)

lemma release_items_fuel:
  "(\<And>tab e m. fuel_le (f tab e m) (g tab e m)) \<Longrightarrow>
   fuel_le (release_items f d n e m) (release_items g d n e m)"
proof (induction n arbitrary: e m)
  case (Suc n)
  then show ?case unfolding release_items.simps by (intro fuel_bind) auto
qed (simp add: fuel_refl)

lemma release_message_fuel:
  "(\<And>it m. fuel_le (f it m) (g it m)) \<Longrightarrow>
   fuel_le (release_message env f tab dest m) (release_message env g tab dest m)"
  unfolding release_message_def by (intro fuel_if fuel_refl message_fields_fuel)

lemma release_single_fuel:
  "k \<le> k' \<Longrightarrow> fuel_le (pb_release_single_field env k it m) (pb_release_single_field env k' it m)"
proof (induction k arbitrary: k' it m)
  case (Suc k)
  obtain j where j: "k' = Suc j" "k \<le> j" using Suc.prems by (cases k') auto
  show ?case
    unfolding j(1) pb_release_single_field.simps Let_def
    by (intro fuel_if fuel_refl fuel_bind for_extensions_fuel release_items_fuel release_message_fuel
        Suc.IH j(2))
qed (simp add: fuel_None)

lemma release_fuel:
  "k \<le> k' \<Longrightarrow> fuel_le (pb_release env k tab dest m) (pb_release env k' tab dest m)"
  unfolding pb_release_def by (intro release_message_fuel release_single_fuel)

lemma release_union_fuel:
  "k \<le> k' \<Longrightarrow> fuel_le (pb_release_union_field env k s it m) (pb_release_union_field env k' s it m)"
  unfolding pb_release_union_field_def Let_def
  by (intro fuel_prod fuel_bool fuel_if fuel_refl fuel_bind release_single_fuel)

subsection \<open>Decoders of fields\<close>

lemma PB_DECODERS_fuel:
  "dec_le i i' \<Longrightarrow> dec_le n n' \<Longrightarrow>
   fuel_le (PB_DECODERS env i n f s dest m) (PB_DECODERS env i' n' f s dest m)"
  unfolding PB_DECODERS_def Let_def pb_dec_submessage_def dec_le_def
  by (intro fuel_if fuel_prod fuel_option fuel_bind fuel_refl) auto

lemma with_count_fuel: "fuel_le a b \<Longrightarrow> fuel_le (with_count fc a) (with_count fc b)"
  unfolding with_count_def by (intro fuel_bind fuel_refl)

lemma packed_static_fuel:
  "(\<And>s a m. fuel_le (f s a m) (g s a m)) \<Longrightarrow> k \<le> k' \<Longrightarrow>
   fuel_le (packed_static_loop f k it s m fc) (packed_static_loop g k' it s m fc)"
proof (induction k arbitrary: k' s m fc)
  case (Suc k)
  obtain j where j: "k' = Suc j" "k \<le> j" using Suc.prems(2) by (cases k') auto
  show ?case
    unfolding j(1) packed_static_loop.simps Let_def
    by (intro fuel_if fuel_refl fuel_bind fuel_prod fuel_bool Suc.prems(1) Suc.IH j(2))
qed (simp add: fuel_None)

lemma decode_static_fuel:
  "dec_le i i' \<Longrightarrow> dec_le n n' \<Longrightarrow> k \<le> k' \<Longrightarrow>
   fuel_le (decode_static_field env k i n s w it m fc) (decode_static_field env k' i' n' s w it m fc)"
  unfolding decode_static_field_def Let_def
  by (intro fuel_if fuel_prod fuel_refl with_count_fuel PB_DECODERS_fuel fuel_option fuel_bind
      packed_static_fuel message_defaults_fuel)

lemma initialize_pointer_fuel:
  "k \<le> k' \<Longrightarrow> fuel_le (initialize_pointer_field env k e it m) (initialize_pointer_field env k' e it m)"
  unfolding initialize_pointer_field_def Let_def by (intro fuel_if fuel_refl message_defaults_fuel)

lemma packed_pointer_fuel:
  "(\<And>s a m. fuel_le (f s a m) (g s a m)) \<Longrightarrow> k \<le> k' \<Longrightarrow>
   fuel_le (packed_pointer_loop env f k it s a sub m fc) (packed_pointer_loop env g k' it s a sub m fc)"
proof (induction k arbitrary: k' s a sub m fc)
  case (Suc k)
  obtain j where j: "k' = Suc j" "k \<le> j" using Suc.prems(2) by (cases k') auto
  show ?case
    unfolding j(1) packed_pointer_loop.simps Let_def
    by (intro fuel_if fuel_refl fuel_prod fuel_bool fuel_bind initialize_pointer_fuel
        Suc.prems(1) Suc.IH j(2))
qed (simp add: fuel_None)

lemma decode_pointer_fuel:
  "dec_le i i' \<Longrightarrow> dec_le n n' \<Longrightarrow> k \<le> k' \<Longrightarrow>
   fuel_le (decode_pointer_field env k i n s w it m fc) (decode_pointer_field env k' i' n' s w it m fc)"
  unfolding decode_pointer_field_def Let_def
  by (intro fuel_if fuel_prod fuel_bool fuel_refl with_count_fuel PB_DECODERS_fuel fuel_option fuel_bind
      packed_pointer_fuel initialize_pointer_fuel release_single_fuel)

lemma callback_loop_fuel:
  "k \<le> k' \<Longrightarrow> fuel_le (callback_loop env k it s m) (callback_loop env k' it s m)"
proof (induction k arbitrary: k' s m)
  case (Suc k)
  obtain j where j: "k' = Suc j" "k \<le> j" using Suc.prems by (cases k') auto
  show ?case
    unfolding j(1) callback_loop.simps
    by (intro fuel_if fuel_refl fuel_prod fuel_bool Suc.IH j(2))
qed (simp add: fuel_None)

lemma decode_callback_fuel:
  "k \<le> k' \<Longrightarrow>
   fuel_le (decode_callback_field env k s w it m) (decode_callback_field env k' s w it m)"
  unfolding decode_callback_field_def
  by (intro fuel_if fuel_refl fuel_prod fuel_option fuel_bind fuel_bool callback_loop_fuel)

lemma decode_field_fuel:
  "dec_le i i' \<Longrightarrow> dec_le n n' \<Longrightarrow> k \<le> k' \<Longrightarrow>
   fuel_le (decode_field env k i n s w it m fc) (decode_field env k' i' n' s w it m fc)"
  unfolding decode_field_def Let_def
  by (intro fuel_bind fuel_prod fuel_bool fuel_if fuel_refl fuel_map release_union_fuel
      decode_static_fuel decode_pointer_fuel with_count_fuel decode_callback_fuel)

lemma default_extension_fuel:
  "dec_le i i' \<Longrightarrow> dec_le n n' \<Longrightarrow> k \<le> k' \<Longrightarrow>
   fuel_le (default_extension_decoder env k i n s e t w m) (default_extension_decoder env k' i' n' s e t w m)"
  unfolding default_extension_decoder_def Let_def
  by (intro fuel_if fuel_refl fuel_bind fuel_prod decode_field_fuel)

lemma extension_loop_fuel:
  "dec_le i i' \<Longrightarrow> dec_le n n' \<Longrightarrow> k \<le> k' \<Longrightarrow>
   fuel_le (extension_loop env i n left k t w e s m) (extension_loop env i' n' left k' t w e s m)"
proof (induction k arbitrary: k' e s m)
  case (Suc k)
  obtain j where j: "k' = Suc j" "k \<le> j" using Suc.prems(3) by (cases k') auto
  show ?case
    unfolding j(1) extension_loop.simps
    by (intro fuel_if fuel_refl fuel_bind fuel_prod fuel_bool default_extension_fuel
        Suc.prems(1,2) Suc.IH j(2))
qed (simp add: fuel_None)

subsection \<open>Messages\<close>

lemma decode_unknown_fuel:
  "dec_le i i' \<Longrightarrow> dec_le n n' \<Longrightarrow> k \<le> k' \<Longrightarrow>
   fuel_le (decode_unknown env k i n s t w v m) (decode_unknown env k' i' n' s t w v m)"
  unfolding decode_unknown_def Let_def decode_extension_def
  by (intro fuel_if fuel_refl fuel_bind fuel_prod fuel_bool extension_loop_fuel)

lemma decode_known_fuel:
  "dec_le i i' \<Longrightarrow> dec_le n n' \<Longrightarrow> k \<le> k' \<Longrightarrow>
   fuel_le (decode_known env k i n s w v m) (decode_known env k' i' n' s w v m)"
  unfolding decode_known_def Let_def
  by (intro fuel_option fuel_refl fuel_bind fuel_prod decode_field_fuel)

lemma noinit_with_fuel:
  "(\<And>s v m. fuel_le (f s v m) (g s v m)) \<Longrightarrow> dec_le (noinit_with f env) (noinit_with g env)"
  unfolding dec_le_def noinit_with_def by (intro allI fuel_bind fuel_refl)

lemma init_with_fuel:
  "dec_le n n' \<Longrightarrow> k \<le> k' \<Longrightarrow> dec_le (init_with n env k) (init_with n' env k')"
  unfolding dec_le_def init_with_def
  by (intro allI fuel_bind fuel_prod fuel_bool fuel_refl message_defaults_fuel release_fuel) auto

lemma decode_msg_loop_fuel:
  "k \<le> k' \<Longrightarrow> fuel_le (decode_msg_loop env k s v m) (decode_msg_loop env k' s v m)"
proof (induction k arbitrary: k' s v m)
  case (Suc k)
  obtain j where j: "k' = Suc j" "k \<le> j" using Suc.prems by (cases k') auto
  have n: "dec_le (noinit_with (decode_msg_loop env k) env) (noinit_with (decode_msg_loop env j) env)"
    by (intro noinit_with_fuel Suc.IH j(2))
  note i = init_with_fuel [OF n j(2)]
  show ?case
    unfolding j(1) decode_msg_loop.simps Let_def
    by (intro fuel_if fuel_refl fuel_prod fuel_option fuel_bind fuel_bool Suc.IH decode_unknown_fuel
        decode_known_fuel n i j(2))
qed (simp add: fuel_None)

lemma pb_decode_fuel:
  "k \<le> k' \<Longrightarrow> fuel_le (pb_decode_noinit env k s tab dest m) (pb_decode_noinit env k' s tab dest m)"
  "k \<le> k' \<Longrightarrow> fuel_le (pb_decode env k s tab dest m) (pb_decode env k' s tab dest m)"
proof -
  assume k: "k \<le> k'"
  have n: "dec_le (pb_decode_noinit env k) (pb_decode_noinit env k')"
    unfolding pb_decode_noinit_def by (intro noinit_with_fuel decode_msg_loop_fuel k)
  then show "fuel_le (pb_decode_noinit env k s tab dest m) (pb_decode_noinit env k' s tab dest m)"
    by (simp add: dec_le_def)
  show "fuel_le (pb_decode env k s tab dest m) (pb_decode env k' s tab dest m)"
    using init_with_fuel [OF n k] by (simp add: dec_le_def pb_decode_def)
qed

subsection \<open>Encoding\<close>

lemma enc_then_fuel:
  "fuel_le r r' \<Longrightarrow> (\<And>s. fuel_le (g s) (g' s)) \<Longrightarrow> fuel_le (enc_then r g) (enc_then r' g')"
  unfolding enc_then_def by (intro fuel_bind fuel_prod fuel_if fuel_refl)

lemma encode_items_fuel:
  "(\<And>s p. fuel_le (f s p) (g s p)) \<Longrightarrow> fuel_le (encode_items f s ps) (encode_items g s ps)"
proof (induction ps arbitrary: s)
  case (Cons p ps)
  then show ?case unfolding encode_items.simps by (intro enc_then_fuel) auto
qed (simp add: fuel_refl)

lemma encode_array_fuel:
  "(\<And>s p. fuel_le (f s p) (g s p)) \<Longrightarrow> fuel_le (encode_array s fd ps f) (encode_array s fd ps g)"
  unfolding encode_array_def packed_size_def
  by (intro fuel_if fuel_refl enc_then_fuel encode_items_fuel fuel_bind fuel_option fuel_prod)

lemma encode_submessage_fuel:
  "(\<And>s. fuel_le (f s) (g s)) \<Longrightarrow> fuel_le (pb_encode_submessage s f) (pb_encode_submessage s g)"
  unfolding pb_encode_submessage_def Let_def
  by (intro fuel_bind fuel_prod fuel_if fuel_refl enc_then_fuel)

definition enc_le :: "'o msg_encoder \<Rightarrow> 'o msg_encoder \<Rightarrow> bool" where
  "enc_le e e' \<longleftrightarrow> (\<forall>tab p s. fuel_le (e tab p s) (e' tab p s))"

lemma PB_ENCODERS_fuel: "enc_le e e' \<Longrightarrow> fuel_le (PB_ENCODERS e m f s p) (PB_ENCODERS e' m f s p)"
  unfolding PB_ENCODERS_def Let_def pb_enc_submessage_def enc_le_def
  by (intro fuel_if fuel_refl encode_submessage_fuel) auto

lemma default_value_fuel:
  "k \<le> k' \<Longrightarrow> fuel_le (pb_check_proto3_default_value env m k f p) (pb_check_proto3_default_value env m k' f p)"
proof (induction k arbitrary: k' f p)
  case (Suc k)
  obtain j where j: "k' = Suc j" "k \<le> j" using Suc.prems by (cases k') auto
  show ?case
    unfolding j(1) pb_check_proto3_default_value.simps default_value_with_def Let_def default_fields_def
    by (intro fuel_if fuel_refl fuel_prod for_fields_fuel Suc.IH j(2))
qed (simp add: fuel_None)

lemma encode_field_fuel:
  "enc_le e e' \<Longrightarrow> k \<le> k' \<Longrightarrow> fuel_le (encode_field env k e m f p s) (encode_field env k' e' m f p s)"
  unfolding encode_field_def encode_basic_field_def implicit_has_def Let_def
  by (intro fuel_if fuel_refl fuel_bind enc_then_fuel encode_array_fuel PB_ENCODERS_fuel default_value_fuel)

lemma encode_extension_fuel:
  "enc_le e e' \<Longrightarrow> k \<le> k' \<Longrightarrow>
   fuel_le (encode_extension_field env e m k x s) (encode_extension_field env e' m k' x s)"
proof (induction k arbitrary: k' x s)
  case (Suc k)
  obtain j where j: "k' = Suc j" "k \<le> j" using Suc.prems(2) by (cases k') auto
  show ?case
    unfolding j(1) encode_extension_field.simps default_extension_encoder_def Let_def
    by (intro fuel_if fuel_refl enc_then_fuel encode_field_fuel Suc.prems(1) Suc.IH j(2))
qed (simp add: fuel_None)

lemma pb_encode_fuel:
  "k \<le> k' \<Longrightarrow> fuel_le (pb_encode env m k tab p s) (pb_encode env m k' tab p s)"
proof (induction k arbitrary: k' tab p s)
  case (Suc k)
  obtain j where j: "k' = Suc j" "k \<le> j" using Suc.prems by (cases k') auto
  have e: "enc_le (pb_encode env m k) (pb_encode env m j)"
    unfolding enc_le_def using Suc.IH [OF j(2)] by blast
  show ?case
    unfolding j(1) pb_encode.simps encode_one_def Let_def
    by (intro fuel_prod fuel_if fuel_refl for_fields_fuel encode_extension_fuel encode_field_fuel e j(2))
qed (simp add: fuel_None)

end
