(* ===== verification/PbWire.thy ===== *)
theory PbWire
  imports PbMsgEncode PbRound
begin

text \<open>
  The wire format of messages as a function of the memory, and that \<open>pb_encode\<close> produces it:
  for a message whose fields hold encodable values, encoding returns, the sizing pass counts what the
  writing pass writes, and what is written are the fields in table order.  Fields may be static or
  pointers, required, optional with or without a flag of their own (\<open>SINGULAR\<close>), repeated or part of a
  oneof, or callbacks that write a known string.  Extension fields are left out; no table of the
  repository has one.
\<close>

unbundle bit_operations_syntax

subsection \<open>The format\<close>

definition field_header :: "pb_desc \<Rightarrow> u32 \<Rightarrow> bytes" where
  "field_header f wt = varint_bytes (push_bit 3 (ucast (ftag f)) OR ucast wt)"

definition delimited :: "bytes \<Rightarrow> bytes" where
  "delimited bs = varint_bytes (of_nat (length bs)) @ bs"

text \<open>The allocation of a pointer string is not known.\<close>

definition string_room :: "pb_desc \<Rightarrow> u64" where
  "string_room f = (if PB_ATYPE (ftype f) = PB_ATYPE_POINTER then - 1 else ucast (data_size f))"

text \<open>The payload of a value at address \<open>p\<close>; \<open>sub\<close> gives the bytes of sub-messages.\<close>

definition value_bytes :: "(u64 \<Rightarrow> u64 \<Rightarrow> bytes) \<Rightarrow> mem \<Rightarrow> pb_desc \<Rightarrow> u64 \<Rightarrow> bytes" where
  "value_bytes sub m f p =
     (let lt = PB_LTYPE (ftype f); n = data_size f in
      if lt = 0x00 then varint_bytes (if safe_read_bool m p then 1 else 0)
      else if lt = 0x01 then varint_bytes (the (read_signed n (load_ptr m p)))
      else if lt = 0x02 then varint_bytes (the (read_unsigned n (load_ptr m p)))
      else if lt = 0x03 then varint_bytes (zigzag (the (read_signed n (load_ptr m p))))
      else if lt = PB_LTYPE_FIXED32 then load m p 4
      else if lt = PB_LTYPE_FIXED64 then load m p 8
      else if lt = PB_LTYPE_BYTES then delimited (load m (p + 4) (unat (load_size m p)))
      else if lt = PB_LTYPE_STRING then delimited (load m p (unat (mem_strnlen m p (string_room f))))
      else if lt = PB_LTYPE_SUBMESSAGE then delimited (sub (ptr f) p)
      else delimited (load m p (unat n)))"

definition encodable_value :: "(u64 \<Rightarrow> u64 \<Rightarrow> bool) \<Rightarrow> mem \<Rightarrow> pb_desc \<Rightarrow> u64 \<Rightarrow> bool" where
  "encodable_value sub m f p \<longleftrightarrow>
     (let lt = PB_LTYPE (ftype f); n = data_size f in
      (lt \<le> 0x08 \<or> lt = PB_LTYPE_FIXED_LENGTH_BYTES) \<and>
      (lt = 0x01 \<or> lt = 0x02 \<or> lt = 0x03 \<longrightarrow> n = 1 \<or> n = 2 \<or> n = 4 \<or> n = 8) \<and>
      (lt = PB_LTYPE_BYTES \<and> PB_ATYPE (ftype f) = PB_ATYPE_STATIC \<longrightarrow> (ucast (load_size m p) :: u64) + 4 \<le> ucast n) \<and>
      (lt = PB_LTYPE_SUBMESSAGE \<longrightarrow> ptr f \<noteq> 0 \<and> sub (ptr f) p) \<and> p \<noteq> 0)"

definition field_wire_type :: "pb_desc \<Rightarrow> u32" where
  "field_wire_type f = the (wiretype_of_ltype (PB_LTYPE (ftype f)))"

definition field_value :: "(u64 \<Rightarrow> u64 \<Rightarrow> bytes) \<Rightarrow> mem \<Rightarrow> pb_desc \<Rightarrow> u64 \<Rightarrow> bytes" where
  "field_value sub m f p = field_header f (field_wire_type f) @ value_bytes sub m f p"

text \<open>Where the value of a field is; how many entries an array has, and where they are: an entry of an
  array of pointers to strings is what it points to.\<close>

definition value_address :: "mem \<Rightarrow> pb_desc \<Rightarrow> u64 \<Rightarrow> u64" where
  "value_address m f p = (if PB_ATYPE (ftype f) = PB_ATYPE_POINTER then load_ptr m p else p)"

definition field_count :: "mem \<Rightarrow> pb_desc \<Rightarrow> u64 \<Rightarrow> u32" where
  "field_count m f p = (if size_offset f \<noteq> 0 then load_size m (size_at f p) else array_size f)"

definition field_items :: "mem \<Rightarrow> pb_desc \<Rightarrow> u64 \<Rightarrow> u64 list" where
  "field_items m f p =
     (let items = map (\<lambda>i. value_address m f p + of_nat i * ucast (data_size f)) [0..<unat (field_count m f p)]
      in if PB_ATYPE (ftype f) = PB_ATYPE_POINTER \<and>
            (PB_LTYPE (ftype f) = PB_LTYPE_STRING \<or> PB_LTYPE (ftype f) = PB_LTYPE_BYTES)
         then map (load_ptr m) items else items)"

text \<open>Whether a field holds its proto3 default; \<open>unset\<close> says it of sub-messages.\<close>

definition field_unset :: "(u64 \<Rightarrow> u64 \<Rightarrow> bool) \<Rightarrow> mem \<Rightarrow> pb_desc \<Rightarrow> u64 \<Rightarrow> bool" where
  "field_unset unset m f p \<longleftrightarrow>
     default_value_with (\<lambda>tab q. Some (unset tab q)) m f p = Some True"

primrec message_unset :: "(u64 \<Rightarrow> pb_desc list) \<Rightarrow> mem \<Rightarrow> nat \<Rightarrow> u64 \<Rightarrow> u64 \<Rightarrow> bool" where
  "message_unset tables m 0 tab p = True"
| "message_unset tables m (Suc d) tab p =
     list_all (\<lambda>i. field_unset (message_unset tables m d) m
                     (iter_field (iter_at (tables tab) p i)) (pData (iter_at (tables tab) p i)))
       [0..<length (tables tab)]"

text \<open>Static sub-messages are nested at most \<open>d\<close> deep.\<close>

primrec tables_nest :: "(u64 \<Rightarrow> pb_desc list) \<Rightarrow> nat \<Rightarrow> u64 \<Rightarrow> bool" where
  "tables_nest tables 0 tab = False"
| "tables_nest tables (Suc d) tab =
     (table_ok (tables tab) \<and>
      list_all (\<lambda>f. PB_ATYPE (ftype f) = PB_ATYPE_STATIC \<and> PB_LTYPE (ftype f) = PB_LTYPE_SUBMESSAGE \<longrightarrow>
          tables_nest tables d (ptr f)) (tables tab))"

text \<open>A required field is always there; an optional one when its flag is set, and without a flag when
  the pointer is not null or the value is not the default; a member of a oneof when it is selected.\<close>

definition field_there :: "(u64 \<Rightarrow> u64 \<Rightarrow> bool) \<Rightarrow> mem \<Rightarrow> pb_desc \<Rightarrow> u64 \<Rightarrow> bool" where
  "field_there unset m f p \<longleftrightarrow>
     (let ht = PB_HTYPE (ftype f) in
      ht = PB_HTYPE_REQUIRED \<or>
      ht = PB_HTYPE_OPTIONAL \<and>
        (if size_offset f \<noteq> 0 then safe_read_bool m (size_at f p)
         else if PB_ATYPE (ftype f) = PB_ATYPE_POINTER then load_ptr m p \<noteq> 0
         else \<not> field_unset unset m f p) \<or>
      ht = PB_HTYPE_ONEOF \<and> load_size m (size_at f p) = ftag f)"

text \<open>\<open>written_by g f a\<close> are the bytes the application's callback \<open>g\<close> writes.\<close>

definition field_bytes ::
    "(u64 \<Rightarrow> pb_desc \<Rightarrow> u64 \<Rightarrow> bytes) \<Rightarrow> (u64 \<Rightarrow> u64 \<Rightarrow> bool) \<Rightarrow> (u64 \<Rightarrow> u64 \<Rightarrow> bytes) \<Rightarrow> mem \<Rightarrow>
     pb_desc \<Rightarrow> u64 \<Rightarrow> bytes" where
  "field_bytes written_by unset sub m f p =
     (if PB_ATYPE (ftype f) = PB_ATYPE_CALLBACK then
        (if load_ptr m p = 0 then [] else written_by (load_ptr m p) f (p + 8))
      else if PB_HTYPE (ftype f) = PB_HTYPE_REPEATED then
        (if field_items m f p = [] then []
         else if PB_LTYPE (ftype f) \<le> PB_LTYPE_LAST_PACKABLE then
           field_header f PB_WT_STRING @ delimited (concat (map (value_bytes sub m f) (field_items m f p)))
         else concat (map (field_value sub m f) (field_items m f p)))
      else if field_there unset m f p then field_value sub m f (value_address m f p) else [])"

text \<open>A field that can be encoded: what is there is encodable, an array fits its declaration, and the
  nesting of a static sub-message without flag is known.\<close>

definition encodable_field ::
    "(u64 \<Rightarrow> bool) \<Rightarrow> (u64 \<Rightarrow> u64 \<Rightarrow> bool) \<Rightarrow> (u64 \<Rightarrow> u64 \<Rightarrow> bool) \<Rightarrow> mem \<Rightarrow> pb_desc \<Rightarrow> u64 \<Rightarrow> bool" where
  "encodable_field nests unset sub m f p \<longleftrightarrow>
     PB_LTYPE (ftype f) \<noteq> PB_LTYPE_EXTENSION \<and>
     (PB_ATYPE (ftype f) = PB_ATYPE_CALLBACK \<or>
      (PB_ATYPE (ftype f) = PB_ATYPE_STATIC \<or> PB_ATYPE (ftype f) = PB_ATYPE_POINTER) \<and>
      (if PB_HTYPE (ftype f) = PB_HTYPE_REPEATED
       then (PB_ATYPE (ftype f) = PB_ATYPE_STATIC \<longrightarrow> field_count m f p \<le> array_size f) \<and>
            list_all (encodable_value sub m f) (field_items m f p)
       else (PB_HTYPE (ftype f) = PB_HTYPE_ONEOF \<longrightarrow> size_offset f \<noteq> 0) \<and>
            (PB_HTYPE (ftype f) = PB_HTYPE_OPTIONAL \<and> size_offset f = 0 \<and>
               PB_ATYPE (ftype f) = PB_ATYPE_STATIC \<and> PB_LTYPE (ftype f) = PB_LTYPE_SUBMESSAGE \<longrightarrow>
             nests (ptr f)) \<and>
            (field_there unset m f p \<longrightarrow> encodable_value sub m f (value_address m f p))))"

text \<open>Messages nested at most \<open>d\<close> deep.\<close>

primrec message_bytes ::
    "(u64 \<Rightarrow> pb_desc \<Rightarrow> u64 \<Rightarrow> bytes) \<Rightarrow> (u64 \<Rightarrow> pb_desc list) \<Rightarrow> mem \<Rightarrow> nat \<Rightarrow> u64 \<Rightarrow> u64 \<Rightarrow> bytes" where
  "message_bytes written_by tables m 0 tab p = []"
| "message_bytes written_by tables m (Suc d) tab p =
     concat (map (\<lambda>i. field_bytes written_by (message_unset tables m d) (message_bytes written_by tables m d) m
                        (iter_field (iter_at (tables tab) p i)) (pData (iter_at (tables tab) p i)))
               [0..<length (tables tab)])"

primrec encodable_message :: "(u64 \<Rightarrow> pb_desc list) \<Rightarrow> mem \<Rightarrow> nat \<Rightarrow> u64 \<Rightarrow> u64 \<Rightarrow> bool" where
  "encodable_message tables m 0 tab p = False"
| "encodable_message tables m (Suc d) tab p =
     (table_ok (tables tab) \<and>
      list_all (\<lambda>i. encodable_field (tables_nest tables d) (message_unset tables m d) (encodable_message tables m d) m
                      (iter_field (iter_at (tables tab) p i)) (pData (iter_at (tables tab) p i)))
        [0..<length (tables tab)])"

subsection \<open>Values and fields\<close>

lemma mem_strnlen_le: "mem_strnlen m p room \<le> room"
proof (induction m p room rule: mem_strnlen.induct)
  case (1 m p room)
  show ?case
  proof (cases "room = 0 \<or> m p = 0")
    case False
    then have "mem_strnlen m (p + 1) (room - 1) \<le> room - 1" using 1 by simp
    moreover have "unat (room - 1) + 1 = unat room"
      using False by (simp add: unat_sub_if' word_le_nat_alt Suc_le_eq unat_gt_0)
    ultimately show ?thesis using False unat_word64_lt [of room]
      by (subst mem_strnlen.simps) (simp add: word_le_nat_alt unat_word_ariths)
  qed (subst mem_strnlen.simps, simp)
qed

text \<open>The check for proto3 defaults, with enough fuel.\<close>

lemma default_value_known:
  assumes "PB_ATYPE (ftype f) = PB_ATYPE_STATIC \<and> PB_LTYPE (ftype f) = PB_LTYPE_SUBMESSAGE \<Longrightarrow>
    sub (ptr f) p = Some (unset (ptr f) p)"
  shows "default_value_with sub m f p = Some (field_unset unset m f p)"
  using assms by (simp add: default_value_with_def field_unset_def Let_def)

lemma for_fields_all:
  assumes ok: "table_ok fs" and i: "i < length fs"
    and check: "\<And>j. j < length fs \<Longrightarrow> check (iter_field (iter_at fs p j)) (pData (iter_at fs p j)) = Some (u j)"
  shows "for_fields (\<lambda>it b. if b then check (iter_field it) (pData it) else Some False) (iter_at fs p i) b =
    Some (b \<and> (\<forall>j \<in> {i..<length fs}. u j))"
  using i
proof (induction "length fs - i" arbitrary: i b rule: less_induct)
  case less
  let ?it = "iter_at fs p i"
  obtain it' c where nx: "pb_field_iter_next ?it = (it', c)" by force
  have c: "c \<longleftrightarrow> Suc i < length fs" and it': "it' = iter_at fs p (Suc i)"
    using iter_next_pos(1) [of ?it] ok less.prems nx by simp_all
  let ?f = "\<lambda>it b. if b then check (iter_field it) (pData it) else Some False"
  have split: "(\<forall>j \<in> {i..<length fs}. u j) \<longleftrightarrow> u i \<and> (\<forall>j \<in> {Suc i..<length fs}. u j)"
    using less.prems by (metis atLeastLessThan_iff le_refl Suc_leD le_neq_implies_less Suc_leI)
  have "?f ?it b = Some (b \<and> u i)" using check [OF less.prems] by simp
  then have step: "for_fields ?f ?it b = (if c then for_fields ?f it' (b \<and> u i) else Some (b \<and> u i))"
    by (subst for_fields.simps) (simp only: nx prod.case option.case)
  show ?case
  proof (cases c)
    case True
    have "for_fields ?f (iter_at fs p (Suc i)) (b \<and> u i) =
        Some ((b \<and> u i) \<and> (\<forall>j \<in> {Suc i..<length fs}. u j))"
      by (rule less.hyps) (use True c less.prems in simp_all)
    then show ?thesis unfolding step it' split using True by simp
  next
    case False
    then have "{Suc i..<length fs} = {}" using c by simp
    then show ?thesis unfolding step split using False by simp
  qed
qed

lemma default_fields_known:
  assumes "tables_nest (enc_fields_at env) d tab" and "d \<le> k"
  shows "default_fields env (pb_check_proto3_default_value env m k) tab p =
    Some (message_unset (enc_fields_at env) m d tab p)"
  using assms
proof (induction d arbitrary: k tab p)
  case (Suc d)
  obtain j where k: "k = Suc j" "d \<le> j" using Suc.prems(2) by (cases k) auto
  let ?fs = "enc_fields_at env tab"
  let ?at = "iter_at ?fs p"
  have ok: "table_ok ?fs" using Suc.prems(1) by simp
  have one: "pb_check_proto3_default_value env m k (iter_field (?at i)) (pData (?at i)) =
      Some (field_unset (message_unset (enc_fields_at env) m d) m (iter_field (?at i)) (pData (?at i)))"
    if i: "i < length ?fs" for i
    unfolding k(1) pb_check_proto3_default_value.simps
  proof (rule default_value_known)
    assume st: "PB_ATYPE (ftype (iter_field (?at i))) = PB_ATYPE_STATIC \<and>
      PB_LTYPE (ftype (iter_field (?at i))) = PB_LTYPE_SUBMESSAGE"
    have "iter_field (?at i) = ?fs ! i" using i ok by (simp add: iter_field_in)
    then have "tables_nest (enc_fields_at env) d (ptr (iter_field (?at i)))"
      using Suc.prems(1) st i by (auto simp: list_all_iff)
    from Suc.IH [OF this k(2)] show "default_fields env (pb_check_proto3_default_value env m j)
        (ptr (iter_field (?at i))) (pData (?at i)) =
      Some (message_unset (enc_fields_at env) m d (ptr (iter_field (?at i))) (pData (?at i)))" .
  qed
  show ?case
  proof (cases "?fs = []")
    case True
    then show ?thesis by (simp add: default_fields_def pb_field_iter_begin_def PB_LAST_FIELD_def Let_def)
  next
    case False
    have "snd (pb_field_iter_begin ?fs p)"
      using ok False by (auto simp: pb_field_iter_begin_def table_ok_def Let_def)
    then have "default_fields env (pb_check_proto3_default_value env m k) tab p =
        for_fields (\<lambda>it b. if b then pb_check_proto3_default_value env m k (iter_field it) (pData it)
          else Some False) (?at 0) True"
      by (auto simp: default_fields_def split: prod.splits)
    also have "\<dots> = Some (True \<and> (\<forall>i \<in> {0..<length ?fs}.
        field_unset (message_unset (enc_fields_at env) m d) m (iter_field (?at i)) (pData (?at i))))"
      by (rule for_fields_all [OF ok]) (use False one in simp_all)
    finally show ?thesis by (simp add: list_all_iff)
  qed
qed simp

lemma le_bytes_load4: "le_bytes 4 (load_size m p) = load m p 4"
  using le_bytes_le_word [of "load m p 4", where 'a = 32] by (simp add: load_size_def)

lemma le_bytes_load8: "le_bytes 8 (load_ptr m p) = load m p 8"
  using le_bytes_le_word [of "load m p 8", where 'a = 64] by (simp add: load_ptr_def)

context output_sink
begin

lemma encodes_as_fixed:
  "encodes_as wr written (\<lambda>s. Some (pb_encode_fixed32 s (load_size m p))) (load m p 4)"
  "encodes_as wr written (\<lambda>s. Some (pb_encode_fixed64 s (load_ptr m p))) (load m p 8)"
  using encodes_as_write [of 4 "load m p 4"] encodes_as_write [of 8 "load m p 8"]
  by (simp_all only: pb_encode_fixed32_def pb_encode_fixed64_def fixed32_bytes_eq fixed64_bytes_eq
      le_bytes_load4 le_bytes_load8) simp_all

lemma encodes_as_delimited:
  "unat n = length bs \<Longrightarrow> encodes_as wr written (\<lambda>s. Some (pb_encode_string s bs n)) (delimited bs)"
  using encodes_as_string [of n bs] unat_eq_of_nat [of n] by (simp add: delimited_def)

lemma encodes_as_value:
  assumes ok: "encodable_value valid m f p"
    and sub: "\<And>tab p. valid tab p \<Longrightarrow> encodes_as wr written (enc tab p) (sub tab p)"
  shows "encodes_as wr written (\<lambda>s. PB_ENCODERS enc m f s p) (value_bytes sub m f p)"
proof -
  let ?lt = "PB_LTYPE (ftype f)" and ?n = "data_size f"
  have lt: "?lt = 0 \<or> ?lt = 1 \<or> ?lt = 2 \<or> ?lt = 3 \<or> ?lt = 4 \<or> ?lt = 5 \<or> ?lt = 6 \<or> ?lt = 7 \<or> ?lt = 8 \<or> ?lt = 10"
    using ok by (auto simp: encodable_value_def Let_def word8_le_8 word8_le_5 pb_type_defs)
  have p: "p \<noteq> 0" using ok by (simp add: encodable_value_def Let_def)
  have rd: "\<exists>v. read_signed ?n w = Some v" "\<exists>v. read_unsigned ?n w = Some v"
    if "?lt = 1 \<or> ?lt = 2 \<or> ?lt = 3" for w
    using ok that by (auto simp: encodable_value_def Let_def read_signed_def read_unsigned_def)
  show ?thesis
    using lt
  proof (elim disjE)
    assume l: "?lt = 0"
    show ?thesis using encodes_as_varint [of "if safe_read_bool m p then 1 else 0"]
      by (simp add: PB_ENCODERS_def value_bytes_def l pb_enc_bool_def)
  next
    assume l: "?lt = 1"
    then obtain v where "read_signed ?n (load_ptr m p) = Some v" using rd by blast
    then show ?thesis using encodes_as_varint [of v]
      by (simp add: PB_ENCODERS_def value_bytes_def l pb_enc_varint_def)
  next
    assume l: "?lt = 2"
    then obtain v where "read_unsigned ?n (load_ptr m p) = Some v" using rd by blast
    then show ?thesis using encodes_as_varint [of v]
      by (simp add: PB_ENCODERS_def value_bytes_def l pb_enc_uvarint_def)
  next
    assume l: "?lt = 3"
    then obtain v where "read_signed ?n (load_ptr m p) = Some v" using rd by blast
    then show ?thesis using encodes_as_svarint [of v]
      by (simp add: PB_ENCODERS_def value_bytes_def l pb_enc_svarint_def)
  next
    assume l: "?lt = 4"
    show ?thesis using encodes_as_fixed(1) [of m p]
      by (simp add: PB_ENCODERS_def value_bytes_def l pb_type_defs)
  next
    assume l: "?lt = 5"
    show ?thesis using encodes_as_fixed(2) [of m p]
      by (simp add: PB_ENCODERS_def value_bytes_def l pb_type_defs)
  next
    assume l: "?lt = 6"
    let ?sz = "load_size m p"
    have le: "PB_ATYPE (ftype f) = PB_ATYPE_STATIC \<longrightarrow> (ucast ?sz :: u64) + 4 \<le> ucast ?n"
      using ok l by (simp add: encodable_value_def Let_def pb_type_defs)
    have u: "unat ((ucast ?sz :: u64) + 4) = unat ?sz + 4"
      using unat_word32_lt [of ?sz] by (simp add: unat_plus_if' unat_ucast_less)
    have "pb_enc_bytes_from s f m p = pb_encode_string s (load m (p + 4) (unat ?sz)) (ucast ?sz)"
      for s :: "'o pb_ostream"
      using p le
      by (auto simp: pb_enc_bytes_from_def pb_enc_bytes_def Let_def word_less_nat_alt word_le_nat_alt u
          unat_ucast_less)
    then show ?thesis
      using encodes_as_delimited [of "ucast ?sz" "load m (p + 4) (unat ?sz)"]
      by (simp add: PB_ENCODERS_def value_bytes_def l pb_type_defs unat_ucast_less)
  next
    assume l: "?lt = 7"
    let ?n = "mem_strnlen m p (string_room f)"
    have "pb_enc_string_from s f m p = pb_encode_string s (load m p (unat ?n)) ?n" for s :: "'o pb_ostream"
      using p by (simp add: pb_enc_string_from_def string_room_def Let_def)
    then show ?thesis
      using encodes_as_delimited [of ?n "load m p (unat ?n)"]
      by (simp add: PB_ENCODERS_def value_bytes_def l pb_type_defs)
  next
    assume l: "?lt = 8"
    then have "ptr f \<noteq> 0" "valid (ptr f) p" using ok by (simp_all add: encodable_value_def Let_def pb_type_defs)
    then show ?thesis using encodes_as_submessage [OF sub]
      by (simp add: PB_ENCODERS_def value_bytes_def l pb_type_defs pb_enc_submessage_def delimited_def)
  next
    assume l: "?lt = 10"
    show ?thesis using encodes_as_delimited [of "ucast (data_size f)" "load m p (unat (data_size f))"]
      by (simp add: PB_ENCODERS_def value_bytes_def l pb_type_defs pb_enc_fixed_length_bytes_def unat_ucast_less)
  qed
qed

lemma encodes_as_header:
  assumes "PB_LTYPE (ftype f) \<le> 8 \<or> PB_LTYPE (ftype f) = PB_LTYPE_FIXED_LENGTH_BYTES"
  shows "encodes_as wr written (\<lambda>s. Some (pb_encode_tag_for_field s f)) (field_header f (field_wire_type f))"
proof -
  obtain wt where "wiretype_of_ltype (PB_LTYPE (ftype f)) = Some wt"
    using assms by (auto simp: word8_le_8 word8_le_5 wiretype_of_ltype_def pb_type_defs)
  then show ?thesis using encodes_as_tag [of wt "ftag f"]
    by (simp add: pb_encode_tag_for_field_def field_header_def field_wire_type_def)
qed

lemma encodes_as_field_value:
  assumes ok: "encodable_value valid m f p"
    and sub: "\<And>tab p. valid tab p \<Longrightarrow> encodes_as wr written (enc tab p) (sub tab p)"
  shows "encodes_as wr written
    (\<lambda>s. enc_then (Some (pb_encode_tag_for_field s f)) (\<lambda>s1. PB_ENCODERS enc m f s1 p))
    (field_value sub m f p)"
  unfolding field_value_def using ok
  by (intro encodes_as_seq encodes_as_header encodes_as_value [OF ok sub])
     (auto simp: encodable_value_def Let_def)

text \<open>Whether the code sees an optional field without flag.\<close>

lemma implicit_has_known:
  assumes "PB_HTYPE (ftype f) = PB_HTYPE_OPTIONAL" and "size_offset f = 0"
    and nests: "PB_ATYPE (ftype f) = PB_ATYPE_STATIC \<and> PB_LTYPE (ftype f) = PB_LTYPE_SUBMESSAGE \<Longrightarrow>
      tables_nest (enc_fields_at env) d (ptr f)" and k: "d < k"
  shows "implicit_has env m k f p = Some (field_there (message_unset (enc_fields_at env) m d) m f p)"
proof -
  obtain j where j: "k = Suc j" "d \<le> j" using k by (cases k) auto
  have "pb_check_proto3_default_value env m k f p =
      Some (field_unset (message_unset (enc_fields_at env) m d) m f p)"
    unfolding j(1) pb_check_proto3_default_value.simps
    by (rule default_value_known) (rule default_fields_known [OF nests j(2)])
  then show ?thesis using assms(1,2) by (simp add: implicit_has_def field_there_def pb_type_defs)
qed

text \<open>A failing call may change the error message.\<close>

lemma encodes_as_failing:
  assumes "encodes_as wr written (\<lambda>s. Some (g s)) bs"
  shows "encodes_as wr written (\<lambda>s. Some (case g s of (s', ok) \<Rightarrow> if ok then (s', True) else (err s', False))) bs"
proof (rule encodes_asI)
  fix s :: "'o pb_ostream" assume "out_callback s = None"
  then show "Some (case g s of (s', ok) \<Rightarrow> if ok then (s', True) else (err s', False)) =
      Some (s\<lparr>bytes_written := bytes_written s + of_nat (length bs)\<rparr>, True)"
    using encodes_asD(1) [OF assms] by simp
next
  fix s :: "'o pb_ostream" assume "out_callback s = Some wr"
  show "\<exists>s' ok. Some (case g s of (s', ok) \<Rightarrow> if ok then (s', True) else (err s', False)) = Some (s', ok)"
    by (cases "g s") auto
next
  fix s s' :: "'o pb_ostream" assume cb: "out_callback s = Some wr"
    and "Some (case g s of (s', ok) \<Rightarrow> if ok then (s', True) else (err s', False)) = Some (s', True)"
  then have "Some (g s) = Some (s', True)" by (auto split: prod.splits if_splits)
  then show "pb_wrote written s s' bs" by (rule encodes_asD(2) [OF assms cb])
next
  fix s :: "'o pb_ostream" assume "out_callback s = Some wr"
    and "unat (bytes_written s) + length bs \<le> unat (max_size s)"
  from encodes_asD(3) [OF assms this]
  show "\<exists>s'. Some (case g s of (s', ok) \<Rightarrow> if ok then (s', True) else (err s', False)) = Some (s', True)" by auto
qed

lemma encodes_as_field:
  fixes env :: "'o pb_enc_env"
  assumes unset: "unset = message_unset (enc_fields_at env) m d"
    and ok: "encodable_field (tables_nest (enc_fields_at env) d) unset valid m f p" and k: "d < k"
    and sub: "\<And>tab p. valid tab p \<Longrightarrow> encodes_as wr written (enc tab p) (sub tab p)"
    and cb: "\<And>g f a. g \<noteq> 0 \<Longrightarrow> encodes_as wr written (\<lambda>s. Some (encode_callback env g s f a m)) (written_by g f a)"
  shows "encodes_as wr written (encode_field env k enc m f p) (field_bytes written_by unset sub m f p)"
proof -
  let ?t = "ftype f" and ?p = "value_address m f p"
  let ?put_value = "\<lambda>s. enc_then (Some (pb_encode_tag_for_field s f)) (\<lambda>s1. PB_ENCODERS enc m f s1 ?p)"
  note val = encodes_as_field_value [OF _ sub]
  note eq = encode_field_def encode_basic_field_def Let_def value_address_def
  show ?thesis
  proof (cases "PB_ATYPE ?t = PB_ATYPE_CALLBACK")
    case True
    then have e: "encode_field env k enc m f p = (\<lambda>s. Some (encode_callback_field env m f p s))"
      by (simp add: eq pb_type_defs fun_eq_iff)
    show ?thesis
    proof (cases "load_ptr m p = 0")
      case null: True
      then show ?thesis using True encodes_as_Nil by (simp add: e field_bytes_def encode_callback_field_def)
    next
      case False
      then have "encodes_as wr written (\<lambda>s. Some (encode_callback_field env m f p s))
          (written_by (load_ptr m p) f (p + 8))"
        using encodes_as_failing [OF cb [OF False], where err = "\<lambda>s. pb_out_error s ''callback error''"]
        by (simp add: encode_callback_field_def)
      then show ?thesis using True False by (simp add: e field_bytes_def)
    qed
  next
    case ncb: False
    then have at: "PB_ATYPE ?t = PB_ATYPE_STATIC \<or> PB_ATYPE ?t = PB_ATYPE_POINTER"
      using ok by (auto simp: encodable_field_def)
    consider "PB_HTYPE ?t = PB_HTYPE_REQUIRED" | "PB_HTYPE ?t = PB_HTYPE_OPTIONAL"
      | "PB_HTYPE ?t = PB_HTYPE_REPEATED" | "PB_HTYPE ?t = PB_HTYPE_ONEOF"
      using htype_cases by blast
    then show ?thesis
    proof cases
      case 3
      let ?items = "field_items m f p"
      have e: "encode_field env k enc m f p = (\<lambda>s. encode_array s f ?items (PB_ENCODERS enc m f))"
        using 3 at
        by (auto simp: eq implicit_has_def pb_type_defs array_entries_def field_items_def field_count_def fun_eq_iff comp_def)
      have ok': "list_all (encodable_value valid m f) ?items"
        and room: "PB_ATYPE ?t = PB_ATYPE_STATIC \<longrightarrow> field_count m f p \<le> array_size f"
        using ok 3 ncb by (auto simp: encodable_field_def)
      show ?thesis
      proof (cases "?items = []")
        case True
        then show ?thesis using 3 ncb encodes_as_Nil by (simp add: e encode_array_def field_bytes_def)
      next
        case ne: False
        have len: "PB_ATYPE ?t = PB_ATYPE_POINTER \<or> length ?items \<le> unat (array_size f)"
          using room at by (auto simp: field_items_def word_le_nat_alt Let_def)
        have items: "encodable_value valid m f q" if "q \<in> set ?items" for q
          using ok' that by (simp add: list_all_iff)
        show ?thesis
        proof (cases "PB_LTYPE ?t \<le> PB_LTYPE_LAST_PACKABLE")
          case True
          have lens: "PB_LTYPE ?t = PB_LTYPE_FIXED32 \<Longrightarrow> length (value_bytes sub m f q) = 4"
            "PB_LTYPE ?t = PB_LTYPE_FIXED64 \<Longrightarrow> length (value_bytes sub m f q) = 8" for q
            by (simp_all add: value_bytes_def pb_type_defs)
          have "encodes_as wr written (\<lambda>s. encode_array s f ?items (PB_ENCODERS enc m f))
              (varint_bytes (push_bit 3 (ucast (ftag f)) OR ucast PB_WT_STRING) @
               varint_bytes (of_nat (length (concat (map (value_bytes sub m f) ?items)))) @
               concat (map (value_bytes sub m f) ?items))"
            using len lens by (intro encodes_as_packed_array encodes_as_value [OF items sub] ne True) auto
          then show ?thesis using 3 ncb ne True
            by (simp add: e field_bytes_def field_header_def delimited_def)
        next
          case False
          have "encode_array s f ?items (PB_ENCODERS enc m f) =
              encode_items (\<lambda>t q. enc_then (Some (pb_encode_tag_for_field t f)) (\<lambda>t'. PB_ENCODERS enc m f t' q))
                s ?items" for s
            using ne False len by (auto simp: encode_array_def)
          moreover have "encodes_as wr written (\<lambda>s. encode_items
              (\<lambda>t q. enc_then (Some (pb_encode_tag_for_field t f)) (\<lambda>t'. PB_ENCODERS enc m f t' q)) s ?items)
              (concat (map (field_value sub m f) ?items))"
            by (rule encodes_as_items) (rule val, rule items)
          ultimately show ?thesis using 3 ncb ne False by (simp add: e field_bytes_def)
        qed
      qed
    next
      case 1
      have v: "encodable_value valid m f ?p" using ok 1 ncb
        by (simp add: encodable_field_def field_there_def pb_type_defs)
      then have "?p \<noteq> 0" by (simp add: encodable_value_def Let_def)
      then have "encode_field env k enc m f p = ?put_value"
        using 1 at by (auto simp: eq implicit_has_def pb_type_defs fun_eq_iff)
      then show ?thesis using val [OF v] 1 ncb
        by (simp add: field_bytes_def field_there_def pb_type_defs)
    next
      case 2
      have "implicit_has env m k f p = Some (field_there unset m f p)" if "size_offset f = 0"
        unfolding unset using ok 2 ncb that k
        by (intro implicit_has_known) (auto simp: encodable_field_def pb_type_defs)
      then have e: "encode_field env k enc m f p = (\<lambda>s. if field_there unset m f p then ?put_value s else Some (s, True))"
        using 2 at by (cases "size_offset f = 0")
          (auto simp: eq implicit_has_def field_there_def pb_type_defs fun_eq_iff)
      show ?thesis
      proof (cases "field_there unset m f p")
        case True
        then have "encodable_value valid m f ?p" using ok 2 ncb by (simp add: encodable_field_def pb_type_defs)
        from val [OF this] show ?thesis using 2 ncb True by (simp add: e field_bytes_def pb_type_defs)
      next
        case False
        then show ?thesis using 2 ncb encodes_as_Nil by (simp add: e field_bytes_def pb_type_defs)
      qed
    next
      case 4
      have so: "size_offset f \<noteq> 0" using ok 4 ncb by (simp add: encodable_field_def pb_type_defs)
      have e: "encode_field env k enc m f p = (\<lambda>s. if field_there unset m f p then ?put_value s else Some (s, True))"
        using 4 so at by (auto simp: eq implicit_has_def field_there_def pb_type_defs fun_eq_iff)
      show ?thesis
      proof (cases "field_there unset m f p")
        case True
        then have "encodable_value valid m f ?p" using ok 4 ncb by (simp add: encodable_field_def pb_type_defs)
        from val [OF this] show ?thesis using 4 ncb True by (simp add: e field_bytes_def pb_type_defs)
      next
        case False
        then show ?thesis using 4 ncb encodes_as_Nil by (simp add: e field_bytes_def pb_type_defs)
      qed
    qed
  qed
qed

text \<open>The loop over the fields.\<close>

lemma encodes_as_fields:
  fixes fs p one
  defines "loop \<equiv> \<lambda>it s. for_fields (\<lambda>it (s, ok). if ok then one it s else Some (s, False)) it (s, True)"
  assumes ok: "table_ok fs" and i: "i < length fs"
    and one: "\<And>j. j < length fs \<Longrightarrow> encodes_as wr written (one (iter_at fs p j)) (bs j)"
  shows "encodes_as wr written (loop (iter_at fs p i)) (concat (map bs [i..<length fs]))"
proof -
  let ?step = "\<lambda>it (s, ok). if ok then one it s else Some (s, False)"
  have failed: "for_fields ?step it (s, False) = Some (s, False)" for it s
  proof (induction "length (start it) - pos it" arbitrary: it rule: less_induct)
    case less
    obtain it' b where nx: "pb_field_iter_next it = (it', b)" by force
    have "for_fields ?step it' (s, False) = Some (s, False)" if b
      using iter_next_measure [of it' it] nx that less.hyps by simp
    then show ?case by (subst for_fields.simps) (simp add: nx)
  qed
  show ?thesis
    using i
  proof (induction "length fs - i" arbitrary: i rule: less_induct)
    case less
    let ?it = "iter_at fs p i"
    obtain it' b where nx: "pb_field_iter_next ?it = (it', b)" by force
    have b: "b \<longleftrightarrow> Suc i < length fs" and it': "it' = iter_at fs p (Suc i)"
      using iter_next_pos(1) [of ?it] ok less.prems nx by simp_all
    have "loop ?it s = enc_then (one ?it s) (\<lambda>s'. if b then loop it' s' else Some (s', True))" for s
      unfolding loop_def
      by (subst for_fields.simps) (auto simp: nx failed enc_then_def split: option.split)
    then have eq: "loop ?it = (\<lambda>s. enc_then (one ?it s) (\<lambda>s'. if b then loop it' s' else Some (s', True)))"
      by blast
    show ?case
    proof (cases b)
      case True
      have "encodes_as wr written (loop it') (concat (map bs [Suc i..<length fs]))"
        unfolding it' using less.hyps [of "Suc i"] less.prems b True by simp
      from encodes_as_seq [OF one [OF less.prems] this] show ?thesis
        using True less.prems by (simp add: eq upt_conv_Cons [of i])
    next
      case False
      from encodes_as_seq [OF one [OF less.prems] encodes_as_Nil] show ?thesis
        using False b less.prems by (simp add: eq upt_conv_Cons [of i])
    qed
  qed
qed

theorem pb_encode_encodes:
  assumes "encodable_message (enc_fields_at env) m d tab p" and "d < k"
    and cb: "\<And>g f a. g \<noteq> 0 \<Longrightarrow> encodes_as wr written (\<lambda>s. Some (encode_callback env g s f a m)) (written_by g f a)"
  shows "encodes_as wr written (pb_encode env m k tab p) (message_bytes written_by (enc_fields_at env) m d tab p)"
  using assms(1,2)
proof (induction d arbitrary: k tab p)
  case (Suc d)
  obtain j where k: "k = Suc j" "d < j" using Suc.prems(2) by (cases k) auto
  let ?fs = "enc_fields_at env tab"
  let ?at = "iter_at ?fs p"
  let ?unset = "message_unset (enc_fields_at env) m d"
  let ?bs = "\<lambda>i. field_bytes written_by ?unset (message_bytes written_by (enc_fields_at env) m d) m (iter_field (?at i)) (pData (?at i))"
  have ok: "table_ok ?fs" and fld: "\<And>i. i < length ?fs \<Longrightarrow>
      encodable_field (tables_nest (enc_fields_at env) d) ?unset (encodable_message (enc_fields_at env) m d) m (iter_field (?at i)) (pData (?at i))"
    using Suc.prems(1) by (auto simp: list_all_iff)
  show ?case
  proof (cases "?fs = []")
    case True
    then have "pb_encode env m k tab p = (\<lambda>s. Some (s, True))"
      by (simp add: k(1) fun_eq_iff pb_field_iter_begin_def PB_LAST_FIELD_def Let_def)
    then show ?thesis using True encodes_as_Nil by simp
  next
    case False
    have one: "encodes_as wr written (encode_one env j (pb_encode env m j) m (?at i)) (?bs i)"
      if i: "i < length ?fs" for i
    proof -
      have "PB_LTYPE (ftype (iter_field (?at i))) \<noteq> PB_LTYPE_EXTENSION"
        using fld [OF i] by (simp add: encodable_field_def)
      then have "encode_one env j (pb_encode env m j) m (?at i) =
          encode_field env j (pb_encode env m j) m (iter_field (?at i)) (pData (?at i))"
        by (simp add: encode_one_def Let_def fun_eq_iff)
      then show ?thesis using encodes_as_field [OF refl fld [OF i] k(2) Suc.IH [OF _ k(2)] cb] by simp
    qed
    have "snd (pb_field_iter_begin ?fs p)"
      using ok False by (auto simp: pb_field_iter_begin_def table_ok_def Let_def)
    then have "pb_encode env m k tab p = (\<lambda>s. for_fields
        (\<lambda>it (s, ok). if ok then encode_one env j (pb_encode env m j) m it s else Some (s, False))
        (?at 0) (s, True))"
      by (auto simp: k(1) fun_eq_iff split: prod.splits)
    then show ?thesis
      using encodes_as_fields [OF ok, of 0 "encode_one env j (pb_encode env m j) m" p ?bs] one False
      by simp
  qed
qed simp

end

end
