(* ===== verification/PbMsgProps.thy ===== *)
theory PbMsgProps
  imports PbSafe PbFuel PbWire
begin

text \<open>
  The properties of nanopb's message decoding.  \<open>sample_env\<close> is the environment of the witnesses:
  a message with a required integer, an optional sub-message and an array, a sub-message with one
  \<open>bool\<close>, a message with a repeated \<open>bool\<close> of the fixed count 1, a message with fields as the tables of the
  repository have them (an integer and a sub-message without flag, pointers to a string and to an
  array), and an empty message.
\<close>

unbundle bit_operations_syntax

definition sample_field :: "u32 \<Rightarrow> u8 \<Rightarrow> u32 \<Rightarrow> u32 \<Rightarrow> u32 \<Rightarrow> u32 \<Rightarrow> u64 \<Rightarrow> pb_desc" where
  "sample_field tag t off soff len asize p =
     \<lparr>ftag = tag, ftype = t, data_size = len, array_size = asize, data_offset = off,
      size_offset = soff, ptr = p\<rparr>"

definition sample_fields :: "u64 \<Rightarrow> pb_desc list" where
  "sample_fields tab =
     (if tab = 0x100 then
        [sample_field 1 0x01 0 0 4 0 0, sample_field 2 0x18 1 (- 1) 1 0 0x200,
         sample_field 3 0x21 6 (- 4) 4 2 0]
      else if tab = 0x200 then [sample_field 1 0x00 0 0 1 0 0]
      else if tab = 0x300 then [sample_field 1 0x20 0 0 1 1 0]
      else if tab = 0x600 then [sample_field 1 0x10 0 0 1 0 0]
      else if tab = 0x500 then
        [sample_field 1 0x12 0 0 4 0 0, sample_field 2 0x97 4 0 8 0 0, sample_field 3 0xA2 8 (- 8) 4 0 0,
         sample_field 4 0x18 0 0 1 0 0x600]
      else [])"

definition sample_env :: "bytes pb_env" where
  "sample_env =
     \<lparr>fields_at = sample_fields, env_realloc = (\<lambda>m p n. (m, 0)), env_free = (\<lambda>m p. m),
      field_callback = (\<lambda>f s d a m. (s, m, False)),
      extension_callback = (\<lambda>f s e tag w m. (s, m, False)),
      buffer_stream = pb_istream_from_buffer\<rparr>"

lemma sample_static: "static_msg sample_env 2 0x100 20"
  by code_simp

text \<open>C1: Decoding into a message described by a static table never writes outside the message
  struct, whatever the input: each of the five entry points returns, and every byte that is not one of
  the \<open>n\<close> bytes at \<open>dest\<close> keeps its value; after success the stream has moved on within
  its input.\<close>

theorem pb_decode_stays_in_struct:
  assumes "input_source rd contents" and "pb_good rd contents s"
    and "static_msg env d tab n" and "n \<le> 2 ^ 64" and "bytes_left s + d < k"
    and "dec \<in> {pb_decode env k, pb_decode_noinit env k, pb_decode_delimited env k,
      pb_decode_delimited_noinit env k, pb_decode_nullterminated env k}"
  shows "\<exists>s' m' ok. dec s tab dest m = Some (s', m', ok) \<and>
    (\<forall>a. a \<notin> block dest n \<longrightarrow> m' a = m a) \<and> (ok \<longrightarrow> pb_moves contents s s')"
proof -
  have "input_source.decoder_ok rd contents env k dec"
    using input_source.entry_points_ok [OF assms(1), of env k] assms(6) by auto
  then have "dec_ok contents (block dest n) s m (dec s tab dest m)"
    using assms(2-5) unfolding input_source.decoder_ok_def [OF assms(1)] by blast
  then show ?thesis by (auto simp: dec_ok_def tri_ok_def keeps_def)
qed

lemma pb_decode_stays_in_struct_witness:
  "\<exists>s' m' ok. pb_decode sample_env 20 (pb_istream_from_buffer [8, 5, 18, 2, 8, 1, 26, 1, 7])
       0x100 0x1000 (\<lambda>_. 0) = Some (s', m', ok) \<and>
     (\<forall>a. a \<notin> block 0x1000 20 \<longrightarrow> m' a = 0) \<and>
     (ok \<longrightarrow> pb_moves (\<lambda>bs. bs) (pb_istream_from_buffer [8, 5, 18, 2, 8, 1, 26, 1, 7]) s')"
  by (rule pb_decode_stays_in_struct [where dec = "pb_decode sample_env 20" and k = 20,
        OF buf.input_source_axioms pb_good_from_buffer sample_static])
     (simp_all add: pb_istream_from_buffer_def)

text \<open>C25: Decoding into a static message terminates on every input: there is one result that every
  amount of fuel above the bytes of the input plus the nesting depth of the table gives, with
  and without the initialisation of the struct.\<close>

theorem pb_decode_terminates:
  assumes "input_source rd contents" and "pb_good rd contents s"
    and "static_msg env d tab n" and "n \<le> 2 ^ 64"
  shows "\<exists>r r'. \<forall>k. bytes_left s + d < k \<longrightarrow>
    pb_decode env k s tab dest m = Some r \<and> pb_decode_noinit env k s tab dest m = Some r'"
proof -
  let ?k = "Suc (bytes_left s + d)"
  have dec: "input_source.decoder_ok rd contents env ?k (pb_decode env ?k)"
    "input_source.decoder_ok rd contents env ?k (pb_decode_noinit env ?k)"
    using input_source.pb_decode_ok [OF assms(1), of env ?k] by auto
  obtain r where r: "pb_decode env ?k s tab dest m = Some r"
    using dec(1) assms(2-4) unfolding input_source.decoder_ok_def [OF assms(1)] dec_ok_def by blast
  obtain r' where r': "pb_decode_noinit env ?k s tab dest m = Some r'"
    using dec(2) assms(2-4) unfolding input_source.decoder_ok_def [OF assms(1)] dec_ok_def by blast
  have "pb_decode env k s tab dest m = Some r \<and> pb_decode_noinit env k s tab dest m = Some r'"
    if "bytes_left s + d < k" for k
    using that fuel_leD [OF pb_decode_fuel(2) r] fuel_leD [OF pb_decode_fuel(1) r'] by (simp add: Suc_leI)
  then show ?thesis by blast
qed

lemma pb_decode_terminates_witness:
  "\<exists>r r'. \<forall>k. bytes_left (pb_istream_from_buffer [8, 5, 18, 2]) + 2 < k \<longrightarrow>
     pb_decode sample_env k (pb_istream_from_buffer [8, 5, 18, 2]) 0x100 0x1000 (\<lambda>_. 0) = Some r \<and>
     pb_decode_noinit sample_env k (pb_istream_from_buffer [8, 5, 18, 2]) 0x100 0x1000 (\<lambda>_. 0) = Some r'"
  by (rule pb_decode_terminates
        [OF buf.input_source_axioms pb_good_from_buffer sample_static]) simp

text \<open>C26: The search for a field goes once around the table, from wherever the iterator stands:
  in a table of distinct tags it ends on the one field that has the tag and is no extension, with the
  data and size addresses of that field, and otherwise back where it began.\<close>

theorem pb_field_iter_find_lookup:
  assumes "table_ok fs" and "i < length fs" and "distinct (map ftag fs)"
  shows "pb_field_iter_find (iter_at fs dest i) tag =
    (case find (\<lambda>j. ftag (fs ! j) = tag \<and> PB_LTYPE (ftype (fs ! j)) \<noteq> PB_LTYPE_EXTENSION)
            [0..<length fs] of
       Some j \<Rightarrow> (iter_at fs dest j, True)
     | None \<Rightarrow> (iter_at fs dest i, False))"
proof -
  let ?P = "\<lambda>j. ftag (fs ! j) = tag \<and> PB_LTYPE (ftype (fs ! j)) \<noteq> PB_LTYPE_EXTENSION"
  have uniq: "j = j'" if "?P j" "?P j'" "j < length fs" "j' < length fs" for j j'
    using that assms(3) by (metis length_map nth_eq_iff_index_eq nth_map)
  have sets: "set ([i..<length fs] @ [0..<i]) = set [0..<length fs]" using assms(2) by auto
  have "find ?P ([i..<length fs] @ [0..<i]) = find ?P [0..<length fs]"
  proof (cases "find ?P [0..<length fs]")
    case None
    then have "find ?P ([i..<length fs] @ [0..<i]) = None" using sets unfolding find_None_iff by blast
    then show ?thesis using None by simp
  next
    case (Some j)
    then have j: "j < length fs" "?P j" by (auto simp: find_Some_iff)
    then obtain j' where j': "find ?P ([i..<length fs] @ [0..<i]) = Some j'"
      using sets by (cases "find ?P ([i..<length fs] @ [0..<i])") (auto simp: find_None_iff)
    then have "?P j'" "j' < length fs" using assms(2) by (auto simp: find_Some_iff nth_append)
    then have "j' = j" using j by (intro uniq)
    then show ?thesis using j' Some by simp
  qed
  then show ?thesis using iter_find_at [OF assms(1,2)] by simp
qed

lemma pb_field_iter_find_lookup_witness:
  "pb_field_iter_find (iter_at (sample_fields 0x100) 0 2) 2 = (iter_at (sample_fields 0x100) 0 1, True)"
proof -
  have "table_ok (sample_fields 0x100)"
    by (simp add: table_ok_def sample_fields_def sample_field_def)
  moreover have "2 < length (sample_fields 0x100)" "distinct (map ftag (sample_fields 0x100))"
    "find (\<lambda>j. ftag (sample_fields 0x100 ! j) = 2 \<and>
        PB_LTYPE (ftype (sample_fields 0x100 ! j)) \<noteq> PB_LTYPE_EXTENSION) [0..<length (sample_fields 0x100)] = Some 1"
    by code_simp+
  ultimately show ?thesis by (simp add: pb_field_iter_find_lookup)
qed

text \<open>The default of a repeated field of fixed count without a counter is stored through
  \<open>pSize\<close>, which then is the address of the array itself: \<open>pb_decode\<close> writes four zero
  bytes even when the array and the struct are shorter, here past a struct of one byte.\<close>

lemma pb_fixed_count_overwrites:
  "case pb_decode sample_env 5 (pb_istream_from_buffer [8, 1]) 0x300 0x1000 (\<lambda>_. 0xFF) of
     Some (s, m, ok) \<Rightarrow> ok \<and> load m 0x1000 5 = [1, 0, 0, 0, 0xFF]
   | None \<Rightarrow> False"
  by code_simp

text \<open>An empty message does not reject the field number 0: \<open>pb_field_iter_find\<close> compares it
  with the terminating descriptor, whose tag is 0 and whose type bits are those of a required
  \<open>bool\<close>, so the input \<open>05 01\<close> is stored into the first byte of the struct and accepted.\<close>

lemma pb_empty_message_tag_zero:
  "case pb_decode sample_env 3 (pb_istream_from_buffer [5, 1]) 0x400 0x1000 (\<lambda>_. 0xFF) of
     Some (s, m, ok) \<Rightarrow> ok \<and> bytes_left s = 0 \<and> load m 0x1000 2 = [1, 0xFF]
   | None \<Rightarrow> False"
  by code_simp





end
