(* ===== verification/Cbs.thy ===== *)
theory Cbs
  imports Prelude
begin

text \<open>
  The byte-string reader of BoringSSL
  (\<open>BoringSSL-GRPC/src/crypto/bytestring/cbs.c\<close>).

  A \<open>CBS\<close> is a pointer and a length into memory nobody writes to while it is read; the model is
  the list of the bytes from the pointer on.  A reading function returns the reader as the call leaves
  it, in the failing case too, and \<open>Some\<close> of its outputs where the C function returns 1.
  Lengths that the code computes are \<open>size_t\<close>, words of 64 bits.
\<close>

type_synonym cbs = bytes
type_synonym 'a cbs_reader = "cbs \<Rightarrow> cbs \<times> 'a option"

definition CBS_len :: "cbs \<Rightarrow> u64" where
  "CBS_len cbs = of_nat (length cbs)"

definition CBS_init :: "bytes \<Rightarrow> u64 \<Rightarrow> cbs" where
  "CBS_init data len = take (unat len) data"

definition cbs_get :: "u64 \<Rightarrow> bytes cbs_reader" where
  "cbs_get n cbs =
     (if length cbs < unat n then (cbs, None)
      else (drop (unat n) cbs, Some (take (unat n) cbs)))"

definition CBS_skip :: "u64 \<Rightarrow> unit cbs_reader" where
  "CBS_skip len cbs =
     (case cbs_get len cbs of (cbs', None) \<Rightarrow> (cbs', None) | (cbs', Some _) \<Rightarrow> (cbs', Some ()))"

definition CBS_get_bytes :: "u64 \<Rightarrow> cbs cbs_reader" where
  "CBS_get_bytes len cbs =
     (case cbs_get len cbs of
        (cbs', None) \<Rightarrow> (cbs', None)
      | (cbs', Some v) \<Rightarrow> (cbs', Some (CBS_init v len)))"

definition CBS_copy_bytes :: "u64 \<Rightarrow> bytes cbs_reader" where
  "CBS_copy_bytes len cbs = cbs_get len cbs"

subsection \<open>Copies and comparisons\<close>

text \<open>
  \<open>malloc_ok n\<close>: whether the allocator gives \<open>n\<close> bytes.  The result of \<open>CBS_stow\<close>
  is the return value and the new contents of \<open>*out_ptr\<close> and \<open>*out_len\<close>.
\<close>

definition CBS_stow :: "(u64 \<Rightarrow> bool) \<Rightarrow> cbs \<Rightarrow> bool \<times> bytes option \<times> u64" where
  "CBS_stow malloc_ok cbs =
     (if CBS_len cbs = 0 then (True, None, 0)
      else if \<not> malloc_ok (CBS_len cbs) then (False, None, 0)
      else (True, Some cbs, CBS_len cbs))"

fun OPENSSL_strnlen :: "bytes \<Rightarrow> nat" where
  "OPENSSL_strnlen [] = 0"
| "OPENSSL_strnlen (b # bs) = (if b = 0 then 0 else Suc (OPENSSL_strnlen bs))"

definition OPENSSL_strndup :: "(u64 \<Rightarrow> bool) \<Rightarrow> bytes \<Rightarrow> bytes option" where
  "OPENSSL_strndup malloc_ok str =
     (let size = of_nat (OPENSSL_strnlen str) :: u64; alloc_size = size + 1
      in if alloc_size < size then None
         else if \<not> malloc_ok alloc_size then None
         else Some (take (unat size) str @ [0]))"

definition CBS_strdup :: "(u64 \<Rightarrow> bool) \<Rightarrow> cbs \<Rightarrow> bytes option" where
  "CBS_strdup malloc_ok cbs = OPENSSL_strndup malloc_ok cbs"

definition CBS_contains_zero_byte :: "cbs \<Rightarrow> bool" where
  "CBS_contains_zero_byte cbs \<longleftrightarrow> 0 \<in> set cbs"

definition CRYPTO_memcmp :: "bytes \<Rightarrow> bytes \<Rightarrow> u8" where
  "CRYPTO_memcmp a b = foldl (\<lambda>x (p, q). x OR (p XOR q)) 0 (zip a b)"

definition CBS_mem_equal :: "cbs \<Rightarrow> bytes \<Rightarrow> bool" where
  "CBS_mem_equal cbs data \<longleftrightarrow> length data = length cbs \<and> CRYPTO_memcmp cbs data = 0"

subsection \<open>Big-endian integers\<close>

definition cbs_get_u :: "u64 \<Rightarrow> u64 cbs_reader" where
  "cbs_get_u len cbs =
     (case cbs_get len cbs of
        (cbs', None) \<Rightarrow> (cbs', None)
      | (cbs', Some data) \<Rightarrow>
          (cbs', Some (foldl (\<lambda>result b. push_bit 8 result OR ucast b) 0 data)))"

definition CBS_get_u8 :: "u8 cbs_reader" where
  "CBS_get_u8 cbs =
     (case cbs_get 1 cbs of (cbs', None) \<Rightarrow> (cbs', None) | (cbs', Some v) \<Rightarrow> (cbs', Some (hd v)))"

definition CBS_get_u16 :: "u16 cbs_reader" where
  "CBS_get_u16 cbs =
     (case cbs_get_u 2 cbs of (cbs', None) \<Rightarrow> (cbs', None) | (cbs', Some v) \<Rightarrow> (cbs', Some (ucast v)))"

definition CRYPTO_bswap2 :: "u16 \<Rightarrow> u16" where
  "CRYPTO_bswap2 x = drop_bit 8 x OR push_bit 8 x"

definition CRYPTO_bswap4 :: "u32 \<Rightarrow> u32" where
  "CRYPTO_bswap4 x =
     (let y = drop_bit 16 x OR push_bit 16 x
      in drop_bit 8 (y AND 0xff00ff00) OR push_bit 8 (y AND 0x00ff00ff))"

definition CRYPTO_bswap8 :: "u64 \<Rightarrow> u64" where
  "CRYPTO_bswap8 x =
     ucast (CRYPTO_bswap4 (ucast (drop_bit 32 x))) OR push_bit 32 (ucast (CRYPTO_bswap4 (ucast x)))"

definition CBS_get_u16le :: "u16 cbs_reader" where
  "CBS_get_u16le cbs =
     (case CBS_get_u16 cbs of
        (cbs', None) \<Rightarrow> (cbs', None) | (cbs', Some v) \<Rightarrow> (cbs', Some (CRYPTO_bswap2 v)))"

definition CBS_get_u24 :: "u32 cbs_reader" where
  "CBS_get_u24 cbs =
     (case cbs_get_u 3 cbs of (cbs', None) \<Rightarrow> (cbs', None) | (cbs', Some v) \<Rightarrow> (cbs', Some (ucast v)))"

definition CBS_get_u32 :: "u32 cbs_reader" where
  "CBS_get_u32 cbs =
     (case cbs_get_u 4 cbs of (cbs', None) \<Rightarrow> (cbs', None) | (cbs', Some v) \<Rightarrow> (cbs', Some (ucast v)))"

definition CBS_get_u32le :: "u32 cbs_reader" where
  "CBS_get_u32le cbs =
     (case CBS_get_u32 cbs of
        (cbs', None) \<Rightarrow> (cbs', None) | (cbs', Some v) \<Rightarrow> (cbs', Some (CRYPTO_bswap4 v)))"

definition CBS_get_u64 :: "u64 cbs_reader" where
  "CBS_get_u64 cbs = cbs_get_u 8 cbs"

definition CBS_get_u64le :: "u64 cbs_reader" where
  "CBS_get_u64le cbs =
     (case cbs_get_u 8 cbs of
        (cbs', None) \<Rightarrow> (cbs', None) | (cbs', Some v) \<Rightarrow> (cbs', Some (CRYPTO_bswap8 v)))"

definition CBS_get_last_u8 :: "u8 cbs_reader" where
  "CBS_get_last_u8 cbs = (if CBS_len cbs = 0 then (cbs, None) else (butlast cbs, Some (last cbs)))"

subsection \<open>Length-prefixed strings\<close>

definition cbs_get_length_prefixed :: "u64 \<Rightarrow> cbs cbs_reader" where
  "cbs_get_length_prefixed len_len cbs =
     (case cbs_get_u len_len cbs of
        (cbs', None) \<Rightarrow> (cbs', None)
      | (cbs', Some len) \<Rightarrow> CBS_get_bytes len cbs')"

definition CBS_get_u8_length_prefixed :: "cbs cbs_reader" where
  "CBS_get_u8_length_prefixed cbs = cbs_get_length_prefixed 1 cbs"

definition CBS_get_u16_length_prefixed :: "cbs cbs_reader" where
  "CBS_get_u16_length_prefixed cbs = cbs_get_length_prefixed 2 cbs"

definition CBS_get_u24_length_prefixed :: "cbs cbs_reader" where
  "CBS_get_u24_length_prefixed cbs = cbs_get_length_prefixed 3 cbs"

subsection \<open>ASN.1 headers\<close>

text \<open>The loop of \<open>parse_base128_integer\<close>; \<open>CBS_get_u8\<close> is the case on the list.\<close>

fun base128_loop :: "u64 \<Rightarrow> u64 cbs_reader" where
  "base128_loop v [] = ([], None)"
| "base128_loop v (b # cbs) =
     (if drop_bit (64 - 7) v \<noteq> 0 then (cbs, None)
      else if v = 0 \<and> b = 0x80 then (cbs, None)
      else let v' = push_bit 7 v OR ucast (b AND 0x7F)
           in if b AND 0x80 \<noteq> 0 then base128_loop v' cbs else (cbs, Some v'))"

definition parse_base128_integer :: "u64 cbs_reader" where
  "parse_base128_integer cbs = base128_loop 0 cbs"

definition CBS_ASN1_TAG_SHIFT :: nat where "CBS_ASN1_TAG_SHIFT = 24"
definition CBS_ASN1_TAG_NUMBER_MASK :: u32 where "CBS_ASN1_TAG_NUMBER_MASK = 0x1FFFFFFF"
definition CBS_ASN1_CONSTRUCTED :: u32 where "CBS_ASN1_CONSTRUCTED = 0x20000000"
definition CBS_ASN1_CONTEXT_SPECIFIC :: u32 where "CBS_ASN1_CONTEXT_SPECIFIC = 0x80000000"
definition CBS_ASN1_CLASS_MASK :: u32 where "CBS_ASN1_CLASS_MASK = 0xC0000000"
definition CBS_ASN1_BOOLEAN :: u32 where "CBS_ASN1_BOOLEAN = 0x1"
definition CBS_ASN1_INTEGER :: u32 where "CBS_ASN1_INTEGER = 0x2"
definition CBS_ASN1_BITSTRING :: u32 where "CBS_ASN1_BITSTRING = 0x3"
definition CBS_ASN1_OCTETSTRING :: u32 where "CBS_ASN1_OCTETSTRING = 0x4"
definition CBS_ASN1_OBJECT :: u32 where "CBS_ASN1_OBJECT = 0x6"
definition CBS_ASN1_SEQUENCE :: u32 where "CBS_ASN1_SEQUENCE = 0x20000010"
definition CBS_ASN1_SET :: u32 where "CBS_ASN1_SET = 0x20000011"
definition CBS_ASN1_UTF8STRING :: u32 where "CBS_ASN1_UTF8STRING = 0xC"
definition CBS_ASN1_NUMERICSTRING :: u32 where "CBS_ASN1_NUMERICSTRING = 0x12"
definition CBS_ASN1_PRINTABLESTRING :: u32 where "CBS_ASN1_PRINTABLESTRING = 0x13"
definition CBS_ASN1_T61STRING :: u32 where "CBS_ASN1_T61STRING = 0x14"
definition CBS_ASN1_VIDEOTEXSTRING :: u32 where "CBS_ASN1_VIDEOTEXSTRING = 0x15"
definition CBS_ASN1_IA5STRING :: u32 where "CBS_ASN1_IA5STRING = 0x16"
definition CBS_ASN1_GRAPHICSTRING :: u32 where "CBS_ASN1_GRAPHICSTRING = 0x19"
definition CBS_ASN1_VISIBLESTRING :: u32 where "CBS_ASN1_VISIBLESTRING = 0x1A"
definition CBS_ASN1_GENERALSTRING :: u32 where "CBS_ASN1_GENERALSTRING = 0x1B"
definition CBS_ASN1_UNIVERSALSTRING :: u32 where "CBS_ASN1_UNIVERSALSTRING = 0x1C"
definition CBS_ASN1_BMPSTRING :: u32 where "CBS_ASN1_BMPSTRING = 0x1E"

lemmas asn1_tag_defs =
  CBS_ASN1_BOOLEAN_def CBS_ASN1_INTEGER_def CBS_ASN1_BITSTRING_def CBS_ASN1_OCTETSTRING_def
  CBS_ASN1_OBJECT_def CBS_ASN1_SEQUENCE_def CBS_ASN1_SET_def CBS_ASN1_CONSTRUCTED_def
  CBS_ASN1_CONTEXT_SPECIFIC_def CBS_ASN1_CLASS_MASK_def CBS_ASN1_TAG_NUMBER_MASK_def

definition parse_asn1_tag :: "u32 cbs_reader" where
  "parse_asn1_tag cbs =
     (case CBS_get_u8 cbs of
        (cbs1, None) \<Rightarrow> (cbs1, None)
      | (cbs1, Some tag_byte) \<Rightarrow>
          let tag = push_bit CBS_ASN1_TAG_SHIFT (ucast tag_byte AND 0xE0) :: u32;
              tag_number = ucast (tag_byte AND 0x1F) :: u32
          in if tag_number = 0x1F then
               (case parse_base128_integer cbs1 of
                  (cbs2, None) \<Rightarrow> (cbs2, None)
                | (cbs2, Some v) \<Rightarrow>
                    if ucast CBS_ASN1_TAG_NUMBER_MASK < v \<or> v < 0x1F then (cbs2, None)
                    else (cbs2, Some (tag OR ucast v)))
             else (cbs1, Some (tag OR tag_number)))"

text \<open>
  The outputs of \<open>cbs_get_any_asn1_element\<close>: the element with its header, the tag and the
  length of the header.  \<open>header\<close> is the copy of the reader on which the header is parsed.
\<close>

definition cbs_get_any_asn1_element :: "bool \<Rightarrow> (cbs \<times> u32 \<times> u64) cbs_reader" where
  "cbs_get_any_asn1_element ber_ok cbs =
     (let finish = (\<lambda>tag header_len len.
            case CBS_get_bytes len cbs of
              (cbs', None) \<Rightarrow> (cbs', None)
            | (cbs', Some out) \<Rightarrow> (cbs', Some (out, tag, header_len)))
      in case parse_asn1_tag cbs of
           (_, None) \<Rightarrow> (cbs, None)
         | (header, Some tag) \<Rightarrow>
             (case CBS_get_u8 header of
                (_, None) \<Rightarrow> (cbs, None)
              | (header', Some length_byte) \<Rightarrow>
                  let header_len = CBS_len cbs - CBS_len header'
                  in if length_byte AND 0x80 = 0 then
                       finish tag header_len (ucast length_byte + header_len)
                     else
                       let num_bytes = ucast (length_byte AND 0x7F) :: u64
                       in if ber_ok \<and> tag AND CBS_ASN1_CONSTRUCTED \<noteq> 0 \<and> num_bytes = 0
                          then finish tag header_len header_len
                          else if num_bytes = 0 \<or> 4 < num_bytes then (cbs, None)
                          else (case cbs_get_u num_bytes header' of
                                  (_, None) \<Rightarrow> (cbs, None)
                                | (_, Some len64) \<Rightarrow>
                                    if len64 < 128 then (cbs, None)
                                    else if drop_bit (unat ((num_bytes - 1) * 8)) len64 = 0
                                      then (cbs, None)
                                    else if len64 + header_len + num_bytes < len64 then (cbs, None)
                                    else finish tag (header_len + num_bytes)
                                           (len64 + (header_len + num_bytes)))))"

definition CBS_get_any_asn1_element :: "(cbs \<times> u32 \<times> u64) cbs_reader" where
  "CBS_get_any_asn1_element cbs = cbs_get_any_asn1_element False cbs"

definition CBS_get_any_ber_asn1_element :: "(cbs \<times> u32 \<times> u64) cbs_reader" where
  "CBS_get_any_ber_asn1_element cbs = cbs_get_any_asn1_element True cbs"

definition CBS_get_any_asn1 :: "(cbs \<times> u32) cbs_reader" where
  "CBS_get_any_asn1 cbs =
     (case CBS_get_any_asn1_element cbs of
        (cbs', None) \<Rightarrow> (cbs', None)
      | (cbs', Some (out, tag, header_len)) \<Rightarrow>
          (case CBS_skip header_len out of
             (_, None) \<Rightarrow> (cbs', None)
           | (out', Some _) \<Rightarrow> (cbs', Some (out', tag))))"

definition cbs_get_asn1 :: "u32 \<Rightarrow> bool \<Rightarrow> cbs cbs_reader" where
  "cbs_get_asn1 tag_value skip_header cbs =
     (case CBS_get_any_asn1_element cbs of
        (cbs', None) \<Rightarrow> (cbs', None)
      | (cbs', Some (out, tag, header_len)) \<Rightarrow>
          if tag \<noteq> tag_value then (cbs', None)
          else if skip_header then
            (case CBS_skip header_len out of
               (_, None) \<Rightarrow> (cbs', None)
             | (out', Some _) \<Rightarrow> (cbs', Some out'))
          else (cbs', Some out))"

definition CBS_get_asn1 :: "u32 \<Rightarrow> cbs cbs_reader" where
  "CBS_get_asn1 tag_value cbs = cbs_get_asn1 tag_value True cbs"

definition CBS_get_asn1_element :: "u32 \<Rightarrow> cbs cbs_reader" where
  "CBS_get_asn1_element tag_value cbs = cbs_get_asn1 tag_value False cbs"

definition CBS_peek_asn1_tag :: "cbs \<Rightarrow> u32 \<Rightarrow> bool" where
  "CBS_peek_asn1_tag cbs tag_value \<longleftrightarrow>
     (if CBS_len cbs < 1 then False else snd (parse_asn1_tag cbs) = Some tag_value)"

subsection \<open>ASN.1 values\<close>

text \<open>The loop of \<open>CBS_get_asn1_uint64\<close> over the contents.\<close>

fun uint64_loop :: "u64 \<Rightarrow> bytes \<Rightarrow> u64 option" where
  "uint64_loop out [] = Some out"
| "uint64_loop out (b # bs) =
     (if drop_bit 56 out \<noteq> 0 then None else uint64_loop (push_bit 8 out OR ucast b) bs)"

definition CBS_get_asn1_uint64 :: "u64 cbs_reader" where
  "CBS_get_asn1_uint64 cbs =
     (case CBS_get_asn1 CBS_ASN1_INTEGER cbs of
        (cbs', None) \<Rightarrow> (cbs', None)
      | (cbs', Some data) \<Rightarrow>
          if CBS_len data = 0 then (cbs', None)
          else if data ! 0 AND 0x80 \<noteq> 0 then (cbs', None)
          else if data ! 0 = 0 \<and> 1 < CBS_len data \<and> data ! 1 AND 0x80 = 0 then (cbs', None)
          else (cbs', uint64_loop 0 data))"

text \<open>
  The union of \<open>CBS_get_asn1_int64\<close> is read on a little-endian machine; the result is the word,
  its signed value is \<open>sint\<close> of it.
\<close>

definition CBS_get_asn1_int64 :: "u64 cbs_reader" where
  "CBS_get_asn1_int64 cbs =
     (case CBS_get_asn1 CBS_ASN1_INTEGER cbs of
        (cbs', None) \<Rightarrow> (cbs', None)
      | (cbs', Some data) \<Rightarrow>
          let len = length data in
          if len = 0 \<or> 8 < len then (cbs', None)
          else if 1 < len \<and> data ! 0 = 0 \<and> data ! 1 AND 0x80 = 0 then (cbs', None)
          else if 1 < len \<and> data ! 0 = 0xFF \<and> data ! 1 AND 0x80 \<noteq> 0 then (cbs', None)
          else let fill = (if data ! 0 AND 0x80 \<noteq> 0 then 0xFF else 0);
                   u = map (\<lambda>i. data ! (len - i - 1)) [0..<len] @ drop len (replicate 8 fill)
               in (cbs', Some (le_word u)))"

definition CBS_get_asn1_bool :: "bool cbs_reader" where
  "CBS_get_asn1_bool cbs =
     (case CBS_get_asn1 CBS_ASN1_BOOLEAN cbs of
        (cbs', None) \<Rightarrow> (cbs', None)
      | (cbs', Some data) \<Rightarrow>
          if CBS_len data \<noteq> 1 then (cbs', None)
          else let value = data ! 0
               in if value \<noteq> 0 \<and> value \<noteq> 0xFF then (cbs', None) else (cbs', Some (value \<noteq> 0)))"

text \<open>The outputs of \<open>CBS_get_optional_asn1\<close>: the contents when the element is present.\<close>

definition CBS_get_optional_asn1 :: "u32 \<Rightarrow> cbs option cbs_reader" where
  "CBS_get_optional_asn1 tag cbs =
     (if CBS_peek_asn1_tag cbs tag then
        (case CBS_get_asn1 tag cbs of
           (cbs', None) \<Rightarrow> (cbs', None)
         | (cbs', Some out) \<Rightarrow> (cbs', Some (Some out)))
      else (cbs, Some None))"

definition CBS_get_optional_asn1_octet_string :: "u32 \<Rightarrow> (cbs \<times> bool) cbs_reader" where
  "CBS_get_optional_asn1_octet_string tag cbs =
     (case CBS_get_optional_asn1 tag cbs of
        (cbs', None) \<Rightarrow> (cbs', None)
      | (cbs', Some (Some child)) \<Rightarrow>
          (case CBS_get_asn1 CBS_ASN1_OCTETSTRING child of
             (_, None) \<Rightarrow> (cbs', None)
           | (child', Some out) \<Rightarrow>
               if CBS_len child' \<noteq> 0 then (cbs', None) else (cbs', Some (out, True)))
      | (cbs', Some None) \<Rightarrow> (cbs', Some ([], False)))"

definition CBS_get_optional_asn1_uint64 :: "u32 \<Rightarrow> u64 \<Rightarrow> u64 cbs_reader" where
  "CBS_get_optional_asn1_uint64 tag default_value cbs =
     (case CBS_get_optional_asn1 tag cbs of
        (cbs', None) \<Rightarrow> (cbs', None)
      | (cbs', Some (Some child)) \<Rightarrow>
          (case CBS_get_asn1_uint64 child of
             (_, None) \<Rightarrow> (cbs', None)
           | (child', Some out) \<Rightarrow>
               if CBS_len child' \<noteq> 0 then (cbs', None) else (cbs', Some out))
      | (cbs', Some None) \<Rightarrow> (cbs', Some default_value))"

definition CBS_get_optional_asn1_bool :: "u32 \<Rightarrow> bool \<Rightarrow> bool cbs_reader" where
  "CBS_get_optional_asn1_bool tag default_value cbs =
     (case CBS_get_optional_asn1 tag cbs of
        (cbs', None) \<Rightarrow> (cbs', None)
      | (cbs', Some (Some child)) \<Rightarrow>
          (case CBS_get_asn1 CBS_ASN1_BOOLEAN child of
             (_, None) \<Rightarrow> (cbs', None)
           | (child', Some child2) \<Rightarrow>
               if CBS_len child2 \<noteq> 1 \<or> CBS_len child' \<noteq> 0 then (cbs', None)
               else let boolean = child2 ! 0
                    in if boolean = 0 then (cbs', Some False)
                       else if boolean = 0xFF then (cbs', Some True)
                       else (cbs', None))
      | (cbs', Some None) \<Rightarrow> (cbs', Some default_value))"

definition CBS_is_valid_asn1_bitstring :: "cbs \<Rightarrow> bool" where
  "CBS_is_valid_asn1_bitstring cbs =
     (case CBS_get_u8 cbs of
        (_, None) \<Rightarrow> False
      | (inn, Some num_unused_bits) \<Rightarrow>
          if 7 < num_unused_bits then False
          else if num_unused_bits = 0 then True
          else (case CBS_get_last_u8 inn of
                  (_, None) \<Rightarrow> False
                | (_, Some final) \<Rightarrow> final AND (push_bit (unat num_unused_bits) 1 - 1) = 0))"

definition CBS_asn1_bitstring_has_bit :: "cbs \<Rightarrow> u32 \<Rightarrow> bool" where
  "CBS_asn1_bitstring_has_bit cbs bitno =
     (if \<not> CBS_is_valid_asn1_bitstring cbs then False
      else let byte_num = drop_bit 3 bitno + 1; bit_num = 7 - (bitno AND 7)
           in ucast byte_num < CBS_len cbs \<and>
              cbs ! unat byte_num AND push_bit (unat bit_num) 1 \<noteq> 0)"

end
