(* ===== verification/Cbb.thy ===== *)
theory Cbb
  imports Cbs
begin

text \<open>
  The byte-string builder of BoringSSL
  (\<open>BoringSSL-GRPC/src/crypto/bytestring/cbb.c\<close>).

  All \<open>CBB\<close>s that write to one buffer form a chain: the top-level one, its open child, the
  child's open child and so on; the state is the shared buffer and the open children from the outside
  in.  A handle of the C program is the depth of a \<open>CBB\<close> in the chain, 0 for the top level; a
  depth beyond the chain is a child whose \<open>base\<close> a flush has set to \<open>NULL\<close>.
  \<open>buf\<close> are the \<open>len\<close> bytes written so far; what lies between \<open>len\<close> and
  \<open>cap\<close> is not initialised and not part of the model.  \<open>alloc_ok n\<close> says whether
  \<open>OPENSSL_realloc\<close> gives \<open>n\<close> bytes.
\<close>

record cbb_buffer =
  buf :: bytes
  cap :: u64
  can_resize :: bool
  error :: bool
  alloc_ok :: "u64 \<Rightarrow> bool"

record cbb_child =
  offset :: u64
  pending_len_len :: u8
  pending_is_asn1 :: bool

record cbb =
  base :: "cbb_buffer option"
  frames :: "cbb_child list"

type_synonym cbb_op = "cbb \<Rightarrow> cbb \<times> bool"

definition buf_len :: "cbb_buffer \<Rightarrow> u64" where
  "buf_len b = of_nat (length (buf b))"

subsection \<open>The buffer\<close>

definition CBB_zero :: cbb where
  "CBB_zero = \<lparr>base = None, frames = []\<rparr>"

text \<open>\<open>malloc_ok\<close>: the allocation of the \<open>cbb_buffer_st\<close> itself.\<close>

definition cbb_init :: "bool \<Rightarrow> (u64 \<Rightarrow> bool) \<Rightarrow> u64 \<Rightarrow> cbb_op" where
  "cbb_init malloc_ok alloc capacity cbb =
     (if \<not> malloc_ok then (cbb, False)
      else (cbb\<lparr>base := Some \<lparr>buf = [], cap = capacity, can_resize = True, error = False,
                            alloc_ok = alloc\<rparr>\<rparr>, True))"

definition CBB_init :: "bool \<Rightarrow> (u64 \<Rightarrow> bool) \<Rightarrow> u64 \<Rightarrow> cbb \<times> bool" where
  "CBB_init malloc_ok alloc initial_capacity =
     (if 0 < initial_capacity \<and> \<not> alloc initial_capacity then (CBB_zero, False)
      else cbb_init malloc_ok alloc initial_capacity CBB_zero)"

definition CBB_init_fixed :: "bool \<Rightarrow> u64 \<Rightarrow> cbb \<times> bool" where
  "CBB_init_fixed malloc_ok len =
     (case cbb_init malloc_ok (\<lambda>_. False) len CBB_zero of
        (c, False) \<Rightarrow> (c, False)
      | (c, True) \<Rightarrow> (c\<lparr>base := map_option (\<lambda>b. b\<lparr>can_resize := False\<rparr>) (base c)\<rparr>, True))"

definition CBB_cleanup :: "cbb \<Rightarrow> cbb" where
  "CBB_cleanup cbb = cbb\<lparr>base := None\<rparr>"

definition cbb_buffer_reserve :: "cbb_buffer \<Rightarrow> u64 \<Rightarrow> cbb_buffer \<times> bool" where
  "cbb_buffer_reserve b len =
     (let newlen = buf_len b + len in
      if newlen < buf_len b then (b\<lparr>error := True\<rparr>, False)
      else if cap b < newlen then
        (let newcap = cap b * 2;
             newcap' = (if newcap < cap b \<or> newcap < newlen then newlen else newcap)
         in if \<not> can_resize b then (b\<lparr>error := True\<rparr>, False)
            else if \<not> alloc_ok b newcap' then (b\<lparr>error := True\<rparr>, False)
            else (b\<lparr>cap := newcap'\<rparr>, True))
      else (b, True))"

text \<open>\<open>data\<close> is what the caller stores in the bytes \<open>cbb_buffer_add\<close> hands out.\<close>

definition cbb_buffer_add :: "cbb_buffer \<Rightarrow> bytes \<Rightarrow> cbb_buffer \<times> bool" where
  "cbb_buffer_add b data =
     (case cbb_buffer_reserve b (of_nat (length data)) of
        (b', False) \<Rightarrow> (b', False)
      | (b', True) \<Rightarrow> (b'\<lparr>buf := buf b' @ data\<rparr>, True))"

text \<open>The loops that store an integer from its last byte back; what is left of it is returned.\<close>

fun store_be :: "bytes \<Rightarrow> nat \<Rightarrow> nat \<Rightarrow> u64 \<Rightarrow> bytes \<times> u64" where
  "store_be dest off 0 v = (dest, v)"
| "store_be dest off (Suc i) v = store_be (dest[off + i := ucast v]) off i (drop_bit 8 v)"

definition cbb_buffer_add_u :: "cbb_buffer \<Rightarrow> u64 \<Rightarrow> nat \<Rightarrow> cbb_buffer \<times> bool" where
  "cbb_buffer_add_u b v len_len =
     (if len_len = 0 then (b, True)
      else (case cbb_buffer_add b (replicate len_len 0) of
              (b', False) \<Rightarrow> (b', False)
            | (b', True) \<Rightarrow>
                (case store_be (buf b') (length (buf b)) len_len v of
                   (bs, v') \<Rightarrow>
                     if v' \<noteq> 0 then (b'\<lparr>buf := bs, error := True\<rparr>, False)
                     else (b'\<lparr>buf := bs\<rparr>, True))))"

subsection \<open>Flushing\<close>

definition memmove :: "bytes \<Rightarrow> nat \<Rightarrow> nat \<Rightarrow> nat \<Rightarrow> bytes" where
  "memmove mem dst src n = take dst mem @ take n (drop src mem) @ drop (dst + n) mem"

text \<open>
  The part of \<open>CBB_flush\<close> behind the recursive call: the length of the child is known and its
  prefix is written.
\<close>

definition cbb_write_length :: "cbb_buffer \<Rightarrow> nat \<Rightarrow> nat \<Rightarrow> u64 \<Rightarrow> cbb_buffer \<times> bool" where
  "cbb_write_length b off n len =
     (case store_be (buf b) off n len of
        (bs, len') \<Rightarrow>
          if len' \<noteq> 0 then (b\<lparr>buf := bs, error := True\<rparr>, False) else (b\<lparr>buf := bs\<rparr>, True))"

definition asn1_length_form :: "u64 \<Rightarrow> (nat \<times> u8 \<times> u64) option" where
  "asn1_length_form len =
     (if 0xFFFFFFFE < len then None
      else if 0xFFFFFF < len then Some (5, 0x80 OR 4, len)
      else if 0xFFFF < len then Some (4, 0x80 OR 3, len)
      else if 0xFF < len then Some (3, 0x80 OR 2, len)
      else if 0x7F < len then Some (2, 0x80 OR 1, len)
      else Some (1, ucast len, 0))"

definition cbb_close_child :: "cbb_buffer \<Rightarrow> cbb_child \<Rightarrow> cbb_buffer \<times> bool" where
  "cbb_close_child b child =
     (let child_start = offset child + ucast (pending_len_len child);
          len = buf_len b - child_start
      in if child_start < offset child \<or> buf_len b < child_start then (b\<lparr>error := True\<rparr>, False)
         else if pending_is_asn1 child then
           (case asn1_length_form len of
              None \<Rightarrow> (b\<lparr>error := True\<rparr>, False)
            | Some (len_len, initial_length_byte, len') \<Rightarrow>
                let extra_bytes = len_len - 1 in
                (case (if len_len = 1 then (b, True) else cbb_buffer_add b (replicate extra_bytes 0)) of
                   (b', False) \<Rightarrow> (b'\<lparr>error := True\<rparr>, False)
                 | (b', True) \<Rightarrow>
                     let moved = (if len_len = 1 then buf b'
                                  else memmove (buf b') (unat child_start + extra_bytes)
                                         (unat child_start) (unat len'));
                         bs = moved[unat (offset child) := initial_length_byte]
                     in cbb_write_length (b'\<lparr>buf := bs\<rparr>) (unat (offset child) + 1) extra_bytes len'))
         else cbb_write_length b (unat (offset child)) (unat (pending_len_len child)) len)"

text \<open>
  \<open>CBB_flush\<close> of the \<open>CBB\<close> above the given chain of children: the buffer, the children
  still attached and the return value.
\<close>

fun cbb_flush_chain :: "cbb_buffer \<Rightarrow> cbb_child list \<Rightarrow> cbb_buffer \<times> cbb_child list \<times> bool" where
  "cbb_flush_chain b [] = (b, [], \<not> error b)"
| "cbb_flush_chain b (child # children) =
     (if error b then (b, child # children, False)
      else if pending_len_len child = 0 then (b, child # children, True)
      else (case cbb_flush_chain b children of
              (b', children', False) \<Rightarrow> (b'\<lparr>error := True\<rparr>, child # children', False)
            | (b', children', True) \<Rightarrow>
                (case cbb_close_child b' child of
                   (b'', False) \<Rightarrow> (b'', child # children', False)
                 | (b'', True) \<Rightarrow> (b'', [], True))))"

definition CBB_flush :: "nat \<Rightarrow> cbb_op" where
  "CBB_flush d cbb =
     (case base cbb of
        None \<Rightarrow> (cbb, False)
      | Some b \<Rightarrow>
          if length (frames cbb) < d then (cbb, False)
          else (case cbb_flush_chain b (drop d (frames cbb)) of
                  (b', fs, ok) \<Rightarrow> (cbb\<lparr>base := Some b', frames := take d (frames cbb) @ fs\<rparr>, ok)))"

text \<open>What most operations do: flush, then work on the buffer.\<close>

definition cbb_flush_then :: "nat \<Rightarrow> (cbb_buffer \<Rightarrow> cbb_buffer \<times> bool) \<Rightarrow> cbb_op" where
  "cbb_flush_then d f cbb =
     (case CBB_flush d cbb of
        (c, False) \<Rightarrow> (c, False)
      | (c, True) \<Rightarrow>
          (case base c of
             None \<Rightarrow> (c, False)
           | Some b \<Rightarrow> (case f b of (b', ok) \<Rightarrow> (c\<lparr>base := Some b'\<rparr>, ok))))"

subsection \<open>Adding data\<close>

definition CBB_add_bytes :: "nat \<Rightarrow> bytes \<Rightarrow> cbb_op" where
  "CBB_add_bytes d data = cbb_flush_then d (\<lambda>b. cbb_buffer_add b data)"

definition CBB_add_space :: "nat \<Rightarrow> bytes \<Rightarrow> cbb_op" where
  "CBB_add_space d data = cbb_flush_then d (\<lambda>b. cbb_buffer_add b data)"

definition CBB_reserve :: "nat \<Rightarrow> u64 \<Rightarrow> cbb_op" where
  "CBB_reserve d len = cbb_flush_then d (\<lambda>b. cbb_buffer_reserve b len)"

text \<open>\<open>data\<close> are the bytes the caller has stored behind the contents.\<close>

definition CBB_did_write :: "nat \<Rightarrow> bytes \<Rightarrow> cbb_op" where
  "CBB_did_write d data cbb =
     (case base cbb of
        None \<Rightarrow> (cbb, False)
      | Some b \<Rightarrow>
          let newlen = buf_len b + of_nat (length data)
          in if d \<noteq> length (frames cbb) \<or> newlen < buf_len b \<or> cap b < newlen then (cbb, False)
             else (cbb\<lparr>base := Some (b\<lparr>buf := buf b @ data\<rparr>)\<rparr>, True))"

definition CBB_add_u8 :: "nat \<Rightarrow> u8 \<Rightarrow> cbb_op" where
  "CBB_add_u8 d v = cbb_flush_then d (\<lambda>b. cbb_buffer_add_u b (ucast v) 1)"

definition CBB_add_u16 :: "nat \<Rightarrow> u16 \<Rightarrow> cbb_op" where
  "CBB_add_u16 d v = cbb_flush_then d (\<lambda>b. cbb_buffer_add_u b (ucast v) 2)"

definition CBB_add_u16le :: "nat \<Rightarrow> u16 \<Rightarrow> cbb_op" where
  "CBB_add_u16le d v = CBB_add_u16 d (CRYPTO_bswap2 v)"

definition CBB_add_u24 :: "nat \<Rightarrow> u32 \<Rightarrow> cbb_op" where
  "CBB_add_u24 d v = cbb_flush_then d (\<lambda>b. cbb_buffer_add_u b (ucast v) 3)"

definition CBB_add_u32 :: "nat \<Rightarrow> u32 \<Rightarrow> cbb_op" where
  "CBB_add_u32 d v = cbb_flush_then d (\<lambda>b. cbb_buffer_add_u b (ucast v) 4)"

definition CBB_add_u32le :: "nat \<Rightarrow> u32 \<Rightarrow> cbb_op" where
  "CBB_add_u32le d v = CBB_add_u32 d (CRYPTO_bswap4 v)"

definition CBB_add_u64 :: "nat \<Rightarrow> u64 \<Rightarrow> cbb_op" where
  "CBB_add_u64 d v = cbb_flush_then d (\<lambda>b. cbb_buffer_add_u b v 8)"

definition CBB_add_u64le :: "nat \<Rightarrow> u64 \<Rightarrow> cbb_op" where
  "CBB_add_u64le d v = CBB_add_u64 d (CRYPTO_bswap8 v)"

subsection \<open>Children\<close>

text \<open>Opening a child of the \<open>CBB\<close> at depth \<open>d\<close>: the new child has depth \<open>d + 1\<close>.\<close>

definition cbb_open_child :: "nat \<Rightarrow> cbb_child \<Rightarrow> cbb \<Rightarrow> cbb" where
  "cbb_open_child d child cbb = cbb\<lparr>frames := take d (frames cbb) @ [child]\<rparr>"

definition cbb_len :: "cbb \<Rightarrow> u64" where
  "cbb_len cbb = (case base cbb of None \<Rightarrow> 0 | Some b \<Rightarrow> buf_len b)"

definition cbb_add_length_prefixed :: "nat \<Rightarrow> u8 \<Rightarrow> cbb_op" where
  "cbb_add_length_prefixed d len_len cbb =
     (case CBB_flush d cbb of
        (c, False) \<Rightarrow> (c, False)
      | (c, True) \<Rightarrow>
          (case base c of
             None \<Rightarrow> (c, False)
           | Some b \<Rightarrow>
               (case cbb_buffer_add b (replicate (unat len_len) 0) of
                  (b', False) \<Rightarrow> (c\<lparr>base := Some b'\<rparr>, False)
                | (b', True) \<Rightarrow>
                    (cbb_open_child d
                       \<lparr>offset = buf_len b, pending_len_len = len_len, pending_is_asn1 = False\<rparr>
                       (c\<lparr>base := Some b'\<rparr>), True))))"

definition CBB_add_u8_length_prefixed :: "nat \<Rightarrow> cbb_op" where
  "CBB_add_u8_length_prefixed d = cbb_add_length_prefixed d 1"

definition CBB_add_u16_length_prefixed :: "nat \<Rightarrow> cbb_op" where
  "CBB_add_u16_length_prefixed d = cbb_add_length_prefixed d 2"

definition CBB_add_u24_length_prefixed :: "nat \<Rightarrow> cbb_op" where
  "CBB_add_u24_length_prefixed d = cbb_add_length_prefixed d 3"

definition CBB_discard_child :: "nat \<Rightarrow> cbb \<Rightarrow> cbb" where
  "CBB_discard_child d cbb =
     (case base cbb of
        None \<Rightarrow> cbb
      | Some b \<Rightarrow>
          if d < length (frames cbb)
          then cbb\<lparr>base := Some (b\<lparr>buf := take (unat (offset (frames cbb ! d))) (buf b)\<rparr>),
                    frames := take d (frames cbb)\<rparr>
          else cbb)"

text \<open>\<open>CBB_data\<close> and \<open>CBB_len\<close> of the innermost \<open>CBB\<close>, as a byte string.\<close>

definition CBB_contents :: "nat \<Rightarrow> cbb \<Rightarrow> bytes" where
  "CBB_contents d cbb =
     (case base cbb of
        None \<Rightarrow> []
      | Some b \<Rightarrow>
          if d = 0 then buf b
          else drop (unat (offset (frames cbb ! (d - 1)) + ucast (pending_len_len (frames cbb ! (d - 1)))))
                 (buf b))"

text \<open>\<open>CBB_finish\<close> of the top level; \<open>want\<close> says whether both out-parameters are given.\<close>

definition CBB_finish :: "bool \<Rightarrow> cbb \<Rightarrow> cbb \<times> bytes option" where
  "CBB_finish want cbb =
     (case CBB_flush 0 cbb of
        (c, False) \<Rightarrow> (c, None)
      | (c, True) \<Rightarrow>
          (case base c of
             None \<Rightarrow> (c, None)
           | Some b \<Rightarrow>
               if can_resize b \<and> \<not> want then (c, None)
               else (CBB_cleanup c, Some (buf b))))"

end
