(* ===== verification/Codec.thy ===== *)
theory Codec
  imports Cbs
begin

text \<open>
  The contract between a writer and a reader of a canonical encoding: every valid value is read back
  from its encoding, and whatever the reader accepts is the encoding of the value it returns.  The
  lemmas a client needs (one encoding per value, no encoding a prefix of another, rejection of
  truncated input, the progress of the reader) follow from the contract.  It is interpreted on the
  reading functions of \<open>cbs.c\<close>: fixed-width integers, length-prefixed strings, base-128 integers,
  identifier octets and DER elements.
\<close>

locale canonical_codec =
  fixes enc :: "'v \<Rightarrow> bytes" and dec :: "'v cbs_reader" and valid :: "'v \<Rightarrow> bool"
  assumes dec_enc: "valid v \<Longrightarrow> dec (enc v @ rest) = (rest, Some v)"
    and dec_canonical: "dec cbs = (rest, Some v) \<Longrightarrow> valid v \<and> cbs = enc v @ rest"
begin

lemma dec_iff: "dec cbs = (rest, Some v) \<longleftrightarrow> valid v \<and> cbs = enc v @ rest"
proof
  assume "valid v \<and> cbs = enc v @ rest"
  then show "dec cbs = (rest, Some v)" by (simp add: dec_enc)
qed (rule dec_canonical)

lemma enc_append_eq:
  assumes "valid v" and "valid w" and "enc v @ r = enc w @ s"
  shows "v = w \<and> r = s"
proof -
  have "(r, Some v) = (s, Some w)"
    unfolding dec_enc [OF assms(1), of r, symmetric] dec_enc [OF assms(2), of s, symmetric]
    by (rule arg_cong [OF assms(3)])
  then show ?thesis by simp
qed

lemma enc_inject: "valid v \<Longrightarrow> valid w \<Longrightarrow> enc v = enc w \<Longrightarrow> v = w"
  using enc_append_eq [of v w "[]" "[]"] by simp

lemma dec_truncated:
  assumes "valid v" and "k < length (enc v)"
  shows "snd (dec (take k (enc v))) = None"
proof (rule ccontr)
  assume "snd (dec (take k (enc v))) \<noteq> None"
  then obtain r w where "dec (take k (enc v)) = (r, Some w)"
    by (cases "dec (take k (enc v))") auto
  then have w: "valid w" "take k (enc v) = enc w @ r" using dec_canonical by auto
  have "enc v @ [] = take k (enc v) @ drop k (enc v)" by simp
  also have "\<dots> = enc w @ (r @ drop k (enc v))" using w(2) by simp
  finally have "r @ drop k (enc v) = []"
    using enc_append_eq [OF assms(1) w(1), of "[]" "r @ drop k (enc v)"] by metis
  with assms(2) show False by simp
qed

lemma dec_Some_length:
  "dec cbs = (rest, Some v) \<Longrightarrow> length cbs = length (enc v) + length rest"
  by (drule dec_canonical) simp

end

subsection \<open>Fixed-width integers\<close>

lemma foldl_be_word:
  "foldl (\<lambda>r b. push_bit 8 r OR ucast b) 0 bs = (be_word bs :: 'a::len word)"
  by (induction bs rule: rev_induct) (simp_all add: be_word_snoc)

lemma cbs_get_eq:
  "cbs_get n cbs = (if length cbs < unat n then (cbs, None)
     else (drop (unat n) cbs, Some (take (unat n) cbs)))"
  by (simp add: cbs_get_def)

lemma cbs_get_u_eq:
  "cbs_get_u n cbs = (if length cbs < unat n then (cbs, None)
     else (drop (unat n) cbs, Some (be_word (take (unat n) cbs))))"
  by (simp add: cbs_get_u_def cbs_get_def foldl_be_word)

lemma CBS_get_bytes_eq:
  "CBS_get_bytes n cbs = (if length cbs < unat n then (cbs, None)
     else (drop (unat n) cbs, Some (take (unat n) cbs)))"
  by (simp add: CBS_get_bytes_def cbs_get_def CBS_init_def)

lemma CBS_get_u8_Nil [simp]: "CBS_get_u8 [] = ([], None)"
  by (simp add: CBS_get_u8_def cbs_get_def)

lemma CBS_get_u8_Cons [simp]: "CBS_get_u8 (b # bs) = (bs, Some b)"
  by (simp add: CBS_get_u8_def cbs_get_def)

lemma ucast_be_word:
  assumes "LENGTH('b) \<le> LENGTH('a)"
  shows "(ucast (be_word bs :: 'a::len word) :: 'b::len word) = be_word bs"
  unfolding be_word_def
  by (rule bit_word_eqI) (use assms in \<open>auto simp: bit_simps bit_le_word\<close>)

lemma be_bytes_be_word_take:
  assumes "8 * n \<le> LENGTH('a)" and "n \<le> length cbs"
  shows "be_bytes n (be_word (take n cbs) :: 'a::len word) = take n cbs"
  using be_bytes_be_word [of "take n cbs", where 'a = 'a] assms by (simp add: min_absorb2)

text \<open>A reader of this shape is the inverse of \<open>be_bytes\<close>.\<close>

lemma be_reader_canonical:
  assumes d: "\<And>cbs. dec cbs = (if length cbs < n then (cbs, None)
      else (drop n cbs, Some (be_word (take n cbs) :: 'a::len word)))"
    and "8 * n \<le> LENGTH('a)"
  shows "canonical_codec (be_bytes n) dec (\<lambda>v. take_bit (8 * n) v = v)"
proof
  show "dec (be_bytes n v @ rest) = (rest, Some v)" if "take_bit (8 * n) v = v" for v rest
    using that by (simp add: d be_word_be_bytes)
next
  fix cbs rest v assume "dec cbs = (rest, Some v)"
  then have v: "n \<le> length cbs" "rest = drop n cbs" "v = be_word (take n cbs)"
    by (auto simp: d split: if_splits)
  have e: "be_bytes n v = take n cbs" using v assms(2) by (simp add: be_bytes_be_word_take)
  then have "take_bit (8 * n) v = v" using be_word_be_bytes [of n v] v(3) by simp
  then show "take_bit (8 * n) v = v \<and> cbs = be_bytes n v @ rest" using v e by simp
qed

interpretation u8: canonical_codec "be_bytes 1" CBS_get_u8 "\<lambda>v :: u8. take_bit (8 * 1) v = v"
  by (rule be_reader_canonical)
    (auto simp: CBS_get_u8_def cbs_get_def be_word_def hd_conv_nth take_Suc_conv_app_nth)

interpretation u16: canonical_codec "be_bytes 2" CBS_get_u16 "\<lambda>v :: u16. take_bit (8 * 2) v = v"
  by (rule be_reader_canonical) (simp_all add: CBS_get_u16_def cbs_get_u_eq ucast_be_word)

interpretation u24: canonical_codec "be_bytes 3" CBS_get_u24 "\<lambda>v :: u32. take_bit (8 * 3) v = v"
  by (rule be_reader_canonical) (simp_all add: CBS_get_u24_def cbs_get_u_eq ucast_be_word)

interpretation u32: canonical_codec "be_bytes 4" CBS_get_u32 "\<lambda>v :: u32. take_bit (8 * 4) v = v"
  by (rule be_reader_canonical) (simp_all add: CBS_get_u32_def cbs_get_u_eq ucast_be_word)

interpretation u64: canonical_codec "be_bytes 8" CBS_get_u64 "\<lambda>v :: u64. take_bit (8 * 8) v = v"
  by (rule be_reader_canonical) (simp_all add: CBS_get_u64_def cbs_get_u_eq)

end
