(* ===== verification/Der.thy ===== *)
theory Der
  imports Codec
begin

text \<open>
  The reference encodings of ASN.1 (DER identifier octets, length octets and elements, base-128
  integers, little-endian and length-prefixed fields) and the proof that the readers of
  \<open>cbs.c\<close> are canonical for them.
\<close>

subsection \<open>Little-endian integers and length-prefixed strings\<close>

lemma bit_u8_less: "bit (b :: u8) n \<Longrightarrow> n < 8"
  by (auto dest: bit_imp_le_length)

lemma CRYPTO_bswap2_be_word: "length bs = 2 \<Longrightarrow> CRYPTO_bswap2 (be_word bs) = le_word bs"
proof -
  assume "length bs = 2"
  then obtain a b where bs: "bs = [a, b]" by (auto simp: length_Suc_conv numeral_eq_Suc)
  show ?thesis
  proof (rule bit_word_eqI)
    fix n :: nat assume "n < LENGTH(16)"
    then have n: "n < 8 \<or> 8 \<le> n \<and> n < 16" by auto
    show "bit (CRYPTO_bswap2 (be_word bs)) n = bit (le_word bs :: u16) n"
      using n unfolding CRYPTO_bswap2_def be_word_def bs
      by (elim disjE) (auto simp add: bit_simps not_le dest: bit_u8_less)
  qed
qed

lemma CRYPTO_bswap4_be_word:
  assumes "length bs = 4" shows "CRYPTO_bswap4 (be_word bs) = le_word bs"
proof -
  obtain a b c d where bs: "bs = [a, b, c, d]"
    using assms by (auto simp: length_Suc_conv numeral_eq_Suc)
  have m: "(0xff00ff00 :: u32) = push_bit 8 (mask 8) OR push_bit 24 (mask 8)"
    "(0x00ff00ff :: u32) = mask 8 OR push_bit 16 (mask 8)"
    by (simp_all add: mask_eq_exp_minus_1)
  show ?thesis
  proof (rule bit_word_eqI)
    fix n :: nat assume "n < LENGTH(32)"
    then have n: "n < 8 \<or> 8 \<le> n \<and> n < 16 \<or> 16 \<le> n \<and> n < 24 \<or> 24 \<le> n \<and> n < 32" by auto
    show "bit (CRYPTO_bswap4 (be_word bs)) n = bit (le_word bs :: u32) n"
      using n unfolding CRYPTO_bswap4_def be_word_def bs Let_def m
      by (elim disjE) (auto simp add: bit_simps not_le not_less dest: bit_u8_less)
  qed
qed

lemma CRYPTO_bswap8_be_word:
  assumes "length bs = 8" shows "CRYPTO_bswap8 (be_word bs) = le_word bs"
proof -
  obtain xs ys where bs: "bs = xs @ ys" "length xs = 4" "length ys = 4"
    using assms by (metis append_take_drop_id length_take length_drop diff_add_inverse2 min_absorb2
        numeral_Bit0 le_add1)
  have hi: "(ucast (drop_bit 32 (be_word bs :: u64)) :: u32) = be_word xs"
  proof (rule bit_word_eqI)
    fix n :: nat assume "n < LENGTH(32)"
    then have "(32 + n) div 8 = 4 + n div 8" "(32 + n) mod 8 = n mod 8" "n div 8 < 4"
      by (presburger, presburger, simp add: div_less_iff_less_mult)
    then show "bit (ucast (drop_bit 32 (be_word bs :: u64)) :: u32) n = bit (be_word xs :: u32) n"
      using bs \<open>n < LENGTH(32)\<close> by (simp add: be_word_def bit_simps bit_le_word nth_append)
  qed
  have lo: "(ucast (be_word bs :: u64) :: u32) = be_word ys"
  proof (rule bit_word_eqI)
    fix n :: nat assume "n < LENGTH(32)"
    then have "n div 8 < 4" by auto
    then show "bit (ucast (be_word bs :: u64) :: u32) n = bit (be_word ys :: u32) n"
      using bs \<open>n < LENGTH(32)\<close> by (simp add: be_word_def bit_simps bit_le_word nth_append)
  qed
  have "ucast (le_word xs :: u32) OR push_bit 32 (ucast (le_word ys :: u32)) = (le_word bs :: u64)"
  proof (rule bit_word_eqI)
    fix n :: nat assume n: "n < LENGTH(64)"
    show "bit (ucast (le_word xs :: u32) OR push_bit 32 (ucast (le_word ys :: u32)) :: u64) n =
        bit (le_word bs :: u64) n"
    proof (cases "n < 32")
      case True
      then show ?thesis using bs by (auto simp: bit_simps bit_le_word nth_append)
    next
      case False
      then obtain m where "n = m + 32" by (metis add.commute le_Suc_ex not_le)
      then have "n div 8 = 4 + m div 8" "n mod 8 = m mod 8" by presburger+
      then show ?thesis using bs n \<open>n = m + 32\<close>
        by (auto simp: bit_simps bit_le_word nth_append)
    qed
  qed
  then show ?thesis using hi lo bs
    by (simp add: CRYPTO_bswap8_def CRYPTO_bswap4_be_word)
qed

lemma le_reader_canonical:
  assumes d: "\<And>cbs. dec cbs = (if length cbs < n then (cbs, None)
      else (drop n cbs, Some (le_word (take n cbs) :: 'a::len word)))"
    and "8 * n = LENGTH('a)"
  shows "canonical_codec (le_bytes n) dec (\<lambda>v. True)"
proof
  show "dec (le_bytes n v @ rest) = (rest, Some v)" for v rest
    using assms(2) by (simp add: d le_word_le_bytes)
next
  fix cbs rest v assume "dec cbs = (rest, Some v)"
  then have v: "n \<le> length cbs" "rest = drop n cbs" "v = le_word (take n cbs)"
    by (auto simp: d split: if_splits)
  then show "True \<and> cbs = le_bytes n v @ rest"
    using le_bytes_le_word [of "take n cbs", where 'a = 'a] assms(2) by (simp add: min_absorb2)
qed

interpretation u16le: canonical_codec "le_bytes 2" CBS_get_u16le "\<lambda>_. True"
  by (rule le_reader_canonical)
    (simp_all add: CBS_get_u16le_def CBS_get_u16_def cbs_get_u_eq ucast_be_word CRYPTO_bswap2_be_word
      min_absorb2)

interpretation u32le: canonical_codec "le_bytes 4" CBS_get_u32le "\<lambda>_. True"
  by (rule le_reader_canonical)
    (simp_all add: CBS_get_u32le_def CBS_get_u32_def cbs_get_u_eq ucast_be_word CRYPTO_bswap4_be_word
      min_absorb2)

interpretation u64le: canonical_codec "le_bytes 8" CBS_get_u64le "\<lambda>_. True"
  by (rule le_reader_canonical)
    (simp_all add: CBS_get_u64le_def cbs_get_u_eq CRYPTO_bswap8_be_word min_absorb2)

text \<open>The prefix of \<open>k\<close> bytes holds the length of the string behind it.\<close>

definition length_prefixed :: "nat \<Rightarrow> bytes \<Rightarrow> bytes" where
  "length_prefixed k bs = be_bytes k (of_nat (length bs) :: u64) @ bs"

lemma unat_be_word_less:
  assumes "8 * length bs \<le> LENGTH('a)"
  shows "unat (be_word bs :: 'a::len word) < 2 ^ (8 * length bs)"
proof (rule unat_less_expI)
  fix n assume "bit (be_word bs :: 'a word) n"
  then have "n div 8 < length bs" by (simp add: be_word_def bit_le_word)
  then show "n < 8 * length bs" by (simp add: div_less_iff_less_mult mult.commute)
qed

lemma length_prefixed_canonical:
  assumes k: "unat k \<le> 7"
  shows "canonical_codec (length_prefixed (unat k)) (cbs_get_length_prefixed k)
    (\<lambda>bs. length bs < 2 ^ (8 * unat k))"
proof
  fix v rest :: bytes assume v: "length v < 2 ^ (8 * unat k)"
  also have "(2::nat) ^ (8 * unat k) \<le> 2 ^ 56" using k by (intro power_increasing) auto
  finally have "length v < 2 ^ 64" by simp
  then have n: "unat (of_nat (length v) :: u64) = length v" by (simp add: unat_of_nat)
  have "take_bit (8 * unat k) (of_nat (length v) :: u64) = of_nat (length v)"
    using v n by (simp add: word_unat_eq_iff unsigned_take_bit_eq take_bit_nat_eq_self)
  then have "be_word (be_bytes (unat k) (of_nat (length v) :: u64)) = (of_nat (length v) :: u64)"
    by (simp add: be_word_be_bytes)
  then show "cbs_get_length_prefixed k (length_prefixed (unat k) v @ rest) = (rest, Some v)"
    using n by (simp add: cbs_get_length_prefixed_def cbs_get_u_eq length_prefixed_def CBS_get_bytes_eq)
next
  fix cbs rest v assume d: "cbs_get_length_prefixed k cbs = (rest, Some v)"
  let ?n = "be_word (take (unat k) cbs) :: u64"
  have len: "unat k \<le> length cbs" using d
    by (auto simp: cbs_get_length_prefixed_def cbs_get_u_eq split: if_splits)
  have v: "v = take (unat ?n) (drop (unat k) cbs)" "rest = drop (unat ?n) (drop (unat k) cbs)"
    "unat ?n \<le> length (drop (unat k) cbs)"
    using d len by (auto simp: cbs_get_length_prefixed_def cbs_get_u_eq CBS_get_bytes_eq split: if_splits)
  then have lv: "length v = unat ?n" by simp
  have "unat ?n < 2 ^ (8 * unat k)"
    using unat_be_word_less [of "take (unat k) cbs", where 'a = 64] k len by (simp add: min_absorb2)
  moreover have "be_bytes (unat k) ?n = take (unat k) cbs"
    using k len by (simp add: be_bytes_be_word_take)
  moreover have "(of_nat (length v) :: u64) = ?n" using lv by simp
  moreover have "cbs = take (unat k) cbs @ v @ rest"
    using v by (simp del: drop_drop)
  ultimately show "length v < 2 ^ (8 * unat k) \<and> cbs = length_prefixed (unat k) v @ rest"
    using lv by (simp add: length_prefixed_def)
qed

interpretation u8_prefixed: canonical_codec "length_prefixed 1" CBS_get_u8_length_prefixed
    "\<lambda>bs. length bs < 2 ^ (8 * 1)"
  using length_prefixed_canonical [of 1] by (simp add: CBS_get_u8_length_prefixed_def [abs_def])

interpretation u16_prefixed: canonical_codec "length_prefixed 2" CBS_get_u16_length_prefixed
    "\<lambda>bs. length bs < 2 ^ (8 * 2)"
  using length_prefixed_canonical [of 2] by (simp add: CBS_get_u16_length_prefixed_def [abs_def])

interpretation u24_prefixed: canonical_codec "length_prefixed 3" CBS_get_u24_length_prefixed
    "\<lambda>bs. length bs < 2 ^ (8 * 3)"
  using length_prefixed_canonical [of 3] by (simp add: CBS_get_u24_length_prefixed_def [abs_def])

subsection \<open>Base-128 integers\<close>

text \<open>Groups of seven bits, the most significant first; \<open>base128_more\<close> are the groups with the
  continuation bit.\<close>

function base128_more :: "u64 \<Rightarrow> bytes" where
  "base128_more v =
     (if v = 0 then [] else base128_more (drop_bit 7 v) @ [ucast (v AND 0x7F) OR 0x80])"
  by pat_completeness auto
termination
  by (relation "measure unat") (auto intro: drop_bit_lt_self)

declare base128_more.simps [simp del]

definition base128 :: "u64 \<Rightarrow> bytes" where
  "base128 v = base128_more (drop_bit 7 v) @ [ucast (v AND 0x7F)]"

lemma drop_bit_57_7: "drop_bit 57 (drop_bit 7 (v :: u64)) = 0"
  by (rule bit_word_eqI) (auto simp: bit_simps dest: bit_imp_le_length)

lemma base128_join: "push_bit 7 (drop_bit 7 v) OR (v AND 0x7F) = (v :: u64)"
  by (rule bit_word_eqI)
    (auto simp: bit_simps mask_numerals simp del: bit_numeral_word_iff)

lemma base128_digit:
  "ucast ((ucast (v AND 0x7F) OR 0x80 :: u8) AND 0x7F) = (v :: u64) AND 0x7F"
  "ucast ((ucast (v AND 0x7F) :: u8) AND 0x7F) = (v :: u64) AND 0x7F"
  by (rule bit_word_eqI,
      auto simp: bit_simps mask_numerals bit_0x80_iff simp del: bit_numeral_word_iff)+

lemma base128_digit_top:
  "bit (ucast (v AND 0x7F) OR 0x80 :: u8) 7" "\<not> bit (ucast ((v :: u64) AND 0x7F) :: u8) 7"
  by (auto simp: bit_simps mask_numerals bit_0x80_iff simp del: bit_numeral_word_iff)

lemma base128_first_group:
  assumes "drop_bit 7 (v :: u64) = 0" and "v \<noteq> 0"
  shows "(ucast (v AND 0x7F) OR 0x80 :: u8) \<noteq> 0x80"
proof
  assume "(ucast (v AND 0x7F) OR 0x80 :: u8) = 0x80"
  then have "v AND 0x7F = 0" using base128_digit(1) [of v] by simp
  then show False using base128_join [of v] assms by simp
qed

lemma base128_loop_more:
  "base128_loop 0 (base128_more v @ bs) = base128_loop v bs"
proof (induction v arbitrary: bs rule: base128_more.induct)
  case (1 v)
  show ?case
  proof (cases "v = 0")
    case True
    then show ?thesis by (simp add: base128_more.simps)
  next
    case False
    then have "\<not> (drop_bit 7 v = 0 \<and> (ucast (v AND 0x7F) OR 0x80 :: u8) = 0x80)"
      using base128_first_group by blast
    then show ?thesis
      using "1.IH" [OF False, of "(ucast (v AND 0x7F) OR 0x80) # bs"] False
      by (simp only: base128_more.simps [of v] base128_loop.simps append_assoc append.simps if_False)
        (simp add: base128_more.simps [of v] drop_bit_57_7 and_0x80_eq_0_iff base128_digit_top
          base128_digit base128_join del: push_bit_and drop_bit_drop_bit)
  qed
qed

lemma base128_loop_last:
  "base128_loop (drop_bit 7 v) (ucast (v AND 0x7F) # rest) = (rest, Some v)"
proof -
  have "(ucast (v AND 0x7F) :: u8) \<noteq> 0x80"
  proof
    assume "(ucast (v AND 0x7F) :: u8) = 0x80"
    then show False using base128_digit_top(2) [of v] by (simp add: bit_0x80_iff del: bit_numeral_word_iff)
  qed
  then show ?thesis
    by (simp add: drop_bit_57_7 and_0x80_eq_0_iff base128_digit_top base128_digit base128_join
        del: push_bit_and drop_bit_drop_bit)
qed

lemma base128_step:
  assumes "drop_bit 57 (u :: u64) = 0"
  shows "drop_bit 7 (push_bit 7 u OR ucast (b AND 0x7F :: u8)) = u"
    and "(push_bit 7 u OR ucast (b AND 0x7F :: u8)) AND 0x7F = (ucast (b AND 0x7F) :: u64)"
proof -
  have top: "n < 57" if "bit u n" for n
  proof (rule ccontr)
    assume "\<not> n < 57"
    then have "bit (drop_bit 57 u) (n - 57)" using that by (simp add: bit_drop_bit_eq)
    with assms show False by simp
  qed
  show "drop_bit 7 (push_bit 7 u OR ucast (b AND 0x7F :: u8)) = u"
    by (rule bit_word_eqI)
      (auto simp: bit_simps mask_numerals simp del: bit_numeral_word_iff dest: top)
  show "(push_bit 7 u OR ucast (b AND 0x7F :: u8)) AND 0x7F = (ucast (b AND 0x7F) :: u64)"
    by (rule bit_word_eqI)
      (auto simp: bit_simps mask_numerals simp del: bit_numeral_word_iff)
qed

lemma base128_byte:
  "bit b 7 \<Longrightarrow> ucast (ucast (b AND 0x7F :: u8) :: u64) OR 0x80 = b"
  "\<not> bit b 7 \<Longrightarrow> ucast (ucast (b AND 0x7F :: u8) :: u64) = b"
proof -
  have 7: "n < 7 \<or> n = 7" if "n < LENGTH(8)" for n :: nat using that by auto
  show "ucast (ucast (b AND 0x7F :: u8) :: u64) OR 0x80 = b" if "bit b 7"
    by (rule bit_word_eqI, drule 7, elim disjE)
      (use that in \<open>auto simp: bit_simps mask_numerals bit_0x80_iff simp del: bit_numeral_word_iff\<close>)
  show "ucast (ucast (b AND 0x7F :: u8) :: u64) = b" if "\<not> bit b 7"
    by (rule bit_word_eqI, drule 7, elim disjE)
      (use that in \<open>auto simp: bit_simps mask_numerals simp del: bit_numeral_word_iff\<close>)
qed

lemma base128_loop_canonical:
  "base128_loop u bs = (rest, Some v) \<Longrightarrow> base128_more u @ bs = base128 v @ rest"
proof (induction u bs rule: base128_loop.induct)
  case (2 u b cbs)
  let ?v = "push_bit 7 u OR ucast (b AND 0x7F)"
  have u: "drop_bit 57 u = 0" "\<not> (u = 0 \<and> b = 0x80)"
    using "2.prems" by (auto split: if_splits)
  note step = base128_step [OF u(1), of b]
  show ?case
  proof (cases "bit b 7")
    case True
    have nz: "?v \<noteq> 0"
    proof
      assume z: "?v = 0"
      then have "u = 0" using step(1) by simp
      moreover have "(ucast (b AND 0x7F) :: u64) = 0" using step(2) z by simp
      then have "b = 0x80" using base128_byte(1) [OF True] by simp
      ultimately show False using u(2) by simp
    qed
    have "base128_loop ?v cbs = (rest, Some v)"
      using "2.prems" u True by (simp add: and_0x80_eq_0_iff Let_def)
    then have "base128_more ?v @ cbs = base128 v @ rest"
      using "2.IH" u True by (simp add: and_0x80_eq_0_iff)
    moreover have "base128_more ?v = base128_more u @ [b]"
      using nz base128_more.simps [of ?v] by (simp only: step base128_byte(1) [OF True] if_False)
    ultimately show ?thesis by simp
  next
    case False
    then have v: "v = ?v" "rest = cbs" using "2.prems" u by (auto simp: and_0x80_eq_0_iff Let_def)
    have "base128 ?v = base128_more u @ [b]"
      unfolding base128_def by (simp only: step base128_byte(2) [OF False])
    then show ?thesis using v by simp
  qed
qed simp

interpretation base128: canonical_codec base128 parse_base128_integer "\<lambda>_. True"
proof
  show "parse_base128_integer (base128 v @ rest) = (rest, Some v)" for v rest
    by (simp add: parse_base128_integer_def base128_def base128_loop_more base128_loop_last
        del: base128_loop.simps)
  show "True \<and> cbs = base128 v @ rest" if "parse_base128_integer cbs = (rest, Some v)" for cbs rest v
    using base128_loop_canonical [of 0 cbs rest v] that
    by (simp add: parse_base128_integer_def base128_more.simps [of 0])
qed

lemma length_base128_more: "unat v < 2 ^ (7 * k) \<Longrightarrow> length (base128_more v) \<le> k"
proof (induction k arbitrary: v)
  case 0
  then have "v = 0" by (simp add: unat_eq_0)
  then show ?case by (simp add: base128_more.simps)
next
  case (Suc k)
  have "unat (drop_bit 7 v) < 2 ^ (7 * k)"
    using Suc.prems unfolding unat_drop_bit_div by (simp add: less_mult_imp_div_less power_add)
  with Suc.IH show ?case by (simp add: base128_more.simps [of v])
qed

lemma length_base128: "length (base128 v) \<le> 10"
proof -
  have "unat (drop_bit 7 v) < 2 ^ (7 * 9)"
    using unat_word64_lt [of v] unfolding unat_drop_bit_div by simp
  from length_base128_more [OF this] show ?thesis by (simp add: base128_def)
qed

subsection \<open>Identifier octets\<close>

definition der_tag :: "u32 \<Rightarrow> bytes" where
  "der_tag t =
     (let hi = ucast (drop_bit 24 t) AND 0xE0; num = t AND CBS_ASN1_TAG_NUMBER_MASK
      in if num < 0x1F then [hi OR ucast num] else (hi OR 0x1F) # base128 (ucast num))"

lemma tag_masks:
  "(0xE0 :: 'a::len word) = push_bit 5 (mask 3)" "CBS_ASN1_TAG_NUMBER_MASK = mask 29"
  by (simp_all add: mask_eq_exp_minus_1 CBS_ASN1_TAG_NUMBER_MASK_def)

lemma tag_join:
  assumes "n AND mask 29 = (n :: u32)"
  shows "ucast (drop_bit 24 (push_bit 24 (ucast b AND 0xE0) OR n)) AND 0xE0 = (b :: u8) AND 0xE0"
    and "(push_bit 24 (ucast b AND 0xE0) OR n) AND mask 29 = n"
proof -
  have n: "k < 29" if "bit n k" for k
    using that by (subst (asm) assms [symmetric]) (simp add: bit_simps)
  show "ucast (drop_bit 24 (push_bit 24 (ucast b AND 0xE0) OR n)) AND 0xE0 = b AND 0xE0"
    unfolding tag_masks
    by (rule bit_word_eqI) (auto simp: bit_simps dest: n)
  show "(push_bit 24 (ucast b AND 0xE0) OR n) AND mask 29 = n"
    unfolding tag_masks
    by (rule bit_word_eqI) (auto simp: bit_simps dest: n)
qed

lemma tag_split:
  assumes "\<forall>k. bit x k \<longrightarrow> k < 5"
  shows "push_bit 24 (ucast ((ucast (drop_bit 24 t) AND 0xE0) OR x :: u8) AND 0xE0) OR (t AND mask 29) = (t :: u32)"
    and "((ucast (drop_bit 24 t) AND 0xE0) OR x) AND 0x1F = (x :: u8)"
proof -
  show "((ucast (drop_bit 24 t) AND 0xE0) OR x) AND 0x1F = x"
    unfolding tag_masks mask_numerals
    by (rule bit_word_eqI) (auto simp: bit_simps dest: assms [rule_format])
  show "push_bit 24 (ucast ((ucast (drop_bit 24 t) AND 0xE0) OR x :: u8) AND 0xE0) OR (t AND mask 29) = t"
  proof (rule bit_word_eqI)
    fix k :: nat assume "k < LENGTH(32)"
    then have "k < 29 \<or> 29 \<le> k \<and> k < 32" by auto
    then show "bit (push_bit 24 (ucast ((ucast (drop_bit 24 t) AND 0xE0) OR x :: u8) AND 0xE0) OR
        (t AND mask 29)) k = bit t k"
      unfolding tag_masks by (elim disjE) (auto simp: bit_simps dest: assms [rule_format])
  qed
qed

lemma bit_small8: "n < 0x20 \<Longrightarrow> bit (ucast (n :: u32) :: u8) k \<Longrightarrow> k < 5"
  using bit_less_exp [of n 5 k] by (auto simp: bit_simps word_less_nat_alt)

lemma ucast_small8: "unat (n :: u32) < 32 \<Longrightarrow> ucast (ucast n :: u8) = n"
  by (simp add: word_unat_eq_iff unsigned_ucast_eq unsigned_take_bit_eq take_bit_nat_eq_self)

lemma parse_der_tag: "parse_asn1_tag (der_tag t @ rest) = (rest, Some t)"
proof -
  let ?n = "t AND mask 29"
  let ?hi = "ucast (drop_bit 24 t) AND 0xE0 :: u8"
  show ?thesis
  proof (cases "?n < 0x1F")
    case True
    have small: "\<forall>k. bit (ucast ?n :: u8) k \<longrightarrow> k < 5"
      using bit_small8 [of ?n] True by (auto simp: word_less_nat_alt)
    have "(ucast (ucast ?n :: u8) :: u32) = ?n"
      using True by (intro ucast_small8) (simp add: word_less_nat_alt)
    moreover have "?n \<noteq> 0x1F" using True by auto
    ultimately show ?thesis using True tag_split [OF small, of t]
      by (simp add: der_tag_def tag_masks(2) parse_asn1_tag_def CBS_ASN1_TAG_SHIFT_def Let_def)
  next
    case False
    have big: "\<forall>k. bit (0x1F :: u8) k \<longrightarrow> k < 5"
      by (simp add: mask_numerals bit_simps del: bit_numeral_word_iff)
    have v: "\<not> (ucast (mask 29 :: u32) :: u64) < ucast ?n" "\<not> (ucast ?n :: u64) < 0x1F"
      "(ucast (ucast ?n :: u64) :: u32) = ?n"
    proof -
      have le: "unat ?n \<le> unat (mask 29 :: u32)" by (simp flip: word_le_nat_alt add: word_and_le1)
      show "\<not> (ucast (mask 29 :: u32) :: u64) < ucast ?n" using le
        by (simp add: word_less_nat_alt unsigned_ucast_eq take_bit_nat_eq_self
            unat_word32_lt [THEN order.strict_trans] not_less)
      show "\<not> (ucast ?n :: u64) < 0x1F" using False
        by (simp add: word_less_nat_alt unsigned_ucast_eq take_bit_nat_eq_self
            unat_word32_lt [THEN order.strict_trans])
      show "(ucast (ucast ?n :: u64) :: u32) = ?n" by (rule bit_word_eqI) (auto simp: bit_simps)
    qed
    show ?thesis using False v tag_split [OF big, of t]
      by (simp add: der_tag_def tag_masks(2) parse_asn1_tag_def CBS_ASN1_TAG_SHIFT_def Let_def
          base128.dec_enc)
  qed
qed

lemma parse_der_tag_canonical:
  assumes "parse_asn1_tag cbs = (rest, Some t)"
  shows "cbs = der_tag t @ rest"
proof -
  obtain b cs where cbs: "cbs = b # cs"
    using assms by (cases cbs) (auto simp: parse_asn1_tag_def)
  have hi_lo: "(b AND 0xE0) OR (b AND 0x1F) = b"
    by (rule bit_word_eqI) (auto simp: bit_simps tag_masks mask_numerals simp del: bit_numeral_word_iff)
  have lo: "unat (ucast (b AND 0x1F) :: u32) < 32"
    using unat_less_expI [of "ucast (b AND 0x1F) :: u32" 5]
    by (simp add: mask_numerals bit_simps del: bit_numeral_word_iff)
  show ?thesis
  proof (cases "(ucast (b AND 0x1F) :: u32) = 0x1F")
    case False
    let ?n = "ucast (b AND 0x1F) :: u32"
    have t: "t = push_bit 24 (ucast b AND 0xE0) OR ?n" "rest = cs"
      using assms False by (auto simp: cbs parse_asn1_tag_def CBS_ASN1_TAG_SHIFT_def Let_def)
    have n: "?n AND mask 29 = ?n"
      by (rule bit_word_eqI) (auto simp: bit_simps mask_numerals simp del: bit_numeral_word_iff)
    have "unat ?n \<noteq> 31" using False by (simp add: word_unat_eq_iff)
    then have "?n < 0x1F" using lo by (simp add: word_less_nat_alt)
    moreover have "(ucast ?n :: u8) = b AND 0x1F"
      by (rule bit_word_eqI) (auto simp: bit_simps)
    ultimately show ?thesis
      using tag_join [OF n, of b] t hi_lo by (simp add: der_tag_def tag_masks(2) cbs Let_def)
  next
    case True
    obtain v where v: "parse_base128_integer cs = (rest, Some v)"
        "\<not> ucast CBS_ASN1_TAG_NUMBER_MASK < v" "\<not> v < 0x1F"
        "t = push_bit 24 (ucast b AND 0xE0) OR ucast v"
      using assms True
      by (auto simp: cbs parse_asn1_tag_def CBS_ASN1_TAG_SHIFT_def Let_def
          split: prod.splits option.splits if_splits)
    have vm: "unat v < 2 ^ 29"
      using v(2) by (simp add: word_less_nat_alt not_less CBS_ASN1_TAG_NUMBER_MASK_def)
    then have vb: "bit v k \<Longrightarrow> k < 29" for k by (rule bit_less_exp)
    have n: "(ucast v :: u32) AND mask 29 = ucast v"
      by (rule bit_word_eqI) (auto simp: bit_simps dest: vb)
    have vv: "(ucast (ucast v :: u32) :: u64) = v"
      by (rule bit_word_eqI) (auto simp: bit_simps dest: vb)
    have "unat (ucast v :: u32) = unat v"
      using vm by (simp add: unsigned_ucast_eq take_bit_nat_eq_self)
    then have "\<not> (ucast v :: u32) < 0x1F" using v(3) by (simp add: word_less_nat_alt)
    moreover have "b AND 0x1F = 0x1F"
    proof -
      have "b AND 0x1F = ucast (ucast (b AND 0x1F) :: u32)"
        by (rule bit_word_eqI) (auto simp: bit_simps)
      then show ?thesis by (simp add: True)
    qed
    moreover have "cs = base128 v @ rest" using base128.dec_canonical [OF v(1)] by simp
    ultimately show ?thesis
      using tag_join [OF n, of b] v(4) hi_lo vv by (simp add: der_tag_def tag_masks(2) cbs Let_def)
  qed
qed

interpretation asn1_tag: canonical_codec der_tag parse_asn1_tag "\<lambda>_. True"
  by unfold_locales (simp_all add: parse_der_tag parse_der_tag_canonical)

lemma length_der_tag: "0 < length (der_tag t)" "length (der_tag t) \<le> 11"
  using length_base128 by (auto simp: der_tag_def Let_def)

subsection \<open>Length octets\<close>

definition length_size :: "nat \<Rightarrow> nat" where
  "length_size n = (if n < 2 ^ 8 then 1 else if n < 2 ^ 16 then 2 else if n < 2 ^ 24 then 3 else 4)"

definition der_length :: "nat \<Rightarrow> bytes" where
  "der_length n =
     (if n < 128 then [of_nat n]
      else (0x80 OR of_nat (length_size n)) # be_bytes (length_size n) (of_nat n :: u64))"

definition der_element :: "u32 \<Rightarrow> bytes \<Rightarrow> bytes" where
  "der_element t body = der_tag t @ der_length (length body) @ body"

definition der_header_length :: "u32 \<Rightarrow> nat \<Rightarrow> nat" where
  "der_header_length t n = length (der_tag t) + length (der_length n)"

lemma length_size_bounds:
  "1 \<le> length_size n" "length_size n \<le> 4"
  "n < 2 ^ 32 \<Longrightarrow> n < 2 ^ (8 * length_size n)"
  "128 \<le> n \<Longrightarrow> length_size n = 1 \<or> 2 ^ (8 * (length_size n - 1)) \<le> n"
  by (auto simp: length_size_def)

lemma length_size_unique:
  assumes "2 ^ (8 * (k - 1)) \<le> n" and "n < 2 ^ (8 * k)" and "1 \<le> k" and "k \<le> 4"
  shows "length_size n = k"
proof -
  have "k = 1 \<or> k = 2 \<or> k = 3 \<or> k = 4" using assms(3,4) by auto
  then show ?thesis using assms(1,2) by (auto simp: length_size_def)
qed

lemma length_der_length: "0 < length (der_length n)" "length (der_length n) \<le> 5"
  using length_size_bounds(2) [of n] by (auto simp: der_length_def)

lemma CBS_len_diff: "CBS_len (xs @ ys) - CBS_len ys = of_nat (length xs)"
  by (simp add: CBS_len_def)

lemma length_size_word:
  "unat (of_nat (length_size n) :: u64) = length_size n" "(of_nat (length_size n) :: u64) \<noteq> 0"
  "\<not> (4 :: u64) < of_nat (length_size n)"
  by (simp_all add: length_size_def word_less_nat_alt)

lemma long_form_byte:
  "(0x80 OR of_nat (length_size n) :: u8) AND 0x80 \<noteq> 0"
  "ucast ((0x80 OR of_nat (length_size n) :: u8) AND 0x7F) = (of_nat (length_size n) :: u64)"
  by (simp_all add: length_size_def)

lemma der_element_length_less:
  "length body < 2 ^ 32 \<Longrightarrow> length (der_element t body) < 2 ^ 64"
  using length_der_tag(2) [of t] length_der_length(2) [of "length body"]
  by (simp add: der_element_def)

lemma finish_element:
  assumes "length body < 2 ^ 32" and "len = of_nat (length (der_element t body))"
  shows "CBS_get_bytes len (der_element t body @ rest) = (rest, Some (der_element t body))"
  using der_element_length_less [OF assms(1), of t] assms(2) by (simp add: CBS_get_bytes_eq unat_of_nat)

text \<open>The two length forms, once the identifier octets have been read.\<close>

lemma CBS_len_header:
  "CBS_len (xs @ b # ys) - CBS_len ys = of_nat (Suc (length xs))"
  by (simp add: CBS_len_def)

lemma any_asn1_element_short:
  assumes "b AND 0x80 = 0"
  shows "cbs_get_any_asn1_element ber (der_tag tag @ b # hs) =
    (case CBS_get_bytes (ucast b + of_nat (Suc (length (der_tag tag)))) (der_tag tag @ b # hs) of
       (c, None) \<Rightarrow> (c, None)
     | (c, Some out) \<Rightarrow> (c, Some (out, tag, of_nat (Suc (length (der_tag tag))))))"
  unfolding cbs_get_any_asn1_element_def Let_def
  using assms by (simp add: parse_der_tag CBS_len_header del: of_nat_Suc split: prod.split option.split)

lemma any_asn1_element_long:
  assumes "b AND 0x80 \<noteq> 0" and "num = ucast (b AND 0x7F)" and "hl = of_nat (Suc (length (der_tag tag)))"
    and "\<not> (ber \<and> num = 0)"
  shows "cbs_get_any_asn1_element ber (der_tag tag @ b # hs) =
    (if num = 0 \<or> 4 < num then (der_tag tag @ b # hs, None)
     else (case cbs_get_u num hs of
             (_, None) \<Rightarrow> (der_tag tag @ b # hs, None)
           | (_, Some len64) \<Rightarrow>
               if len64 < 128 then (der_tag tag @ b # hs, None)
               else if drop_bit (unat ((num - 1) * 8)) len64 = 0 then (der_tag tag @ b # hs, None)
               else if len64 + hl + num < len64 then (der_tag tag @ b # hs, None)
               else (case CBS_get_bytes (len64 + (hl + num)) (der_tag tag @ b # hs) of
                       (c, None) \<Rightarrow> (c, None)
                     | (c, Some out) \<Rightarrow> (c, Some (out, tag, hl + num)))))"
  unfolding cbs_get_any_asn1_element_def Let_def
  using assms
  by (simp add: parse_der_tag CBS_len_header del: of_nat_Suc split: prod.split option.split)

lemma get_der_element:
  assumes "length body < 2 ^ 32"
  shows "cbs_get_any_asn1_element ber (der_element t body @ rest) =
    (rest, Some (der_element t body, t, of_nat (der_header_length t (length body))))"
proof (cases "length body < 128")
  case True
  let ?b = "of_nat (length body) :: u8"
  have b: "?b AND 0x80 = 0"
  proof -
    have "unat ?b < 2 ^ 7" using True by (simp add: unat_of_nat)
    from bit_less_exp [OF this, of 7] show ?thesis by (auto simp: and_0x80_eq_0_iff)
  qed
  have ub: "(ucast ?b :: u64) = of_nat (length body)"
    using True by (simp add: word_unat_eq_iff unsigned_ucast_eq unat_of_nat take_bit_nat_eq_self)
  have e: "der_element t body @ rest = der_tag t @ ?b # body @ rest"
    using True by (simp add: der_element_def der_length_def)
  have "CBS_get_bytes (ucast ?b + of_nat (Suc (length (der_tag t)))) (der_element t body @ rest) =
      (rest, Some (der_element t body))"
    by (rule finish_element [OF assms])
      (use True in \<open>simp add: ub der_element_def der_length_def\<close>)
  then show ?thesis using any_asn1_element_short [OF b, of ber t "body @ rest"] True
    by (simp add: e der_header_length_def der_length_def)
next
  case False
  let ?k = "length_size (length body)"
  let ?n = "of_nat (length body) :: u64"
  let ?l = "be_bytes ?k ?n"
  have e: "der_element t body @ rest = der_tag t @ (0x80 OR of_nat ?k) # ?l @ body @ rest"
    using False by (simp add: der_element_def der_length_def)
  have un: "unat ?n = length body" using assms by (simp add: unat_of_nat)
  have "length body < 2 ^ (8 * ?k)" using length_size_bounds(3) [OF assms] .
  then have tb: "take_bit (8 * ?k) ?n = ?n"
    using un by (simp add: word_unat_eq_iff unsigned_take_bit_eq take_bit_nat_eq_self)
  have gu: "cbs_get_u (of_nat ?k) (?l @ body @ rest) = (body @ rest, Some ?n)"
    by (simp add: cbs_get_u_eq length_size_word be_word_be_bytes tb)
  have ge: "\<not> ?n < 128" using False un by (simp add: word_less_nat_alt)
  have min: "drop_bit (unat ((of_nat ?k - 1) * 8 :: u64)) ?n \<noteq> 0"
  proof -
    have s: "unat ((of_nat ?k - 1) * 8 :: u64) = 8 * (?k - 1)"
      by (simp add: length_size_def)
    have "2 ^ (8 * (?k - 1)) \<le> length body"
      using length_size_bounds(4) [of "length body"] False by auto
    then have "unat (drop_bit (8 * (?k - 1)) ?n) \<noteq> 0"
      unfolding unat_drop_bit_div un by (simp add: div_eq_0_iff)
    then show ?thesis unfolding s by (auto simp: unat_eq_0)
  qed
  have ov: "\<not> ?n + of_nat (Suc (length (der_tag t))) + of_nat ?k < ?n"
  proof -
    have "?n + of_nat (Suc (length (der_tag t))) + of_nat ?k =
        of_nat (length body + (length (der_tag t) + 1) + ?k)" by simp
    moreover have "length body + (length (der_tag t) + 1) + ?k < 2 ^ 64"
      using assms length_der_tag(2) [of t] length_size_bounds(2) [of "length body"] by simp
    ultimately show ?thesis using un
      by (simp add: word_less_nat_alt unat_of_nat del: of_nat_add of_nat_Suc)
  qed
  have "CBS_get_bytes (?n + (of_nat (Suc (length (der_tag t))) + of_nat ?k)) (der_element t body @ rest) =
      (rest, Some (der_element t body))"
    by (rule finish_element [OF assms])
      (use False in \<open>simp add: der_element_def der_length_def\<close>)
  then have fin: "CBS_get_bytes (?n + (of_nat (Suc (length (der_tag t))) + of_nat ?k))
      (der_tag t @ (0x80 OR of_nat ?k) # ?l @ body @ rest) = (rest, Some (der_element t body))"
    by (simp only: e)
  have hl: "of_nat (Suc (length (der_tag t))) + of_nat ?k = (of_nat (der_header_length t (length body)) :: u64)"
    using False by (simp add: der_header_length_def der_length_def)
  show ?thesis
    unfolding e
    by (subst any_asn1_element_long [OF long_form_byte(1) long_form_byte(2) [symmetric] refl])
      (simp_all only: length_size_word simp_thms if_False gu prod.case option.case ge min ov fin [unfolded hl] hl)
qed

lemma unat_size_shift:
  assumes "1 \<le> unat (num :: u64)" and "unat num \<le> 4"
  shows "unat ((num - 1) * 8) = 8 * (unat num - 1)"
proof -
  have "num = 1 \<or> num = 2 \<or> num = 3 \<or> num = 4" using assms by (simp add: word_unat_eq_iff) auto
  then show ?thesis by auto
qed

lemma get_element_canonical:
  assumes "cbs_get_any_asn1_element False cbs = (rest, Some (elem, t, hl))"
  shows "\<exists>body. length body < 2 ^ 32 \<and> elem = der_element t body \<and> cbs = elem @ rest \<and>
           hl = of_nat (der_header_length t (length body))"
proof -
  obtain header tag where tag: "parse_asn1_tag cbs = (header, Some tag)"
    using assms by (auto simp: cbs_get_any_asn1_element_def split: prod.splits option.splits)
  obtain b header' where hd: "header = b # header'"
    using assms tag by (cases header) (auto simp: cbs_get_any_asn1_element_def)
  have cbs: "cbs = der_tag tag @ b # header'" using asn1_tag.dec_canonical [OF tag] hd by simp
  note unfolded = assms [unfolded cbs]
  \<comment> \<open>what remains once the length \<open>n\<close> and its octets \<open>der_length n\<close> are known\<close>
  have fin: ?thesis
    if g: "CBS_get_bytes len cbs = (rest, Some elem)" and len: "len = of_nat (der_header_length tag n + n)"
      and n: "n < 2 ^ 32" and pre: "cbs = der_tag tag @ der_length n @ bs" and t: "t = tag"
      and hl: "hl = of_nat (der_header_length tag n)" for len n bs
  proof -
    have "der_header_length tag n + n < 2 ^ 64"
      using n length_der_tag(2) [of tag] length_der_length(2) [of n] by (simp add: der_header_length_def)
    then have ul: "unat len = der_header_length tag n + n"
      using len by (simp add: unat_of_nat del: of_nat_add)
    have le: "n \<le> length bs" and e: "elem = take (unat len) cbs" and rs: "rest = drop (unat len) cbs"
      using g ul by (auto simp: CBS_get_bytes_eq pre der_header_length_def split: if_splits)
    have "elem = der_element tag (take n bs)" and "rest = drop n bs" using le e rs
      by (simp_all add: ul pre der_element_def der_header_length_def min_absorb2)
    moreover have "length (take n bs) = n" using le by simp
    ultimately show ?thesis using n pre t hl by (intro exI [of _ "take n bs"]) (simp add: der_element_def)
  qed
  show ?thesis
  proof (cases "b AND 0x80 = 0")
    case True
    have "n < 7" if "bit b n" for n
      using bit_u8_less [OF that] that True by (cases "n = 7") (auto simp: and_0x80_eq_0_iff)
    then have small: "unat b < 128" using unat_less_expI [of b 7] by simp
    show ?thesis
    proof (rule fin)
      show "CBS_get_bytes (ucast b + of_nat (Suc (length (der_tag tag)))) cbs = (rest, Some elem)"
        "t = tag" using unfolded [unfolded any_asn1_element_short [OF True]] cbs
        by (auto split: prod.splits option.splits)
      show "hl = of_nat (der_header_length tag (unat b))"
        using unfolded [unfolded any_asn1_element_short [OF True]] small
        by (auto simp: der_header_length_def der_length_def split: prod.splits option.splits)
      show "ucast b + of_nat (Suc (length (der_tag tag))) = (of_nat (der_header_length tag (unat b) + unat b) :: u64)"
        using small by (simp add: der_header_length_def der_length_def)
      show "unat b < 2 ^ 32" using small by simp
      show "cbs = der_tag tag @ der_length (unat b) @ header'"
        using small by (simp add: cbs der_length_def)
    qed
  next
    case False
    let ?num = "ucast (b AND 0x7F) :: u64"
    let ?k = "unat ?num"
    note long = unfolded [unfolded any_asn1_element_long [OF False refl refl, of False tag header', simplified]]
    have num: "?num \<noteq> 0" "\<not> 4 < ?num" using long by (auto split: if_splits)
    then have k: "1 \<le> ?k" "?k \<le> 4" by (auto simp: word_less_nat_alt Suc_le_eq unat_gt_0)
    have klen: "?k \<le> length header'" using long num by (auto simp: cbs_get_u_eq split: if_splits)
    let ?w = "be_word (take ?k header') :: u64"
    have w: "\<not> ?w < 128" "drop_bit (unat ((?num - 1) * 8)) ?w \<noteq> 0"
      and fine: "(case CBS_get_bytes (?w + (of_nat (Suc (length (der_tag tag))) + ?num)) cbs of
                   (c, None) \<Rightarrow> (c, None)
                 | (c, Some out) \<Rightarrow> (c, Some (out, tag, of_nat (Suc (length (der_tag tag))) + ?num))) =
             (rest, Some (elem, t, hl))"
      using long num klen by (auto simp: cbs_get_u_eq cbs simp del: of_nat_Suc split: if_splits)
    have s: "unat ((?num - 1) * 8) = 8 * (?k - 1)"
      by (rule unat_size_shift [OF k])
    have up: "unat ?w < 2 ^ (8 * ?k)"
      using unat_be_word_less [of "take ?k header'", where 'a = 64] k klen by (simp add: min_absorb2)
    have lo: "2 ^ (8 * (?k - 1)) \<le> unat ?w"
      using w(2) unfolding s by (metis div_less not_le unat_drop_bit_div unat_eq_0)
    have size: "length_size (unat ?w) = ?k" by (rule length_size_unique [OF lo up k])
    have "(2::nat) ^ (8 * ?k) \<le> 2 ^ 32" using k by (intro power_increasing) auto
    with up have up32: "unat ?w < 2 ^ 32" by linarith
    have b: "0x80 OR of_nat ?k = b"
    proof -
      have "(of_nat ?k :: u8) = ucast ?num" by (rule of_nat_unat)
      then show ?thesis using False base128_byte(1) [of b]
        by (simp only: and_0x80_eq_0_iff not_not or.commute)
    qed
    have dl: "der_length (unat ?w) = b # take ?k header'"
      using w(1) size b be_bytes_be_word_take [OF _ klen, where 'a = 64] k
      by (simp add: der_length_def word_less_nat_alt)
    show ?thesis
    proof (rule fin)
      show "CBS_get_bytes (?w + (of_nat (Suc (length (der_tag tag))) + ?num)) cbs = (rest, Some elem)"
        "t = tag" using fine by (auto split: prod.splits option.splits)
      show "hl = of_nat (der_header_length tag (unat ?w))"
        using fine klen by (auto simp: der_header_length_def dl split: prod.splits option.splits)
      show "?w + (of_nat (Suc (length (der_tag tag))) + ?num) = of_nat (der_header_length tag (unat ?w) + unat ?w)"
        using klen by (simp add: der_header_length_def dl)
      show "unat ?w < 2 ^ 32" by (rule up32)
      show "cbs = der_tag tag @ der_length (unat ?w) @ drop ?k header'"
        by (simp add: cbs dl)
    qed
  qed
qed

lemma unat_CBS_len: "length cbs < 2 ^ 64 \<Longrightarrow> unat (CBS_len cbs) = length cbs"
  by (simp add: CBS_len_def unat_of_nat)

lemma CBS_len_eq_0_iff: "length cbs < 2 ^ 64 \<Longrightarrow> CBS_len cbs = 0 \<longleftrightarrow> cbs = []"
  using unat_CBS_len [of cbs] by (auto simp: word_unat_eq_iff)

lemma CBS_skip_eq:
  "CBS_skip n cbs = (if length cbs < unat n then (cbs, None) else (drop (unat n) cbs, Some ()))"
  by (simp add: CBS_skip_def cbs_get_def)

lemma unat_der_header_length: "unat (of_nat (der_header_length t n) :: u64) = der_header_length t n"
  using length_der_tag(2) [of t] length_der_length(2) [of n] by (simp add: der_header_length_def unat_of_nat del: of_nat_add)

lemma skip_der_header:
  "CBS_skip (of_nat (der_header_length t (length body))) (der_element t body) = (body, Some ())"
  by (simp add: CBS_skip_eq unat_der_header_length) (simp add: der_element_def der_header_length_def)

interpretation any_asn1: canonical_codec "\<lambda>(body, t). der_element t body" CBS_get_any_asn1
    "\<lambda>(body, t). length body < 2 ^ 32"
proof
  fix v :: "cbs \<times> u32" and rest
  assume "case v of (body, t) \<Rightarrow> length body < 2 ^ 32"
  then show "CBS_get_any_asn1 ((case v of (body, t) \<Rightarrow> der_element t body) @ rest) = (rest, Some v)"
    by (cases v) (simp add: CBS_get_any_asn1_def CBS_get_any_asn1_element_def get_der_element skip_der_header)
next
  fix cbs rest :: cbs and v :: "cbs \<times> u32" assume d: "CBS_get_any_asn1 cbs = (rest, Some v)"
  then obtain elem t hl where e: "cbs_get_any_asn1_element False cbs = (rest, Some (elem, t, hl))"
    by (auto simp: CBS_get_any_asn1_def CBS_get_any_asn1_element_def split: prod.splits option.splits)
  from get_element_canonical [OF e] obtain body where b: "length body < 2 ^ 32"
    "elem = der_element t body" "cbs = elem @ rest" "hl = of_nat (der_header_length t (length body))" by blast
  have "v = (body, t)" using d e b(2,4)
    by (simp add: CBS_get_any_asn1_def CBS_get_any_asn1_element_def skip_der_header)
  then show "(case v of (body, t) \<Rightarrow> length body < 2 ^ 32) \<and>
      cbs = (case v of (body, t) \<Rightarrow> der_element t body) @ rest" using b by simp
qed

lemma CBS_get_asn1_canonical:
  "canonical_codec (der_element t) (CBS_get_asn1 t) (\<lambda>body. length body < 2 ^ 32)"
proof
  fix v rest :: cbs assume "length v < 2 ^ 32"
  then show "CBS_get_asn1 t (der_element t v @ rest) = (rest, Some v)"
    by (simp add: CBS_get_asn1_def cbs_get_asn1_def CBS_get_any_asn1_element_def get_der_element
        skip_der_header)
next
  fix cbs rest v assume d: "CBS_get_asn1 t cbs = (rest, Some v)"
  then obtain elem hl where e: "cbs_get_any_asn1_element False cbs = (rest, Some (elem, t, hl))"
    by (auto simp: CBS_get_asn1_def cbs_get_asn1_def CBS_get_any_asn1_element_def
        split: prod.splits option.splits if_splits)
  from get_element_canonical [OF e] obtain body where b: "length body < 2 ^ 32"
    "elem = der_element t body" "cbs = elem @ rest" "hl = of_nat (der_header_length t (length body))" by blast
  have "v = body" using d e b(2,4)
    by (simp add: CBS_get_asn1_def cbs_get_asn1_def CBS_get_any_asn1_element_def skip_der_header)
  then show "length v < 2 ^ 32 \<and> cbs = der_element t v @ rest" using b by simp
qed

interpretation asn1_integer: canonical_codec "der_element CBS_ASN1_INTEGER" "CBS_get_asn1 CBS_ASN1_INTEGER"
    "\<lambda>body. length body < 2 ^ 32"
  by (rule CBS_get_asn1_canonical)

interpretation asn1_boolean: canonical_codec "der_element CBS_ASN1_BOOLEAN" "CBS_get_asn1 CBS_ASN1_BOOLEAN"
    "\<lambda>body. length body < 2 ^ 32"
  by (rule CBS_get_asn1_canonical)

subsection \<open>Unsigned integers\<close>

function min_be :: "u64 \<Rightarrow> bytes" where
  "min_be v = (if v = 0 then [] else min_be (drop_bit 8 v) @ [ucast v])"
  by pat_completeness auto
termination
  by (relation "measure unat") (auto intro: drop_bit_lt_self)

declare min_be.simps [simp del]

text \<open>The contents of a non-negative INTEGER: no leading zero but the one that keeps the sign bit
  clear.\<close>

definition uint_contents :: "u64 \<Rightarrow> bytes" where
  "uint_contents v = (let m = min_be v in if m = [] \<or> hd m AND 0x80 \<noteq> 0 then 0 # m else m)"

lemma drop_bit_56_8: "drop_bit 56 (drop_bit 8 (v :: u64)) = 0"
  by (rule bit_word_eqI) (auto simp: bit_simps dest: bit_imp_le_length)

lemma min_be_join: "push_bit 8 (drop_bit 8 v) OR ucast (ucast v :: u8) = (v :: u64)"
  by (rule bit_word_eqI) (auto simp: bit_simps)

lemma uint64_loop_min_be: "uint64_loop 0 (min_be v @ bs) = uint64_loop v bs"
proof (induction v arbitrary: bs rule: min_be.induct)
  case (1 v)
  show ?case
  proof (cases "v = 0")
    case False
    then show ?thesis using "1.IH" [OF False, of "ucast v # bs"]
      by (simp add: min_be.simps [of v] drop_bit_56_8 min_be_join)
  qed (simp add: min_be.simps)
qed

lemma min_be_step:
  assumes "drop_bit 56 (u :: u64) = 0" and "u \<noteq> 0 \<or> b \<noteq> 0"
  shows "min_be (push_bit 8 u OR ucast (b :: u8)) = min_be u @ [b]"
proof -
  let ?v = "push_bit 8 u OR ucast b"
  have top: "n < 56" if "bit u n" for n
  proof (rule ccontr)
    assume "\<not> n < 56"
    then have "bit (drop_bit 56 u) (n - 56)" using that by (simp add: bit_drop_bit_eq)
    with assms(1) show False by simp
  qed
  have d: "drop_bit 8 ?v = u"
    by (rule bit_word_eqI) (auto simp: bit_simps dest: top bit_u8_less)
  have l: "ucast ?v = b" by (rule bit_word_eqI) (auto simp: bit_simps)
  have "?v \<noteq> 0" using assms(2) d l by auto
  then show ?thesis using min_be.simps [of ?v] by (simp only: d l if_False)
qed

lemma uint64_loop_canonical:
  "uint64_loop u bs = Some v \<Longrightarrow> u \<noteq> 0 \<or> bs = [] \<or> hd bs \<noteq> 0 \<Longrightarrow> min_be u @ bs = min_be v"
proof (induction u bs rule: uint64_loop.induct)
  case (2 u b bs)
  let ?v = "push_bit 8 u OR ucast b"
  have u: "drop_bit 56 u = 0" using "2.prems" by (auto split: if_splits)
  have ub: "u \<noteq> 0 \<or> b \<noteq> 0" using "2.prems" by simp
  note s = min_be_step [OF u ub]
  have "?v \<noteq> 0"
  proof
    assume "?v = 0" then show False using s by (simp add: min_be.simps [of 0])
  qed
  then have "min_be ?v @ bs = min_be v" using "2.IH" "2.prems" u by simp
  then show ?case by (simp add: s)
qed simp

lemma min_be_Nil_iff: "min_be v = [] \<longleftrightarrow> v = 0"
  by (subst min_be.simps) simp

lemma hd_min_be: "v \<noteq> 0 \<Longrightarrow> hd (min_be v) \<noteq> 0"
proof (induction v rule: min_be.induct)
  case (1 v)
  show ?case
  proof (cases "drop_bit 8 v = 0")
    case True
    then have "ucast (ucast v :: u8) = v" using min_be_join [of v] by simp
    then have "(ucast v :: u8) \<noteq> 0" using "1.prems" by auto
    then show ?thesis using "1.prems" True by (simp add: min_be.simps [of v] min_be.simps [of 0])
  next
    case False
    then show ?thesis using 1 by (simp add: min_be.simps [of v] min_be_Nil_iff)
  qed
qed

lemma length_min_be: "unat v < 2 ^ (8 * k) \<Longrightarrow> length (min_be v) \<le> k"
proof (induction k arbitrary: v)
  case 0
  then have "v = 0" by (simp add: unat_eq_0)
  then show ?case by (simp add: min_be.simps)
next
  case (Suc k)
  have "unat (drop_bit 8 v) < 2 ^ (8 * k)"
    using Suc.prems unfolding unat_drop_bit_div by (simp add: less_mult_imp_div_less power_add)
  with Suc.IH show ?case by (simp add: min_be.simps [of v])
qed

lemma length_uint_contents: "length (uint_contents v) \<le> 9"
  using length_min_be [of v 8] unat_word64_lt [of v] by (simp add: uint_contents_def Let_def)

interpretation asn1_uint64: canonical_codec "\<lambda>v. der_element CBS_ASN1_INTEGER (uint_contents v)"
    CBS_get_asn1_uint64 "\<lambda>_. True"
proof
  fix v :: u64 and rest
  let ?d = "uint_contents v"
  have get: "CBS_get_asn1 CBS_ASN1_INTEGER (der_element CBS_ASN1_INTEGER ?d @ rest) = (rest, Some ?d)"
    using asn1_integer.dec_enc [of ?d rest] length_uint_contents [of v] by simp
  have len: "CBS_len ?d \<noteq> 0"
    using length_uint_contents [of v]
    by (subst CBS_len_eq_0_iff) (auto simp: uint_contents_def Let_def)
  have neg: "?d ! 0 AND 0x80 = 0"
    by (auto simp: uint_contents_def Let_def hd_conv_nth)
  have lead: "\<not> (?d ! 0 = 0 \<and> 1 < CBS_len ?d \<and> ?d ! 1 AND 0x80 = 0)"
    using hd_min_be [of v] min_be_Nil_iff [of v]
    by (cases "min_be v") (auto simp: uint_contents_def Let_def CBS_len_def)
  have "uint64_loop 0 ?d = Some v"
    using uint64_loop_min_be [of v "[]"] by (simp add: uint_contents_def Let_def)
  then show "CBS_get_asn1_uint64 (der_element CBS_ASN1_INTEGER ?d @ rest) = (rest, Some v)"
    using get len neg lead by (simp add: CBS_get_asn1_uint64_def)
next
  fix cbs rest v assume a: "CBS_get_asn1_uint64 cbs = (rest, Some v)"
  obtain d where d: "CBS_get_asn1 CBS_ASN1_INTEGER cbs = (rest, Some d)" "CBS_len d \<noteq> 0"
      "d ! 0 AND 0x80 = 0" "\<not> (d ! 0 = 0 \<and> 1 < CBS_len d \<and> d ! 1 AND 0x80 = 0)" "uint64_loop 0 d = Some v"
    using a by (auto simp: CBS_get_asn1_uint64_def split: prod.splits option.splits if_splits)
  have ne: "d \<noteq> []" using d(2) by (auto simp: CBS_len_def)
  note c = asn1_integer.dec_canonical [OF d(1)]
  have "d = uint_contents v"
  proof (cases "d ! 0 = 0")
    case False
    then have "d = min_be v" using uint64_loop_canonical [OF d(5)] ne
      by (simp add: hd_conv_nth min_be.simps [of 0])
    then show ?thesis using ne d(3) by (simp add: uint_contents_def Let_def hd_conv_nth)
  next
    case True
    then obtain ds where ds: "d = 0 # ds" using ne by (cases d) auto
    then have l: "uint64_loop 0 ds = Some v" using d(5) by simp
    show ?thesis
    proof (cases "ds = []")
      case True
      then show ?thesis using l ds by (simp add: uint_contents_def min_be.simps)
    next
      case False
      have "CBS_len d = of_nat (Suc (length ds))" using ds by (simp add: CBS_len_def)
      moreover have "Suc (length ds) < 2 ^ 64" using c ds by simp
      ultimately have "1 < CBS_len d" using False
        by (simp add: word_less_nat_alt unat_of_nat del: of_nat_Suc)
      then have top: "ds ! 0 AND 0x80 \<noteq> 0" using d(4) ds by simp
      then have "hd ds \<noteq> 0" using False by (auto simp: hd_conv_nth)
      then have "ds = min_be v" using uint64_loop_canonical [OF l] by (simp add: min_be.simps [of 0])
      then show ?thesis using ds top False by (simp add: uint_contents_def Let_def hd_conv_nth)
    qed
  qed
  then show "True \<and> cbs = der_element CBS_ASN1_INTEGER (uint_contents v) @ rest" using c by simp
qed

end
