(* ===== verification/CmpOrder.thy ===== *)
theory CmpOrder
  imports Prelude "HOL-Library.Multiset"
begin

text \<open>
  Comparison functions in the style of the C library, and the contract of \<open>qsort\<close>: locale
  \<open>cmp_order\<close> is what a caller promises of the comparison, locale \<open>sorter\<close> what \<open>qsort\<close>
  promises of the result.  Insertion sort is the instance used where the model runs a sort.
\<close>

fun qsort_insert :: "('a \<Rightarrow> 'a \<Rightarrow> int) \<Rightarrow> 'a \<Rightarrow> 'a list \<Rightarrow> 'a list" where
  "qsort_insert cmp x [] = [x]"
| "qsort_insert cmp x (y # ys) = (if cmp x y \<le> 0 then x # y # ys else y # qsort_insert cmp x ys)"

definition qsort :: "('a \<Rightarrow> 'a \<Rightarrow> int) \<Rightarrow> 'a list \<Rightarrow> 'a list" where
  "qsort cmp xs = foldr (qsort_insert cmp) xs []"

lemma mset_qsort_insert [simp]: "mset (qsort_insert cmp x ys) = add_mset x (mset ys)"
  by (induction ys) auto

lemma set_qsort_insert [simp]: "set (qsort_insert cmp x ys) = insert x (set ys)"
  by (metis mset_qsort_insert set_mset_add_mset_insert set_mset_mset)

lemma mset_qsort [simp]: "mset (qsort cmp xs) = mset xs"
  by (induction xs) (simp_all add: qsort_def)

subsection \<open>Comparison functions\<close>

definition cmp_sorted :: "('a \<Rightarrow> 'a \<Rightarrow> int) \<Rightarrow> 'a list \<Rightarrow> bool" where
  "cmp_sorted cmp xs \<longleftrightarrow> sorted_wrt (\<lambda>x y. cmp x y \<le> 0) xs"

locale cmp_order =
  fixes cmp :: "'a \<Rightarrow> 'a \<Rightarrow> int"
  assumes cmp_swap: "cmp x y < 0 \<longleftrightarrow> 0 < cmp y x"
    and cmp_trans: "cmp x y \<le> 0 \<Longrightarrow> cmp y z \<le> 0 \<Longrightarrow> cmp x z \<le> 0"
begin

lemma cmp_eq_sym: "cmp x y = 0 \<longleftrightarrow> cmp y x = 0"
  using cmp_swap [of x y] cmp_swap [of y x] by linarith

lemma cmp_le_total: "cmp x y \<le> 0 \<or> cmp y x \<le> 0"
  using cmp_swap [of x y] cmp_swap [of y x] by linarith

lemma cmp_ge: "0 \<le> cmp x y \<longleftrightarrow> cmp y x \<le> 0"
  using cmp_swap [of x y] by linarith

lemma cmp_less_trans: "cmp p x < 0 \<Longrightarrow> cmp x y \<le> 0 \<Longrightarrow> cmp p y < 0"
  using cmp_trans [of x y p] cmp_ge [of p y] cmp_ge [of p x] by linarith

lemma cmp_greater_trans: "cmp x y \<le> 0 \<Longrightarrow> 0 < cmp p y \<Longrightarrow> 0 < cmp p x"
  using cmp_trans [of p x y] by linarith

lemma sorted_qsort_insert:
  "cmp_sorted cmp ys \<Longrightarrow> cmp_sorted cmp (qsort_insert cmp x ys)"
proof (induction ys)
  case (Cons y ys)
  then show ?case using cmp_le_total [of x y] by (auto simp: cmp_sorted_def intro: cmp_trans)
qed (simp add: cmp_sorted_def)

lemma sorted_qsort: "cmp_sorted cmp (qsort cmp xs)"
  by (induction xs) (simp_all add: qsort_def sorted_qsort_insert, simp add: cmp_sorted_def)

end

text \<open>The contract of a sorting function for one comparison.\<close>

locale sorter = cmp_order cmp for cmp :: "'a \<Rightarrow> 'a \<Rightarrow> int" +
  fixes sort_by :: "'a list \<Rightarrow> 'a list"
  assumes sort_by_perm: "mset (sort_by xs) = mset xs"
    and sort_by_sorted: "cmp_sorted cmp (sort_by xs)"
begin

lemma set_sort_by: "set (sort_by xs) = set xs"
  using sort_by_perm [of xs] by (metis set_mset_mset)

lemma length_sort_by: "length (sort_by xs) = length xs"
  using sort_by_perm [of xs] by (metis size_mset)

end

sublocale cmp_order \<subseteq> insertion: sorter cmp "qsort cmp"
  by unfold_locales (simp_all add: sorted_qsort)

end
