(* ===== verification/Asn1.thy ===== *)
theory Asn1
  imports Cbb Der CmpOrder
begin

text \<open>
  The ASN.1 operations on byte-string builders: \<open>CBB_add_asn1\<close> and the writers of values in
  \<open>cbb.c\<close>, the sorting of a SET OF, and the conversions between object identifiers and dotted
  text (\<open>cbb.c\<close> and \<open>cbs.c\<close>).
\<close>

text \<open>Running one operation after the other, up to the first that fails.\<close>

definition cbb_and :: "cbb_op \<Rightarrow> cbb_op \<Rightarrow> cbb_op" where
  "cbb_and f g cbb = (case f cbb of (c, False) \<Rightarrow> (c, False) | (c, True) \<Rightarrow> g c)"

definition cbb_done :: cbb_op where
  "cbb_done cbb = (cbb, True)"

fun cbb_all :: "cbb_op list \<Rightarrow> cbb_op" where
  "cbb_all [] = cbb_done"
| "cbb_all (f # fs) = cbb_and f (cbb_all fs)"

subsection \<open>Identifier octets\<close>

function base128_len :: "u64 \<Rightarrow> nat" where
  "base128_len copy = (if 0 < copy then Suc (base128_len (drop_bit 7 copy)) else 0)"
  by pat_completeness auto
termination
  by (relation "measure unat") (auto intro: drop_bit_lt_self)

declare base128_len.simps [simp del]

fun add_base128_loop :: "nat \<Rightarrow> u64 \<Rightarrow> nat \<Rightarrow> cbb_op" where
  "add_base128_loop d v 0 = cbb_done"
| "add_base128_loop d v (Suc i) =
     (let byte = ucast (drop_bit (7 * i) v AND 0x7F);
          byte' = (if i \<noteq> 0 then byte OR 0x80 else byte)
      in cbb_and (CBB_add_u8 d byte') (add_base128_loop d v i))"

definition add_base128_integer :: "nat \<Rightarrow> u64 \<Rightarrow> cbb_op" where
  "add_base128_integer d v =
     (let len_len = base128_len v
      in add_base128_loop d v (if len_len = 0 then 1 else len_len))"

definition add_asn1_tag :: "nat \<Rightarrow> u32 \<Rightarrow> cbb_op" where
  "add_asn1_tag d tag =
     (let tag_bits = ucast (drop_bit CBS_ASN1_TAG_SHIFT tag AND 0xE0) :: u8;
          tag_number = tag AND CBS_ASN1_TAG_NUMBER_MASK
      in if 0x1F \<le> tag_number
         then cbb_and (CBB_add_u8 d (tag_bits OR 0x1F)) (add_base128_integer d (ucast tag_number))
         else CBB_add_u8 d (tag_bits OR ucast tag_number))"

definition CBB_add_asn1 :: "nat \<Rightarrow> u32 \<Rightarrow> cbb_op" where
  "CBB_add_asn1 d tag cbb =
     (case cbb_and (CBB_flush d) (add_asn1_tag d tag) cbb of
        (c, False) \<Rightarrow> (c, False)
      | (c, True) \<Rightarrow>
          let off = cbb_len c in
          (case CBB_add_u8 d 0 c of
             (c', False) \<Rightarrow> (c', False)
           | (c', True) \<Rightarrow>
               (cbb_open_child d \<lparr>offset = off, pending_len_len = 1, pending_is_asn1 = True\<rparr> c', True)))"

subsection \<open>Values\<close>

text \<open>The loop of \<open>CBB_add_asn1_uint64\<close> over the bytes, the first first.\<close>

fun add_uint64_bytes :: "nat \<Rightarrow> bytes \<Rightarrow> bool \<Rightarrow> cbb \<Rightarrow> cbb \<times> bool \<times> bool" where
  "add_uint64_bytes d [] started cbb = (cbb, started, True)"
| "add_uint64_bytes d (byte # bytes) started cbb =
     (if \<not> started \<and> byte = 0 then add_uint64_bytes d bytes started cbb
      else (case (if \<not> started \<and> byte AND 0x80 \<noteq> 0 then CBB_add_u8 d 0 cbb else (cbb, True)) of
              (c, False) \<Rightarrow> (c, True, False)
            | (c, True) \<Rightarrow>
                (case CBB_add_u8 d byte c of
                   (c', False) \<Rightarrow> (c', True, False)
                 | (c', True) \<Rightarrow> add_uint64_bytes d bytes True c')))"

definition CBB_add_asn1_uint64 :: "nat \<Rightarrow> u64 \<Rightarrow> cbb_op" where
  "CBB_add_asn1_uint64 d v cbb =
     (case CBB_add_asn1 d CBS_ASN1_INTEGER cbb of
        (c, False) \<Rightarrow> (c, False)
      | (c, True) \<Rightarrow>
          (case add_uint64_bytes (d + 1)
                  (map (\<lambda>i. ucast (drop_bit (8 * (7 - i)) v AND 0xFF)) [0..<8]) False c of
             (c', _, False) \<Rightarrow> (c', False)
           | (c', started, True) \<Rightarrow>
               (case (if started then (c', True) else CBB_add_u8 (d + 1) 0 c') of
                  (c'', False) \<Rightarrow> (c'', False)
                | (c'', True) \<Rightarrow> CBB_flush d c'')))"

text \<open>
  \<open>CBB_add_asn1_int64\<close>: the bytes of the union are the little-endian bytes of the value;
  \<open>start\<close> skips the sign bytes that say nothing.
\<close>

fun int64_start :: "bytes \<Rightarrow> nat \<Rightarrow> nat" where
  "int64_start bytes 0 = 0"
| "int64_start bytes (Suc start) =
     (if bytes ! Suc start = 0xFF \<and> bytes ! start AND 0x80 \<noteq> 0 then int64_start bytes start
      else Suc start)"

definition CBB_add_asn1_int64 :: "nat \<Rightarrow> u64 \<Rightarrow> cbb_op" where
  "CBB_add_asn1_int64 d value =
     (if 0 \<le> sint value then CBB_add_asn1_uint64 d value
      else let bytes = le_bytes 8 value; start = int64_start bytes 7
           in cbb_all ([CBB_add_asn1 d CBS_ASN1_INTEGER] @
                       map (\<lambda>i. CBB_add_u8 (d + 1) (bytes ! i)) (rev [0..<start + 1]) @
                       [CBB_flush d]))"

definition CBB_add_asn1_octet_string :: "nat \<Rightarrow> bytes \<Rightarrow> cbb_op" where
  "CBB_add_asn1_octet_string d data =
     cbb_all [CBB_add_asn1 d CBS_ASN1_OCTETSTRING, CBB_add_bytes (d + 1) data, CBB_flush d]"

definition CBB_add_asn1_bool :: "nat \<Rightarrow> bool \<Rightarrow> cbb_op" where
  "CBB_add_asn1_bool d value =
     cbb_all [CBB_add_asn1 d CBS_ASN1_BOOLEAN, CBB_add_u8 (d + 1) (if value then 0xFF else 0),
              CBB_flush d]"

subsection \<open>Object identifiers\<close>

text \<open>
  The loop of \<open>parse_dotted_decimal\<close>: the value and \<open>seen_digit\<close> so far.  46 is the dot,
  48 to 57 are the digits.
\<close>

fun dotted_decimal_loop :: "u64 \<Rightarrow> bool \<Rightarrow> u64 cbs_reader" where
  "dotted_decimal_loop out seen [] = ([], if seen then Some out else None)"
| "dotted_decimal_loop out seen (u # cbs) =
     (if u = 46 \<and> cbs \<noteq> [] then (cbs, if seen then Some out else None)
      else if u < 48 \<or> 57 < u \<or> (seen \<and> out = 0) \<or> (- 1) div 10 < out \<or>
              - 1 - (ucast u - 48) < out * 10
        then (cbs, None)
      else dotted_decimal_loop (out * 10 + (ucast u - 48)) True cbs)"

definition parse_dotted_decimal :: "u64 cbs_reader" where
  "parse_dotted_decimal cbs = dotted_decimal_loop 0 False cbs"

lemma dotted_decimal_loop_length:
  "dotted_decimal_loop out seen cbs = (cbs', r) \<Longrightarrow> length cbs' \<le> length cbs"
  by (induction out seen cbs rule: dotted_decimal_loop.induct)
    (auto split: if_splits)

lemma parse_dotted_decimal_decreases:
  "cbs \<noteq> [] \<Longrightarrow> parse_dotted_decimal cbs = (cbs', r) \<Longrightarrow> length cbs' < length cbs"
  using dotted_decimal_loop_length
  by (cases cbs) (fastforce simp: parse_dotted_decimal_def split: if_splits)+

function oid_text_loop :: "nat \<Rightarrow> cbs \<Rightarrow> cbb_op" where
  "oid_text_loop d cbs cbb =
     (if cbs = [] then (cbb, True)
      else (case parse_dotted_decimal cbs of
              (_, None) \<Rightarrow> (cbb, False)
            | (cbs', Some a) \<Rightarrow>
                (case add_base128_integer d a cbb of
                   (c, False) \<Rightarrow> (c, False)
                 | (c, True) \<Rightarrow> oid_text_loop d cbs' c)))"
  by pat_completeness auto
termination
  by (relation "measure (\<lambda>(_, cbs, _). length cbs)")
    (auto dest: parse_dotted_decimal_decreases [OF _ sym])

declare oid_text_loop.simps [simp del]

definition CBB_add_asn1_oid_from_text :: "nat \<Rightarrow> bytes \<Rightarrow> cbb_op" where
  "CBB_add_asn1_oid_from_text d text cbb =
     (case CBB_flush d cbb of
        (c, False) \<Rightarrow> (c, False)
      | (c, True) \<Rightarrow>
          (case parse_dotted_decimal text of
             (_, None) \<Rightarrow> (c, False)
           | (cbs, Some a) \<Rightarrow>
               (case parse_dotted_decimal cbs of
                  (_, None) \<Rightarrow> (c, False)
                | (cbs', Some b) \<Rightarrow>
                    if 2 < a \<or> (a < 2 \<and> 39 < b) \<or> - 1 - 80 < b then (c, False)
                    else (case add_base128_integer d (40 * a + b) c of
                            (c', False) \<Rightarrow> (c', False)
                          | (c', True) \<Rightarrow> oid_text_loop d cbs' c'))))"

text \<open>\<open>add_decimal\<close>: \<open>printf\<close> writes the decimal digits.\<close>

function decimal :: "nat \<Rightarrow> bytes" where
  "decimal n = (if n < 10 then [48 + of_nat n] else decimal (n div 10) @ [48 + of_nat (n mod 10)])"
  by pat_completeness auto
termination by (relation "measure (\<lambda>n. n)") auto

declare decimal.simps [simp del]

definition add_decimal :: "u64 \<Rightarrow> cbb_op" where
  "add_decimal v = CBB_add_bytes 0 (decimal (unat v))"

lemma parse_base128_decreases:
  "parse_base128_integer cbs = (cbs', Some v) \<Longrightarrow> length cbs' < length cbs"
proof -
  have "base128_loop u cbs = (cbs', Some v) \<Longrightarrow> length cbs' < length cbs" for u
    by (induction u cbs rule: base128_loop.induct) (auto simp: Let_def split: if_splits)
  then show "parse_base128_integer cbs = (cbs', Some v) \<Longrightarrow> length cbs' < length cbs"
    by (simp add: parse_base128_integer_def)
qed

function oid_to_text_loop :: "cbs \<Rightarrow> cbb_op" where
  "oid_to_text_loop copy cbb =
     (if copy = [] then (cbb, True)
      else (case parse_base128_integer copy of
              (_, None) \<Rightarrow> (cbb, False)
            | (copy', Some v) \<Rightarrow>
                (case cbb_and (CBB_add_u8 0 46) (add_decimal v) cbb of
                   (c, False) \<Rightarrow> (c, False)
                 | (c, True) \<Rightarrow> oid_to_text_loop copy' c)))"
  by pat_completeness auto
termination
  by (relation "measure (\<lambda>(copy, _). length copy)")
    (auto dest: parse_base128_decreases [OF sym])

declare oid_to_text_loop.simps [simp del]

text \<open>The text returned has its terminator; \<open>None\<close> is the null pointer.\<close>

definition CBS_asn1_oid_to_text :: "bool \<Rightarrow> (u64 \<Rightarrow> bool) \<Rightarrow> cbs \<Rightarrow> bytes option" where
  "CBS_asn1_oid_to_text malloc_ok alloc cbs =
     (case CBB_init malloc_ok alloc 32 of
        (_, False) \<Rightarrow> None
      | (cbb, True) \<Rightarrow>
          (case parse_base128_integer cbs of
             (_, None) \<Rightarrow> None
           | (copy, Some v) \<Rightarrow>
               let first =
                 (if 80 \<le> v then cbb_and (CBB_add_bytes 0 [50, 46]) (add_decimal (v - 80))
                  else cbb_all [add_decimal (v div 40), CBB_add_u8 0 46, add_decimal (v mod 40)])
               in (case cbb_all [first, oid_to_text_loop copy, CBB_add_u8 0 0] cbb of
                     (_, False) \<Rightarrow> None
                   | (c, True) \<Rightarrow> snd (CBB_finish True c))))"

subsection \<open>SET OF\<close>

text \<open>
  The sort is the \<open>qsort\<close> of the C library, here by insertion.  The comparison is a total order
  on byte strings, so every sorting algorithm gives the same list.
\<close>

definition compare_set_of_element :: "cbs \<Rightarrow> cbs \<Rightarrow> int" where
  "compare_set_of_element a b =
     (let min_len = min (length a) (length b);
          ret = memcmp (take min_len a) (take min_len b)
      in if ret \<noteq> 0 then ret
         else if length a = length b then 0
         else if length a < length b then - 1 else 1)"

lemma get_any_element_decreases:
  assumes "CBS_get_any_asn1_element cbs = (cbs', Some (out, t, hl))"
  shows "length cbs' < length cbs"
proof -
  from get_element_canonical [OF assms [unfolded CBS_get_any_asn1_element_def]] obtain body where
    "cbs = der_element t body @ cbs'" by blast
  then show ?thesis using length_der_tag(1) [of t] by (simp add: der_element_def)
qed

text \<open>The elements of the contents; \<open>None\<close> when something is not an element.\<close>

function set_of_children :: "cbs \<Rightarrow> cbs list option" where
  "set_of_children cbs =
     (if cbs = [] then Some []
      else (case CBS_get_any_asn1_element cbs of
              (_, None) \<Rightarrow> None
            | (cbs', Some (out, _, _)) \<Rightarrow> map_option (\<lambda>cs. out # cs) (set_of_children cbs')))"
  by pat_completeness auto
termination
  by (relation "measure length") (auto dest: get_any_element_decreases [OF sym])

declare set_of_children.simps [simp del]

text \<open>\<open>malloc_ok\<close>: the copies of the contents and of the list of children could be allocated.\<close>

definition CBB_flush_asn1_set_of :: "bool \<Rightarrow> nat \<Rightarrow> cbb_op" where
  "CBB_flush_asn1_set_of malloc_ok d cbb =
     (case CBB_flush d cbb of
        (c, False) \<Rightarrow> (c, False)
      | (c, True) \<Rightarrow>
          (case set_of_children (CBB_contents d c) of
             None \<Rightarrow> (c, False)
           | Some children \<Rightarrow>
               if length children < 2 then (c, True)
               else if ((- 1 :: u64) div 16) < of_nat (length children) then (c, False)
               else if \<not> malloc_ok then (c, False)
               else
                 let old = CBB_contents d c;
                     rewound = c\<lparr>base := map_option
                       (\<lambda>b. b\<lparr>buf := take (length (buf b) - length old) (buf b)\<rparr>) (base c)\<rparr>
                 in cbb_all (map (CBB_add_bytes d) (qsort compare_set_of_element children)) rewound))"

end
