(* ===== verification/CbbSpec.thy ===== *)
theory CbbSpec
  imports Asn1
begin

text \<open>
  The specification of the builder.  Abstractly a chain of open \<open>CBB\<close>s is the list of the contents
  of its levels; \<open>cbb_holds\<close> relates it to the shared buffer, in which each child's prefix is a
  placeholder.  Closing a level puts the length of its contents in front of them (\<open>closed\<close>).
  \<open>cbb_writes d f bs\<close> is the contract of an operation at depth \<open>d\<close>: it closes the levels
  below \<open>d\<close> and appends \<open>bs\<close> there; it succeeds whenever there is room.
\<close>

subsection \<open>The buffer\<close>

definition cbb_fits :: "cbb_buffer \<Rightarrow> bool" where
  "cbb_fits b \<longleftrightarrow> length (buf b) \<le> unat (cap b) \<and> \<not> error b"

definition same_env :: "cbb_buffer \<Rightarrow> cbb_buffer \<Rightarrow> bool" where
  "same_env b b' \<longleftrightarrow> can_resize b' = can_resize b \<and> alloc_ok b' = alloc_ok b \<and>
     unat (cap b) \<le> unat (cap b')"

text \<open>\<open>cbb_room b n\<close>: the buffer can hold \<open>n\<close> bytes, because they fit or because it can
  grow.\<close>

definition cbb_room :: "cbb_buffer \<Rightarrow> nat \<Rightarrow> bool" where
  "cbb_room b n \<longleftrightarrow> n < 2 ^ 64 \<and> (n \<le> unat (cap b) \<or> can_resize b \<and> (\<forall>k. alloc_ok b k))"

lemma same_env_refl [simp]: "same_env b b"
  by (simp add: same_env_def)

lemma same_env_trans: "same_env a b \<Longrightarrow> same_env b c \<Longrightarrow> same_env a c"
  by (auto simp: same_env_def)

lemma same_env_buf [simp]: "same_env a (b\<lparr>buf := x\<rparr>) = same_env a b"
  by (simp add: same_env_def)

lemma same_env_room: "same_env b b' \<Longrightarrow> cbb_room b n \<Longrightarrow> cbb_room b' n"
  by (auto simp: same_env_def cbb_room_def)

lemma cbb_room_less: "cbb_room b n \<Longrightarrow> m \<le> n \<Longrightarrow> cbb_room b m"
  by (auto simp: cbb_room_def)

lemma cbb_fits_length: "cbb_fits b \<Longrightarrow> length (buf b) < 2 ^ 64"
  using unat_word64_lt [of "cap b"] by (simp add: cbb_fits_def)

lemma unat_buf_len: "cbb_fits b \<Longrightarrow> unat (buf_len b) = length (buf b)"
  using cbb_fits_length by (simp add: buf_len_def unat_of_nat)

lemma reserve_True:
  assumes "cbb_fits b" and "cbb_buffer_reserve b n = (b', True)"
  shows "buf b' = buf b \<and> same_env b b' \<and> \<not> error b' \<and> length (buf b) + unat n \<le> unat (cap b')"
proof -
  have ov: "\<not> buf_len b + n < buf_len b"
    using assms(2) by (auto simp: cbb_buffer_reserve_def Let_def split: if_splits)
  then have "unat (buf_len b + n) = unat (buf_len b) + unat n"
    using unat_plus_if' [of "buf_len b" n] unat_word64_lt [of n]
    by (auto simp: word_less_nat_alt split: if_splits)
  then have n: "unat (buf_len b + n) = length (buf b) + unat n" using unat_buf_len [OF assms(1)] by simp
  show ?thesis using assms n ov
    by (auto simp: cbb_buffer_reserve_def Let_def cbb_fits_def same_env_def word_less_nat_alt not_less
        split: if_splits)
qed

lemma reserve_room:
  assumes "cbb_fits b" and "cbb_room b (length (buf b) + unat n)"
  shows "snd (cbb_buffer_reserve b n)"
proof -
  have "unat (buf_len b + n) = length (buf b) + unat n"
    using assms(2) unat_buf_len [OF assms(1)] unat_plus_if' [of "buf_len b" n]
    by (auto simp: cbb_room_def)
  then show ?thesis using assms unat_buf_len [OF assms(1)]
    by (auto simp: cbb_buffer_reserve_def Let_def word_less_nat_alt cbb_room_def)
qed

lemma buffer_add_True:
  assumes "cbb_fits b" and "cbb_buffer_add b data = (b', True)" and "length data < 2 ^ 64"
  shows "buf b' = buf b @ data \<and> same_env b b' \<and> cbb_fits b'"
proof -
  obtain b1 where b1: "cbb_buffer_reserve b (of_nat (length data)) = (b1, True)"
    "b' = b1\<lparr>buf := buf b1 @ data\<rparr>"
    using assms(2) by (auto simp: cbb_buffer_add_def split: prod.splits bool.splits)
  from reserve_True [OF assms(1) b1(1)] show ?thesis
    using assms(1,3) b1(2) by (auto simp: cbb_fits_def unat_of_nat)
qed

lemma buffer_add_room:
  assumes "cbb_fits b" and "cbb_room b (length (buf b) + length data)"
  shows "snd (cbb_buffer_add b data)"
  using reserve_room [OF assms(1), of "of_nat (length data)"] assms(2)
  by (auto simp: cbb_buffer_add_def cbb_room_def unat_of_nat split: prod.splits bool.splits)

text \<open>The loops that store integers.\<close>

lemma be_bytes_Suc: "be_bytes (Suc n) v = be_bytes n (drop_bit 8 v) @ [ucast v]"
  by (simp add: be_bytes_def)

lemma store_be_bytes:
  "length B = k \<Longrightarrow> store_be (A @ B @ C) (length A) k v = (A @ be_bytes k v @ C, drop_bit (8 * k) v)"
proof (induction k arbitrary: B C v)
  case 0
  then show ?case by (simp add: be_bytes_def)
next
  case (Suc k)
  then obtain B' z where B: "B = B' @ [z]" "length B' = k"
    by (metis length_Suc_conv_rev)
  have "(A @ B @ C)[length A + k := ucast v] = A @ B' @ (ucast v # C)"
    using B by (simp add: list_update_append)
  then show ?case using Suc.IH [OF B(2), of "ucast v # C" "drop_bit 8 v"]
    by (simp add: be_bytes_Suc add.commute)
qed

lemma drop_bit_eq_0_iff: "drop_bit n (v :: 'a::len word) = 0 \<longleftrightarrow> unat v < 2 ^ n"
proof -
  have "drop_bit n v = 0 \<longleftrightarrow> unat (drop_bit n v) = 0" by (simp add: unat_eq_0)
  also have "\<dots> \<longleftrightarrow> unat v < 2 ^ n" unfolding unat_drop_bit_div by (simp add: div_eq_0_iff)
  finally show ?thesis .
qed

lemma buffer_add_u_True:
  assumes "cbb_fits b" and "cbb_buffer_add_u b v k = (b', True)" and "k \<le> 8"
  shows "buf b' = buf b @ be_bytes k v \<and> same_env b b' \<and> cbb_fits b' \<and> unat v < 2 ^ (8 * k) \<or> k = 0 \<and> b' = b"
proof (cases "k = 0")
  case True
  then show ?thesis using assms(2) by (simp add: cbb_buffer_add_u_def)
next
  case False
  obtain b1 where b1: "cbb_buffer_add b (replicate k 0) = (b1, True)"
    using assms(2) False by (cases "cbb_buffer_add b (replicate k 0)") (auto simp: cbb_buffer_add_u_def split: bool.splits)
  have a: "buf b1 = buf b @ replicate k 0" "same_env b b1" "cbb_fits b1"
    using buffer_add_True [OF assms(1) b1] assms(3) by auto
  have "store_be (buf b1) (length (buf b)) k v = (buf b @ be_bytes k v, drop_bit (8 * k) v)"
    using store_be_bytes [of "replicate k 0" k "buf b" "[]" v] a(1) by simp
  then show ?thesis using assms(2) False b1 a
    by (auto simp: cbb_buffer_add_u_def cbb_fits_def drop_bit_eq_0_iff split: if_splits)
qed

lemma buffer_add_u_room:
  assumes "cbb_fits b" and "cbb_room b (length (buf b) + k)" and "unat v < 2 ^ (8 * k)" and "k \<le> 8"
  shows "snd (cbb_buffer_add_u b v k)"
proof -
  obtain b1 where b1: "cbb_buffer_add b (replicate k 0) = (b1, True)"
    using buffer_add_room [OF assms(1), of "replicate k 0"] assms(2) by (cases "cbb_buffer_add b (replicate k 0)") auto
  have "buf b1 = buf b @ replicate k 0"
    using buffer_add_True [OF assms(1) b1] assms(4) by auto
  then have "store_be (buf b1) (length (buf b)) k v = (buf b @ be_bytes k v, drop_bit (8 * k) v)"
    using store_be_bytes [of "replicate k 0" k "buf b" "[]" v] by simp
  then show ?thesis using b1 assms(3) by (simp add: cbb_buffer_add_u_def drop_bit_eq_0_iff)
qed

subsection \<open>Open children\<close>

definition child_ok :: "cbb_child \<Rightarrow> bool" where
  "child_ok f \<longleftrightarrow> pending_len_len f \<noteq> 0 \<and> unat (pending_len_len f) \<le> 8 \<and>
     (pending_is_asn1 f \<longrightarrow> pending_len_len f = 1)"

fun cbb_rep :: "nat \<Rightarrow> cbb_child list \<Rightarrow> bytes \<Rightarrow> bytes list \<Rightarrow> bool" where
  "cbb_rep start [] bs [x] \<longleftrightarrow> bs = x"
| "cbb_rep start (f # fs) bs (x # xs) \<longleftrightarrow>
     (\<exists>p rest. bs = x @ p @ rest \<and> unat (offset f) = start + length x \<and>
        length p = unat (pending_len_len f) \<and> child_ok f \<and>
        cbb_rep (start + length x + length p) fs rest xs)"
| "cbb_rep start fs bs xs \<longleftrightarrow> False"

text \<open>The prefix of a child with \<open>n\<close> bytes of contents, and the contents of a level once all
  below it are closed.\<close>

definition child_prefix :: "cbb_child \<Rightarrow> nat \<Rightarrow> bytes option" where
  "child_prefix f n =
     (if pending_is_asn1 f then (if n \<le> 0xFFFFFFFE then Some (der_length n) else None)
      else if n < 2 ^ (8 * unat (pending_len_len f))
        then Some (be_bytes (unat (pending_len_len f)) (of_nat n :: u64))
      else None)"

fun closed :: "cbb_child list \<Rightarrow> bytes list \<Rightarrow> bytes option" where
  "closed [] [x] = Some x"
| "closed (f # fs) (x # xs) =
     (case closed fs xs of
        None \<Rightarrow> None
      | Some y \<Rightarrow> map_option (\<lambda>p. x @ p @ y) (child_prefix f (length y)))"
| "closed _ _ = None"

lemma memmove_gap:
  "length pre = k \<Longrightarrow> n \<le> length y \<Longrightarrow> length y = n \<Longrightarrow> length z = e \<Longrightarrow>
     memmove (pre @ y @ z) (k + e) k n = take (k + e) (pre @ y @ z) @ y"
  by (simp add: memmove_def)

lemma asn1_length_formE:
  assumes "asn1_length_form len = Some (n, i, len')" and "len = of_nat k" and "k < 2 ^ 64"
  shows "k \<le> 0xFFFFFFFE \<and> 1 \<le> n \<and> n \<le> 5 \<and> unat len' < 2 ^ (8 * (n - 1)) \<and>
    (n \<noteq> 1 \<longrightarrow> len' = len) \<and> der_length k = i # be_bytes (n - 1) len'"
proof -
  have u: "unat len = k" using assms(2,3) by (simp add: unat_of_nat)
  note d = assms(1) [unfolded asn1_length_form_def word_less_nat_alt u, simplified]
  consider "16777215 < k" "k \<le> 4294967294" "n = 5" "i = 132" "len' = len"
    | "65535 < k" "k \<le> 16777215" "n = 4" "i = 131" "len' = len"
    | "255 < k" "k \<le> 65535" "n = 3" "i = 130" "len' = len"
    | "127 < k" "k \<le> 255" "n = 2" "i = 129" "len' = len"
    | "k \<le> 127" "n = 1" "i = ucast len" "len' = 0"
    using d by (auto split: if_splits)
  then show ?thesis
  proof cases
    case 5
    have "(ucast len :: u8) = of_nat k"
      by (rule word_unat_eq_iff [THEN iffD2]) (use 5 in \<open>simp add: unsigned_ucast_eq u unat_of_nat take_bit_nat_eq_self\<close>)
    then show ?thesis using 5 by (simp add: der_length_def be_bytes_def)
  qed (use assms(2) u in \<open>simp_all add: der_length_def length_size_def\<close>)
qed

lemma asn1_length_form_Some: "unat len \<le> 0xFFFFFFFE \<Longrightarrow> asn1_length_form len \<noteq> None"
  by (auto simp: asn1_length_form_def word_less_nat_alt)

text \<open>The positions \<open>CBB_flush\<close> computes for a child with prefix \<open>p\<close> and contents
  \<open>y\<close>.\<close>

lemma close_child_positions:
  assumes fits: "cbb_fits b" and b: "buf b = pre @ p @ y" and off: "unat (offset f) = length pre"
    and p: "length p = unat (pending_len_len f)"
  defines "start \<equiv> offset f + ucast (pending_len_len f)"
  shows "unat start = length (pre @ p)" and "buf_len b - start = of_nat (length y)"
    and "\<not> (start < offset f \<or> buf_len b < start)" and "length y < 2 ^ 64"
proof -
  have lt: "length (buf b) < 2 ^ 64" by (rule cbb_fits_length [OF fits])
  have up: "unat (ucast (pending_len_len f) :: u64) = length p"
    using p unat_word8_lt [of "pending_len_len f"] by (simp add: unsigned_ucast_eq take_bit_nat_eq_self)
  show s: "unat start = length (pre @ p)"
    using off up lt unat_plus_if' [of "offset f" "ucast (pending_len_len f)"] by (simp add: b start_def)
  have "start = of_nat (length (pre @ p))" by (rule unat_eq_of_nat [OF s])
  then show "buf_len b - start = of_nat (length y)" by (simp add: buf_len_def b)
  show "\<not> (start < offset f \<or> buf_len b < start)"
    using s off unat_buf_len [OF fits] b by (simp add: word_less_nat_alt)
  show "length y < 2 ^ 64" using lt b by simp
qed

text \<open>The buffer after the contents have been moved by \<open>e\<close> bytes and the first length byte
  stored.\<close>

lemma moved_contents:
  assumes "length pre = off" and "start = off + 1" and "n = length y"
  shows "(memmove (pre @ [z] @ y @ replicate e 0) (start + e) start n)[off := i] =
    pre @ [i] @ take e (y @ replicate e 0) @ y"
proof -
  have "memmove ((pre @ [z]) @ y @ replicate e 0) (start + e) start n =
      take (start + e) ((pre @ [z]) @ y @ replicate e 0) @ y"
    by (rule memmove_gap) (use assms in simp_all)
  then show ?thesis using assms by (simp add: list_update_append)
qed

text \<open>Writing \<open>n\<close> length bytes over the gap \<open>C\<close>.\<close>

lemma write_length_gap:
  assumes "buf b = A @ C @ y" and "length A = off" and "length C = n"
  shows "cbb_write_length b off n v =
    (if unat v < 2 ^ (8 * n) then (b\<lparr>buf := A @ be_bytes n v @ y\<rparr>, True)
     else (b\<lparr>buf := A @ be_bytes n v @ y, error := True\<rparr>, False))"
  using store_be_bytes [OF assms(3), of A y v] assms
  by (simp add: cbb_write_length_def drop_bit_eq_0_iff)

text \<open>Closing one child: its contents \<open>y\<close> are the end of the buffer.\<close>

lemma close_child_fixed:
  assumes "cbb_fits b" and b: "buf b = pre @ p @ y" and off: "unat (offset f) = length pre"
    and p: "length p = unat (pending_len_len f)" and "\<not> pending_is_asn1 f"
  shows "cbb_close_child b f =
    (let q = be_bytes (length p) (of_nat (length y) :: u64)
     in if length y < 2 ^ (8 * length p) then (b\<lparr>buf := pre @ q @ y\<rparr>, True)
        else (b\<lparr>buf := pre @ q @ y, error := True\<rparr>, False))"
  using write_length_gap [OF b off [symmetric] refl, of "of_nat (length y)"]
    close_child_positions [OF assms(1-4)] assms(5)
  by (simp add: cbb_close_child_def Let_def p unat_of_nat)

lemma close_child_asn1_short:
  assumes "cbb_fits b" and b: "buf b = pre @ [z] @ y" and off: "unat (offset f) = length pre"
    and p: "pending_len_len f = 1" and f: "pending_is_asn1 f"
    and form: "asn1_length_form (of_nat (length y)) = Some (1, i, len')"
  shows "cbb_close_child b f = (b\<lparr>buf := pre @ der_length (length y) @ y\<rparr>, True)"
proof -
  have p1: "length [z] = unat (pending_len_len f)" using p by simp
  note pos = close_child_positions [OF assms(1) b off p1]
  note l = asn1_length_formE [OF form refl pos(4)]
  have "cbb_write_length (b\<lparr>buf := (buf b)[unat (offset f) := i]\<rparr>) (unat (offset f) + 1) 0 len' =
      (b\<lparr>buf := pre @ der_length (length y) @ y\<rparr>, True)"
    using write_length_gap [of "b\<lparr>buf := (buf b)[unat (offset f) := i]\<rparr>" "pre @ [i]" "[]" y
        "unat (offset f) + 1" 0 len'] l b off by (simp add: list_update_append)
  then show ?thesis using pos f form by (simp add: cbb_close_child_def Let_def)
qed

lemma close_child_asn1_long:
  assumes fits: "cbb_fits b" and b: "buf b = pre @ [z] @ y" and off: "unat (offset f) = length pre"
    and p: "pending_len_len f = 1" and f: "pending_is_asn1 f"
    and form: "asn1_length_form (of_nat (length y)) = Some (n, i, len')" and n: "n \<noteq> 1"
    and add: "cbb_buffer_add b (replicate (n - 1) 0) = (b1, True)"
  shows "cbb_close_child b f = (b1\<lparr>buf := pre @ der_length (length y) @ y\<rparr>, True)"
proof -
  let ?start = "offset f + ucast (pending_len_len f)"
  have p1: "length [z] = unat (pending_len_len f)" using p by simp
  note pos = close_child_positions [OF fits b off p1]
  note l = asn1_length_formE [OF form refl pos(4)]
  have b1: "buf b1 = pre @ [z] @ y @ replicate (n - 1) 0"
    using buffer_add_True [OF fits add] l b by auto
  have l1: "unat len' = length y" using l n pos(4) by (simp add: unat_of_nat)
  let ?C = "take (n - 1) (y @ replicate (n - 1) 0)"
  have mv: "(memmove (buf b1) (unat ?start + (n - 1)) (unat ?start) (unat len'))[unat (offset f) := i] =
      pre @ [i] @ ?C @ y"
    unfolding b1 by (rule moved_contents) (use pos(1) off l1 in simp_all)
  have "cbb_write_length (b1\<lparr>buf := pre @ [i] @ ?C @ y\<rparr>) (unat (offset f) + 1) (n - 1) len' =
      (b1\<lparr>buf := pre @ der_length (length y) @ y\<rparr>, True)"
    using write_length_gap [of "b1\<lparr>buf := pre @ [i] @ ?C @ y\<rparr>" "pre @ [i]" ?C y
        "unat (offset f) + 1" "n - 1" len'] l off by simp
  then show ?thesis
    using f pos(3) n by (simp only: cbb_close_child_def Let_def pos(2) form add mv
        if_True if_False option.case prod.case bool.case)
qed

lemma close_child_True:
  assumes fits: "cbb_fits b" and b: "buf b = pre @ p @ y" and off: "unat (offset f) = length pre"
    and p: "length p = unat (pending_len_len f)" and ok: "child_ok f"
    and t: "cbb_close_child b f = (b', True)"
  shows "\<exists>q. child_prefix f (length y) = Some q \<and> buf b' = pre @ q @ y \<and> same_env b b' \<and> cbb_fits b'"
proof (cases "pending_is_asn1 f")
  case False
  then show ?thesis using t close_child_fixed [OF fits b off p False] fits b p
    by (auto simp: child_prefix_def cbb_fits_def Let_def split: if_splits)
next
  case True
  then have p1: "pending_len_len f = 1" using ok by (simp add: child_ok_def)
  then obtain z where z: "buf b = pre @ [z] @ y" using p b by (auto simp: length_Suc_conv)
  note pos = close_child_positions [OF fits b off p]
  obtain n i len' where form: "asn1_length_form (of_nat (length y)) = Some (n, i, len')"
    using t True pos(2) by (auto simp: cbb_close_child_def Let_def split: option.splits if_splits)
  note l = asn1_length_formE [OF form refl pos(4)]
  have pref: "child_prefix f (length y) = Some (der_length (length y))"
    using True l by (simp add: child_prefix_def)
  show ?thesis
  proof (cases "n = 1")
    case n: True
    have "b' = b\<lparr>buf := pre @ der_length (length y) @ y\<rparr>"
      using t close_child_asn1_short [OF fits z off p1 True] form n by simp
    then show ?thesis using pref fits z l n by (auto simp: cbb_fits_def)
  next
    case n: False
    then obtain b1 where add: "cbb_buffer_add b (replicate (n - 1) 0) = (b1, True)"
      using t True pos(2) form
      by (auto simp: cbb_close_child_def Let_def split: option.splits prod.splits bool.splits if_splits)
    have "n \<le> 5" using l by blast
    then have "length (replicate (n - 1) (0 :: u8)) < 2 ^ 64" by simp
    note a = buffer_add_True [OF fits add this]
    have b': "b' = b1\<lparr>buf := pre @ der_length (length y) @ y\<rparr>"
      using t close_child_asn1_long [OF fits z off p1 True form n add] by simp
    have "length (pre @ der_length (length y) @ y) = length (buf b1)" using a l z by simp
    then show ?thesis using pref a l by (auto simp: cbb_fits_def b')
  qed
qed

lemma close_child_room:
  assumes fits: "cbb_fits b" and b: "buf b = pre @ p @ y" and off: "unat (offset f) = length pre"
    and p: "length p = unat (pending_len_len f)" and ok: "child_ok f"
    and q: "child_prefix f (length y) = Some q" and room: "cbb_room b (length (pre @ q @ y))"
  shows "snd (cbb_close_child b f)"
proof (cases "pending_is_asn1 f")
  case False
  then show ?thesis using close_child_fixed [OF fits b off p False] q p
    by (auto simp: child_prefix_def Let_def split: if_splits)
next
  case True
  then have p1: "pending_len_len f = 1" using ok by (simp add: child_ok_def)
  then obtain z where z: "buf b = pre @ [z] @ y" using p b by (auto simp: length_Suc_conv)
  note pos = close_child_positions [OF fits b off p]
  have k: "length y \<le> 0xFFFFFFFE" "q = der_length (length y)"
    using q True by (simp_all add: child_prefix_def split: if_splits)
  then obtain n i len' where form: "asn1_length_form (of_nat (length y)) = Some (n, i, len')"
    using asn1_length_form_Some [of "of_nat (length y)"] by (auto simp: unat_of_nat)
  note l = asn1_length_formE [OF form refl pos(4)]
  show ?thesis
  proof (cases "n = 1")
    case n: True
    then show ?thesis using close_child_asn1_short [OF fits z off p1 True] form by simp
  next
    case n: False
    have "length (pre @ q @ y) = length (buf b) + length (replicate (n - 1) (0 :: u8))"
      using k(2) l z by simp
    then have "cbb_room b (length (buf b) + length (replicate (n - 1) (0 :: u8)))" using room by simp
    from buffer_add_room [OF fits this] obtain b1 where
      add: "cbb_buffer_add b (replicate (n - 1) 0) = (b1, True)"
      by (cases "cbb_buffer_add b (replicate (n - 1) 0)") auto
    show ?thesis using close_child_asn1_long [OF fits z off p1 True form n add] by simp
  qed
qed

subsection \<open>Flushing the chain\<close>

lemma flush_chain_True:
  "cbb_rep (length pre) fs bs xs \<Longrightarrow> buf b = pre @ bs \<Longrightarrow> cbb_fits b \<Longrightarrow>
   cbb_flush_chain b fs = (b', fs', True) \<Longrightarrow>
   \<exists>y. closed fs xs = Some y \<and> buf b' = pre @ y \<and> fs' = [] \<and> cbb_fits b' \<and> same_env b b'"
proof (induction fs arbitrary: pre bs xs b' fs')
  case Nil
  then obtain x where "xs = [x]" by (cases "(length pre, [] :: cbb_child list, bs, xs)" rule: cbb_rep.cases) auto
  with Nil show ?case by auto
next
  case (Cons f fs)
  then obtain x xs' where xs: "xs = x # xs'" by (cases xs) auto
  obtain p rest where pr: "bs = x @ p @ rest" "unat (offset f) = length pre + length x"
      "length p = unat (pending_len_len f)" "child_ok f"
      "cbb_rep (length (pre @ x @ p)) fs rest xs'"
    using Cons.prems(1) by (auto simp: xs add.assoc)
  have "pending_len_len f \<noteq> 0" "\<not> error b"
    using pr(4) Cons.prems(3) by (auto simp: child_ok_def cbb_fits_def)
  then obtain b1 fs1 where f1: "cbb_flush_chain b fs = (b1, fs1, True)"
    and cl: "cbb_close_child b1 f = (b', True)" "fs' = []"
    using Cons.prems(4) by (auto split: prod.splits bool.splits)
  have "buf b = (pre @ x @ p) @ rest" using Cons.prems(2) pr(1) by simp
  from Cons.IH [OF pr(5) this Cons.prems(3) f1] obtain y where
    y: "closed fs xs' = Some y" "buf b1 = (pre @ x @ p) @ y" "cbb_fits b1" "same_env b b1" by blast
  have b1: "buf b1 = (pre @ x) @ p @ y" using y(2) by simp
  from close_child_True [OF y(3) b1 _ pr(3,4) cl(1)] pr(2) obtain q where
    q: "child_prefix f (length y) = Some q" "buf b' = (pre @ x) @ q @ y" "same_env b1 b'" "cbb_fits b'"
    by auto
  show ?case using q y(1) cl(2) same_env_trans [OF y(4) q(3)] by (simp add: xs)
qed

lemma closed_length:
  "closed (f # fs) (x # xs) = Some z \<Longrightarrow>
     \<exists>y q. closed fs xs = Some y \<and> child_prefix f (length y) = Some q \<and> z = x @ q @ y"
  by (auto split: option.splits)

lemma child_prefix_length:
  "child_ok f \<Longrightarrow> child_prefix f n = Some q \<Longrightarrow> unat (pending_len_len f) \<le> length q"
  using length_der_length(1) [of n]
  by (auto simp: child_prefix_def child_ok_def Suc_le_eq split: if_splits)

lemma flush_chain_room:
  "cbb_rep (length pre) fs bs xs \<Longrightarrow> buf b = pre @ bs \<Longrightarrow> cbb_fits b \<Longrightarrow>
   closed fs xs = Some z \<Longrightarrow> cbb_room b (length (pre @ z)) \<Longrightarrow>
   \<exists>b'. cbb_flush_chain b fs = (b', [], True)"
proof (induction fs arbitrary: pre bs xs z)
  case Nil
  then show ?case by (simp add: cbb_fits_def)
next
  case (Cons f fs)
  then obtain x xs' where xs: "xs = x # xs'" by (cases xs) auto
  obtain p rest where pr: "bs = x @ p @ rest" "unat (offset f) = length pre + length x"
      "length p = unat (pending_len_len f)" "child_ok f"
      "cbb_rep (length (pre @ x @ p)) fs rest xs'"
    using Cons.prems(1) by (auto simp: xs add.assoc)
  from closed_length [OF Cons.prems(4) [unfolded xs]] obtain y q where
    y: "closed fs xs' = Some y" "child_prefix f (length y) = Some q" "z = x @ q @ y" by blast
  have b: "buf b = (pre @ x @ p) @ rest" using Cons.prems(2) pr(1) by simp
  have "length ((pre @ x @ p) @ y) \<le> length (pre @ z)"
    using child_prefix_length [OF pr(4) y(2)] pr(3) y(3) by simp
  from Cons.IH [OF pr(5) b Cons.prems(3) y(1) cbb_room_less [OF Cons.prems(5) this]]
  obtain b1 where b1: "cbb_flush_chain b fs = (b1, [], True)" by blast
  from flush_chain_True [OF pr(5) b Cons.prems(3) b1] y(1) have
    B: "buf b1 = (pre @ x) @ p @ y" "cbb_fits b1" "same_env b b1" by auto
  have "cbb_room b1 (length ((pre @ x) @ q @ y))"
    using same_env_room [OF B(3) Cons.prems(5)] y(3) by simp
  from close_child_room [OF B(2,1) _ pr(3,4) y(2) this] pr(2)
  have "snd (cbb_close_child b1 f)" by simp
  then show ?case using b1 pr(4) Cons.prems(3)
    by (cases "cbb_close_child b1 f") (auto simp: child_ok_def cbb_fits_def)
qed

subsection \<open>States and the contract of an operation\<close>

definition cbb_holds :: "cbb \<Rightarrow> cbb_buffer \<Rightarrow> bytes list \<Rightarrow> bool" where
  "cbb_holds c b xs \<longleftrightarrow> base c = Some b \<and> cbb_fits b \<and> cbb_rep 0 (frames c) (buf b) xs"

text \<open>Where the contents of level \<open>d\<close> begin.\<close>

definition level_start :: "nat \<Rightarrow> cbb_child list \<Rightarrow> nat" where
  "level_start d fs =
     (if d = 0 then 0 else unat (offset (fs ! (d - 1))) + unat (pending_len_len (fs ! (d - 1))))"

definition cbb_writes :: "nat \<Rightarrow> cbb_op \<Rightarrow> bytes \<Rightarrow> bool" where
  "cbb_writes d f bs \<longleftrightarrow>
     (\<forall>c b xs c'. cbb_holds c b xs \<longrightarrow> d \<le> length (frames c) \<longrightarrow> f c = (c', True) \<longrightarrow>
        (\<exists>y b'. closed (drop d (frames c)) (drop d xs) = Some y \<and> frames c' = take d (frames c) \<and>
           cbb_holds c' b' (take d xs @ [y @ bs]) \<and> same_env b b')) \<and>
     (\<forall>c b xs y. cbb_holds c b xs \<longrightarrow> d \<le> length (frames c) \<longrightarrow>
        closed (drop d (frames c)) (drop d xs) = Some y \<longrightarrow>
        cbb_room b (level_start d (frames c) + length y + length bs) \<longrightarrow> snd (f c))"

lemma cbb_writesD:
  assumes "cbb_writes d f bs" and "cbb_holds c b xs" and "d \<le> length (frames c)"
  shows "f c = (c', True) \<Longrightarrow> \<exists>y b'. closed (drop d (frames c)) (drop d xs) = Some y \<and>
      frames c' = take d (frames c) \<and> cbb_holds c' b' (take d xs @ [y @ bs]) \<and> same_env b b'"
    and "closed (drop d (frames c)) (drop d xs) = Some y \<Longrightarrow>
      cbb_room b (level_start d (frames c) + length y + length bs) \<Longrightarrow> \<exists>c'. f c = (c', True)"
proof -
  show "f c = (c', True) \<Longrightarrow> \<exists>y b'. closed (drop d (frames c)) (drop d xs) = Some y \<and>
      frames c' = take d (frames c) \<and> cbb_holds c' b' (take d xs @ [y @ bs]) \<and> same_env b b'"
    using assms unfolding cbb_writes_def by blast
  assume "closed (drop d (frames c)) (drop d xs) = Some y"
    "cbb_room b (level_start d (frames c) + length y + length bs)"
  then have "snd (f c)" using assms unfolding cbb_writes_def by blast
  then show "\<exists>c'. f c = (c', True)" by (cases "f c") auto
qed

text \<open>The chain splits at every level.\<close>

lemma cbb_rep_length: "cbb_rep start fs bs xs \<Longrightarrow> length xs = Suc (length fs)"
  by (induction start fs bs xs rule: cbb_rep.induct) auto

lemma cbb_rep_split:
  "cbb_rep start fs bs xs \<Longrightarrow> d \<le> length fs \<Longrightarrow>
   \<exists>bs1 bs2. bs = bs1 @ bs2 \<and>
     start + length bs1 = (if d = 0 then start else
       unat (offset (fs ! (d - 1))) + unat (pending_len_len (fs ! (d - 1)))) \<and>
     cbb_rep (start + length bs1) (drop d fs) bs2 (drop d xs) \<and>
     (\<forall>gs cs ys. cbb_rep (start + length bs1) gs cs ys \<longrightarrow>
        cbb_rep start (take d fs @ gs) (bs1 @ cs) (take d xs @ ys))"
proof (induction d arbitrary: start fs bs xs)
  case 0
  then show ?case by (intro exI [of _ "[]"] exI [of _ bs]) simp
next
  case (Suc d)
  then obtain f fs' where fs: "fs = f # fs'" by (cases fs) auto
  with Suc.prems obtain x xs' where xs: "xs = x # xs'" by (cases xs) auto
  obtain p rest where pr: "bs = x @ p @ rest" "unat (offset f) = start + length x"
      "length p = unat (pending_len_len f)" "child_ok f"
      "cbb_rep (start + length x + length p) fs' rest xs'"
    using Suc.prems(1) by (auto simp: xs fs)
  have "d \<le> length fs'" using Suc.prems(2) fs by simp
  from Suc.IH [OF pr(5) this] obtain bs1 bs2 where b: "rest = bs1 @ bs2"
      "start + length x + length p + length bs1 = (if d = 0 then start + length x + length p else
         unat (offset (fs' ! (d - 1))) + unat (pending_len_len (fs' ! (d - 1))))"
      "cbb_rep (start + length x + length p + length bs1) (drop d fs') bs2 (drop d xs')"
      "\<And>gs cs ys. cbb_rep (start + length x + length p + length bs1) gs cs ys \<Longrightarrow>
         cbb_rep (start + length x + length p) (take d fs' @ gs) (bs1 @ cs) (take d xs' @ ys)" by blast
  have "start + length (x @ p @ bs1) = unat (offset (fs ! d)) + unat (pending_len_len (fs ! d))"
    using b(2) pr(2,3) by (cases d) (simp_all add: fs add.assoc)
  moreover have "cbb_rep (start + length (x @ p @ bs1)) (drop (Suc d) fs) bs2 (drop (Suc d) xs)"
    using b(3) by (simp add: fs xs add.assoc)
  moreover have "cbb_rep start (take (Suc d) fs @ gs) ((x @ p @ bs1) @ cs) (take (Suc d) xs @ ys)"
    if "cbb_rep (start + length (x @ p @ bs1)) gs cs ys" for gs cs ys
    using b(4) [of gs cs ys] that pr(2-4) by (auto simp: fs xs add.assoc)
      (rule exI [of _ p], rule exI [of _ "bs1 @ cs"], simp)
  moreover have "bs = (x @ p @ bs1) @ bs2" using pr(1) b(1) by simp
  ultimately show ?case by (intro exI [of _ "x @ p @ bs1"] exI [of _ bs2]) simp
qed

lemma cbb_holds_split:
  assumes "cbb_holds c b xs" and "d \<le> length (frames c)"
  shows "\<exists>bs1 bs2. buf b = bs1 @ bs2 \<and> length bs1 = level_start d (frames c) \<and>
     cbb_rep (length bs1) (drop d (frames c)) bs2 (drop d xs) \<and>
     (\<forall>gs cs ys. cbb_rep (length bs1) gs cs ys \<longrightarrow>
        cbb_rep 0 (take d (frames c) @ gs) (bs1 @ cs) (take d xs @ ys))"
  using cbb_rep_split [of 0 "frames c" "buf b" xs d] assms
  by (auto simp: cbb_holds_def level_start_def split: if_splits)

lemma CBB_flush_base:
  "base c = Some b \<Longrightarrow> d \<le> length (frames c) \<Longrightarrow> CBB_flush d c =
     (case cbb_flush_chain b (drop d (frames c)) of
        (b', fs, ok) \<Rightarrow> (c\<lparr>base := Some b', frames := take d (frames c) @ fs\<rparr>, ok))"
  by (simp add: CBB_flush_def)

lemma cbb_writes_flush: "cbb_writes d (CBB_flush d) []"
  unfolding cbb_writes_def
proof (intro conjI allI impI)
  fix c :: cbb and b :: cbb_buffer and xs c'
  assume h: "cbb_holds c b xs" and d: "d \<le> length (frames c)" and f: "CBB_flush d c = (c', True)"
  from cbb_holds_split [OF h d] obtain bs1 bs2 where s: "buf b = bs1 @ bs2"
      "cbb_rep (length bs1) (drop d (frames c)) bs2 (drop d xs)"
      "\<And>gs cs ys. cbb_rep (length bs1) gs cs ys \<Longrightarrow>
         cbb_rep 0 (take d (frames c) @ gs) (bs1 @ cs) (take d xs @ ys)" by blast
  obtain b' fs where ch: "cbb_flush_chain b (drop d (frames c)) = (b', fs, True)"
    and c': "c' = c\<lparr>base := Some b', frames := take d (frames c) @ fs\<rparr>"
    using f h d by (auto simp: CBB_flush_base cbb_holds_def split: prod.splits)
  have fits: "cbb_fits b" using h by (simp add: cbb_holds_def)
  from flush_chain_True [OF s(2,1) fits ch] obtain y where
    y: "closed (drop d (frames c)) (drop d xs) = Some y" "buf b' = bs1 @ y" "fs = []"
      "cbb_fits b'" "same_env b b'" by blast
  have "cbb_rep 0 (take d (frames c) @ []) (bs1 @ y) (take d xs @ [y])" by (rule s(3)) simp
  then have "cbb_holds c' b' (take d xs @ [y @ []])" using y by (simp add: cbb_holds_def c')
  with y show "\<exists>y b'. closed (drop d (frames c)) (drop d xs) = Some y \<and> frames c' = take d (frames c) \<and>
      cbb_holds c' b' (take d xs @ [y @ []]) \<and> same_env b b'" by (auto simp: c')
next
  fix c :: cbb and b :: cbb_buffer and xs y
  assume h: "cbb_holds c b xs" and d: "d \<le> length (frames c)"
    and y: "closed (drop d (frames c)) (drop d xs) = Some y"
    and room: "cbb_room b (level_start d (frames c) + length y + length [])"
  from cbb_holds_split [OF h d] obtain bs1 bs2 where s: "buf b = bs1 @ bs2"
      "length bs1 = level_start d (frames c)"
      "cbb_rep (length bs1) (drop d (frames c)) bs2 (drop d xs)" by blast
  have "cbb_fits b" using h by (simp add: cbb_holds_def)
  from flush_chain_room [OF s(3,1) this y] room s(2)
  show "snd (CBB_flush d c)" using h d by (auto simp: CBB_flush_base cbb_holds_def)
qed

text \<open>Sequences, and a flush followed by work on the buffer.\<close>

lemma closed_top: "closed [] [y] = Some y"
  by simp

lemma cbb_holds_length: "cbb_holds c b xs \<Longrightarrow> length xs = Suc (length (frames c))"
  by (auto simp: cbb_holds_def dest: cbb_rep_length)

lemma level_start_take: "level_start d (take d fs) = level_start d fs"
  by (cases d) (simp_all add: level_start_def)

lemma cbb_writes_and:
  assumes f: "cbb_writes d f bs" and g: "cbb_writes d g cs"
  shows "cbb_writes d (cbb_and f g) (bs @ cs)"
  unfolding cbb_writes_def
proof (intro conjI allI impI)
  fix c :: cbb and b :: cbb_buffer and xs c'
  assume h: "cbb_holds c b xs" and d: "d \<le> length (frames c)" and r: "cbb_and f g c = (c', True)"
  obtain c1 where c1: "f c = (c1, True)" "g c1 = (c', True)"
    using r by (auto simp: cbb_and_def split: prod.splits bool.splits)
  from cbb_writesD(1) [OF f h d c1(1)] obtain y b1 where y:
    "closed (drop d (frames c)) (drop d xs) = Some y" "frames c1 = take d (frames c)"
    "cbb_holds c1 b1 (take d xs @ [y @ bs])" "same_env b b1" by blast
  have d1: "d \<le> length (frames c1)" and l: "length (take d xs) = d"
    using y(2) d cbb_holds_length [OF h] by simp_all
  from cbb_writesD(1) [OF g y(3) d1 c1(2)] obtain b2 where
    "frames c' = take d (frames c)" "cbb_holds c' b2 (take d xs @ [y @ bs @ cs])" "same_env b1 b2"
    using y(2) l d by auto
  with y(1,4) show "\<exists>y b'. closed (drop d (frames c)) (drop d xs) = Some y \<and>
      frames c' = take d (frames c) \<and> cbb_holds c' b' (take d xs @ [y @ bs @ cs]) \<and> same_env b b'"
    by (blast intro: same_env_trans)
next
  fix c :: cbb and b :: cbb_buffer and xs y
  assume h: "cbb_holds c b xs" and d: "d \<le> length (frames c)"
    and y: "closed (drop d (frames c)) (drop d xs) = Some y"
    and room: "cbb_room b (level_start d (frames c) + length y + length (bs @ cs))"
  have "cbb_room b (level_start d (frames c) + length y + length bs)"
    by (rule cbb_room_less [OF room]) simp
  from cbb_writesD(2) [OF f h d y this] obtain c1 where c1: "f c = (c1, True)" by blast
  from cbb_writesD(1) [OF f h d c1] y obtain b1 where b1: "frames c1 = take d (frames c)"
    "cbb_holds c1 b1 (take d xs @ [y @ bs])" "same_env b b1" by auto
  have d1: "d \<le> length (frames c1)" and l: "length (take d xs) = d"
    using b1(1) d cbb_holds_length [OF h] by simp_all
  have cl: "closed (drop d (frames c1)) (drop d (take d xs @ [y @ bs])) = Some (y @ bs)"
    using b1(1) l d by simp
  have "cbb_room b1 (level_start d (frames c1) + length (y @ bs) + length cs)"
    using same_env_room [OF b1(3) room] b1(1) by (simp add: level_start_take add.assoc)
  from cbb_writesD(2) [OF g b1(2) d1 cl this] show "snd (cbb_and f g c)"
    using c1 by (auto simp: cbb_and_def)
qed

text \<open>The base operations.\<close>

lemma cbb_writes_flush_then:
  assumes ok: "\<And>b b'. cbb_fits b \<Longrightarrow> f b = (b', True) \<Longrightarrow>
      buf b' = buf b @ bs \<and> same_env b b' \<and> cbb_fits b'"
    and room: "\<And>b. cbb_fits b \<Longrightarrow> cbb_room b (length (buf b) + length bs) \<Longrightarrow> snd (f b)"
  shows "cbb_writes d (cbb_flush_then d f) bs"
  unfolding cbb_writes_def
proof (intro conjI allI impI)
  fix c :: cbb and b :: cbb_buffer and xs c'
  assume h: "cbb_holds c b xs" and d: "d \<le> length (frames c)" and r: "cbb_flush_then d f c = (c', True)"
  obtain c1 b1 b2 where c1: "CBB_flush d c = (c1, True)" "base c1 = Some b1" "f b1 = (b2, True)"
      "c' = c1\<lparr>base := Some b2\<rparr>"
    using r by (auto simp: cbb_flush_then_def split: prod.splits bool.splits option.splits)
  from cbb_writesD(1) [OF cbb_writes_flush h d c1(1)] c1(2) obtain y where y:
    "closed (drop d (frames c)) (drop d xs) = Some y" "frames c1 = take d (frames c)"
    "cbb_holds c1 b1 (take d xs @ [y])" "same_env b b1" by (auto simp: cbb_holds_def)
  from y(3) have fits: "cbb_fits b1" by (simp add: cbb_holds_def)
  note ok' = ok [OF fits c1(3)]
  have l: "length (take d xs) = d" and fr: "length (frames c1) = d"
    using y(2) d cbb_holds_length [OF h] by simp_all
  from cbb_holds_split [OF y(3), of d] fr l obtain bs1 where s: "buf b1 = bs1 @ y"
      "\<And>gs cs ys. cbb_rep (length bs1) gs cs ys \<Longrightarrow>
         cbb_rep 0 (take d (frames c1) @ gs) (bs1 @ cs) (take d (take d xs @ [y]) @ ys)" by auto
  have "cbb_rep 0 (take d (frames c1) @ []) (bs1 @ (y @ bs)) (take d (take d xs @ [y]) @ [y @ bs])"
    by (rule s(2)) simp
  then have "cbb_holds c' b2 (take d xs @ [y @ bs])"
    using ok' c1(4) s(1) fr l by (simp add: cbb_holds_def)
  then show "\<exists>y b'. closed (drop d (frames c)) (drop d xs) = Some y \<and>
      frames c' = take d (frames c) \<and> cbb_holds c' b' (take d xs @ [y @ bs]) \<and> same_env b b'"
    using y(1,2,4) ok' c1(4) by (auto intro: same_env_trans)
next
  fix c :: cbb and b :: cbb_buffer and xs y
  assume h: "cbb_holds c b xs" and d: "d \<le> length (frames c)"
    and y: "closed (drop d (frames c)) (drop d xs) = Some y"
    and room': "cbb_room b (level_start d (frames c) + length y + length bs)"
  have "cbb_room b (level_start d (frames c) + length y + length [])"
    by (rule cbb_room_less [OF room']) simp
  from cbb_writesD(2) [OF cbb_writes_flush h d y this] obtain c1 where c1: "CBB_flush d c = (c1, True)"
    by blast
  from cbb_writesD(1) [OF cbb_writes_flush h d c1] y obtain b1 where b1: "frames c1 = take d (frames c)"
    "cbb_holds c1 b1 (take d xs @ [y])" "same_env b b1" by auto
  have l: "length (take d xs) = d" and fr: "length (frames c1) = d"
    using b1(1) d cbb_holds_length [OF h] by simp_all
  from cbb_holds_split [OF b1(2), of d] fr l obtain bs1 where
    "buf b1 = bs1 @ y" "length bs1 = level_start d (frames c1)" by auto
  then have "cbb_room b1 (length (buf b1) + length bs)"
    using same_env_room [OF b1(3) room'] b1(1) by (simp add: level_start_take)
  then have "snd (f b1)" using b1(2) by (auto simp: cbb_holds_def intro: room)
  then show "snd (cbb_flush_then d f c)" using c1 b1(2)
    by (auto simp: cbb_flush_then_def cbb_holds_def split: prod.splits)
qed

lemma cbb_writes_bytes:
  "length data < 2 ^ 64 \<Longrightarrow> cbb_writes d (CBB_add_bytes d data) data"
  unfolding CBB_add_bytes_def
  by (rule cbb_writes_flush_then) (auto dest: buffer_add_True intro: buffer_add_room)

lemma cbb_writes_u:
  assumes "0 < k" and "k \<le> 8" and "unat v < 2 ^ (8 * k)"
  shows "cbb_writes d (cbb_flush_then d (\<lambda>b. cbb_buffer_add_u b v k)) (be_bytes k v)"
proof (rule cbb_writes_flush_then)
  show "buf b' = buf b @ be_bytes k v \<and> same_env b b' \<and> cbb_fits b'"
    if "cbb_fits b" "cbb_buffer_add_u b v k = (b', True)" for b b'
    using buffer_add_u_True [OF that assms(2)] assms(1) by auto
  show "snd (cbb_buffer_add_u b v k)" if "cbb_fits b" "cbb_room b (length (buf b) + length (be_bytes k v))" for b
    using buffer_add_u_room [OF that(1) _ assms(3,2)] that(2) by simp
qed

lemma be_bytes_ucast:
  assumes "8 * n \<le> LENGTH('a)" and "LENGTH('a) \<le> LENGTH('b)"
  shows "be_bytes n (ucast (v :: 'a::len word) :: 'b::len word) = be_bytes n v"
proof -
  have "le_bytes n (ucast v :: 'b word) = le_bytes n v"
    using assms
  proof (induction n v rule: le_bytes.induct)
    case (2 n v)
    have u: "(ucast (ucast v :: 'b word) :: u8) = ucast v"
      by (rule bit_word_eqI) (use 2 in \<open>auto simp: bit_simps\<close>)
    have d: "drop_bit 8 (ucast v :: 'b word) = ucast (drop_bit 8 v)"
      by (rule bit_word_eqI) (use 2 in \<open>auto simp: bit_simps dest: bit_imp_le_length\<close>)
    show ?case using 2 by (simp add: u d)
  qed simp
  then show ?thesis by (simp add: be_bytes_def)
qed

lemma ucast_ucast_u8: "(ucast (ucast (v :: u8) :: u64) :: u8) = v"
  by (rule bit_word_eqI) (auto simp: bit_simps)

lemma cbb_writes_u8: "cbb_writes d (CBB_add_u8 d v) [v]"
  using cbb_writes_u [of 1 "ucast v" d] unat_word8_lt [of v]
  by (simp add: CBB_add_u8_def unat_ucast_less be_bytes_def ucast_ucast_u8)

lemma cbb_writes_u16: "cbb_writes d (CBB_add_u16 d v) (be_bytes 2 v)"
  using cbb_writes_u [of 2 "ucast v" d] unsigned_less [of v]
  by (simp add: CBB_add_u16_def unat_ucast_less be_bytes_ucast)

lemma cbb_writes_u24: "unat v < 2 ^ 24 \<Longrightarrow> cbb_writes d (CBB_add_u24 d v) (be_bytes 3 v)"
  using cbb_writes_u [of 3 "ucast v" d]
  by (simp add: CBB_add_u24_def unat_ucast_less be_bytes_ucast)

lemma cbb_writes_u32: "cbb_writes d (CBB_add_u32 d v) (be_bytes 4 v)"
  using cbb_writes_u [of 4 "ucast v" d] unat_word32_lt [of v]
  by (simp add: CBB_add_u32_def unat_ucast_less be_bytes_ucast)

lemma cbb_writes_u64: "cbb_writes d (CBB_add_u64 d v) (be_bytes 8 v)"
  using cbb_writes_u [of 8 v d] unat_word64_lt [of v] by (simp add: CBB_add_u64_def)

text \<open>The little-endian writers.\<close>

lemma bswap_be_bytes:
  fixes v :: "'a::len word"
  assumes sw: "\<And>bs. length bs = n \<Longrightarrow> swap (be_word bs :: 'a word) = (le_word bs :: 'a word)"
    and n: "8 * n = LENGTH('a)"
  shows "be_bytes n (swap v) = le_bytes n v"
proof -
  have "be_word (be_bytes n v) = v" using n by (simp add: be_word_be_bytes take_bit_word_eq_self)
  then have "swap v = le_word (be_bytes n v)" using sw [of "be_bytes n v"] by simp
  then have "le_bytes n (swap v) = be_bytes n v"
    using le_bytes_le_word [of "be_bytes n v", where 'a = 'a] n by simp
  then show ?thesis by (simp add: be_bytes_def)
qed

lemma cbb_writes_u16le: "cbb_writes d (CBB_add_u16le d v) (le_bytes 2 v)"
  using cbb_writes_u16 [of d "CRYPTO_bswap2 v"] bswap_be_bytes [of 2 CRYPTO_bswap2 v]
  by (simp add: CBB_add_u16le_def CRYPTO_bswap2_be_word)

lemma cbb_writes_u32le: "cbb_writes d (CBB_add_u32le d v) (le_bytes 4 v)"
  using cbb_writes_u32 [of d "CRYPTO_bswap4 v"] bswap_be_bytes [of 4 CRYPTO_bswap4 v]
  by (simp add: CBB_add_u32le_def CRYPTO_bswap4_be_word)

lemma cbb_writes_u64le: "cbb_writes d (CBB_add_u64le d v) (le_bytes 8 v)"
  using cbb_writes_u64 [of d "CRYPTO_bswap8 v"] bswap_be_bytes [of 8 CRYPTO_bswap8 v]
  by (simp add: CBB_add_u64le_def CRYPTO_bswap8_be_word)

lemma cbb_and_done [simp]: "cbb_and f cbb_done = f"
  by (rule ext) (simp add: cbb_and_def cbb_done_def split: prod.splits bool.splits)

subsection \<open>Children\<close>

text \<open>\<open>f\<close> writes \<open>p\<close> at depth \<open>d\<close> and opens a child with a placeholder of
  \<open>l\<close> bytes.\<close>

definition cbb_opens :: "nat \<Rightarrow> cbb_op \<Rightarrow> bytes \<Rightarrow> bool \<Rightarrow> u8 \<Rightarrow> bool" where
  "cbb_opens d f p asn1 l \<longleftrightarrow>
     (\<forall>c b xs c'. cbb_holds c b xs \<longrightarrow> d \<le> length (frames c) \<longrightarrow> f c = (c', True) \<longrightarrow>
        (\<exists>y b' ch. closed (drop d (frames c)) (drop d xs) = Some y \<and>
           frames c' = take d (frames c) @ [ch] \<and> pending_is_asn1 ch = asn1 \<and> pending_len_len ch = l \<and>
           cbb_holds c' b' (take d xs @ [y @ p, []]) \<and> same_env b b')) \<and>
     (\<forall>c b xs y. cbb_holds c b xs \<longrightarrow> d \<le> length (frames c) \<longrightarrow>
        closed (drop d (frames c)) (drop d xs) = Some y \<longrightarrow>
        cbb_room b (level_start d (frames c) + length y + length p + unat l) \<longrightarrow> snd (f c))"

lemma cbb_opensD:
  assumes "cbb_opens d f p a l" and "cbb_holds c b xs" and "d \<le> length (frames c)"
  shows "f c = (c', True) \<Longrightarrow> \<exists>y b' ch. closed (drop d (frames c)) (drop d xs) = Some y \<and>
      frames c' = take d (frames c) @ [ch] \<and> pending_is_asn1 ch = a \<and> pending_len_len ch = l \<and>
      cbb_holds c' b' (take d xs @ [y @ p, []]) \<and> same_env b b'"
    and "closed (drop d (frames c)) (drop d xs) = Some y \<Longrightarrow>
      cbb_room b (level_start d (frames c) + length y + length p + unat l) \<Longrightarrow> \<exists>c'. f c = (c', True)"
proof -
  show "f c = (c', True) \<Longrightarrow> \<exists>y b' ch. closed (drop d (frames c)) (drop d xs) = Some y \<and>
      frames c' = take d (frames c) @ [ch] \<and> pending_is_asn1 ch = a \<and> pending_len_len ch = l \<and>
      cbb_holds c' b' (take d xs @ [y @ p, []]) \<and> same_env b b'"
    using assms unfolding cbb_opens_def by blast
  assume "closed (drop d (frames c)) (drop d xs) = Some y"
    "cbb_room b (level_start d (frames c) + length y + length p + unat l)"
  then have "snd (f c)" using assms unfolding cbb_opens_def by blast
  then show "\<exists>c'. f c = (c', True)" by (cases "f c") auto
qed

definition prefix_of :: "bool \<Rightarrow> u8 \<Rightarrow> nat \<Rightarrow> bytes option" where
  "prefix_of asn1 l n =
     (if asn1 then (if n \<le> 0xFFFFFFFE then Some (der_length n) else None)
      else if n < 2 ^ (8 * unat l) then Some (be_bytes (unat l) (of_nat n :: u64)) else None)"

lemma child_prefix_of: "child_prefix f n = prefix_of (pending_is_asn1 f) (pending_len_len f) n"
  by (simp add: child_prefix_def prefix_of_def)

lemma level_start_append: "d \<le> length fs \<Longrightarrow> level_start d (take d fs @ gs) = level_start d fs"
  by (cases d) (simp_all add: level_start_def nth_append)

lemma level_start_child:
  assumes "cbb_holds c1 b1 (xs @ [x, []])" and "frames c1 = take d fs @ [ch]"
    and "d \<le> length fs" and "length xs = d"
  shows "level_start (d + 1) (frames c1) = level_start d fs + length x + unat (pending_len_len ch)"
proof -
  have dl: "d \<le> length (frames c1)" using assms(2,3) by simp
  obtain bs1 bs2 :: bytes where s: "length bs1 = level_start d (frames c1)"
      "cbb_rep (length bs1) (drop d (frames c1)) bs2 (drop d (xs @ [x, []]))"
    using cbb_holds_split [OF assms(1) dl] by blast
  have "unat (offset ch) = length bs1 + length x" using s(2) assms by auto
  then show ?thesis using s(1) assms level_start_append [OF assms(3), of "[ch]"]
    by (simp add: level_start_def nth_append split: if_splits)
qed

text \<open>A child, filled and closed again.\<close>

lemma cbb_child_True:
  assumes f: "cbb_opens d f p a l" and g: "cbb_writes (d + 1) g bs"
    and h: "cbb_holds c b xs" and d: "d \<le> length (frames c)"
    and r: "cbb_all [f, g, CBB_flush d] c = (c', True)"
  shows "\<exists>y b' q. closed (drop d (frames c)) (drop d xs) = Some y \<and> prefix_of a l (length bs) = Some q \<and>
    frames c' = take d (frames c) \<and> cbb_holds c' b' (take d xs @ [y @ p @ q @ bs]) \<and> same_env b b'"
proof -
  obtain c1 c2 where c1: "f c = (c1, True)" "g c1 = (c2, True)" "CBB_flush d c2 = (c', True)"
    using r by (auto simp: cbb_and_def cbb_done_def split: prod.splits bool.splits)
  from cbb_opensD(1) [OF f h d c1(1)] obtain y b1 ch where y:
    "closed (drop d (frames c)) (drop d xs) = Some y" "frames c1 = take d (frames c) @ [ch]"
    "pending_is_asn1 ch = a" "pending_len_len ch = l"
    "cbb_holds c1 b1 (take d xs @ [y @ p, []])" "same_env b b1" by blast
  have l: "length (take d xs) = d" using d cbb_holds_length [OF h] by simp
  have d1: "d + 1 \<le> length (frames c1)" and fr: "length (take d (frames c)) = d" using y(2) d by simp_all
  from cbb_writesD(1) [OF g y(5) d1 c1(2)] obtain b2 where b2: "frames c2 = take d (frames c) @ [ch]"
    "cbb_holds c2 b2 (take d xs @ [y @ p, bs])" "same_env b1 b2"
    using y(2) l fr by auto
  have d2: "d \<le> length (frames c2)" using b2(1) d by simp
  from cbb_writesD(1) [OF cbb_writes_flush b2(2) d2 c1(3)] obtain z b3 where
    z: "closed [ch] [y @ p, bs] = Some z" "frames c' = take d (frames c)"
      "cbb_holds c' b3 (take d xs @ [z])" "same_env b2 b3"
    using b2(1) l fr by auto
  have env: "same_env b b3" by (rule same_env_trans [OF y(6) same_env_trans [OF b2(3) z(4)]])
  obtain q where "prefix_of a l (length bs) = Some q" "z = y @ p @ q @ bs"
    using z(1) y(3,4) by (auto simp: child_prefix_of)
  then show ?thesis using y(1) z(2,3) env by blast
qed

lemma cbb_writes_child:
  assumes f: "cbb_opens d f p a l" and g: "cbb_writes (d + 1) g bs"
    and q: "prefix_of a l (length bs) = Some q" and l8: "unat l \<le> length q"
  shows "cbb_writes d (cbb_all [f, g, CBB_flush d]) (p @ q @ bs)"
  unfolding cbb_writes_def
proof (intro conjI allI impI)
  fix c :: cbb and b :: cbb_buffer and xs c'
  assume h: "cbb_holds c b xs" and d: "d \<le> length (frames c)"
    and r: "cbb_all [f, g, CBB_flush d] c = (c', True)"
  from cbb_child_True [OF f g h d r] q
  show "\<exists>y b'. closed (drop d (frames c)) (drop d xs) = Some y \<and> frames c' = take d (frames c) \<and>
      cbb_holds c' b' (take d xs @ [y @ p @ q @ bs]) \<and> same_env b b'" by auto
next
  fix c :: cbb and b :: cbb_buffer and xs y
  assume h: "cbb_holds c b xs" and d: "d \<le> length (frames c)"
    and y: "closed (drop d (frames c)) (drop d xs) = Some y"
    and room: "cbb_room b (level_start d (frames c) + length y + length (p @ q @ bs))"
  have "cbb_room b (level_start d (frames c) + length y + length p + unat l)"
    by (rule cbb_room_less [OF room]) (use l8 in simp)
  from cbb_opensD(2) [OF f h d y this] obtain c1 where c1: "f c = (c1, True)" by blast
  from cbb_opensD(1) [OF f h d c1] y obtain b1 ch where b1: "frames c1 = take d (frames c) @ [ch]"
    "pending_is_asn1 ch = a" "pending_len_len ch = l" "cbb_holds c1 b1 (take d xs @ [y @ p, []])"
    "same_env b b1" by auto
  have l: "length (take d xs) = d" and fr: "length (take d (frames c)) = d"
    using d cbb_holds_length [OF h] by simp_all
  have d1: "d + 1 \<le> length (frames c1)" using b1(1) d by simp
  have ls: "level_start (d + 1) (frames c1) = level_start d (frames c) + length y + length p + unat l"
    using level_start_child [OF b1(4,1) d l] b1(3) by simp
  have "closed (drop (d + 1) (frames c1)) (drop (d + 1) (take d xs @ [y @ p, []])) = Some []"
    using b1(1) l fr by simp
  moreover have "cbb_room b1 (level_start (d + 1) (frames c1) + length [] + length bs)"
    by (rule cbb_room_less [OF same_env_room [OF b1(5) room]]) (use ls l8 in simp)
  ultimately obtain c2 where c2: "g c1 = (c2, True)" using cbb_writesD(2) [OF g b1(4) d1] by blast
  from cbb_writesD(1) [OF g b1(4) d1 c2] obtain b2 where b2: "frames c2 = take d (frames c) @ [ch]"
    "cbb_holds c2 b2 (take d xs @ [y @ p, bs])" "same_env b1 b2"
    using b1(1) l fr by auto
  have "closed (drop d (frames c2)) (drop d (take d xs @ [y @ p, bs])) = Some (y @ p @ q @ bs)"
    using b2(1) l fr q b1(2,3) by (simp add: child_prefix_of)
  moreover have "cbb_room b2 (level_start d (frames c2) + length (y @ p @ q @ bs) + length [])"
    using same_env_room [OF same_env_trans [OF b1(5) b2(3)] room] level_start_append [OF d] b2(1)
    by (simp add: add.assoc)
  ultimately obtain c3 where "CBB_flush d c2 = (c3, True)"
    using cbb_writesD(2) [OF cbb_writes_flush b2(2)] b2(1) d by fastforce
  then show "snd (cbb_all [f, g, CBB_flush d] c)" using c1 c2 by (simp add: cbb_and_def cbb_done_def)
qed

end
