(* ===== verification/Asn1Spec.thy ===== *)
theory Asn1Spec
  imports CbbSpec
begin

text \<open>
  The writers of \<open>cbb.c\<close> meet the contract \<open>cbb_writes\<close> with the reference encodings of
  theory \<open>Der\<close>; together with the canonical readers this is the locale \<open>cbb_codec\<close>, whose
  lemma says that what was built is read back.
\<close>

subsection \<open>Opening children\<close>

lemma cbb_opens_intro:
  assumes f: "cbb_writes d f p" and g: "cbb_writes d g ph" and len: "length ph = unat l"
    and ok: "child_ok \<lparr>offset = 0, pending_len_len = l, pending_is_asn1 = a\<rparr>"
    and op: "\<And>c b xs. cbb_holds c b xs \<Longrightarrow> d \<le> length (frames c) \<Longrightarrow> op c =
      (case f c of (c1, False) \<Rightarrow> (c1, False)
       | (c1, True) \<Rightarrow> (case g c1 of (c2, False) \<Rightarrow> (c2, False)
          | (c2, True) \<Rightarrow> (cbb_open_child d
               \<lparr>offset = cbb_len c1, pending_len_len = l, pending_is_asn1 = a\<rparr> c2, True)))"
  shows "cbb_opens d op p a l"
  unfolding cbb_opens_def
proof (intro conjI allI impI)
  fix c :: cbb and b :: cbb_buffer and xs c'
  assume h: "cbb_holds c b xs" and d: "d \<le> length (frames c)" and r: "op c = (c', True)"
  obtain c1 c2 where c1: "f c = (c1, True)" "g c1 = (c2, True)"
      "c' = cbb_open_child d \<lparr>offset = cbb_len c1, pending_len_len = l, pending_is_asn1 = a\<rparr> c2"
    using r op [OF h d] by (auto split: prod.splits bool.splits)
  let ?ch = "\<lparr>offset = cbb_len c1, pending_len_len = l, pending_is_asn1 = a\<rparr>"
  from cbb_writesD(1) [OF f h d c1(1)] obtain y b1 where y:
    "closed (drop d (frames c)) (drop d xs) = Some y" "frames c1 = take d (frames c)"
    "cbb_holds c1 b1 (take d xs @ [y @ p])" "same_env b b1" by blast
  have l: "length (take d xs) = d" and fr: "length (frames c1) = d"
    using y(2) d cbb_holds_length [OF h] by simp_all
  have d1: "d \<le> length (frames c1)" using fr by simp
  from cbb_writesD(1) [OF g y(3) d1 c1(2)] l fr obtain b2 where b2: "frames c2 = take d (frames c)"
    "cbb_holds c2 b2 (take d xs @ [y @ p @ ph])" "same_env b1 b2" using y(2) by auto
  have d2: "d \<le> length (frames c2)" using b2(1) d by simp
  from cbb_holds_split [OF y(3) d1] l fr obtain bs1 :: bytes where
    s1: "buf b1 = bs1 @ y @ p" "length bs1 = level_start d (frames c1)" by auto
  from cbb_holds_split [OF b2(2) d2] l b2(1) obtain bs2 :: bytes where
    s2: "buf b2 = bs2 @ y @ p @ ph" "length bs2 = level_start d (frames c2)"
      "\<And>gs cs ys. cbb_rep (length bs2) gs cs ys \<Longrightarrow>
         cbb_rep 0 (take d (frames c2) @ gs) (bs2 @ cs) (take d (take d xs @ [y @ p @ ph]) @ ys)" by auto
  have off: "unat (cbb_len c1) = length bs2 + length (y @ p)"
    using y(3) s1 s2(2) unat_buf_len [of b1] y(2) b2(1) by (simp add: cbb_holds_def cbb_len_def)
  have "cbb_rep (length bs2) [?ch] (y @ p @ ph) [y @ p, []]"
    using off len ok by (auto simp: child_ok_def intro!: exI [of _ ph])
  from s2(3) [OF this] have "cbb_holds c' b2 (take d xs @ [y @ p, []])"
    using b2 s2(1) l by (simp add: cbb_holds_def c1(3) cbb_open_child_def)
  then show "\<exists>y b' ch. closed (drop d (frames c)) (drop d xs) = Some y \<and>
      frames c' = take d (frames c) @ [ch] \<and> pending_is_asn1 ch = a \<and> pending_len_len ch = l \<and>
      cbb_holds c' b' (take d xs @ [y @ p, []]) \<and> same_env b b'"
    using y(1) b2(1) same_env_trans [OF y(4) b2(3)]
    by (intro exI [of _ y] exI [of _ b2] exI [of _ ?ch]) (simp add: c1(3) cbb_open_child_def)
next
  fix c :: cbb and b :: cbb_buffer and xs y
  assume h: "cbb_holds c b xs" and d: "d \<le> length (frames c)"
    and y: "closed (drop d (frames c)) (drop d xs) = Some y"
    and room: "cbb_room b (level_start d (frames c) + length y + length p + unat l)"
  have "cbb_room b (level_start d (frames c) + length y + length (p @ ph))"
    using room len by (simp add: add.assoc)
  from cbb_writesD(2) [OF cbb_writes_and [OF f g] h d y this] obtain c2 where
    "cbb_and f g c = (c2, True)" by blast
  then show "snd (op c)" using op [OF h d] by (auto simp: cbb_and_def split: prod.splits bool.splits)
qed

text \<open>A flush of a level with nothing open below changes nothing.\<close>

lemma CBB_flush_idle:
  "base c = Some b \<Longrightarrow> \<not> error b \<Longrightarrow> length (frames c) = d \<Longrightarrow> CBB_flush d c = (c, True)"
  by (simp add: CBB_flush_def)

lemma cbb_opens_length_prefixed:
  assumes "l \<noteq> 0" and "unat l \<le> 8"
  shows "cbb_opens d (cbb_add_length_prefixed d l) [] False l"
proof (rule cbb_opens_intro)
  show "cbb_writes d (CBB_flush d) []" by (rule cbb_writes_flush)
  show "cbb_writes d (CBB_add_bytes d (replicate (unat l) 0)) (replicate (unat l) 0)"
    using assms(2) by (intro cbb_writes_bytes) simp
  fix c :: cbb and b :: cbb_buffer and xs
  assume h: "cbb_holds c b xs" and d: "d \<le> length (frames c)"
  have idle: "cbb_writes d (CBB_flush d) []" by (rule cbb_writes_flush)
  have "CBB_add_bytes d (replicate (unat l) 0) c1 =
      (case cbb_buffer_add b1 (replicate (unat l) 0) of (b', ok) \<Rightarrow> (c1\<lparr>base := Some b'\<rparr>, ok))"
    and "base c1 = Some b1"
    if "CBB_flush d c = (c1, True)" "base c1 = Some b1" for c1 b1
  proof -
    from cbb_writesD(1) [OF idle h d that(1)] that(2) have "frames c1 = take d (frames c)" "\<not> error b1"
      by (auto simp: cbb_holds_def cbb_fits_def)
    then have "CBB_flush d c1 = (c1, True)" using that(2) d by (intro CBB_flush_idle) auto
    then show "CBB_add_bytes d (replicate (unat l) 0) c1 =
      (case cbb_buffer_add b1 (replicate (unat l) 0) of (b', ok) \<Rightarrow> (c1\<lparr>base := Some b'\<rparr>, ok))"
      using that(2) by (simp add: CBB_add_bytes_def cbb_flush_then_def)
  qed (rule that(2))
  moreover have "base c1 \<noteq> None" if "CBB_flush d c = (c1, True)" for c1
    using cbb_writesD(1) [OF idle h d that] by (auto simp: cbb_holds_def)
  ultimately show "cbb_add_length_prefixed d l c =
      (case CBB_flush d c of (c1, False) \<Rightarrow> (c1, False)
       | (c1, True) \<Rightarrow> (case CBB_add_bytes d (replicate (unat l) 0) c1 of (c2, False) \<Rightarrow> (c2, False)
          | (c2, True) \<Rightarrow> (cbb_open_child d
               \<lparr>offset = cbb_len c1, pending_len_len = l, pending_is_asn1 = False\<rparr> c2, True)))"
    by (fastforce simp: cbb_add_length_prefixed_def cbb_len_def split: prod.splits bool.splits option.splits)
qed (use assms in \<open>simp_all add: child_ok_def\<close>)

subsection \<open>Identifier octets\<close>

definition base128_group :: "u64 \<Rightarrow> nat \<Rightarrow> u8" where
  "base128_group v i =
     (if i \<noteq> 0 then ucast (drop_bit (7 * i) v AND 0x7F) OR 0x80 else ucast (drop_bit (7 * i) v AND 0x7F))"

lemma cbb_writes_done: "cbb_writes d (cbb_and f cbb_done) bs = cbb_writes d f bs"
  by simp

lemma cbb_writes_base128_loop:
  "cbb_writes d (add_base128_loop d v (Suc k)) (map (base128_group v) (rev [0..<Suc k]))"
proof (induction k)
  case 0
  then show ?case using cbb_writes_u8 by (simp add: base128_group_def)
next
  case (Suc k)
  have "cbb_writes d (CBB_add_u8 d (base128_group v (Suc k))) [base128_group v (Suc k)]"
    by (rule cbb_writes_u8)
  from cbb_writes_and [OF this Suc] show ?case
    by (simp add: base128_group_def Let_def add_base128_loop.simps(2) [of d v "Suc k"]
        del: add_base128_loop.simps)
qed

lemma drop7: "drop_bit (7 * Suc i) v = drop_bit (7 * i) (drop_bit 7 (v :: u64))"
  by (simp add: add.commute)

lemma drop7_push7: "drop_bit 57 v = 0 \<Longrightarrow> drop_bit 7 (push_bit 7 (v :: u64)) = v"
  using base128_step(1) [of v 0] by simp

lemma base128_groups:
  "base128_more v = map (\<lambda>i. base128_group (push_bit 7 v) (Suc i)) (rev [0..<base128_len v])"
  if "drop_bit 57 v = 0" for v
  using that
proof (induction v rule: base128_more.induct)
  case (1 v)
  show ?case
  proof (cases "v = 0")
    case True
    then show ?thesis by (simp add: base128_more.simps base128_len.simps)
  next
    case False
    have p7: "drop_bit 7 (push_bit 7 v) = v" by (rule drop7_push7 [OF "1.prems"])
    have d: "drop_bit (7 * Suc (Suc i)) (push_bit 7 v) = drop_bit (7 * Suc i) (push_bit 7 (drop_bit 7 v))" for i
      by (simp add: drop7 p7 drop7_push7 drop_bit_57_7 del: mult_Suc_right drop_bit_drop_bit)
    have "map (\<lambda>i. base128_group (push_bit 7 v) (Suc i)) (rev [0..<Suc n]) =
        map (\<lambda>i. base128_group (push_bit 7 (drop_bit 7 v)) (Suc i)) (rev [0..<n]) @ [base128_group (push_bit 7 v) 1]" for n
    proof -
      have "[0..<Suc n] = 0 # map Suc [0..<n]" by (simp add: map_Suc_upt upt_conv_Cons del: upt_Suc)
      then show ?thesis by (simp add: rev_map o_def base128_group_def d del: upt_Suc mult_Suc_right)
    qed
    moreover have "base128_group (push_bit 7 v) 1 = ucast (v AND 0x7F) OR 0x80"
      using p7 by (simp add: base128_group_def)
    moreover have "0 < v" using False by (simp add: word_gt_0)
    ultimately show ?thesis using False "1.IH" [OF False drop_bit_57_7]
      by (simp add: base128_more.simps [of v] base128_len.simps [of v] del: upt_Suc)
  qed
qed

lemma cbb_writes_base128: "cbb_writes d (add_base128_integer d v) (base128 v)"
proof -
  let ?n = "base128_len (drop_bit 7 v)"
  have k: "(if base128_len v = 0 then 1 else base128_len v) = Suc ?n"
    by (cases "v = 0") (simp_all add: base128_len.simps [of v] base128_len.simps [of 0] word_gt_0)
  have p: "drop_bit (7 * Suc i) (push_bit 7 (drop_bit 7 v)) = drop_bit (7 * Suc i) v" for i
    by (simp add: drop7 drop7_push7 drop_bit_57_7 del: mult_Suc_right drop_bit_drop_bit)
  have "base128 v = map (base128_group v) (rev [0..<Suc ?n])"
  proof -
    have "[0..<Suc ?n] = 0 # map Suc [0..<?n]" by (simp add: map_Suc_upt upt_conv_Cons del: upt_Suc)
    then show ?thesis using base128_groups [OF drop_bit_57_7, of v]
      by (simp add: base128_def rev_map o_def base128_group_def p del: upt_Suc mult_Suc_right)
  qed
  then show ?thesis using cbb_writes_base128_loop [of d v ?n] k
    by (simp add: add_base128_integer_def Let_def del: upt_Suc add_base128_loop.simps)
qed

lemma cbb_writes_tag: "cbb_writes d (add_asn1_tag d t) (der_tag t)"
proof -
  have hi: "(ucast (drop_bit 24 t AND 0xE0) :: u8) = ucast (drop_bit 24 t) AND 0xE0"
    unfolding tag_masks by (rule bit_word_eqI) (auto simp: bit_simps)
  show ?thesis
  proof (cases "t AND CBS_ASN1_TAG_NUMBER_MASK < 0x1F")
    case True
    then show ?thesis using cbb_writes_u8 [of d]
      by (simp add: add_asn1_tag_def der_tag_def Let_def CBS_ASN1_TAG_SHIFT_def hi not_le [symmetric])
  next
    case False
    then have le: "0x1F \<le> t AND CBS_ASN1_TAG_NUMBER_MASK" by simp
    show ?thesis using cbb_writes_and [OF cbb_writes_u8 cbb_writes_base128, of d] False le
      by (simp add: add_asn1_tag_def der_tag_def Let_def CBS_ASN1_TAG_SHIFT_def hi)
  qed
qed

lemma cbb_opens_asn1: "cbb_opens d (CBB_add_asn1 d t) (der_tag t) True 1"
proof (rule cbb_opens_intro)
  show "cbb_writes d (cbb_and (CBB_flush d) (add_asn1_tag d t)) (der_tag t)"
    using cbb_writes_and [OF cbb_writes_flush cbb_writes_tag] by simp
  show "cbb_writes d (CBB_add_u8 d 0) [0]" by (rule cbb_writes_u8)
qed (auto simp: CBB_add_asn1_def Let_def child_ok_def split: prod.splits bool.splits)

subsection \<open>Values\<close>

lemma cbb_writes_u8s: "bs \<noteq> [] \<Longrightarrow> cbb_writes d (cbb_all (map (CBB_add_u8 d) bs)) bs"
proof (induction bs rule: list_nonempty_induct)
  case (single b)
  then show ?case using cbb_writes_u8 by simp
next
  case (cons b bs)
  then show ?case using cbb_writes_and [OF cbb_writes_u8 cons(2)] by simp
qed

lemma asn1_prefix: "n \<le> 0xFFFFFFFE \<Longrightarrow> prefix_of True 1 n = Some (der_length n)"
  by (simp add: prefix_of_def)

lemma der_element_not_Nil [simp]: "der_element t body \<noteq> []"
  using length_der_tag(1) [of t] by (auto simp: der_element_def)

text \<open>An element whose contents \<open>g\<close> writes.\<close>

lemma cbb_writes_element:
  assumes "cbb_writes (d + 1) g bs" and "length bs \<le> 0xFFFFFFFE"
  shows "cbb_writes d (cbb_all [CBB_add_asn1 d t, g, CBB_flush d]) (der_element t bs)"
  using cbb_writes_child [OF cbb_opens_asn1 assms(1) asn1_prefix [OF assms(2)]] length_der_length(1)
  by (simp add: der_element_def Suc_le_eq)

lemma cbb_writes_length_prefixed:
  assumes g: "cbb_writes (d + 1) g bs" and l: "l \<noteq> 0" "unat l \<le> 7" and bs: "length bs < 2 ^ (8 * unat l)"
  shows "cbb_writes d (cbb_all [cbb_add_length_prefixed d l, g, CBB_flush d]) (length_prefixed (unat l) bs)"
proof -
  have "prefix_of False l (length bs) = Some (be_bytes (unat l) (of_nat (length bs) :: u64))"
    using bs by (simp add: prefix_of_def)
  from cbb_writes_child [OF cbb_opens_length_prefixed g this] l show ?thesis
    by (simp add: length_prefixed_def)
qed

lemma cbb_writes_octet_string:
  "length data \<le> 0xFFFFFFFE \<Longrightarrow>
     cbb_writes d (CBB_add_asn1_octet_string d data) (der_element CBS_ASN1_OCTETSTRING data)"
  unfolding CBB_add_asn1_octet_string_def
  by (rule cbb_writes_element) (auto intro: cbb_writes_bytes)

lemma cbb_writes_bool:
  "cbb_writes d (CBB_add_asn1_bool d v) (der_element CBS_ASN1_BOOLEAN [if v then 0xFF else 0])"
  unfolding CBB_add_asn1_bool_def
  by (rule cbb_writes_element) (auto intro: cbb_writes_u8)

text \<open>The loop of \<open>CBB_add_asn1_uint64\<close> is the loop that skips the leading zeros, followed by
  one \<open>CBB_add_u8\<close> per byte.\<close>

lemma add_uint64_bytes_started:
  "add_uint64_bytes d bs True c = (case cbb_all (map (CBB_add_u8 d) bs) c of (c', ok) \<Rightarrow> (c', True, ok))"
  by (induction bs arbitrary: c) (auto simp: cbb_and_def cbb_done_def split: prod.splits bool.splits)

lemma add_uint64_bytes_start:
  "add_uint64_bytes d bs False c =
     (let m = dropWhile (\<lambda>b. b = 0) bs in
      if m = [] then (c, False, True)
      else (case cbb_all (map (CBB_add_u8 d) (if hd m AND 0x80 \<noteq> 0 then 0 # m else m)) c of
              (c', ok) \<Rightarrow> (c', True, ok)))"
  by (induction bs arbitrary: c)
    (auto simp: cbb_and_def cbb_done_def Let_def add_uint64_bytes_started split: prod.splits bool.splits)

lemma uint64_be_bytes:
  "map (\<lambda>i. ucast (drop_bit (8 * (7 - i)) v AND 0xFF)) [0..<8] = be_bytes 8 (v :: u64)"
  by (simp add: and_0xFF_ucast be_bytes_def numeral_eq_Suc upt_rec)

lemma dropWhile_be_bytes:
  "unat v < 2 ^ (8 * n) \<Longrightarrow> dropWhile (\<lambda>b. b = 0) (be_bytes n v) = min_be v"
proof (induction n arbitrary: v)
  case 0
  then have "v = 0" by (simp add: unat_eq_0)
  then show ?case by (simp add: be_bytes_def min_be.simps)
next
  case (Suc n)
  have lt: "unat (drop_bit 8 v) < 2 ^ (8 * n)"
    using Suc.prems unfolding unat_drop_bit_div by (simp add: less_mult_imp_div_less power_add)
  show ?case
  proof (cases "v = 0")
    case True
    then show ?thesis using Suc.IH [OF lt] by (simp add: be_bytes_Suc min_be.simps dropWhile_append)
  next
    case v: False
    show ?thesis
    proof (cases "drop_bit 8 v = 0")
      case True
      then have "(ucast v :: u8) \<noteq> 0" using min_be_join [of v] v by auto
      moreover have "dropWhile (\<lambda>b. b = 0) (be_bytes n (drop_bit 8 v)) = []"
        using Suc.IH [OF lt] True by (simp add: min_be.simps)
      ultimately show ?thesis using v True
        by (simp add: be_bytes_Suc min_be.simps [of v] min_be.simps [of 0] dropWhile_append3 dropWhile_append)
    next
      case False
      then have "dropWhile (\<lambda>b. b = 0) (be_bytes n (drop_bit 8 v)) \<noteq> []"
        using Suc.IH [OF lt] by (simp add: min_be_Nil_iff)
      then have "\<exists>x \<in> set (be_bytes n (drop_bit 8 v)). x \<noteq> 0" by (simp only: dropWhile_eq_Nil_conv) blast
      then show ?thesis using Suc.IH [OF lt] v
        by (auto simp: be_bytes_Suc min_be.simps [of v] dropWhile_append)
    qed
  qed
qed

lemma CBB_add_asn1_uint64_eq:
  "CBB_add_asn1_uint64 d v =
     cbb_all [CBB_add_asn1 d CBS_ASN1_INTEGER, cbb_all (map (CBB_add_u8 (d + 1)) (uint_contents v)),
              CBB_flush d]"
proof
  fix c
  have m: "dropWhile (\<lambda>b. b = 0) (be_bytes 8 v) = min_be v"
    using dropWhile_be_bytes [of v 8] unat_word64_lt [of v] by simp
  show "CBB_add_asn1_uint64 d v c =
     cbb_all [CBB_add_asn1 d CBS_ASN1_INTEGER, cbb_all (map (CBB_add_u8 (d + 1)) (uint_contents v)),
              CBB_flush d] c"
    unfolding CBB_add_asn1_uint64_def uint64_be_bytes add_uint64_bytes_start m uint_contents_def
    by (auto simp: Let_def cbb_and_def cbb_done_def split: prod.splits bool.splits if_splits)
qed

lemma cbb_writes_uint64:
  "cbb_writes d (CBB_add_asn1_uint64 d v) (der_element CBS_ASN1_INTEGER (uint_contents v))"
  unfolding CBB_add_asn1_uint64_eq
proof (rule cbb_writes_element)
  have "uint_contents v \<noteq> []" by (auto simp: uint_contents_def Let_def)
  then show "cbb_writes (d + 1) (cbb_all (map (CBB_add_u8 (d + 1)) (uint_contents v))) (uint_contents v)"
    by (rule cbb_writes_u8s)
  show "length (uint_contents v) \<le> 0xFFFFFFFE" using length_uint_contents [of v] by simp
qed

subsection \<open>What was built is read back\<close>

text \<open>A writer at every depth for a canonical encoding.\<close>

locale cbb_codec = canonical_codec enc dec valid
  for enc :: "'v \<Rightarrow> bytes" and dec :: "'v cbs_reader" and valid :: "'v \<Rightarrow> bool" +
  fixes put :: "nat \<Rightarrow> 'v \<Rightarrow> cbb_op"
  assumes put_writes: "valid v \<Longrightarrow> cbb_writes d (put d v) (enc v)"
begin

text \<open>On a fresh builder.\<close>

lemma put_finish_dec:
  assumes init: "CBB_init mok alloc n = (c, True)" and v: "valid v" and p: "put 0 v c = (c1, True)"
    and f: "CBB_finish want c1 = (c2, Some bs)"
  shows "dec (bs @ rest) = (rest, Some v)"
proof -
  have h: "cbb_holds c \<lparr>buf = [], cap = n, can_resize = True, error = False, alloc_ok = alloc\<rparr> [[]]"
    and fr: "frames c = []"
    using init by (auto simp: CBB_init_def cbb_init_def CBB_zero_def cbb_holds_def cbb_fits_def split: if_splits)
  from cbb_writesD(1) [OF put_writes [OF v] h _ p] obtain b1 where
    "frames c1 = []" "cbb_holds c1 b1 [enc v]" using fr by auto
  then have "bs = enc v" using f
    by (auto simp: CBB_finish_def CBB_flush_def cbb_holds_def cbb_fits_def split: if_splits)
  then show ?thesis using v by (simp add: dec_enc)
qed

text \<open>A sequence of values, written one after the other, is read back value by value.\<close>

lemma put_room:
  assumes "valid v" and "cbb_room \<lparr>buf = [], cap = n, can_resize = True, error = False, alloc_ok = alloc\<rparr>
      (length (enc v))" and "CBB_init mok alloc n = (c, True)"
  shows "\<exists>c1. put 0 v c = (c1, True)"
proof -
  have h: "cbb_holds c \<lparr>buf = [], cap = n, can_resize = True, error = False, alloc_ok = alloc\<rparr> [[]]"
    and fr: "frames c = []"
    using assms(3) by (auto simp: CBB_init_def cbb_init_def CBB_zero_def cbb_holds_def cbb_fits_def split: if_splits)
  show ?thesis
    using cbb_writesD(2) [OF put_writes [OF assms(1)] h, of 0 "[]"] assms(2) fr
    by (simp add: level_start_def)
qed

end

interpretation put_u16: cbb_codec "be_bytes 2" CBS_get_u16 "\<lambda>v :: u16. take_bit (8 * 2) v = v" CBB_add_u16
  by unfold_locales (rule cbb_writes_u16)

interpretation put_u32: cbb_codec "be_bytes 4" CBS_get_u32 "\<lambda>v :: u32. take_bit (8 * 4) v = v" CBB_add_u32
  by unfold_locales (rule cbb_writes_u32)

interpretation put_u64: cbb_codec "be_bytes 8" CBS_get_u64 "\<lambda>v :: u64. take_bit (8 * 8) v = v" CBB_add_u64
  by unfold_locales (rule cbb_writes_u64)

interpretation put_u64le: cbb_codec "le_bytes 8" CBS_get_u64le "\<lambda>_. True" CBB_add_u64le
  by unfold_locales (rule cbb_writes_u64le)

interpretation put_uint64: cbb_codec "\<lambda>v. der_element CBS_ASN1_INTEGER (uint_contents v)"
    CBS_get_asn1_uint64 "\<lambda>_. True" CBB_add_asn1_uint64
  by unfold_locales (rule cbb_writes_uint64)

interpretation put_base128: cbb_codec base128 parse_base128_integer "\<lambda>_. True" add_base128_integer
  by unfold_locales (rule cbb_writes_base128)

end
