(* ===== verification/Oid.thy ===== *)
theory Oid
  imports Asn1Spec
begin

text \<open>
  Object identifiers: the decimal components \<open>parse_dotted_decimal\<close> accepts are exactly the
  canonical ones, \<open>CBB_add_asn1_oid_from_text\<close> writes their base-128 encodings, and
  \<open>CBS_asn1_oid_to_text\<close> prints the same text again.
\<close>

subsection \<open>Decimal numbers\<close>

text \<open>What follows a component in the text: nothing, or a dot and the next one.\<close>

definition dot_rest :: "bytes \<Rightarrow> bytes" where
  "dot_rest r = (if r = [] then [] else 46 # r)"

lemma decimal_not_Nil [simp]: "decimal n \<noteq> []"
  by (subst decimal.simps) simp

lemma digit_word:
  assumes "k < 10"
  shows "(48 + of_nat k :: u8) \<noteq> 46" "\<not> (48 + of_nat k :: u8) < 48" "\<not> 57 < (48 + of_nat k :: u8)"
    "ucast (48 + of_nat k :: u8) - 48 = (of_nat k :: u64)"
proof -
  have "k \<in> {0, 1, 2, 3, 4, 5, 6, 7, 8, 9}" using assms by auto
  then show "(48 + of_nat k :: u8) \<noteq> 46" "\<not> (48 + of_nat k :: u8) < 48" "\<not> 57 < (48 + of_nat k :: u8)"
    "ucast (48 + of_nat k :: u8) - 48 = (of_nat k :: u64)" by auto
qed

text \<open>The overflow checks of the loop.\<close>

lemma decimal_no_overflow:
  assumes "k < 10"
  shows "\<not> (- 1) div 10 < out \<and> \<not> - 1 - (of_nat k :: u64) < out * 10 \<longleftrightarrow> unat out * 10 + k < 2 ^ 64"
    and "unat out * 10 + k < 2 ^ 64 \<Longrightarrow> unat (out * 10 + of_nat k) = unat out * 10 + k"
proof -
  have m: "unat ((- 1 :: u64) div 10) = (2 ^ 64 - 1) div 10" by (simp add: unat_div)
  have s: "unat (- 1 - (of_nat k :: u64)) = 2 ^ 64 - 1 - k"
  proof -
    have "k \<in> {0, 1, 2, 3, 4, 5, 6, 7, 8, 9}" using assms by auto
    moreover have "unat (- 1 :: u64) = 2 ^ 64 - 1" by (simp add: unsigned_minus_1_eq_mask mask_eq_exp_minus_1)
    ultimately show ?thesis by (elim insertE) (simp_all add: unat_sub_if')
  qed
  have mul: "unat out \<le> (2 ^ 64 - 1) div 10 \<Longrightarrow> unat (out * 10) = unat out * 10"
    by (simp add: unat_mult_lem [THEN iffD1])
  show "\<not> (- 1) div 10 < out \<and> \<not> - 1 - (of_nat k :: u64) < out * 10 \<longleftrightarrow> unat out * 10 + k < 2 ^ 64"
    using mul assms unfolding word_less_nat_alt m s by auto
  show "unat out * 10 + k < 2 ^ 64 \<Longrightarrow> unat (out * 10 + of_nat k) = unat out * 10 + k"
    using mul assms by (simp add: unat_plus_if' unat_of_nat)
qed

lemma dotted_decimal_digit:
  assumes "k < 10"
  shows "dotted_decimal_loop out seen ((48 + of_nat k) # cbs) =
    (if (seen \<and> out = 0) \<or> \<not> unat out * 10 + k < 2 ^ 64 then (cbs, None)
     else dotted_decimal_loop (out * 10 + of_nat k) True cbs)"
  using digit_word [OF assms] decimal_no_overflow(1) [OF assms, of out] by auto

lemma dotted_decimal_decimal:
  "n < 2 ^ 64 \<Longrightarrow> dotted_decimal_loop 0 False (decimal n @ r) = dotted_decimal_loop (of_nat n) True r"
proof (induction n arbitrary: r rule: decimal.induct)
  case (1 n)
  show ?case
  proof (cases "n < 10")
    case True
    then show ?thesis using dotted_decimal_digit [OF True, of 0 False r]
      by (simp add: decimal.simps [of n] del: dotted_decimal_loop.simps)
  next
    case False
    have k: "n mod 10 < 10" and q: "n div 10 < 2 ^ 64" using "1.prems" by auto
    have u: "unat (of_nat (n div 10) :: u64) = n div 10" using q by (simp add: unat_of_nat)
    have "of_nat (n div 10) * 10 + of_nat (n mod 10) = (of_nat n :: u64)"
      by (metis mod_div_mult_eq add.commute of_nat_add of_nat_mult of_nat_numeral)
    moreover have "(of_nat (n div 10) :: u64) \<noteq> 0" using u False by (auto simp: word_unat_eq_iff)
    ultimately have "dotted_decimal_loop (of_nat (n div 10)) True ((48 + of_nat (n mod 10)) # r) =
        dotted_decimal_loop (of_nat n) True r"
      using dotted_decimal_digit [OF k, of "of_nat (n div 10)" True r] "1.prems" u
      by (simp del: dotted_decimal_loop.simps)
    then show ?thesis using "1.IH" [OF False q, of "(48 + of_nat (n mod 10)) # r"] False
      by (simp add: decimal.simps [of n] del: dotted_decimal_loop.simps)
  qed
qed

lemma digit_of:
  assumes "\<not> (u :: u8) < 48" and "\<not> 57 < u"
  shows "\<exists>k < 10. u = 48 + of_nat k"
proof (intro exI conjI)
  have "unat u \<ge> 48" "unat u \<le> 57" using assms by (simp_all add: word_less_nat_alt)
  then show "unat u - 48 < 10" "u = 48 + of_nat (unat u - 48)" by auto
qed

lemma decimal_append:
  "0 < n \<Longrightarrow> k < 10 \<Longrightarrow> decimal (n * 10 + k) = decimal n @ [48 + of_nat k]"
  by (subst decimal.simps) auto

lemma dotted_decimal_canonical:
  "dotted_decimal_loop out seen cbs = (rest, Some v) \<Longrightarrow> (seen \<or> out = 0) \<Longrightarrow>
   (if seen then decimal (unat out) else []) @ cbs = decimal (unat v) @ dot_rest rest"
proof (induction out seen cbs rule: dotted_decimal_loop.induct)
  case (1 out seen)
  then show ?case by (auto simp: dot_rest_def split: if_splits)
next
  case (2 out seen u cbs)
  show ?case
  proof (cases "u = 46 \<and> cbs \<noteq> []")
    case True
    then show ?thesis using "2.prems" by (auto simp: dot_rest_def split: if_splits)
  next
    case False
    then obtain k where k: "k < 10" "u = 48 + of_nat k"
      using "2.prems"(1) digit_of [of u] by (auto split: if_splits)
    note e = dotted_decimal_digit [OF k(1), of out seen cbs]
    have c: "\<not> (seen \<and> out = 0)" "unat out * 10 + k < 2 ^ 64"
      "dotted_decimal_loop (out * 10 + of_nat k) True cbs = (rest, Some v)"
      using "2.prems"(1) e unfolding k(2) by (auto split: if_splits)
    have u: "ucast u - 48 = (of_nat k :: u64)" using digit_word(4) [OF k(1)] k(2) by simp
    have cond: "\<not> (u < 48 \<or> 57 < u \<or> (seen \<and> out = 0) \<or> (- 1) div 10 < out \<or>
        - 1 - (ucast u - 48) < out * 10)"
      using digit_word [OF k(1)] decimal_no_overflow(1) [OF k(1), of out] c(1,2) k(2) by auto
    have "decimal (unat (out * 10 + of_nat k)) @ cbs = decimal (unat v) @ dot_rest rest"
      using "2.IH" [OF False cond] c(3) u by simp
    moreover have "decimal (unat (out * 10 + of_nat k)) =
        (if seen then decimal (unat out) else []) @ [u]"
    proof (cases seen)
      case True
      then have "0 < unat out" using c(1) by (simp add: unat_gt_0)
      then show ?thesis using decimal_append [OF _ k(1)] True k(2) decimal_no_overflow(2) [OF k(1) c(2)] by simp
    next
      case False
      then have "out = 0" using "2.prems"(2) by simp
      then show ?thesis using False k by (simp add: decimal.simps [of k] unat_of_nat)
    qed
    ultimately show ?thesis by simp
  qed
qed

text \<open>The reader of components is exact.\<close>

lemma parse_dotted_decimal_iff:
  "parse_dotted_decimal cbs = (rest, Some v) \<longleftrightarrow> cbs = decimal (unat v) @ dot_rest rest"
proof
  show "cbs = decimal (unat v) @ dot_rest rest" if "parse_dotted_decimal cbs = (rest, Some v)"
    using dotted_decimal_canonical [of 0 False cbs rest v] that by (simp add: parse_dotted_decimal_def)
  show "parse_dotted_decimal cbs = (rest, Some v)" if "cbs = decimal (unat v) @ dot_rest rest"
    using dotted_decimal_decimal [of "unat v" "dot_rest rest"] that unat_word64_lt [of v]
    by (simp add: parse_dotted_decimal_def dot_rest_def)
qed

lemmas parse_dotted_decimalD = parse_dotted_decimal_iff [THEN iffD1]
lemmas parse_dotted_decimalI = parse_dotted_decimal_iff [THEN iffD2, OF refl]

subsection \<open>The text of an identifier\<close>

text \<open>The components, separated by dots.\<close>

fun oid_text :: "u64 list \<Rightarrow> bytes" where
  "oid_text [] = []"
| "oid_text (v # vs) = decimal (unat v) @ dot_rest (oid_text vs)"

lemma oid_text_loop_True:
  "oid_text_loop d cbs c = (c', True) \<Longrightarrow>
     \<exists>vs. cbs = oid_text vs \<and> cbb_all (map (add_base128_integer d) vs) c = (c', True)"
proof (induction d cbs c rule: oid_text_loop.induct)
  case (1 d cbs c)
  show ?case
  proof (cases "cbs = []")
    case True
    then have "c' = c" using "1.prems" by (simp add: oid_text_loop.simps [of d "[]"])
    then show ?thesis using True by (intro exI [of _ "[]"]) (simp add: cbb_done_def)
  next
    case False
    obtain cbs' v c1 where p: "parse_dotted_decimal cbs = (cbs', Some v)"
      "add_base128_integer d v c = (c1, True)" "oid_text_loop d cbs' c1 = (c', True)"
      using "1.prems" False
      by (subst (asm) oid_text_loop.simps) (auto split: prod.splits option.splits bool.splits)
    have "\<exists>vs. cbs' = oid_text vs \<and> cbb_all (map (add_base128_integer d) vs) c1 = (c', True)"
      using "1.IH" [OF False p(1) [symmetric] refl p(2) [symmetric] refl p(3)] by blast
    then obtain vs where vs: "cbs' = oid_text vs" "cbb_all (map (add_base128_integer d) vs) c1 = (c', True)"
      by blast
    have "cbs = oid_text (v # vs)" using parse_dotted_decimalD [OF p(1)] vs(1) by simp
    moreover have "cbb_all (map (add_base128_integer d) (v # vs)) c = (c', True)"
      using p(2) vs(2) by (simp add: cbb_and_def)
    ultimately show ?thesis by blast
  qed
qed

text \<open>The first two components share one number.\<close>

definition oid_head :: "u64 \<Rightarrow> u64 \<Rightarrow> bool" where
  "oid_head a b \<longleftrightarrow> a \<le> 2 \<and> (a < 2 \<longrightarrow> b \<le> 39) \<and> unat b + 80 < 2 ^ 64"

lemma oid_head_iff: "\<not> (2 < a \<or> (a < 2 \<and> 39 < b) \<or> - 1 - 80 < b) \<longleftrightarrow> oid_head a b"
proof -
  have "unat (- 1 - 80 :: u64) = 2 ^ 64 - 81" by simp
  then have "- 1 - 80 < b \<longleftrightarrow> \<not> unat b + 80 < 2 ^ 64" unfolding word_less_nat_alt by auto
  then show ?thesis by (auto simp: oid_head_def not_less)
qed

lemma oid_from_text_True:
  assumes "CBB_add_asn1_oid_from_text d text c = (c', True)"
  shows "\<exists>a b vs. text = oid_text (a # b # vs) \<and> oid_head a b \<and>
    cbb_all (CBB_flush d # map (add_base128_integer d) ((40 * a + b) # vs)) c = (c', True)"
proof -
  obtain c1 r a r' b c2 where p: "CBB_flush d c = (c1, True)" "parse_dotted_decimal text = (r, Some a)"
    "parse_dotted_decimal r = (r', Some b)" "\<not> (2 < a \<or> (a < 2 \<and> 39 < b) \<or> - 1 - 80 < b)"
    "add_base128_integer d (40 * a + b) c1 = (c2, True)" "oid_text_loop d r' c2 = (c', True)"
    using assms unfolding CBB_add_asn1_oid_from_text_def
    by (auto split: prod.splits option.splits bool.splits if_splits)
  from oid_text_loop_True [OF p(6)] obtain vs where vs: "r' = oid_text vs"
    "cbb_all (map (add_base128_integer d) vs) c2 = (c', True)" by blast
  have "text = oid_text (a # b # vs)"
    using parse_dotted_decimalD [OF p(2)] parse_dotted_decimalD [OF p(3)] vs(1) by simp
  moreover have "cbb_all (CBB_flush d # map (add_base128_integer d) ((40 * a + b) # vs)) c = (c', True)"
    using p(1,5) vs(2) by (simp add: cbb_and_def)
  ultimately show ?thesis using p(4) oid_head_iff by blast
qed

subsection \<open>Operations in sequence\<close>

lemma cbb_and_assoc: "cbb_and (cbb_and f g) h = cbb_and f (cbb_and g h)"
  by (auto simp: cbb_and_def fun_eq_iff split: prod.splits bool.splits)

lemma cbb_done_and [simp]: "cbb_and cbb_done f = f"
  by (simp add: cbb_and_def cbb_done_def fun_eq_iff)

lemma cbb_all_append: "cbb_all (fs @ gs) = cbb_and (cbb_all fs) (cbb_all gs)"
  by (induction fs) (simp_all add: cbb_and_assoc)

lemma cbb_writes_list:
  "fs \<noteq> [] \<Longrightarrow> list_all2 (cbb_writes d) fs bss \<Longrightarrow> cbb_writes d (cbb_all fs) (concat bss)"
proof (induction fs arbitrary: bss rule: list_nonempty_induct)
  case (single f)
  then show ?case by (auto simp: list_all2_Cons1)
next
  case (cons f fs)
  then show ?case by (auto simp: list_all2_Cons1 intro!: cbb_writes_and)
qed

lemma cbb_writes_oid:
  "cbb_writes d (cbb_all (CBB_flush d # map (add_base128_integer d) vs)) (concat (map base128 vs))"
proof -
  have "list_all2 (cbb_writes d) (map (add_base128_integer d) vs) (map base128 vs)"
    by (auto simp: list_all2_map1 list_all2_map2 list_all2_same intro: cbb_writes_base128)
  then have "list_all2 (cbb_writes d) (CBB_flush d # map (add_base128_integer d) vs) ([] # map base128 vs)"
    using cbb_writes_flush by simp
  from cbb_writes_list [OF _ this] show ?thesis by simp
qed

subsection \<open>Printing\<close>

lemma oid_to_text_loop_base128:
  "oid_to_text_loop (concat (map base128 vs)) =
     cbb_all (map (\<lambda>v. cbb_and (CBB_add_u8 0 46) (add_decimal v)) vs)"
proof (induction vs)
  case Nil
  then show ?case by (simp add: oid_to_text_loop.simps [of "[]"] cbb_done_def fun_eq_iff)
next
  case (Cons v vs)
  have "base128 v \<noteq> []" using base128.dec_enc [of v "[]"] by (auto simp: parse_base128_integer_def)
  moreover have "parse_base128_integer (base128 v @ concat (map base128 vs)) = (concat (map base128 vs), Some v)"
    by (simp add: base128.dec_enc)
  ultimately have "oid_to_text_loop (base128 v @ concat (map base128 vs)) c =
      cbb_and (cbb_and (CBB_add_u8 0 46) (add_decimal v)) (oid_to_text_loop (concat (map base128 vs))) c" for c
    by (subst oid_to_text_loop.simps) (auto simp: cbb_and_def split: prod.splits bool.splits)
  then show ?case using Cons.IH by (simp add: fun_eq_iff)
qed

lemma length_decimal: "n < 10 ^ k \<Longrightarrow> 0 < k \<Longrightarrow> length (decimal n) \<le> k"
proof (induction n arbitrary: k rule: decimal.induct)
  case (1 n)
  show ?case
  proof (cases "n < 10")
    case False
    then obtain k' where k: "k = Suc k'" "0 < k'" using "1.prems" by (cases k; cases "k - 1") auto
    then have "n div 10 < 10 ^ k'" using "1.prems" by auto
    from "1.IH" [OF False this k(2)] show ?thesis using False k by (simp add: decimal.simps [of n])
  qed (use "1.prems" in \<open>simp add: decimal.simps [of n]\<close>)
qed

lemma cbb_writes_decimal: "cbb_writes 0 (add_decimal v) (decimal (unat v))"
  unfolding add_decimal_def
proof (rule cbb_writes_bytes)
  have "unat v < 10 ^ 20" using unat_word64_lt [of v] by simp
  from length_decimal [OF this] show "length (decimal (unat v)) < 2 ^ 64" by simp
qed

text \<open>The first number gives two components.\<close>

definition oid_first :: "u64 \<Rightarrow> cbb_op" where
  "oid_first v =
     (if 80 \<le> v then cbb_and (CBB_add_bytes 0 [50, 46]) (add_decimal (v - 80))
      else cbb_all [add_decimal (v div 40), CBB_add_u8 0 46, add_decimal (v mod 40)])"

lemma oid_head_components:
  assumes "oid_head a b"
  shows "a = 2 \<Longrightarrow> 80 \<le> 40 * a + b \<and> 40 * a + b - 80 = b"
    and "a \<noteq> 2 \<Longrightarrow> \<not> 80 \<le> 40 * a + b \<and> (40 * a + b) div 40 = a \<and> (40 * a + b) mod 40 = b"
proof -
  show "80 \<le> 40 * a + b \<and> 40 * a + b - 80 = b" if "a = 2"
    using assms that by (auto simp: oid_head_def word_le_nat_alt unat_plus_if')
  have u: "unat (40 * a + b) = 40 * unat a + unat b" if "a < 2" "b \<le> 39"
    using that by (auto simp: unat_plus_if' unat_mult_lem [THEN iffD1] word_less_nat_alt word_le_nat_alt)
  assume "a \<noteq> 2"
  then have ab: "a < 2" "b \<le> 39" using assms by (auto simp: oid_head_def)
  from u [OF this] ab
  show "\<not> 80 \<le> 40 * a + b \<and> (40 * a + b) div 40 = a \<and> (40 * a + b) mod 40 = b"
    by (auto simp: word_unat_eq_iff unat_div unat_mod word_less_nat_alt word_le_nat_alt)
qed

lemma cbb_writes_first:
  assumes "oid_head a b"
  shows "cbb_writes 0 (oid_first (40 * a + b)) (decimal (unat a) @ 46 # decimal (unat b))"
proof (cases "a = 2")
  case True
  have "cbb_writes 0 (cbb_and (CBB_add_bytes 0 [50, 46]) (add_decimal b)) ([50, 46] @ decimal (unat b))"
    by (intro cbb_writes_and cbb_writes_bytes cbb_writes_decimal) simp
  moreover have "oid_first (40 * a + b) = cbb_and (CBB_add_bytes 0 [50, 46]) (add_decimal b)"
    using oid_head_components(1) [OF assms True] unfolding oid_first_def by (simp only: if_True)
  moreover have "decimal (unat a) = [50]" using True by (simp add: decimal.simps [of 2])
  ultimately show ?thesis by simp
next
  case False
  have "cbb_writes 0 (cbb_and (add_decimal a) (cbb_and (CBB_add_u8 0 46) (add_decimal b)))
      (decimal (unat a) @ [46] @ decimal (unat b))"
    by (intro cbb_writes_and cbb_writes_u8 cbb_writes_decimal)
  moreover have "oid_first (40 * a + b) =
      cbb_and (add_decimal a) (cbb_and (CBB_add_u8 0 46) (add_decimal b))"
    using oid_head_components(2) [OF assms False] by (simp add: oid_first_def)
  ultimately show ?thesis by simp
qed

definition dotted :: "u64 list \<Rightarrow> bytes" where
  "dotted vs = concat (map (\<lambda>v. 46 # decimal (unat v)) vs)"

lemma oid_text_not_Nil: "vs \<noteq> [] \<Longrightarrow> oid_text vs \<noteq> []"
  by (cases vs) simp_all

lemma oid_text_dotted: "oid_text (v # vs) = decimal (unat v) @ dotted vs"
proof (induction vs arbitrary: v)
  case (Cons w vs)
  then show ?case using oid_text_not_Nil [of "w # vs"] by (simp add: dot_rest_def dotted_def)
qed (simp add: dot_rest_def dotted_def)

text \<open>The printer is one sequence of writers.\<close>

lemma cbb_writes_text:
  assumes "oid_head a b"
  shows "cbb_writes 0 (cbb_all [oid_first (40 * a + b), oid_to_text_loop (concat (map base128 vs)), CBB_add_u8 0 0])
    (oid_text (a # b # vs) @ [0])"
proof -
  let ?f = "\<lambda>v. cbb_and (CBB_add_u8 0 46) (add_decimal v)"
  have f: "cbb_writes 0 (?f v) (46 # decimal (unat v))" for v
    using cbb_writes_and [OF cbb_writes_u8 [of 0 46] cbb_writes_decimal [of v]] by simp
  have "list_all2 (cbb_writes 0) (map ?f vs) (map (\<lambda>v. 46 # decimal (unat v)) vs)"
    by (simp add: list_all2_map1 list_all2_map2 list_all2_same f)
  then have "list_all2 (cbb_writes 0) (oid_first (40 * a + b) # map ?f vs @ [CBB_add_u8 0 0])
      ((decimal (unat a) @ 46 # decimal (unat b)) # map (\<lambda>v. 46 # decimal (unat v)) vs @ [[0]])"
    using cbb_writes_first [OF assms] cbb_writes_u8 [of 0 0] by (simp add: list_all2_appendI)
  from cbb_writes_list [OF _ this]
  have "cbb_writes 0 (cbb_all (oid_first (40 * a + b) # map ?f vs @ [CBB_add_u8 0 0]))
      (oid_text (a # b # vs) @ [0])"
    by (simp add: oid_text_dotted dotted_def del: oid_text.simps)
  moreover have "cbb_all (oid_first (40 * a + b) # map ?f vs @ [CBB_add_u8 0 0]) =
      cbb_all [oid_first (40 * a + b), oid_to_text_loop (concat (map base128 vs)), CBB_add_u8 0 0]"
    by (simp add: oid_to_text_loop_base128 cbb_all_append)
  ultimately show ?thesis by (simp only:)
qed

lemma oid_to_text_encoding:
  assumes h: "oid_head a b" and l: "length (oid_text (a # b # vs)) + 1 < 2 ^ 64"
  shows "CBS_asn1_oid_to_text True (\<lambda>_. True) (concat (map base128 ((40 * a + b) # vs))) =
    Some (oid_text (a # b # vs) @ [0])"
proof -
  obtain c where c: "CBB_init True (\<lambda>_. True) 32 = (c, True)" by (simp add: CBB_init_def cbb_init_def)
  let ?b = "\<lparr>buf = [], cap = 32, can_resize = True, error = False, alloc_ok = \<lambda>_. True\<rparr>"
  let ?ops = "cbb_all [oid_first (40 * a + b), oid_to_text_loop (concat (map base128 vs)), CBB_add_u8 0 0]"
  have hc: "cbb_holds c ?b [[]]" "frames c = []"
    using c by (auto simp: CBB_init_def cbb_init_def CBB_zero_def cbb_holds_def cbb_fits_def)
  note w = cbb_writes_text [OF h, of vs]
  have "\<exists>c1. ?ops c = (c1, True)"
    by (rule cbb_writesD(2) [OF w hc(1), of "[]"])
      (use hc(2) l in \<open>auto simp: level_start_def cbb_room_def\<close>)
  then obtain c1 where c1: "?ops c = (c1, True)" by blast
  from cbb_writesD(1) [OF w hc(1) _ c1] hc(2) obtain b1 where
    b1: "frames c1 = []" "cbb_holds c1 b1 [oid_text (a # b # vs) @ [0]]" by auto
  have fin: "snd (CBB_finish True c1) = Some (oid_text (a # b # vs) @ [0])"
    using b1 by (auto simp: CBB_finish_def CBB_flush_def cbb_holds_def cbb_fits_def split: if_splits)
  have p: "parse_base128_integer (concat (map base128 ((40 * a + b) # vs))) =
      (concat (map base128 vs), Some (40 * a + b))"
    by (simp add: base128.dec_enc)
  show ?thesis
    unfolding CBS_asn1_oid_to_text_def c p using c1 fin by (simp add: oid_first_def Let_def)
qed

end
