(* ===== verification/SetOf.thy ===== *)
theory SetOf
  imports Asn1Spec "HOL-Library.List_Lexorder"
begin

text \<open>
  \<open>CBB_flush_asn1_set_of\<close>: the comparison is the lexicographic order of the encodings, the sort
  gives a sorted permutation, and the builder then holds exactly the sorted elements.
\<close>

subsection \<open>The order\<close>

lemma compare_set_of_element_simps [simp]:
  "compare_set_of_element [] [] = 0"
  "compare_set_of_element [] (y # b) = - 1"
  "compare_set_of_element (x # a) [] = 1"
  "compare_set_of_element (x # a) (y # b) =
     (if x = y then compare_set_of_element a b else uint x - uint y)"
  by (auto simp: compare_set_of_element_def Let_def word_uint_eq_iff)

lemma compare_set_of_element_swap: "compare_set_of_element b a = - compare_set_of_element a b"
proof (induction a arbitrary: b)
  case Nil
  then show ?case by (cases b) auto
next
  case (Cons x a)
  then show ?case by (cases b) auto
qed

text \<open>Byte strings compared byte by byte, a prefix first.\<close>

lemma compare_set_of_element_iff:
  "compare_set_of_element a b \<le> 0 \<longleftrightarrow> map uint a \<le> map uint b"
proof (induction a arbitrary: b)
  case Nil
  then show ?case by (cases b) auto
next
  case (Cons x a)
  then show ?case
  proof (cases b)
    case (Cons y b')
    then show ?thesis using Cons.IH [of b'] by (auto simp: word_uint_eq_iff)
  qed auto
qed

interpretation set_of_order: cmp_order compare_set_of_element
proof
  fix x y z
  show "compare_set_of_element x y < 0 \<longleftrightarrow> 0 < compare_set_of_element y x"
    using compare_set_of_element_swap [of x y] by simp
  show "compare_set_of_element x y \<le> 0 \<Longrightarrow> compare_set_of_element y z \<le> 0 \<Longrightarrow> compare_set_of_element x z \<le> 0"
    by (auto simp: compare_set_of_element_iff)
qed

lemma sorted_set_of: "sorted (map (map uint) (qsort compare_set_of_element xs))"
  using set_of_order.sorted_qsort [of xs]
  by (simp add: cmp_sorted_def compare_set_of_element_iff sorted_wrt_map)

subsection \<open>The elements of the contents\<close>

lemma set_of_children_concat:
  "(\<And>t body. (t, body) \<in> set es \<Longrightarrow> length body < 2 ^ 32) \<Longrightarrow>
   set_of_children (concat (map (\<lambda>(t, body). der_element t body) es)) =
     Some (map (\<lambda>(t, body). der_element t body) es)"
proof (induction es)
  case Nil
  then show ?case by (simp add: set_of_children.simps)
next
  case (Cons e es)
  obtain t body where e: "e = (t, body)" by force
  have "length body < 2 ^ 32" using Cons.prems [of t body] e by simp
  then have "CBS_get_any_asn1_element (der_element t body @ concat (map (\<lambda>(t, body). der_element t body) es)) =
      (concat (map (\<lambda>(t, body). der_element t body) es),
       Some (der_element t body, t, of_nat (der_header_length t (length body))))"
    by (simp add: CBS_get_any_asn1_element_def get_der_element)
  moreover have "set_of_children (concat (map (\<lambda>(t, body). der_element t body) es)) =
      Some (map (\<lambda>(t, body). der_element t body) es)"
    by (rule Cons.IH) (use Cons.prems in auto)
  ultimately show ?case by (subst set_of_children.simps) (simp add: e)
qed

lemma set_of_children_Some: "set_of_children cbs = Some cs \<Longrightarrow> concat cs = cbs"
proof (induction cbs arbitrary: cs rule: set_of_children.induct)
  case (1 cbs)
  show ?case
  proof (cases "cbs = []")
    case True
    then show ?thesis using "1.prems" by (simp add: set_of_children.simps)
  next
    case False
    obtain cbs' out t hl where g: "CBS_get_any_asn1_element cbs = (cbs', Some (out, t, hl))"
      using "1.prems" False by (subst (asm) set_of_children.simps) (auto split: prod.splits option.splits)
    obtain ds where ds: "set_of_children cbs' = Some ds" "cs = out # ds"
      using "1.prems" False g by (subst (asm) set_of_children.simps) (auto split: option.splits)
    have "concat ds = cbs'" using "1.IH" [OF False g [symmetric] refl refl refl ds(1)] .
    moreover have "cbs = out @ cbs'"
      using get_element_canonical [OF g [unfolded CBS_get_any_asn1_element_def]] by blast
    ultimately show ?thesis using ds(2) by simp
  qed
qed

subsection \<open>The builder\<close>

lemma contents_of_holds:
  assumes h: "cbb_holds c b (xs @ [y])" and d: "length xs = d" "length (frames c) = d"
  shows "CBB_contents d c = y \<and> (\<exists>bs. buf b = bs @ y \<and> length bs = level_start d (frames c) \<and>
    (\<forall>ys. cbb_rep 0 (frames c) (bs @ ys) (xs @ [ys])))"
proof -
  obtain bs1 bs2 where s: "buf b = bs1 @ bs2" "length bs1 = level_start d (frames c)"
      "cbb_rep (length bs1) (drop d (frames c)) bs2 (drop d (xs @ [y]))"
      "\<And>gs cs ys. cbb_rep (length bs1) gs cs ys \<Longrightarrow>
         cbb_rep 0 (take d (frames c) @ gs) (bs1 @ cs) (take d (xs @ [y]) @ ys)"
    using cbb_holds_split [OF h, of d] d by auto
  have y: "bs2 = y" using s(3) d by simp
  have lt: "length (buf b) < 2 ^ 64" using h cbb_fits_length by (simp add: cbb_holds_def)
  have "CBB_contents d c = y"
  proof (cases "d = 0")
    case True
    then show ?thesis using s y h by (simp add: CBB_contents_def cbb_holds_def level_start_def)
  next
    case False
    let ?f = "frames c ! (d - 1)"
    have l: "length bs1 = unat (offset ?f) + unat (pending_len_len ?f)"
      using s(2) False by (simp add: level_start_def)
    have "unat (offset ?f + ucast (pending_len_len ?f)) = length bs1"
      using l lt s(1) unat_plus_if' [of "offset ?f" "ucast (pending_len_len ?f)"]
      by (simp add: unat_ucast_less)
    then show ?thesis using False h s(1) y by (simp add: CBB_contents_def cbb_holds_def)
  qed
  moreover have "cbb_rep 0 (frames c) (bs1 @ ys) (xs @ [ys])" for ys
    using s(4) [of "[]" ys "[ys]"] d by simp
  ultimately show ?thesis using s(1,2) y by blast
qed

lemma cbb_writes_all_bytes:
  "bss \<noteq> [] \<Longrightarrow> (\<And>bs. bs \<in> set bss \<Longrightarrow> length bs < 2 ^ 64) \<Longrightarrow>
     cbb_writes d (cbb_all (map (CBB_add_bytes d) bss)) (concat bss)"
proof (induction bss rule: list_nonempty_induct)
  case (single b)
  then show ?case using cbb_writes_bytes by simp
next
  case (cons b bss)
  have "cbb_writes d (CBB_add_bytes d b) b" using cons by (intro cbb_writes_bytes) simp
  from cbb_writes_and [OF this] cons show ?case by simp
qed

lemma flush_set_of_holds:
  assumes h: "cbb_holds c b xs" and d: "d \<le> length (frames c)"
    and r: "CBB_flush_asn1_set_of mok d c = (c', True)"
  shows "\<exists>y cs b'. closed (drop d (frames c)) (drop d xs) = Some y \<and> set_of_children y = Some cs \<and>
    frames c' = take d (frames c) \<and> CBB_contents d c' = concat (qsort compare_set_of_element cs) \<and>
    cbb_holds c' b' (take d xs @ [concat (qsort compare_set_of_element cs)])"
proof -
  obtain c1 where c1: "CBB_flush d c = (c1, True)"
    using r by (auto simp: CBB_flush_asn1_set_of_def split: prod.splits bool.splits)
  from cbb_writesD(1) [OF cbb_writes_flush h d c1] obtain y b1 where y:
    "closed (drop d (frames c)) (drop d xs) = Some y" "frames c1 = take d (frames c)"
    "cbb_holds c1 b1 (take d xs @ [y])" by auto
  have l: "length (take d xs) = d" and fr: "length (frames c1) = d"
    using y(2) d cbb_holds_length [OF h] by simp_all
  from contents_of_holds [OF y(3) l fr] obtain bs where bs: "CBB_contents d c1 = y" "buf b1 = bs @ y"
    "\<And>ys. cbb_rep 0 (frames c1) (bs @ ys) (take d xs @ [ys])" by blast
  obtain cs where cs: "set_of_children y = Some cs"
    using r c1 bs(1) by (auto simp: CBB_flush_asn1_set_of_def split: option.splits)
  have cat: "concat cs = y" by (rule set_of_children_Some [OF cs])
  let ?ys = "qsort compare_set_of_element cs"
  show ?thesis
  proof (cases "length cs < 2")
    case True
    then have "c' = c1" using r c1 bs(1) cs by (simp add: CBB_flush_asn1_set_of_def)
    moreover have "?ys = cs" using True by (cases cs) (auto simp: qsort_def)
    ultimately show ?thesis using y cs cat bs(1) by auto
  next
    case False
    let ?c2 = "c1\<lparr>base := Some (b1\<lparr>buf := bs\<rparr>)\<rparr>"
    have base: "base c1 = Some b1" and fits: "cbb_fits b1" using y(3) by (simp_all add: cbb_holds_def)
    have w: "cbb_all (map (CBB_add_bytes d) ?ys) ?c2 = (c', True)"
      using r c1 bs cs False base
      by (auto simp: CBB_flush_asn1_set_of_def Let_def split: if_splits)
    have h2: "cbb_holds ?c2 (b1\<lparr>buf := bs\<rparr>) (take d xs @ [[]])"
      using bs(3) [of "[]"] fits bs(2) by (simp add: cbb_holds_def cbb_fits_def)
    have w2: "cbb_writes d (cbb_all (map (CBB_add_bytes d) ?ys)) (concat ?ys)"
    proof (rule cbb_writes_all_bytes)
      show "?ys \<noteq> []" using False by (metis list.size(3) mset_eq_length mset_qsort zero_less_numeral)
      fix e assume "e \<in> set ?ys"
      then have "e \<in> set cs" by (metis mset_qsort set_mset_mset)
      then obtain us vs where "cs = us @ e # vs" by (meson split_list)
      then have "length e \<le> length y" using cat by auto
      then show "length e < 2 ^ 64" using cbb_fits_length [OF fits] bs(2) by simp
    qed
    have d2: "d \<le> length (frames ?c2)" using fr by simp
    obtain b2 where b2: "frames c' = take d (frames c)"
      "cbb_holds c' b2 (take d xs @ [concat ?ys])"
      using cbb_writesD(1) [OF w2 h2 d2 w] fr l y(2) by auto
    then show ?thesis using y(1) cs contents_of_holds [OF b2(2) l] d by auto
  qed
qed

end
