(* ===== verification/CbbSafe.thy ===== *)
theory CbbSafe
  imports SetOf
begin

text \<open>
  The safety of the builder, for arbitrary sequences of operations with arbitrary handles: nothing is
  ever written beyond the capacity, a fixed buffer keeps its capacity, and an error stays.  The
  operations are the steps of a transition relation; the invariant is shown by rule induction.
\<close>

definition buf_bounded :: "cbb_buffer \<Rightarrow> bool" where
  "buf_bounded b \<longleftrightarrow> length (buf b) \<le> unat (cap b)"

text \<open>What every operation does to the buffer.\<close>

definition buf_evolves :: "cbb_buffer \<Rightarrow> cbb_buffer \<Rightarrow> bool" where
  "buf_evolves b b' \<longleftrightarrow> (buf_bounded b \<longrightarrow> buf_bounded b') \<and> can_resize b' = can_resize b \<and>
     (\<not> can_resize b \<longrightarrow> cap b' = cap b) \<and> (error b \<longrightarrow> error b')"

lemma buf_evolves_refl [simp, intro]: "buf_evolves b b"
  by (simp add: buf_evolves_def)

lemma buf_evolves_trans [trans]: "buf_evolves a b \<Longrightarrow> buf_evolves b c \<Longrightarrow> buf_evolves a c"
  by (auto simp: buf_evolves_def)

lemma buf_evolves_error [simp]: "buf_evolves b b' \<Longrightarrow> buf_evolves b (b'\<lparr>error := True\<rparr>)"
  by (simp add: buf_evolves_def buf_bounded_def)

lemma reserve_evolves: "buf_evolves b (fst (cbb_buffer_reserve b n))"
  by (auto simp: cbb_buffer_reserve_def Let_def buf_evolves_def buf_bounded_def word_less_nat_alt)

lemma reserve_bounded:
  assumes "buf_bounded b" and "cbb_buffer_reserve b n = (b', True)"
  shows "buf b' = buf b \<and> length (buf b) + unat n \<le> unat (cap b')"
proof -
  have u: "unat (buf_len b) = length (buf b)"
    using assms(1) unat_word64_lt [of "cap b"] by (simp add: buf_len_def unat_of_nat buf_bounded_def)
  have ov: "\<not> buf_len b + n < buf_len b"
    using assms(2) by (auto simp: cbb_buffer_reserve_def Let_def split: if_splits)
  then have "unat (buf_len b + n) = unat (buf_len b) + unat n"
    using unat_plus_if' [of "buf_len b" n] unat_word64_lt [of n]
    by (auto simp: word_less_nat_alt split: if_splits)
  then show ?thesis using assms ov u
    by (auto simp: cbb_buffer_reserve_def Let_def word_less_nat_alt not_less split: if_splits)
qed

lemma buffer_add_evolves:
  assumes "length data < 2 ^ 64"
  shows "buf_evolves b (fst (cbb_buffer_add b data))"
proof (cases "cbb_buffer_reserve b (of_nat (length data))")
  case (Pair b' ok)
  show ?thesis
  proof (cases ok)
    case False
    then show ?thesis using Pair reserve_evolves [of b "of_nat (length data)"]
      by (simp add: cbb_buffer_add_def)
  next
    case True
    have "buf_bounded b \<Longrightarrow> buf_bounded (b'\<lparr>buf := buf b' @ data\<rparr>)"
      using reserve_bounded [of b "of_nat (length data)" b'] Pair True assms
      by (simp add: buf_bounded_def unat_of_nat)
    then show ?thesis using Pair True reserve_evolves [of b "of_nat (length data)"]
      by (auto simp: cbb_buffer_add_def buf_evolves_def)
  qed
qed

lemma length_store_be [simp]: "length (fst (store_be dest off n v)) = length dest"
  by (induction dest off n v rule: store_be.induct) auto

lemma buf_evolves_buf:
  "buf_evolves b b' \<Longrightarrow> length bs = length (buf b') \<Longrightarrow> buf_evolves b (b'\<lparr>buf := bs\<rparr>)"
  by (auto simp: buf_evolves_def buf_bounded_def)

lemma buffer_add_u_evolves:
  assumes "k \<le> 8" shows "buf_evolves b (fst (cbb_buffer_add_u b v k))"
proof (cases "cbb_buffer_add b (replicate k 0)")
  case (Pair b' ok)
  have e: "buf_evolves b b'" using buffer_add_evolves [of "replicate k 0" b] Pair assms by simp
  obtain bs w where st: "store_be (buf b') (length (buf b)) k v = (bs, w)" by force
  have "length bs = length (buf b')" using length_store_be [of "buf b'" "length (buf b)" k v] st by simp
  note ev = buf_evolves_buf [OF e this]
  from ev buf_evolves_error [OF ev] show ?thesis
    using e Pair st by (auto simp: cbb_buffer_add_u_def split: bool.splits)
qed

lemma write_length_evolves:
  assumes e: "buf_evolves b b'" shows "buf_evolves b (fst (cbb_write_length b' off n v))"
proof -
  obtain bs w where st: "store_be (buf b') off n v = (bs, w)" by force
  have "length bs = length (buf b')" using length_store_be [of "buf b'" off n v] st by simp
  note ev = buf_evolves_buf [OF e this]
  from ev buf_evolves_error [OF ev] show ?thesis
    using st by (simp add: cbb_write_length_def)
qed

lemma asn1_length_form_5: "asn1_length_form len = Some (n, i, len') \<Longrightarrow> n \<le> 5 \<and> (n \<noteq> 1 \<longrightarrow> len' = len)"
  by (auto simp: asn1_length_form_def split: if_splits)

lemma close_child_evolves:
  assumes b: "buf_bounded b" shows "buf_evolves b (fst (cbb_close_child b f))"
proof -
  let ?start = "offset f + ucast (pending_len_len f)"
  have u: "unat (buf_len b) = length (buf b)"
    using b unat_word64_lt [of "cap b"] by (simp add: buf_len_def unat_of_nat buf_bounded_def)
  show ?thesis
  proof (cases "?start < offset f \<or> buf_len b < ?start \<or> \<not> pending_is_asn1 f")
    case True
    then show ?thesis by (auto simp: cbb_close_child_def Let_def write_length_evolves)
  next
    case guard: False
    show ?thesis
    proof (cases "asn1_length_form (buf_len b - ?start)")
      case None
      with guard show ?thesis by (simp add: cbb_close_child_def Let_def)
    next
      case (Some form)
      then obtain n i len' where form: "asn1_length_form (buf_len b - ?start) = Some (n, i, len')"
        by (cases form) auto
      note n5 = asn1_length_form_5 [OF form]
      have le: "unat ?start \<le> length (buf b)" using guard u by (simp add: word_less_nat_alt)
      have len: "n \<noteq> 1 \<Longrightarrow> unat len' = length (buf b) - unat ?start"
        using n5 guard u by (simp add: unat_sub word_le_nat_alt word_less_nat_alt)
      show ?thesis
      proof (cases "n = 1")
        case True
        have "buf_evolves b (b\<lparr>buf := (buf b)[unat (offset f) := i]\<rparr>)"
          by (rule buf_evolves_buf) auto
        then show ?thesis using guard form True
          by (simp add: cbb_close_child_def Let_def write_length_evolves)
      next
        case n: False
        obtain b1 ok where add: "cbb_buffer_add b (replicate (n - 1) 0) = (b1, ok)" by force
        have e: "buf_evolves b b1" using buffer_add_evolves [of "replicate (n - 1) 0" b] add conjunct1 [OF n5] by simp
        have l1: "ok \<Longrightarrow> length (buf b1) = length (buf b) + (n - 1)"
          using add reserve_bounded [OF b] by (auto simp: cbb_buffer_add_def split: prod.splits bool.splits)
        have "ok \<Longrightarrow> length (memmove (buf b1) (unat ?start + (n - 1)) (unat ?start) (unat len')) = length (buf b1)"
          using l1 le len [OF n] by (auto simp: memmove_def min_def)
        then have "ok \<Longrightarrow> buf_evolves b (b1\<lparr>buf := (memmove (buf b1) (unat ?start + (n - 1)) (unat ?start)
            (unat len'))[unat (offset f) := i]\<rparr>)"
          using e by (intro buf_evolves_buf) simp_all
        then show ?thesis using guard form n add e
          by (cases ok) (simp_all add: cbb_close_child_def Let_def write_length_evolves)
      qed
    qed
  qed
qed

lemma flush_chain_evolves:
  "buf_bounded b \<Longrightarrow> cbb_flush_chain b fs = (b', fs', ok) \<Longrightarrow> buf_evolves b b'"
proof (induction fs arbitrary: b' fs' ok)
  case (Cons f fs)
  obtain b1 fs1 ok1 where f1: "cbb_flush_chain b fs = (b1, fs1, ok1)" by (cases "cbb_flush_chain b fs") auto
  have e: "buf_evolves b b1" by (rule Cons.IH [OF Cons.prems(1) f1])
  then have "buf_bounded b1" using Cons.prems(1) by (simp add: buf_evolves_def)
  note c = close_child_evolves [OF this, of f]
  show ?case
  proof (cases "error b \<or> pending_len_len f = 0 \<or> \<not> ok1")
    case True
    then show ?thesis using Cons.prems(2) f1 e by (auto split: if_splits bool.splits)
  next
    case False
    then have "b' = fst (cbb_close_child b1 f)"
      using Cons.prems(2) f1 by (auto split: prod.splits bool.splits)
    then show ?thesis using buf_evolves_trans [OF e c] by simp
  qed
qed simp

subsection \<open>Operations as steps\<close>

text \<open>The same for a state: once finished it stays finished.\<close>

definition cbb_evolves :: "cbb \<Rightarrow> cbb \<Rightarrow> bool" where
  "cbb_evolves c c' \<longleftrightarrow>
     (case base c of
        None \<Rightarrow> base c' = None
      | Some b \<Rightarrow> buf_bounded b \<longrightarrow>
          (case base c' of None \<Rightarrow> True | Some b' \<Rightarrow> buf_evolves b b'))"

lemma cbb_evolves_refl [simp]: "cbb_evolves c c"
  by (simp add: cbb_evolves_def split: option.splits)

lemma cbb_evolves_trans: "cbb_evolves a b \<Longrightarrow> cbb_evolves b c \<Longrightarrow> cbb_evolves a c"
  by (auto simp: cbb_evolves_def buf_evolves_def split: option.splits)

lemma cbb_evolves_frames [simp]: "cbb_evolves c (c'\<lparr>frames := fs\<rparr>) = cbb_evolves c c'"
  by (simp add: cbb_evolves_def split: option.split)

lemma cbb_evolves_open [simp]: "cbb_evolves c (cbb_open_child d ch c') = cbb_evolves c c'"
  by (simp add: cbb_open_child_def)

lemma flush_evolves: "CBB_flush d c = (c', ok) \<Longrightarrow> cbb_evolves c c'"
  by (auto simp: CBB_flush_def cbb_evolves_def split: option.splits if_splits prod.splits
      dest: flush_chain_evolves)

lemma flush_then_evolves:
  assumes f: "\<And>b. buf_bounded b \<Longrightarrow> buf_evolves b (fst (f b))" and r: "cbb_flush_then d f c = (c', ok)"
  shows "cbb_evolves c c'"
proof -
  obtain c1 ok1 where c1: "CBB_flush d c = (c1, ok1)" by force
  have "cbb_evolves c1 c'" using r c1 f
    by (auto simp: cbb_flush_then_def cbb_evolves_def split: bool.splits option.splits prod.splits)
      (metis fst_conv)
  then show ?thesis by (rule cbb_evolves_trans [OF flush_evolves [OF c1]])
qed

text \<open>
  \<open>cbb_step c c'\<close>: one call of an operation, with any handle and any arguments, succeeding or
  not.
\<close>

inductive cbb_step :: "cbb \<Rightarrow> cbb \<Rightarrow> bool" where
  flush: "CBB_flush d c = (c', ok) \<Longrightarrow> cbb_step c c'"
| bytes: "length data < 2 ^ 64 \<Longrightarrow> CBB_add_bytes d data c = (c', ok) \<Longrightarrow> cbb_step c c'"
| space: "length data < 2 ^ 64 \<Longrightarrow> CBB_add_space d data c = (c', ok) \<Longrightarrow> cbb_step c c'"
| reserve: "CBB_reserve d len c = (c', ok) \<Longrightarrow> cbb_step c c'"
| did_write: "length data < 2 ^ 64 \<Longrightarrow> CBB_did_write d data c = (c', ok) \<Longrightarrow> cbb_step c c'"
| u8: "CBB_add_u8 d v8 c = (c', ok) \<Longrightarrow> cbb_step c c'"
| u16: "CBB_add_u16 d v16 c = (c', ok) \<Longrightarrow> cbb_step c c'"
| u24: "CBB_add_u24 d v32 c = (c', ok) \<Longrightarrow> cbb_step c c'"
| u32: "CBB_add_u32 d v32 c = (c', ok) \<Longrightarrow> cbb_step c c'"
| u64: "CBB_add_u64 d v64 c = (c', ok) \<Longrightarrow> cbb_step c c'"
| prefixed: "cbb_add_length_prefixed d l c = (c', ok) \<Longrightarrow> cbb_step c c'"
| asn1: "CBB_add_asn1 d tag c = (c', ok) \<Longrightarrow> cbb_step c c'"
| set_of: "CBB_flush_asn1_set_of mok d c = (c', ok) \<Longrightarrow> cbb_step c c'"
| discard: "CBB_discard_child d c = c' \<Longrightarrow> cbb_step c c'"
| finish: "CBB_finish want c = (c', res) \<Longrightarrow> cbb_step c c'"

inductive cbb_reach :: "cbb \<Rightarrow> cbb \<Rightarrow> bool" where
  start: "cbb_reach c c"
| step: "cbb_reach c c' \<Longrightarrow> cbb_step c' c'' \<Longrightarrow> cbb_reach c c''"

inductive_cases cbb_stepE: "cbb_step c c'"

lemma prefixed_evolves:
  assumes "cbb_add_length_prefixed d l c = (c', ok)"
  shows "cbb_evolves c c'"
proof -
  obtain c1 ok1 where c1: "CBB_flush d c = (c1, ok1)" by force
  have l: "length (replicate (unat l) (0 :: u8)) < 2 ^ 64" using unat_word8_lt [of l] by simp
  have "cbb_evolves c1 c'"
  proof (cases "base c1")
    case None
    then show ?thesis using assms c1
      by (auto simp: cbb_add_length_prefixed_def split: bool.splits)
  next
    case (Some b)
    obtain b' ok2 where b': "cbb_buffer_add b (replicate (unat l) 0) = (b', ok2)" by force
    then have e: "buf_evolves b b'" using buffer_add_evolves [OF l, of b] by simp
    have "c' = c1 \<or> base c' = Some b'" using assms c1 Some b'
      by (auto simp: cbb_add_length_prefixed_def cbb_open_child_def split: bool.splits)
    then show ?thesis using e Some by (auto simp: cbb_evolves_def)
  qed
  then show ?thesis by (rule cbb_evolves_trans [OF flush_evolves [OF c1]])
qed

lemma did_write_evolves:
  assumes "length data < 2 ^ 64" and "CBB_did_write d data c = (c', ok)"
  shows "cbb_evolves c c'"
proof (cases "base c")
  case (Some b)
  have "buf_evolves b (b\<lparr>buf := buf b @ data\<rparr>)"
    if "\<not> buf_len b + of_nat (length data) < buf_len b" "\<not> cap b < buf_len b + of_nat (length data)"
      "buf_bounded b"
  proof -
    have u: "unat (buf_len b) = length (buf b)"
      using that(3) unat_word64_lt [of "cap b"] by (simp add: buf_len_def unat_of_nat buf_bounded_def)
    have "unat (buf_len b + of_nat (length data)) = length (buf b) + length data"
      using that(1) assms(1) u unat_plus_if' [of "buf_len b" "of_nat (length data)"]
      by (auto simp: word_less_nat_alt unat_of_nat split: if_splits)
    then show ?thesis using that(2,3) by (simp add: buf_evolves_def buf_bounded_def word_less_nat_alt)
  qed
  then show ?thesis using assms(2) Some
    by (auto simp: CBB_did_write_def Let_def cbb_evolves_def split: if_splits)
qed (use assms in \<open>simp add: CBB_did_write_def cbb_evolves_def\<close>)

lemma discard_evolves: "cbb_evolves c (CBB_discard_child d c)"
  by (auto simp: CBB_discard_child_def cbb_evolves_def buf_evolves_def buf_bounded_def
      split: option.splits)

text \<open>\<open>CBB_add_asn1\<close> writes the tag and opens a child with one byte for its length.\<close>

definition op_evolves :: "cbb_op \<Rightarrow> bool" where
  "op_evolves f \<longleftrightarrow> (\<forall>c c' ok. f c = (c', ok) \<longrightarrow> cbb_evolves c c')"

lemma op_evolvesI: "(\<And>c c' ok. f c = (c', ok) \<Longrightarrow> cbb_evolves c c') \<Longrightarrow> op_evolves f"
  by (simp add: op_evolves_def)

lemma op_evolvesD: "op_evolves f \<Longrightarrow> f c = (c', ok) \<Longrightarrow> cbb_evolves c c'"
  by (simp add: op_evolves_def)

lemma op_evolves_done: "op_evolves cbb_done"
  by (simp add: op_evolves_def cbb_done_def)

lemma op_evolves_and:
  assumes "op_evolves f" and "op_evolves g" shows "op_evolves (cbb_and f g)"
proof (rule op_evolvesI)
  fix c c' ok
  assume r: "cbb_and f g c = (c', ok)"
  obtain c1 ok1 where f: "f c = (c1, ok1)" by force
  show "cbb_evolves c c'"
    using r f op_evolvesD [OF assms(1) f] op_evolvesD [OF assms(2), of c1 c' ok]
    by (cases ok1) (auto simp: cbb_and_def intro: cbb_evolves_trans)
qed

lemma op_evolves_all: "(\<And>f. f \<in> set fs \<Longrightarrow> op_evolves f) \<Longrightarrow> op_evolves (cbb_all fs)"
  by (induction fs) (simp_all add: op_evolves_done op_evolves_and)

lemma op_evolves_u8: "op_evolves (CBB_add_u8 d v)"
  by (rule op_evolvesI)
    (auto simp: CBB_add_u8_def intro: buffer_add_u_evolves elim!: flush_then_evolves [rotated])

lemma op_evolves_bytes: "length data < 2 ^ 64 \<Longrightarrow> op_evolves (CBB_add_bytes d data)"
  by (rule op_evolvesI)
    (auto simp: CBB_add_bytes_def intro: buffer_add_evolves elim!: flush_then_evolves [rotated])

lemma op_evolves_base128: "op_evolves (add_base128_loop d v n)"
  by (induction n) (simp_all add: op_evolves_done op_evolves_and op_evolves_u8 Let_def)

lemma op_evolves_tag: "op_evolves (add_asn1_tag d tag)"
  unfolding op_evolves_def add_asn1_tag_def Let_def add_base128_integer_def
  using op_evolves_and [OF op_evolves_u8 op_evolves_base128] op_evolves_u8
  unfolding op_evolves_def by (simp del: split_paired_All)

lemma asn1_evolves:
  assumes "CBB_add_asn1 d tag c = (c', ok)"
  shows "cbb_evolves c c'"
proof -
  have fl: "op_evolves (CBB_flush d)" by (rule op_evolvesI) (rule flush_evolves)
  obtain c1 ok1 where c1: "cbb_and (CBB_flush d) (add_asn1_tag d tag) c = (c1, ok1)" by force
  have e1: "cbb_evolves c c1" by (rule op_evolvesD [OF op_evolves_and [OF fl op_evolves_tag] c1])
  obtain c2 ok2 where c2: "CBB_add_u8 d 0 c1 = (c2, ok2)" by force
  have e2: "cbb_evolves c1 c2" by (rule op_evolvesD [OF op_evolves_u8 c2])
  show ?thesis
    using assms c1 c2 e1 cbb_evolves_trans [OF e1 e2]
    by (cases ok1; cases ok2) (auto simp: CBB_add_asn1_def Let_def)
qed

text \<open>\<open>CBB_flush_asn1_set_of\<close> drops its contents and writes the elements back.\<close>

lemma length_contents: "base c = Some b \<Longrightarrow> length (CBB_contents d c) \<le> length (buf b)"
  by (simp add: CBB_contents_def)

lemma element_length_le: "e \<in> set cs \<Longrightarrow> length e \<le> length (concat cs)"
  by (auto dest!: split_list)

lemma rewind_evolves:
  "cbb_evolves c (c\<lparr>base := map_option (\<lambda>b. b\<lparr>buf := take (n b) (buf b)\<rparr>) (base c)\<rparr>)"
  by (auto simp: cbb_evolves_def buf_evolves_def buf_bounded_def split: option.splits)

lemma set_of_evolves:
  assumes "CBB_flush_asn1_set_of mok d c = (c', ok)"
  shows "cbb_evolves c c'"
proof -
  obtain c1 ok1 where c1: "CBB_flush d c = (c1, ok1)" by force
  note e1 = flush_evolves [OF c1]
  have "cbb_evolves c1 c'"
  proof (cases "c' = c1")
    case False
    let ?rw = "c1\<lparr>base := map_option (\<lambda>b. b\<lparr>buf := take (length (buf b) - length (CBB_contents d c1)) (buf b)\<rparr>)
      (base c1)\<rparr>"
    obtain cs where cs: "set_of_children (CBB_contents d c1) = Some cs"
      and all: "cbb_all (map (CBB_add_bytes d) (qsort compare_set_of_element cs)) ?rw = (c', ok)"
      using assms c1 False
      by (auto simp: CBB_flush_asn1_set_of_def Let_def split: bool.splits option.splits if_splits)
    show ?thesis
    proof (cases "\<exists>b. base c1 = Some b \<and> buf_bounded b")
      case True
      then obtain b where b: "base c1 = Some b" "buf_bounded b" by blast
      have "length e < 2 ^ 64" if "e \<in> set (qsort compare_set_of_element cs)" for e
      proof -
        have "e \<in> set cs" using that by (metis mset_qsort set_mset_mset)
        then have "length e \<le> length (buf b)"
          using element_length_le set_of_children_Some [OF cs] length_contents [OF b(1), of d]
          by (metis order.trans)
        then show ?thesis using b(2) unat_word64_lt [of "cap b"] by (simp add: buf_bounded_def)
      qed
      then have "op_evolves (cbb_all (map (CBB_add_bytes d) (qsort compare_set_of_element cs)))"
        by (intro op_evolves_all) (auto intro: op_evolves_bytes)
      from op_evolvesD [OF this all] show ?thesis by (rule cbb_evolves_trans [OF rewind_evolves])
    next
      case nb: False
      show ?thesis
      proof (cases "base c1")
        case None
        then have "CBB_contents d c1 = []" by (simp add: CBB_contents_def)
        then show ?thesis using assms c1 None
          by (auto simp: CBB_flush_asn1_set_of_def set_of_children.simps split: bool.splits)
      next
        case (Some b)
        then show ?thesis using nb by (simp add: cbb_evolves_def)
      qed
    qed
  qed simp
  then show ?thesis by (rule cbb_evolves_trans [OF e1])
qed

lemma step_evolves: "cbb_step c c' \<Longrightarrow> cbb_evolves c c'"
proof (induction rule: cbb_step.induct)
  case (finish want c c' res)
  then show ?case
    by (auto simp: CBB_finish_def CBB_cleanup_def split: prod.splits bool.splits option.splits if_splits
        dest!: flush_evolves) (auto simp: cbb_evolves_def split: option.splits)
qed (auto simp: CBB_add_bytes_def CBB_add_space_def CBB_reserve_def CBB_add_u8_def CBB_add_u16_def
    CBB_add_u24_def CBB_add_u32_def CBB_add_u64_def
    intro: flush_evolves prefixed_evolves asn1_evolves set_of_evolves did_write_evolves discard_evolves
      buffer_add_evolves buffer_add_u_evolves reserve_evolves
    elim!: flush_then_evolves [rotated])

lemma reach_evolves: "cbb_reach c c' \<Longrightarrow> cbb_evolves c c'"
  by (induction rule: cbb_reach.induct) (auto intro: cbb_evolves_trans step_evolves)

subsection \<open>The composed operations\<close>

text \<open>The other operations are sequences of these steps.\<close>

definition op_runs :: "cbb_op \<Rightarrow> bool" where
  "op_runs f \<longleftrightarrow> (\<forall>c c' ok. f c = (c', ok) \<longrightarrow> cbb_reach c c')"

lemma op_runsI: "(\<And>c c' ok. f c = (c', ok) \<Longrightarrow> cbb_reach c c') \<Longrightarrow> op_runs f"
  by (simp add: op_runs_def)

lemma op_runsD: "op_runs f \<Longrightarrow> f c = (c', ok) \<Longrightarrow> cbb_reach c c'"
  by (simp add: op_runs_def)

lemma cbb_reach_trans: "cbb_reach b c \<Longrightarrow> cbb_reach a b \<Longrightarrow> cbb_reach a c"
  by (induction rule: cbb_reach.induct) (auto intro: cbb_reach.step)

lemma cbb_reach_one: "cbb_step c c' \<Longrightarrow> cbb_reach c c'"
  by (rule cbb_reach.step [OF cbb_reach.start])

lemma op_runs_step: "(\<And>c c' ok. f c = (c', ok) \<Longrightarrow> cbb_step c c') \<Longrightarrow> op_runs f"
  by (intro op_runsI cbb_reach_one) blast

lemma op_runs_done: "op_runs cbb_done"
  by (simp add: op_runs_def cbb_done_def cbb_reach.start)

lemma op_runs_and:
  assumes "op_runs f" and "op_runs g" shows "op_runs (cbb_and f g)"
proof (rule op_runsI)
  fix c c' ok
  assume r: "cbb_and f g c = (c', ok)"
  obtain c1 ok1 where f: "f c = (c1, ok1)" by force
  show "cbb_reach c c'"
    using r f op_runsD [OF assms(1) f] op_runsD [OF assms(2), of c1 c' ok]
    by (cases ok1) (auto simp: cbb_and_def intro: cbb_reach_trans)
qed

lemma op_runs_all: "(\<And>f. f \<in> set fs \<Longrightarrow> op_runs f) \<Longrightarrow> op_runs (cbb_all fs)"
  by (induction fs) (simp_all add: op_runs_done op_runs_and)

lemma op_runs_steps [simp]:
  "op_runs (CBB_flush d)" "op_runs (CBB_add_u8 d v8)" "op_runs (CBB_add_u16 d v16)" "op_runs (CBB_add_u24 d v32)"
  "op_runs (CBB_add_u32 d v32)" "op_runs (CBB_add_u64 d v64)" "op_runs (CBB_add_asn1 d tag)"
  by (auto intro: op_runs_step cbb_step.intros)

lemma op_runs_bytes: "length data < 2 ^ 64 \<Longrightarrow> op_runs (CBB_add_bytes d data)"
  by (rule op_runs_step) (rule cbb_step.bytes)

lemma op_runs_prefixed: "op_runs (cbb_add_length_prefixed d l)"
  by (rule op_runs_step) (rule cbb_step.prefixed)

lemma op_runs_base128: "op_runs (add_base128_integer d v)"
proof -
  have "op_runs (add_base128_loop d v n)" for n
    by (induction n) (simp_all add: op_runs_done op_runs_and Let_def)
  then show ?thesis by (simp add: add_base128_integer_def Let_def)
qed

lemma uint64_bytes_run: "add_uint64_bytes d bs started c = (c', r) \<Longrightarrow> cbb_reach c c'"
proof (induction d bs started c rule: add_uint64_bytes.induct)
  case (2 d b bs started c)
  show ?case
  proof (cases "\<not> started \<and> b = 0")
    case True
    then show ?thesis using 2 by simp
  next
    case False
    let ?sign = "if \<not> started \<and> b AND 0x80 \<noteq> 0 then CBB_add_u8 d 0 c else (c, True)"
    obtain c1 ok1 where c1: "?sign = (c1, ok1)" by force
    have r1: "cbb_reach c c1"
      using c1 op_runsD [OF op_runs_steps(2), of d 0 c] cbb_reach.start by (auto split: if_splits)
    obtain c2 ok2 where c2: "CBB_add_u8 d b c1 = (c2, ok2)" by force
    have r2: "cbb_reach c c2" by (rule cbb_reach_trans [OF op_runsD [OF op_runs_steps(2) c2] r1])
    have "ok1 \<Longrightarrow> ok2 \<Longrightarrow> add_uint64_bytes d bs True c2 = (c', r) \<Longrightarrow> cbb_reach c2 c'"
      using "2.IH"(2) False c1 c2 by simp
    then show ?thesis using "2.prems" False c1 c2 r1 r2
      by (cases ok1; cases ok2) (auto intro: cbb_reach_trans split: if_splits)
  qed
qed (simp add: cbb_reach.start)

lemma op_runs_uint64: "op_runs (CBB_add_asn1_uint64 d v)"
proof (rule op_runsI)
  fix c c' ok
  assume r: "CBB_add_asn1_uint64 d v c = (c', ok)"
  let ?bs = "map (\<lambda>i. ucast (drop_bit (8 * (7 - i)) v AND 0xFF)) [0..<8] :: bytes"
  obtain c1 ok1 where c1: "CBB_add_asn1 d CBS_ASN1_INTEGER c = (c1, ok1)" by force
  note r1 = op_runsD [OF op_runs_steps(7) c1]
  obtain c2 st ok2 where c2: "add_uint64_bytes (d + 1) ?bs False c1 = (c2, st, ok2)" by (metis prod_cases3)
  have r2: "cbb_reach c c2" by (rule cbb_reach_trans [OF uint64_bytes_run [OF c2] r1])
  obtain c3 ok3 where c3: "(if st then (c2, True) else CBB_add_u8 (d + 1) 0 c2) = (c3, ok3)" by force
  have r3: "cbb_reach c c3"
    using c3 op_runsD [OF op_runs_steps(2), of "d + 1" 0 c2] r2
    by (auto intro: cbb_reach_trans split: if_splits)
  have "c' \<in> {c1, c2, c3} \<or> CBB_flush d c3 = (c', ok)"
    using r c1 c2 c3 unfolding CBB_add_asn1_uint64_def
    by (cases ok1; cases ok2; cases ok3) (simp_all split: if_splits)
  then show "cbb_reach c c'"
    using r1 r2 r3 op_runsD [OF op_runs_steps(1), of d c3] by (auto intro: cbb_reach_trans)
qed

lemma op_runs_oid_loop: "op_runs (oid_text_loop d text)"
proof -
  have "oid_text_loop d cbs c = (c', ok) \<Longrightarrow> cbb_reach c c'" for d cbs c c' ok
  proof (induction d cbs c rule: oid_text_loop.induct)
    case (1 d cbs c)
    note u = oid_text_loop.simps [of d cbs c]
    show ?case
    proof (cases "cbs = []")
      case True
      then have "c' = c" using "1.prems" u by simp
      then show ?thesis by (simp add: cbb_reach.start)
    next
      case False
      obtain cbs' r where p: "parse_dotted_decimal cbs = (cbs', r)" by force
      show ?thesis
      proof (cases r)
        case None
        then show ?thesis using "1.prems" False p by (simp add: u cbb_reach.start)
      next
        case (Some a)
        obtain c1 ok1 where c1: "add_base128_integer d a c = (c1, ok1)" by force
        note r1 = op_runsD [OF op_runs_base128 c1]
        have "ok1 \<Longrightarrow> oid_text_loop d cbs' c1 = (c', ok) \<Longrightarrow> cbb_reach c1 c'"
          using "1.IH" [OF False p [symmetric] Some] c1 by simp
        then show ?thesis using "1.prems" False p Some c1 r1
          by (cases ok1) (auto simp: u intro: cbb_reach_trans)
      qed
    qed
  qed
  then show ?thesis by (rule op_runsI)
qed

lemma op_runs_oid: "op_runs (CBB_add_asn1_oid_from_text d text)"
proof (rule op_runsI)
  fix c c' ok
  assume r: "CBB_add_asn1_oid_from_text d text c = (c', ok)"
  obtain c1 ok1 where c1: "CBB_flush d c = (c1, ok1)" by force
  note r1 = op_runsD [OF op_runs_steps(1) c1]
  have "c' = c1 \<or> (\<exists>v t c2 ok2. add_base128_integer d v c1 = (c2, ok2) \<and>
      (c' = c2 \<or> oid_text_loop d t c2 = (c', ok)))"
    using r c1 unfolding CBB_add_asn1_oid_from_text_def
    by (simp split: bool.splits prod.splits option.splits if_splits) blast+
  then show "cbb_reach c c'"
    using r1 op_runsD [OF op_runs_base128] op_runsD [OF op_runs_oid_loop] by (blast intro: cbb_reach_trans)
qed

lemma composed_ops_run:
  "op_runs (CBB_add_u16le d v16)" "op_runs (CBB_add_u32le d v32)" "op_runs (CBB_add_u64le d v64)"
  "op_runs (CBB_add_u8_length_prefixed d)" "op_runs (CBB_add_u16_length_prefixed d)"
  "op_runs (CBB_add_u24_length_prefixed d)"
  "length data < 2 ^ 64 \<Longrightarrow> op_runs (CBB_add_asn1_octet_string d data)" "op_runs (CBB_add_asn1_bool d q)"
  "op_runs (CBB_add_asn1_uint64 d v64)" "op_runs (CBB_add_asn1_int64 d v64)"
  "op_runs (CBB_add_asn1_oid_from_text d text)"
  by (simp_all add: CBB_add_u16le_def CBB_add_u32le_def CBB_add_u64le_def CBB_add_u8_length_prefixed_def
      CBB_add_u16_length_prefixed_def CBB_add_u24_length_prefixed_def op_runs_uint64 op_runs_oid op_runs_prefixed)
    (auto simp: CBB_add_asn1_octet_string_def CBB_add_asn1_bool_def CBB_add_asn1_int64_def Let_def op_runs_uint64
      simp del: cbb_all.simps intro!: op_runs_all op_runs_bytes)

end
