(* ===== verification/BsProps.thy ===== *)
theory BsProps
  imports Oid CbbSafe SetOf
begin

text \<open>
  The properties of the byte-string reader and builder: canonical decoding, round trips between
  builder and reader, the refinement of the shared buffer to contents with length prefixes, the
  bounds and the error behaviour of the builder.
\<close>

subsection \<open>Decoding is canonical\<close>

text \<open>C4: DER elements have one encoding: \<open>CBS_get_any_asn1_element\<close> accepts exactly the
  canonical header (minimal tag number, minimal length, less than 2^32 bytes) followed by the
  contents, returns the tag and the header length, and consumes nothing else.\<close>

theorem asn1_element_canonical:
  "CBS_get_any_asn1_element cbs = (rest, Some (elem, t, hl)) \<longleftrightarrow>
     (\<exists>body. length body < 2 ^ 32 \<and> elem = der_element t body \<and> cbs = elem @ rest \<and>
        hl = of_nat (length (der_tag t) + length (der_length (length body))))"
proof
  assume "CBS_get_any_asn1_element cbs = (rest, Some (elem, t, hl))"
  from get_element_canonical [OF this [unfolded CBS_get_any_asn1_element_def]]
  show "\<exists>body. length body < 2 ^ 32 \<and> elem = der_element t body \<and> cbs = elem @ rest \<and>
      hl = of_nat (length (der_tag t) + length (der_length (length body)))"
    unfolding der_header_length_def by blast
next
  assume "\<exists>body. length body < 2 ^ 32 \<and> elem = der_element t body \<and> cbs = elem @ rest \<and>
      hl = of_nat (length (der_tag t) + length (der_length (length body)))"
  then show "CBS_get_any_asn1_element cbs = (rest, Some (elem, t, hl))"
    by (auto simp: CBS_get_any_asn1_element_def get_der_element der_header_length_def)
qed

text \<open>Base-128 integers (high tag numbers, OID components) have one encoding: the reader
  accepts exactly the minimal one, of all 64-bit values.\<close>

lemma parse_base128_canonical:
  "parse_base128_integer cbs = (rest, Some v) \<longleftrightarrow> cbs = base128 v @ rest"
  using base128.dec_iff [of cbs rest v] by simp

text \<open>INTEGERs: \<open>CBS_get_asn1_uint64\<close> accepts exactly the minimal encodings of the 64-bit
  numbers; negative ones, extra leading zeros and longer ones are errors.\<close>

lemma asn1_uint64_canonical:
  "CBS_get_asn1_uint64 cbs = (rest, Some v) \<longleftrightarrow>
     cbs = der_element CBS_ASN1_INTEGER (uint_contents v) @ rest"
  using asn1_uint64.dec_iff [of cbs rest v] by simp

text \<open>Length-prefixed strings: the readers for one, two and three length bytes return exactly
  the string the prefix announces and leave the rest; a string that is cut off is refused.\<close>

lemma cbs_length_prefixed_canonical:
  "(CBS_get_u8_length_prefixed cbs = (rest, Some s) \<longleftrightarrow>
      length s < 2 ^ 8 \<and> cbs = be_bytes 1 (of_nat (length s) :: u64) @ s @ rest) \<and>
   (CBS_get_u16_length_prefixed cbs = (rest, Some s) \<longleftrightarrow>
      length s < 2 ^ 16 \<and> cbs = be_bytes 2 (of_nat (length s) :: u64) @ s @ rest) \<and>
   (CBS_get_u24_length_prefixed cbs = (rest, Some s) \<longleftrightarrow>
      length s < 2 ^ 24 \<and> cbs = be_bytes 3 (of_nat (length s) :: u64) @ s @ rest)"
  using u8_prefixed.dec_iff [of cbs rest s] u16_prefixed.dec_iff [of cbs rest s]
    u24_prefixed.dec_iff [of cbs rest s] by (simp add: length_prefixed_def)

text \<open>C33: The value readers accept exactly one encoding: a base-128 integer (high tag numbers, OID
  components) only its minimal form, an INTEGER of up to 64 bits only its minimal contents (negative
  ones, extra leading zeros and longer ones are errors), a length-prefixed string only the announced
  number of bytes; the rest of the input is left.\<close>

theorem cbs_readers_canonical:
  "(parse_base128_integer cbs = (rest, Some v) \<longleftrightarrow> cbs = base128 v @ rest) \<and>
   (CBS_get_asn1_uint64 cbs = (rest, Some v) \<longleftrightarrow>
      cbs = der_element CBS_ASN1_INTEGER (uint_contents v) @ rest) \<and>
   (CBS_get_u8_length_prefixed cbs = (rest, Some s) \<longleftrightarrow>
      length s < 2 ^ 8 \<and> cbs = be_bytes 1 (of_nat (length s) :: u64) @ s @ rest) \<and>
   (CBS_get_u16_length_prefixed cbs = (rest, Some s) \<longleftrightarrow>
      length s < 2 ^ 16 \<and> cbs = be_bytes 2 (of_nat (length s) :: u64) @ s @ rest) \<and>
   (CBS_get_u24_length_prefixed cbs = (rest, Some s) \<longleftrightarrow>
      length s < 2 ^ 24 \<and> cbs = be_bytes 3 (of_nat (length s) :: u64) @ s @ rest)"
  by (intro conjI parse_base128_canonical asn1_uint64_canonical)
     (simp_all add: cbs_length_prefixed_canonical)

subsection \<open>What was built is read back\<close>

lemma init_holds:
  assumes "CBB_init mok alloc n = (c, True)"
  shows "cbb_holds c \<lparr>buf = [], cap = n, can_resize = True, error = False, alloc_ok = alloc\<rparr> [[]]"
    and "frames c = []"
  using assms
  by (auto simp: CBB_init_def cbb_init_def CBB_zero_def cbb_holds_def cbb_fits_def split: if_splits)

lemma writes_finish:
  assumes w: "cbb_writes 0 f out" and init: "CBB_init mok alloc n = (c, True)"
    and f: "f c = (c1, True)" and fin: "CBB_finish want c1 = (c2, Some bs)"
  shows "bs = out"
proof -
  from cbb_writesD(1) [OF w init_holds(1) [OF init] _ f] init_holds(2) [OF init]
  obtain b1 where "frames c1 = []" "cbb_holds c1 b1 [out]" by auto
  then show ?thesis using fin
    by (auto simp: CBB_finish_def CBB_flush_def cbb_holds_def cbb_fits_def split: if_splits)
qed

lemma cbb_writes_all_Cons:
  "cbb_writes d f bs \<Longrightarrow> cbb_writes d (cbb_all (g # fs)) cs \<Longrightarrow> cbb_writes d (cbb_all (f # g # fs)) (bs @ cs)"
  by (simp add: cbb_writes_and)

lemma cbb_writes_all_single: "cbb_writes d f bs \<Longrightarrow> cbb_writes d (cbb_all [f]) bs"
  by simp

text \<open>C32: Integers of all widths and both byte orders, written one after the other to a fresh
  builder, are read back in that order from the finished bytes, and nothing is left.\<close>

theorem cbb_integers_roundtrip:
  assumes "CBB_init mok alloc n = (c, True)"
    and "cbb_all [CBB_add_u8 0 v1, CBB_add_u16 0 v2, CBB_add_u24 0 v3, CBB_add_u32 0 v4,
           CBB_add_u64 0 v5, CBB_add_u16le 0 v6, CBB_add_u32le 0 v7, CBB_add_u64le 0 v8] c = (c1, True)"
    and "unat v3 < 2 ^ 24" and "CBB_finish True c1 = (c2, Some bs)"
  shows "\<exists>r1 r2 r3 r4 r5 r6 r7. CBS_get_u8 (bs @ rest) = (r1, Some v1) \<and>
    CBS_get_u16 r1 = (r2, Some v2) \<and> CBS_get_u24 r2 = (r3, Some v3) \<and>
    CBS_get_u32 r3 = (r4, Some v4) \<and> CBS_get_u64 r4 = (r5, Some v5) \<and>
    CBS_get_u16le r5 = (r6, Some v6) \<and> CBS_get_u32le r6 = (r7, Some v7) \<and>
    CBS_get_u64le r7 = (rest, Some v8)"
proof -
  have "bs = [v1] @ be_bytes 2 v2 @ be_bytes 3 v3 @ be_bytes 4 v4 @ be_bytes 8 v5 @
      le_bytes 2 v6 @ le_bytes 4 v7 @ le_bytes 8 v8"
    by (rule writes_finish [where f = "cbb_all [CBB_add_u8 0 v1, CBB_add_u16 0 v2, CBB_add_u24 0 v3,
          CBB_add_u32 0 v4, CBB_add_u64 0 v5, CBB_add_u16le 0 v6, CBB_add_u32le 0 v7,
          CBB_add_u64le 0 v8]", OF _ assms(1,2,4)])
      (intro cbb_writes_all_Cons cbb_writes_all_single cbb_writes_u8 cbb_writes_u16
        cbb_writes_u24 [OF assms(3)] cbb_writes_u32 cbb_writes_u64 cbb_writes_u16le
        cbb_writes_u32le cbb_writes_u64le)
  moreover have "take_bit (8 * 3) v3 = v3"
    using assms(3) by (simp add: word_unat_eq_iff unsigned_take_bit_eq take_bit_nat_eq_self)
  ultimately show ?thesis
    by (simp add: u16.dec_enc u24.dec_enc u32.dec_enc u64.dec_enc u16le.dec_enc u32le.dec_enc u64le.dec_enc)
qed

theorem cbb_integers_roundtrip_witness:
  "\<exists>c c1 c2 bs. CBB_init True (\<lambda>_. True) 64 = (c, True) \<and>
     cbb_all [CBB_add_u8 0 1, CBB_add_u16 0 2, CBB_add_u24 0 0x030405, CBB_add_u32 0 4,
       CBB_add_u64 0 5, CBB_add_u16le 0 6, CBB_add_u32le 0 7, CBB_add_u64le 0 8] c = (c1, True) \<and>
     CBB_finish True c1 = (c2, Some bs) \<and> (\<exists>r. CBS_get_u8 (bs @ [9]) = (r, Some 1))"
proof -
  obtain c where c: "CBB_init True (\<lambda>_. True) 64 = (c, True)"
    by (simp add: CBB_init_def cbb_init_def)
  let ?ops = "[CBB_add_u8 0 1, CBB_add_u16 0 2, CBB_add_u24 0 0x030405, CBB_add_u32 0 4,
      CBB_add_u64 0 5, CBB_add_u16le 0 6, CBB_add_u32le 0 7, CBB_add_u64le 0 8]"
  have "snd (cbb_all ?ops (fst (CBB_init True (\<lambda>_. True) 64)))" by code_simp
  then obtain c1 where c1: "cbb_all ?ops c = (c1, True)" using c by (cases "cbb_all ?ops c") auto
  have "snd (CBB_finish True (fst (cbb_all ?ops (fst (CBB_init True (\<lambda>_. True) 64))))) \<noteq> None" by code_simp
  then obtain c2 bs where f: "CBB_finish True c1 = (c2, Some bs)"
    using c c1 by (cases "CBB_finish True c1") auto
  show ?thesis using c c1 f cbb_integers_roundtrip [OF c c1 _ f, of "[9]"] by auto
qed

text \<open>C19: The text of an object identifier: what \<open>CBB_add_asn1_oid_from_text\<close> accepts and
  encodes, \<open>CBS_asn1_oid_to_text\<close> prints again, character by character.\<close>

theorem oid_text_roundtrip:
  assumes "CBB_init mok alloc n = (c, True)" and "CBB_add_asn1_oid_from_text 0 txt c = (c1, True)"
    and "CBB_finish True c1 = (c2, Some der)" and "length txt + 1 < 2 ^ 64"
  shows "CBS_asn1_oid_to_text True (\<lambda>_. True) der = Some (txt @ [0])"
proof -
  from oid_from_text_True [OF assms(2)] obtain a b vs where t: "txt = oid_text (a # b # vs)" "oid_head a b"
    "cbb_all (CBB_flush 0 # map (add_base128_integer 0) ((40 * a + b) # vs)) c = (c1, True)" by blast
  have "der = concat (map base128 ((40 * a + b) # vs))"
    by (rule writes_finish [OF cbb_writes_oid assms(1) t(3) assms(3)])
  then show ?thesis using oid_to_text_encoding [OF t(2), of vs] assms(4) t(1) by simp
qed

theorem oid_text_roundtrip_witness:
  "\<exists>c c1 c2 der. CBB_init True (\<lambda>_. True) 8 = (c, True) \<and>
     CBB_add_asn1_oid_from_text 0 [49, 46, 50, 46, 56, 52, 48] c = (c1, True) \<and>
     CBB_finish True c1 = (c2, Some der) \<and> der = [42, 134, 72] \<and>
     CBS_asn1_oid_to_text True (\<lambda>_. True) der = Some [49, 46, 50, 46, 56, 52, 48, 0]"
proof -
  let ?t = "[49, 46, 50, 46, 56, 52, 48] :: bytes"
  obtain c where c: "CBB_init True (\<lambda>_. True) 8 = (c, True)"
    by (simp add: CBB_init_def cbb_init_def)
  have "snd (CBB_add_asn1_oid_from_text 0 ?t (fst (CBB_init True (\<lambda>_. True) 8)))" by code_simp
  then obtain c1 where c1: "CBB_add_asn1_oid_from_text 0 ?t c = (c1, True)"
    using c by (cases "CBB_add_asn1_oid_from_text 0 ?t c") auto
  have "snd (CBB_finish True (fst (CBB_add_asn1_oid_from_text 0 ?t (fst (CBB_init True (\<lambda>_. True) 8))))) =
      Some [42, 134, 72]" by code_simp
  then obtain c2 where f: "CBB_finish True c1 = (c2, Some [42, 134, 72])"
    using c c1 by (cases "CBB_finish True c1") auto
  show ?thesis using c c1 f oid_text_roundtrip [OF c c1 f] by auto
qed

lemmas get_asn1_element = canonical_codec.dec_enc [OF CBS_get_asn1_canonical]

lemma get_asn1_bool_element:
  "CBS_get_asn1_bool (der_element CBS_ASN1_BOOLEAN [if v then 0xFF else 0] @ rest) = (rest, Some v)"
  by (simp add: CBS_get_asn1_bool_def asn1_boolean.dec_enc CBS_len_def)

text \<open>C7: A DER structure built with children is read back field by field: a SEQUENCE of an
  INTEGER, a BOOLEAN and an OCTET STRING, whose length octets \<open>CBB_flush\<close> fills in when the
  SEQUENCE is closed.\<close>

theorem asn1_sequence_roundtrip:
  assumes "CBB_init mok alloc n = (c, True)" and "length data < 2 ^ 31"
    and "cbb_all [CBB_add_asn1 0 CBS_ASN1_SEQUENCE,
           cbb_all [CBB_add_asn1_uint64 1 v, CBB_add_asn1_bool 1 flag, CBB_add_asn1_octet_string 1 data],
           CBB_flush 0] c = (c1, True)"
    and "CBB_finish True c1 = (c2, Some der)"
  shows "\<exists>body r1 r2. CBS_get_asn1 CBS_ASN1_SEQUENCE (der @ rest) = (rest, Some body) \<and>
    CBS_get_asn1_uint64 body = (r1, Some v) \<and> CBS_get_asn1_bool r1 = (r2, Some flag) \<and>
    CBS_get_asn1 CBS_ASN1_OCTETSTRING r2 = ([], Some data)"
proof -
  let ?parts = "der_element CBS_ASN1_INTEGER (uint_contents v) @
      der_element CBS_ASN1_BOOLEAN [if flag then 0xFF else 0] @ der_element CBS_ASN1_OCTETSTRING data"
  have d: "length data \<le> 0xFFFFFFFE" using assms(2) by simp
  have w: "cbb_writes (0 + 1) (cbb_all [CBB_add_asn1_uint64 1 v, CBB_add_asn1_bool 1 flag,
      CBB_add_asn1_octet_string 1 data]) ?parts"
    using cbb_writes_uint64 [of "0 + 1" v] cbb_writes_bool [of "0 + 1" flag]
      cbb_writes_octet_string [OF d, of "0 + 1"]
    by (intro cbb_writes_all_Cons cbb_writes_all_single) (simp_all only: add_0)
  have l: "length ?parts \<le> 0xFFFFFFFE"
    using assms(2) length_uint_contents [of v] length_der_tag [of CBS_ASN1_INTEGER]
      length_der_tag [of CBS_ASN1_BOOLEAN] length_der_tag [of CBS_ASN1_OCTETSTRING]
      length_der_length [of "length (uint_contents v)"] length_der_length [of 1]
      length_der_length [of "length data"]
    by (simp add: der_element_def)
  have "der = der_element CBS_ASN1_SEQUENCE ?parts"
    by (rule writes_finish [OF cbb_writes_element [OF w l] assms(1,3,4)])
  then have "CBS_get_asn1 CBS_ASN1_SEQUENCE (der @ rest) = (rest, Some ?parts)"
    using get_asn1_element [where v = ?parts and t = CBS_ASN1_SEQUENCE and rest = rest] l by simp
  moreover have "CBS_get_asn1_uint64 ?parts = (der_element CBS_ASN1_BOOLEAN [if flag then 0xFF else 0] @
      der_element CBS_ASN1_OCTETSTRING data, Some v)"
    by (simp add: asn1_uint64.dec_enc)
  moreover have "CBS_get_asn1_bool (der_element CBS_ASN1_BOOLEAN [if flag then 0xFF else 0] @
      der_element CBS_ASN1_OCTETSTRING data) = (der_element CBS_ASN1_OCTETSTRING data, Some flag)"
    by (simp add: get_asn1_bool_element)
  moreover have "CBS_get_asn1 CBS_ASN1_OCTETSTRING (der_element CBS_ASN1_OCTETSTRING data) = ([], Some data)"
    using get_asn1_element [where v = data and t = CBS_ASN1_OCTETSTRING and rest = "[]"] d by simp
  ultimately show ?thesis by blast
qed

theorem asn1_sequence_roundtrip_witness:
  "\<exists>c c1 c2 der r1 r2 body. CBB_init True (\<lambda>_. True) 4 = (c, True) \<and>
     cbb_all [CBB_add_asn1 0 CBS_ASN1_SEQUENCE,
       cbb_all [CBB_add_asn1_uint64 1 300, CBB_add_asn1_bool 1 True, CBB_add_asn1_octet_string 1 [7, 8]],
       CBB_flush 0] c = (c1, True) \<and>
     CBB_finish True c1 = (c2, Some der) \<and> der = [48, 11, 2, 2, 1, 44, 1, 1, 255, 4, 2, 7, 8] \<and>
     CBS_get_asn1 CBS_ASN1_SEQUENCE (der @ [5]) = ([5], Some body) \<and>
     CBS_get_asn1_uint64 body = (r1, Some 300) \<and> CBS_get_asn1_bool r1 = (r2, Some True) \<and>
     CBS_get_asn1 CBS_ASN1_OCTETSTRING r2 = ([], Some [7, 8])"
proof -
  let ?ops = "[CBB_add_asn1 0 CBS_ASN1_SEQUENCE,
      cbb_all [CBB_add_asn1_uint64 1 300, CBB_add_asn1_bool 1 True, CBB_add_asn1_octet_string 1 [7, 8]],
      CBB_flush 0]"
  obtain c where c: "CBB_init True (\<lambda>_. True) 4 = (c, True)"
    by (simp add: CBB_init_def cbb_init_def)
  have "snd (cbb_all ?ops (fst (CBB_init True (\<lambda>_. True) 4)))" by code_simp
  then obtain c1 where c1: "cbb_all ?ops c = (c1, True)" using c by (cases "cbb_all ?ops c") auto
  have "snd (CBB_finish True (fst (cbb_all ?ops (fst (CBB_init True (\<lambda>_. True) 4))))) =
      Some [48, 11, 2, 2, 1, 44, 1, 1, 255, 4, 2, 7, 8]" by code_simp
  then obtain c2 where f: "CBB_finish True c1 = (c2, Some [48, 11, 2, 2, 1, 44, 1, 1, 255, 4, 2, 7, 8])"
    using c c1 by (cases "CBB_finish True c1") auto
  from asn1_sequence_roundtrip [OF c _ c1 f, of "[5]"] show ?thesis using c c1 f by auto
qed

subsection \<open>Children\<close>

lemma child_limit:
  assumes init: "CBB_init mok (\<lambda>_. True) n = (c, True)" and f: "cbb_opens 0 f p a l"
    and data: "length data < 2 ^ 63" and p: "length p \<le> 11" and l: "unat l \<le> 3"
    and l1: "a \<Longrightarrow> l = 1"
  shows "snd (cbb_all [f, CBB_add_bytes 1 data, CBB_flush 0] c) \<longleftrightarrow> prefix_of a l (length data) \<noteq> None"
proof
  have g: "cbb_writes (0 + 1) (CBB_add_bytes 1 data) data" using data cbb_writes_bytes [of data 1] by simp
  note h = init_holds [OF init]
  show "prefix_of a l (length data) \<noteq> None" if "snd (cbb_all [f, CBB_add_bytes 1 data, CBB_flush 0] c)"
  proof -
    obtain c' where "cbb_all [f, CBB_add_bytes 1 data, CBB_flush 0] c = (c', True)"
      using \<open>snd _\<close> by (cases "cbb_all [f, CBB_add_bytes 1 data, CBB_flush 0] c") auto
    from cbb_child_True [OF f g h(1) _ this] show ?thesis by auto
  qed
  assume "prefix_of a l (length data) \<noteq> None"
  then obtain q where q: "prefix_of a l (length data) = Some q" by blast
  have lq: "unat l \<le> length q" "length q \<le> 5"
    using q l l1 length_der_length [of "length data"] by (auto simp: prefix_of_def Suc_le_eq split: if_splits)
  have "\<exists>c'. cbb_all [f, CBB_add_bytes 1 data, CBB_flush 0] c = (c', True)"
    by (rule cbb_writesD(2) [OF cbb_writes_child [OF f g q lq(1)] h(1), of "[]"])
      (use h(2) data p lq in \<open>auto simp: level_start_def cbb_room_def\<close>)
  then show "snd (cbb_all [f, CBB_add_bytes 1 data, CBB_flush 0] c)" by auto
qed

text \<open>C30: The length prefixes have a limit, and it is exact: contents of a child with an 8-, 16-
  or 24-bit prefix can be flushed when, and only when, their length fits the prefix; with a DER
  prefix when they have less than 2^32 - 1 bytes.\<close>

theorem cbb_child_length_limit:
  assumes "CBB_init mok (\<lambda>_. True) n = (c, True)" and "length data < 2 ^ 63"
  shows "(snd (cbb_all [CBB_add_u8_length_prefixed 0, CBB_add_bytes 1 data, CBB_flush 0] c) \<longleftrightarrow>
      length data < 2 ^ 8) \<and>
    (snd (cbb_all [CBB_add_u16_length_prefixed 0, CBB_add_bytes 1 data, CBB_flush 0] c) \<longleftrightarrow>
      length data < 2 ^ 16) \<and>
    (snd (cbb_all [CBB_add_u24_length_prefixed 0, CBB_add_bytes 1 data, CBB_flush 0] c) \<longleftrightarrow>
      length data < 2 ^ 24) \<and>
    (snd (cbb_all [CBB_add_asn1 0 tag, CBB_add_bytes 1 data, CBB_flush 0] c) \<longleftrightarrow>
      length data < 2 ^ 32 - 1)"
proof (intro conjI)
  note lim = child_limit [OF assms(1) _ assms(2)]
  show "snd (cbb_all [CBB_add_u8_length_prefixed 0, CBB_add_bytes 1 data, CBB_flush 0] c) \<longleftrightarrow>
      length data < 2 ^ 8"
    using lim [OF cbb_opens_length_prefixed [of 1 0]]
    by (simp add: CBB_add_u8_length_prefixed_def prefix_of_def del: cbb_all.simps)
  show "snd (cbb_all [CBB_add_u16_length_prefixed 0, CBB_add_bytes 1 data, CBB_flush 0] c) \<longleftrightarrow>
      length data < 2 ^ 16"
    using lim [OF cbb_opens_length_prefixed [of 2 0]]
    by (simp add: CBB_add_u16_length_prefixed_def prefix_of_def del: cbb_all.simps)
  show "snd (cbb_all [CBB_add_u24_length_prefixed 0, CBB_add_bytes 1 data, CBB_flush 0] c) \<longleftrightarrow>
      length data < 2 ^ 24"
    using lim [OF cbb_opens_length_prefixed [of 3 0]]
    by (simp add: CBB_add_u24_length_prefixed_def prefix_of_def del: cbb_all.simps)
  show "snd (cbb_all [CBB_add_asn1 0 tag, CBB_add_bytes 1 data, CBB_flush 0] c) \<longleftrightarrow>
      length data < 2 ^ 32 - 1"
    using lim [OF cbb_opens_asn1] length_der_tag(2) [of tag]
    by (auto simp: prefix_of_def simp del: cbb_all.simps split: if_splits)
qed

theorem cbb_child_length_limit_witness:
  "\<exists>c. CBB_init True (\<lambda>_. True) 0 = (c, True) \<and>
     \<not> snd (cbb_all [CBB_add_u8_length_prefixed 0, CBB_add_bytes 1 (replicate 256 0), CBB_flush 0] c)"
proof -
  obtain c where c: "CBB_init True (\<lambda>_. True) 0 = (c, True)"
    by (simp add: CBB_init_def cbb_init_def)
  then show ?thesis using cbb_child_length_limit [OF c, of "replicate 256 0"] by auto
qed

text \<open>C6: Flushing refines closing: in every state that represents the contents of the chain of
  open children (\<open>cbb_holds\<close>), a successful \<open>CBB_flush\<close> of level \<open>d\<close> gives the state
  that represents the contents of the outer levels, with the contents of everything below \<open>d\<close>
  put behind their prefixes by the abstract function \<open>closed\<close>; when the contents fit their
  prefixes and the buffer has room, the flush succeeds.\<close>

theorem cbb_flush_refines:
  assumes "cbb_holds c b xs" and "d \<le> length (frames c)"
  shows "(\<forall>c'. CBB_flush d c = (c', True) \<longrightarrow>
      (\<exists>y b'. closed (drop d (frames c)) (drop d xs) = Some y \<and> frames c' = take d (frames c) \<and>
         cbb_holds c' b' (take d xs @ [y]) \<and> same_env b b')) \<and>
    (\<forall>y. closed (drop d (frames c)) (drop d xs) = Some y \<longrightarrow>
       cbb_room b (level_start d (frames c) + length y) \<longrightarrow> snd (CBB_flush d c))"
  using cbb_writesD [OF cbb_writes_flush assms] by fastforce

theorem cbb_flush_refines_witness:
  "let b = \<lparr>buf = [1, 0, 7, 8], cap = 9, can_resize = False, error = False, alloc_ok = \<lambda>_. False\<rparr>;
       c = \<lparr>base = Some b, frames = [\<lparr>offset = 1, pending_len_len = 1, pending_is_asn1 = False\<rparr>]\<rparr>
   in cbb_holds c b [[1], [7, 8]] \<and> snd (CBB_flush 0 c)"
proof -
  let ?b = "\<lparr>buf = [1, 0, 7, 8], cap = 9, can_resize = False, error = False, alloc_ok = \<lambda>_. False\<rparr>"
  let ?c = "\<lparr>base = Some ?b, frames = [\<lparr>offset = 1, pending_len_len = 1, pending_is_asn1 = False\<rparr>]\<rparr>"
  have h: "cbb_holds ?c ?b [[1], [7, 8]]"
    by (simp add: cbb_holds_def cbb_fits_def child_ok_def)
  moreover have "snd (CBB_flush 0 ?c)"
    using cbb_flush_refines [OF h, of 0]
    by (simp add: child_prefix_def level_start_def cbb_room_def)
  ultimately show ?thesis by (simp add: Let_def)
qed

subsection \<open>Bounds and errors, for all sequences of operations\<close>

text \<open>C17: A builder over a caller's buffer of \<open>n\<close> bytes never writes behind it: after any
  sequence of operations, the opening and closing of ASN.1 elements and the sorting of a SET OF
  included, with any arguments and any handles, failing or not, the capacity is still \<open>n\<close> and at
  most \<open>n\<close> bytes are in use.\<close>

theorem cbb_fixed_never_overflows:
  assumes "CBB_init_fixed mok n = (c, True)" and "cbb_reach c c'" and "base c' = Some b"
  shows "cap b = n \<and> length (buf b) \<le> unat n \<and> \<not> can_resize b"
proof -
  have "base c = Some \<lparr>buf = [], cap = n, can_resize = False, error = False, alloc_ok = \<lambda>_. False\<rparr>"
    using assms(1) by (auto simp: CBB_init_fixed_def cbb_init_def CBB_zero_def split: if_splits)
  then show ?thesis using reach_evolves [OF assms(2)] assms(3)
    by (auto simp: cbb_evolves_def buf_evolves_def buf_bounded_def)
qed

text \<open>An element of 128 bytes needs one more length byte than was reserved; the buffer has no room.\<close>

theorem cbb_fixed_never_overflows_witness:
  "\<exists>c c'. CBB_init_fixed True 130 = (c, True) \<and> cbb_reach c c' \<and>
     (\<exists>b. base c' = Some b \<and> error b \<and> length (buf b) \<le> 130 \<and> frames c' \<noteq> [])"
proof -
  let ?c = "fst (CBB_init_fixed True 130)"
  let ?c1 = "fst (CBB_add_asn1 0 0x20000010 ?c)"
  let ?c2 = "fst (CBB_add_bytes 1 (replicate 128 5) ?c1)"
  let ?c3 = "fst (CBB_flush 0 ?c2)"
  have c: "CBB_init_fixed True 130 = (?c, True)"
    by (simp add: CBB_init_fixed_def cbb_init_def)
  have "cbb_step ?c ?c1" by (rule cbb_step.asn1 [OF prod.collapse [symmetric]])
  moreover have "cbb_step ?c1 ?c2" by (rule cbb_step.bytes [OF _ prod.collapse [symmetric]]) simp
  moreover have "cbb_step ?c2 ?c3" by (rule cbb_step.flush [OF prod.collapse [symmetric]])
  ultimately have r: "cbb_reach ?c ?c3" by (blast intro: cbb_reach.intros)
  have "map_option error (base ?c3) = Some True" "frames ?c3 \<noteq> []" by code_simp+
  then obtain b where b: "base ?c3 = Some b" "error b" "frames ?c3 \<noteq> []" by auto
  from cbb_fixed_never_overflows [OF c r b(1)] c r b show ?thesis by auto
qed

lemma did_write_room:
  assumes "base c = Some b" and "d = length (frames c)" and "length (buf b) + length data \<le> unat (cap b)"
  shows "CBB_did_write d data c = (c\<lparr>base := Some (b\<lparr>buf := buf b @ data\<rparr>)\<rparr>, True)"
proof -
  have "unat (buf_len b + of_nat (length data)) = length (buf b) + length data"
    using assms(3) unat_word64_lt [of "cap b"]
    by (simp add: buf_len_def unat_of_nat unat_word_ariths mod_simps)
  moreover have "unat (buf_len b) = length (buf b)"
    using assms(3) unat_word64_lt [of "cap b"] by (simp add: buf_len_def unat_of_nat)
  ultimately show ?thesis using assms
    by (simp add: CBB_did_write_def Let_def word_less_nat_alt)
qed

lemma flush_error: "base c = Some b \<Longrightarrow> error b \<Longrightarrow> \<not> snd (CBB_flush d c)"
  by (cases "drop d (frames c)") (simp_all add: CBB_flush_def)

lemma flush_then_error:
  "\<not> snd (CBB_flush d c) \<Longrightarrow> \<not> snd (cbb_flush_then d f c)"
  by (auto simp: cbb_flush_then_def split: prod.splits bool.splits)

text \<open>C29: Errors stick, with one exception: once the buffer is marked, no sequence of operations
  clears the mark, every later operation that flushes first fails (each way to write a value, to
  open a child or to sort a SET OF), and \<open>CBB_finish\<close> returns no bytes.  The exception is
  \<open>CBB_did_write\<close>, which does not look at the mark: it succeeds whenever there is room, although
  \<open>bytestring.h\<close> says of the mark that all future operations will fail.\<close>

theorem cbb_error_sticky:
  assumes "base c = Some b" and "buf_bounded b" and "error b" and "cbb_reach c c'"
  shows "list_all (\<lambda>f. \<not> snd (f c'))
       [CBB_flush d, CBB_add_bytes d data, CBB_add_space d data, CBB_reserve d len, CBB_add_u8 d v8,
        CBB_add_u16 d v16, CBB_add_u16le d v16, CBB_add_u24 d v32, CBB_add_u32 d v32, CBB_add_u32le d v32,
        CBB_add_u64 d v64, CBB_add_u64le d v64, CBB_add_u8_length_prefixed d,
        CBB_add_u16_length_prefixed d, CBB_add_u24_length_prefixed d, CBB_add_asn1 d tag,
        CBB_add_asn1_uint64 d v64, CBB_add_asn1_int64 d v64, CBB_add_asn1_octet_string d data,
        CBB_add_asn1_bool d q, CBB_add_asn1_oid_from_text d txt, CBB_flush_asn1_set_of mok d] \<and>
    snd (CBB_finish want c') = None \<and>
    (\<forall>b'. base c' = Some b' \<longrightarrow> error b' \<and>
       (d = length (frames c') \<and> length (buf b') + length data \<le> unat (cap b') \<longrightarrow>
          CBB_did_write d data c' = (c'\<lparr>base := Some (b'\<lparr>buf := buf b' @ data\<rparr>)\<rparr>, True)))"
proof -
  have err: "error b' \<and> buf_bounded b'" if "base c' = Some b'" for b'
    using reach_evolves [OF assms(4)] assms(1-3) that by (simp add: cbb_evolves_def buf_evolves_def)
  have f: "\<not> snd (CBB_flush i c')" for i
  proof (cases "base c'")
    case (Some b')
    then show ?thesis using err flush_error by blast
  qed (simp add: CBB_flush_def)
  note ft = flush_then_error [OF f]
  have asn1: "\<not> snd (CBB_add_asn1 d t c')" for t
    using f [of d] by (auto simp: CBB_add_asn1_def cbb_and_def split: prod.splits bool.splits)
  have "\<not> snd (cbb_and (CBB_add_asn1 d t) h c')" for t h
    using asn1 [of t] by (auto simp: cbb_and_def split: prod.splits bool.splits)
  moreover have "\<not> snd (CBB_add_asn1_uint64 d v64 c')"
    using asn1 [of CBS_ASN1_INTEGER]
    by (cases "CBB_add_asn1 d CBS_ASN1_INTEGER c'") (simp add: CBB_add_asn1_uint64_def)
  moreover have "CBB_did_write d data c' = (c'\<lparr>base := Some (b'\<lparr>buf := buf b' @ data\<rparr>)\<rparr>, True)"
    if "base c' = Some b'" "d = length (frames c')" "length (buf b') + length data \<le> unat (cap b')" for b'
    by (rule did_write_room [OF that])
  moreover obtain c1 c0 where "CBB_flush d c' = (c1, False)" "CBB_flush 0 c' = (c0, False)"
    using f [of d] f [of 0] by (metis (full_types) prod.collapse)
  ultimately show ?thesis using ft asn1 err
    by (simp add: CBB_add_bytes_def CBB_add_space_def CBB_reserve_def CBB_add_u8_def CBB_add_u16_def
        CBB_add_u16le_def CBB_add_u24_def CBB_add_u32_def CBB_add_u32le_def CBB_add_u64_def CBB_add_u64le_def
        CBB_add_u8_length_prefixed_def CBB_add_u16_length_prefixed_def CBB_add_u24_length_prefixed_def
        cbb_add_length_prefixed_def CBB_add_asn1_int64_def CBB_add_asn1_octet_string_def CBB_add_asn1_bool_def
        CBB_add_asn1_oid_from_text_def CBB_flush_asn1_set_of_def CBB_finish_def Let_def)
qed

theorem cbb_error_sticky_witness:
  "\<exists>c c'. CBB_init_fixed True 2 = (c, True) \<and> snd (CBB_add_bytes 0 [1, 2, 3] c) = False \<and>
     cbb_reach c c' \<and> \<not> snd (CBB_add_u8 0 1 c') \<and> snd (CBB_finish True c') = None \<and>
     snd (CBB_did_write 0 [9] c')"
proof -
  let ?c = "fst (CBB_init_fixed True 2)"
  let ?b = "\<lparr>buf = [], cap = 2, can_resize = False, error = True, alloc_ok = \<lambda>_. False\<rparr>"
  let ?c' = "\<lparr>base = Some ?b, frames = []\<rparr>"
  have c: "CBB_init_fixed True 2 = (?c, True)" by (simp add: CBB_init_fixed_def cbb_init_def)
  have r: "CBB_add_bytes 0 [1, 2, 3] ?c = (?c', False)"
    by (simp add: CBB_add_bytes_def cbb_flush_then_def CBB_flush_def CBB_init_fixed_def cbb_init_def CBB_zero_def
        cbb_buffer_add_def cbb_buffer_reserve_def buf_len_def Let_def)
  then have reach: "cbb_reach ?c ?c'"
    by (intro cbb_reach.step [OF cbb_reach.start cbb_step.bytes [OF _ r]]) simp
  have b: "base ?c' = Some ?b" "buf_bounded ?b" "error ?b" by (simp_all add: buf_bounded_def)
  note sticky = cbb_error_sticky [OF b cbb_reach.start]
  have "\<not> snd (CBB_add_u8 0 1 ?c')" "snd (CBB_finish True ?c') = None" using sticky [where d = 0] by auto
  moreover have "snd (CBB_did_write 0 [9] ?c')" using sticky [where d = 0 and data = "[9]"] by simp
  ultimately show ?thesis using c r reach by (intro exI [of _ ?c] exI [of _ ?c']) simp
qed

subsection \<open>SET OF\<close>

text \<open>C31: \<open>CBB_flush_asn1_set_of\<close> puts the contents into the DER order of a SET OF: when it
  succeeds, the contents are the elements that were there, each as often as before, sorted by their
  encodings as byte strings; nothing above or below them changes.\<close>

theorem set_of_sorted_permutation:
  assumes "cbb_holds c b (xs @ [concat (map (\<lambda>(t, body). der_element t body) es)])"
    and "length (frames c) = length xs" and "\<forall>(t, body) \<in> set es. length body < 2 ^ 32"
    and "CBB_flush_asn1_set_of mok (length xs) c = (c', True)"
  shows "\<exists>es' b'. mset es' = mset (map (\<lambda>(t, body). der_element t body) es) \<and>
    sorted (map (map uint) es') \<and> CBB_contents (length xs) c' = concat es' \<and>
    frames c' = frames c \<and> cbb_holds c' b' (xs @ [concat es'])"
proof -
  let ?cs = "map (\<lambda>(t, body). der_element t body) es"
  have "set_of_children (concat ?cs) = Some ?cs"
    by (rule set_of_children_concat) (use assms(3) in blast)
  with flush_set_of_holds [OF assms(1) _ assms(4)] assms(2) obtain b' where
    "frames c' = frames c" "CBB_contents (length xs) c' = concat (qsort compare_set_of_element ?cs)"
    "cbb_holds c' b' (xs @ [concat (qsort compare_set_of_element ?cs)])" by auto
  then show ?thesis using mset_qsort sorted_set_of by blast
qed

theorem set_of_sorted_permutation_witness:
  "let b = \<lparr>buf = [4, 1, 7, 2, 1, 5], cap = 6, can_resize = False, error = False, alloc_ok = \<lambda>_. False\<rparr>;
       c = \<lparr>base = Some b, frames = []\<rparr>
   in \<exists>es'. sorted (map (map uint) es') \<and> mset es' = {#[4, 1, 7], [2, 1, 5]#} \<and>
        CBB_contents 0 (fst (CBB_flush_asn1_set_of True 0 c)) = concat es'"
proof -
  let ?b = "\<lparr>buf = [4, 1, 7, 2, 1, 5], cap = 6, can_resize = False, error = False, alloc_ok = \<lambda>_. False\<rparr>"
  let ?c = "\<lparr>base = Some ?b, frames = []\<rparr>"
  let ?es = "[(CBS_ASN1_OCTETSTRING, [7]), (CBS_ASN1_INTEGER, [5])]"
  have e: "map (\<lambda>(t, body). der_element t body) ?es = [[4, 1, 7], [2, 1, 5]]" by code_simp
  then have h: "cbb_holds ?c ?b ([] @ [concat (map (\<lambda>(t, body). der_element t body) ?es)])"
    by (simp only: e) (simp add: cbb_holds_def cbb_fits_def)
  have "snd (CBB_flush_asn1_set_of True 0 ?c)" by code_simp
  then obtain c' where c': "CBB_flush_asn1_set_of True 0 ?c = (c', True)"
    by (cases "CBB_flush_asn1_set_of True 0 ?c") auto
  have c0: "CBB_flush_asn1_set_of True (length ([] :: bytes list)) ?c = (c', True)" using c' by simp
  have "\<exists>es'. mset es' = mset (map (\<lambda>(t, body). der_element t body) ?es) \<and> sorted (map (map uint) es') \<and>
      CBB_contents 0 c' = concat es'"
    using set_of_sorted_permutation [OF h _ _ c0] by auto
  then show ?thesis unfolding e using c' by (auto simp: Let_def)
qed

end
