(* ===== verification/Unicode.thy ===== *)
theory Unicode
  imports Asn1Spec
begin

text \<open>
  Code points in the string encodings of ASN.1
  (\<open>BoringSSL-GRPC/src/crypto/bytestring/unicode.c\<close>): the readers and writers of UTF-8,
  Latin-1, UCS-2 and UTF-32, and that each pair is a canonical encoding of the code points it admits.
\<close>

subsection \<open>The code\<close>

definition is_valid_code_point :: "u32 \<Rightarrow> bool" where
  "is_valid_code_point v =
     (\<not> (0x10FFFF < v \<or> v AND 0xFFFE = 0xFFFE \<or> (0xFDD0 \<le> v \<and> v \<le> 0xFDEF) \<or>
         (0xD800 \<le> v \<and> v \<le> 0xDFFF)))"

definition BOTTOM_BITS :: "nat \<Rightarrow> u8" where
  "BOTTOM_BITS n = ucast (push_bit n (1 :: u32) - 1)"

definition TOP_BITS :: "nat \<Rightarrow> u8" where
  "TOP_BITS n = NOT (BOTTOM_BITS (8 - n))"

fun utf8_loop :: "nat \<Rightarrow> u32 \<Rightarrow> u32 cbs_reader" where
  "utf8_loop 0 v cbs = (cbs, Some v)"
| "utf8_loop (Suc i) v cbs =
     (case CBS_get_u8 cbs of
        (cbs', None) \<Rightarrow> (cbs', None)
      | (cbs', Some c) \<Rightarrow>
          if c AND TOP_BITS 2 \<noteq> TOP_BITS 1 then (cbs', None)
          else utf8_loop i (push_bit 6 v OR ucast (c AND BOTTOM_BITS 6)) cbs')"

definition cbs_get_utf8 :: "u32 cbs_reader" where
  "cbs_get_utf8 cbs =
     (case CBS_get_u8 cbs of
        (cbs', None) \<Rightarrow> (cbs', None)
      | (cbs', Some c) \<Rightarrow>
          if c \<le> 0x7F then (cbs', Some (ucast c))
          else
            let start =
              (if c AND TOP_BITS 3 = TOP_BITS 2 then Some (ucast (c AND BOTTOM_BITS 5), 1, 0x80)
               else if c AND TOP_BITS 4 = TOP_BITS 3 then Some (ucast (c AND BOTTOM_BITS 4), 2, 0x800)
               else if c AND TOP_BITS 5 = TOP_BITS 4 then Some (ucast (c AND BOTTOM_BITS 3), 3, 0x10000)
               else None)
            in (case start of
                  None \<Rightarrow> (cbs', None)
                | Some (v, len, lower_bound) \<Rightarrow>
                    (case utf8_loop len v cbs' of
                       (cbs'', None) \<Rightarrow> (cbs'', None)
                     | (cbs'', Some v') \<Rightarrow>
                         if \<not> is_valid_code_point v' \<or> v' < lower_bound then (cbs'', None)
                         else (cbs'', Some v'))))"

definition cbs_get_latin1 :: "u32 cbs_reader" where
  "cbs_get_latin1 cbs =
     (case CBS_get_u8 cbs of (cbs', None) \<Rightarrow> (cbs', None) | (cbs', Some c) \<Rightarrow> (cbs', Some (ucast c)))"

definition cbs_get_ucs2_be :: "u32 cbs_reader" where
  "cbs_get_ucs2_be cbs =
     (case CBS_get_u16 cbs of
        (cbs', None) \<Rightarrow> (cbs', None)
      | (cbs', Some c) \<Rightarrow> (cbs', if is_valid_code_point (ucast c) then Some (ucast c) else None))"

definition cbs_get_utf32_be :: "u32 cbs_reader" where
  "cbs_get_utf32_be cbs =
     (case CBS_get_u32 cbs of
        (cbs', None) \<Rightarrow> (cbs', None)
      | (cbs', Some u) \<Rightarrow> (cbs', if is_valid_code_point u then Some u else None))"

definition cbb_get_utf8_len :: "u32 \<Rightarrow> u64" where
  "cbb_get_utf8_len u =
     (if u \<le> 0x7F then 1 else if u \<le> 0x7FF then 2 else if u \<le> 0xFFFF then 3 else 4)"

text \<open>The byte \<open>TOP_BITS(k) | x\<close>, computed in 32 bits and cut off by the call.\<close>

definition top_or :: "nat \<Rightarrow> u32 \<Rightarrow> u8" where
  "top_or k x = ucast (ucast (TOP_BITS k) OR x)"

definition cbb_add_utf8 :: "nat \<Rightarrow> u32 \<Rightarrow> cbb_op" where
  "cbb_add_utf8 d u cbb =
     (let low = (\<lambda>x. top_or 1 (x AND ucast (BOTTOM_BITS 6))) in
      if \<not> is_valid_code_point u then (cbb, False)
      else if u \<le> 0x7F then CBB_add_u8 d (ucast u) cbb
      else if u \<le> 0x7FF then
        cbb_all [CBB_add_u8 d (top_or 2 (drop_bit 6 u)), CBB_add_u8 d (low u)] cbb
      else if u \<le> 0xFFFF then
        cbb_all [CBB_add_u8 d (top_or 3 (drop_bit 12 u)), CBB_add_u8 d (low (drop_bit 6 u)),
                 CBB_add_u8 d (low u)] cbb
      else if u \<le> 0x10FFFF then
        cbb_all [CBB_add_u8 d (top_or 4 (drop_bit 18 u)), CBB_add_u8 d (low (drop_bit 12 u)),
                 CBB_add_u8 d (low (drop_bit 6 u)), CBB_add_u8 d (low u)] cbb
      else (cbb, False))"

definition cbb_add_latin1 :: "nat \<Rightarrow> u32 \<Rightarrow> cbb_op" where
  "cbb_add_latin1 d u cbb = (if u \<le> 0xFF then CBB_add_u8 d (ucast u) cbb else (cbb, False))"

definition cbb_add_ucs2_be :: "nat \<Rightarrow> u32 \<Rightarrow> cbb_op" where
  "cbb_add_ucs2_be d u cbb =
     (if u \<le> 0xFFFF \<and> is_valid_code_point u then CBB_add_u16 d (ucast u) cbb else (cbb, False))"

definition cbb_add_utf32_be :: "nat \<Rightarrow> u32 \<Rightarrow> cbb_op" where
  "cbb_add_utf32_be d u cbb = (if is_valid_code_point u then CBB_add_u32 d u cbb else (cbb, False))"

subsection \<open>Bits\<close>

lemma bit_BOTTOM_BITS: "bit (BOTTOM_BITS k) n \<longleftrightarrow> n < k \<and> n < 8"
proof -
  have "BOTTOM_BITS k = ucast (mask k :: u32)" by (simp add: BOTTOM_BITS_def mask_eq_exp_minus_1)
  then show ?thesis by (auto simp: bit_simps)
qed

lemma bit_TOP_BITS: "k \<le> 8 \<Longrightarrow> bit (TOP_BITS k) n \<longleftrightarrow> 8 - k \<le> n \<and> n < 8"
  by (auto simp: TOP_BITS_def bit_simps bit_BOTTOM_BITS)

lemmas byte_bits = bit_simps bit_BOTTOM_BITS bit_TOP_BITS

text \<open>Continuation bytes.\<close>

definition utf8_low :: "u32 \<Rightarrow> u8" where
  "utf8_low x = top_or 1 (x AND ucast (BOTTOM_BITS 6))"

lemma utf8_low_bits:
  "utf8_low x AND TOP_BITS 2 = TOP_BITS 1"
  "ucast (utf8_low x AND BOTTOM_BITS 6) = (x AND mask 6)"
  by (rule bit_word_eqI; auto simp: utf8_low_def top_or_def byte_bits)+

lemma utf8_low_unique:
  assumes "c AND TOP_BITS 2 = TOP_BITS 1" and "x AND mask 6 = ucast (c AND BOTTOM_BITS 6)"
  shows "utf8_low x = c"
proof (rule bit_word_eqI)
  fix n assume "n < LENGTH(8)"
  then have n: "n < 8" by simp
  have 1: "bit (c AND TOP_BITS 2) n = bit (TOP_BITS 1) n" using assms(1) by simp
  have 2: "bit (x AND mask 6) n = bit (ucast (c AND BOTTOM_BITS 6) :: u32) n" using assms(2) by simp
  show "bit (utf8_low x) n = bit c n"
    using 1 2 n by (auto simp: utf8_low_def top_or_def byte_bits)
qed

text \<open>First bytes: \<open>k\<close> ones and a zero.\<close>

lemma top_or_bits:
  assumes "k \<le> 6" and "unat x < 2 ^ (7 - k)"
  shows "top_or k x AND TOP_BITS (Suc k) = TOP_BITS k"
    and "ucast (top_or k x AND BOTTOM_BITS (7 - k)) = x"
    and "j < k \<Longrightarrow> top_or k x AND TOP_BITS (Suc j) \<noteq> TOP_BITS j"
proof -
  have x: "bit x n \<Longrightarrow> n < 7 - k" for n using bit_less_exp [OF assms(2)] .
  show "top_or k x AND TOP_BITS (Suc k) = TOP_BITS k"
    using assms(1) by (intro bit_word_eqI) (auto simp: top_or_def byte_bits dest: x)
  show "ucast (top_or k x AND BOTTOM_BITS (7 - k)) = x"
    using assms(1) by (intro bit_word_eqI) (auto simp: top_or_def byte_bits dest: x)
  show "top_or k x AND TOP_BITS (Suc j) \<noteq> TOP_BITS j" if "j < k"
  proof
    assume "top_or k x AND TOP_BITS (Suc j) = TOP_BITS j"
    then have "bit (top_or k x AND TOP_BITS (Suc j)) (7 - j) = bit (TOP_BITS j) (7 - j)" by simp
    then show False using that assms(1) by (auto simp: top_or_def byte_bits)
  qed
qed

lemma top_or_unique:
  assumes "k \<le> 6" and "c AND TOP_BITS (Suc k) = TOP_BITS k" and "x = ucast (c AND BOTTOM_BITS (7 - k))"
  shows "top_or k x = c"
proof (rule bit_word_eqI)
  fix n assume "n < LENGTH(8)"
  then have n: "n < 8" by simp
  have "bit (c AND TOP_BITS (Suc k)) n = bit (TOP_BITS k) n" using assms(2) by simp
  then show "bit (top_or k x) n = bit c n"
    using n assms(1,3) by (auto simp: top_or_def byte_bits)
qed

subsection \<open>The encodings\<close>

fun utf8_tail :: "nat \<Rightarrow> u32 \<Rightarrow> bytes" where
  "utf8_tail 0 v = []"
| "utf8_tail (Suc i) v = utf8_low (drop_bit (6 * i) v) # utf8_tail i v"

definition utf8 :: "u32 \<Rightarrow> bytes" where
  "utf8 u =
     (if u \<le> 0x7F then [ucast u]
      else if u \<le> 0x7FF then top_or 2 (drop_bit 6 u) # utf8_tail 1 u
      else if u \<le> 0xFFFF then top_or 3 (drop_bit 12 u) # utf8_tail 2 u
      else top_or 4 (drop_bit 18 u) # utf8_tail 3 u)"

lemma length_utf8_tail: "length (utf8_tail i v) = i"
  by (induction i) simp_all

lemma drop_6_step: "push_bit 6 (drop_bit (6 * Suc i) v) OR (drop_bit (6 * i) v AND mask 6) = drop_bit (6 * i) (v :: u32)"
  by (rule bit_word_eqI) (auto simp: bit_simps add.commute add.left_commute)

lemma utf8_loop_tail: "utf8_loop i (drop_bit (6 * i) v) (utf8_tail i v @ rest) = (rest, Some v)"
proof (induction i)
  case (Suc i)
  then show ?case
    by (simp add: utf8_low_bits drop_6_step [simplified] del: utf8_low_def)
qed simp

lemma utf8_loop_canonical:
  "utf8_loop i w cbs = (rest, Some v) \<Longrightarrow> unat w < 2 ^ (32 - 6 * i) \<Longrightarrow> i \<le> 3 \<Longrightarrow>
     drop_bit (6 * i) v = w \<and> cbs = utf8_tail i v @ rest"
proof (induction i arbitrary: w cbs)
  case (Suc i)
  obtain c cbs' where cbs: "cbs = c # cbs'"
    using Suc.prems(1) by (cases cbs) auto
  let ?w = "push_bit 6 w OR ucast (c AND BOTTOM_BITS 6)"
  have c: "c AND TOP_BITS 2 = TOP_BITS 1" and l: "utf8_loop i ?w cbs' = (rest, Some v)"
    using Suc.prems(1) cbs by (simp_all split: if_splits)
  have w: "bit w n \<Longrightarrow> n < 32 - 6 * Suc i" for n using bit_less_exp [OF Suc.prems(2)] .
  have "bit ?w n \<Longrightarrow> n < 32 - 6 * i" for n
    using Suc.prems(3) by (auto simp: byte_bits dest: w)
  then have "unat ?w < 2 ^ (32 - 6 * i)" by (rule unat_less_expI)
  with Suc.IH [OF l] Suc.prems(3) have v: "drop_bit (6 * i) v = ?w" "cbs' = utf8_tail i v @ rest" by auto
  have "drop_bit (6 * Suc i) v = drop_bit 6 (drop_bit (6 * i) v)" by (simp add: add.commute)
  also have "\<dots> = w" unfolding v(1) by (rule bit_word_eqI) (auto simp: byte_bits dest: w)
  finally have "drop_bit (6 * Suc i) v = w" .
  moreover have "drop_bit (6 * i) v AND mask 6 = ucast (c AND BOTTOM_BITS 6)"
    unfolding v(1) by (rule bit_word_eqI) (auto simp: byte_bits)
  ultimately show ?case using utf8_low_unique [OF c] cbs v(2) by simp
qed simp

text \<open>The three cases of more than one byte.\<close>

lemma utf8_shift_less:
  "\<not> 0x10FFFF < u \<Longrightarrow> unat (drop_bit 18 u) < 2 ^ 3"
  "u \<le> 0xFFFF \<Longrightarrow> unat (drop_bit 12 (u :: u32)) < 2 ^ 4"
  "u \<le> 0x7FF \<Longrightarrow> unat (drop_bit 6 (u :: u32)) < 2 ^ 5"
  by (auto simp: unat_drop_bit_div word_le_nat_alt word_less_nat_alt)

lemma top_or_above: "k \<le> 6 \<Longrightarrow> 1 \<le> k \<Longrightarrow> \<not> top_or k x \<le> 0x7F"
proof -
  assume k: "k \<le> 6" "1 \<le> k"
  then have "bit (top_or k x) 7" by (auto simp: top_or_def byte_bits)
  then have "\<not> unat (top_or k x) < 2 ^ 7" using bit_less_exp [of "top_or k x" 7 7] by blast
  then show ?thesis by (simp add: word_le_nat_alt)
qed

definition utf8_lower :: "nat \<Rightarrow> u32" where
  "utf8_lower k = (if k = 2 then 0x80 else if k = 3 then 0x800 else 0x10000)"

lemma get_utf8_lead:
  assumes "\<not> c \<le> 0x7F" and "c AND TOP_BITS (Suc k) = TOP_BITS k" and "k \<in> {2, 3, 4}"
    and "\<And>j. j < k \<Longrightarrow> c AND TOP_BITS (Suc j) \<noteq> TOP_BITS j"
  shows "cbs_get_utf8 (c # cs) =
    (case utf8_loop (k - 1) (ucast (c AND BOTTOM_BITS (7 - k))) cs of
       (cs', None) \<Rightarrow> (cs', None)
     | (cs', Some v) \<Rightarrow> if \<not> is_valid_code_point v \<or> v < utf8_lower k then (cs', None) else (cs', Some v))"
proof -
  have k: "k = 2 \<or> k = 3 \<or> k = 4" using assms(3) by simp
  show ?thesis
    using k assms(1,2) assms(4) [of 2] assms(4) [of 3]
    by (elim disjE; hypsubst)
      (simp_all add: cbs_get_utf8_def utf8_lower_def split: prod.split option.split del: utf8_loop.simps)
qed

text \<open>A code point of the class with \<open>k\<close> bytes.\<close>

lemma get_utf8_class:
  assumes k: "k \<in> {2, 3, 4}" and u: "unat (drop_bit (6 * (k - 1)) u) < 2 ^ (7 - k)"
    and v: "is_valid_code_point u" "\<not> u < utf8_lower k"
  shows "cbs_get_utf8 (top_or k (drop_bit (6 * (k - 1)) u) # utf8_tail (k - 1) u @ rest) = (rest, Some u)"
proof -
  have "k \<le> 6" "1 \<le> k" using k by auto
  note b = top_or_bits [OF this(1) u] top_or_above [OF this]
  have "cbs_get_utf8 (top_or k (drop_bit (6 * (k - 1)) u) # cs) =
      (case utf8_loop (k - 1) (drop_bit (6 * (k - 1)) u) cs of
         (cs', None) \<Rightarrow> (cs', None)
       | (cs', Some v) \<Rightarrow> if \<not> is_valid_code_point v \<or> v < utf8_lower k then (cs', None) else (cs', Some v))" for cs
    using get_utf8_lead [where c = "top_or k (drop_bit (6 * (k - 1)) u)" and cs = cs, OF b(4) b(1) k] b(3)
    unfolding b(2) by blast
  then show ?thesis unfolding utf8_loop_tail using v by (simp only: append_Cons utf8_loop_tail prod.case option.case if_False simp_thms)
qed

lemma get_utf8_utf8:
  assumes "is_valid_code_point u"
  shows "cbs_get_utf8 (utf8 u @ rest) = (rest, Some u)"
proof -
  have u: "\<not> 0x10FFFF < u" using assms by (simp add: is_valid_code_point_def)
  consider "u \<le> 0x7F" | "\<not> u \<le> 0x7F" "u \<le> 0x7FF" | "\<not> u \<le> 0x7FF" "u \<le> 0xFFFF" | "\<not> u \<le> 0xFFFF"
    by blast
  then show ?thesis
  proof cases
    case 1
    then have "unat (ucast u :: u8) = unat u"
      by (simp add: unsigned_ucast_eq unsigned_take_bit_eq take_bit_nat_eq_self word_le_nat_alt)
    then have "(ucast u :: u8) \<le> 0x7F" "ucast (ucast u :: u8) = u"
      using 1 by (simp_all add: word_le_nat_alt word_unat_eq_iff unsigned_ucast_eq unsigned_take_bit_eq
          take_bit_nat_eq_self)
    then show ?thesis using 1 by (simp add: cbs_get_utf8_def utf8_def)
  next
    case 2
    then have l: "\<not> u < utf8_lower 2" by (simp add: utf8_lower_def word_le_nat_alt word_less_nat_alt)
    show ?thesis
      using get_utf8_class [of 2 u rest] utf8_shift_less(3) [OF 2(2)] assms l
      unfolding utf8_def if_not_P [OF 2(1)] if_P [OF 2(2)] by simp
  next
    case 3
    then have l: "\<not> u < utf8_lower 3" "\<not> u \<le> 0x7F"
      by (simp_all add: utf8_lower_def word_le_nat_alt word_less_nat_alt)
    show ?thesis
      using get_utf8_class [of 3 u rest] utf8_shift_less(2) [OF 3(2)] assms l(1)
      unfolding utf8_def if_not_P [OF l(2)] if_not_P [OF 3(1)] if_P [OF 3(2)] by simp
  next
    case 4
    then have l: "\<not> u < utf8_lower 4" "\<not> u \<le> 0x7F" "\<not> u \<le> 0x7FF"
      by (simp_all add: utf8_lower_def word_le_nat_alt word_less_nat_alt)
    show ?thesis
      using get_utf8_class [of 4 u rest] utf8_shift_less(1) [OF u] assms l(1)
      unfolding utf8_def if_not_P [OF l(2)] if_not_P [OF l(3)] if_not_P [OF 4] by simp
  qed
qed

lemma small_code_point: "unat u < 256 \<Longrightarrow> is_valid_code_point u"
proof -
  assume u: "unat u < 256"
  have "\<not> bit (u AND 0xFFFE) 15" using bit_less_exp [of u 8 15] u by (auto simp: bit_and_iff)
  moreover have "bit (0xFFFE :: u32) 15" by simp
  ultimately have "u AND 0xFFFE \<noteq> 0xFFFE" by metis
  then show ?thesis using u by (simp add: is_valid_code_point_def word_le_nat_alt word_less_nat_alt)
qed

lemma utf8_top:
  assumes "k \<in> {2, 3, 4}" and "unat (drop_bit (6 * (k - 1)) v) < 2 ^ (7 - k)" and "\<not> v < utf8_lower k"
  shows "utf8 v = top_or k (drop_bit (6 * (k - 1)) v) # utf8_tail (k - 1) v"
proof -
  have "k = 2 \<or> k = 3 \<or> k = 4" using assms(1) by simp
  then show ?thesis
  proof (elim disjE)
    assume "k = 2"
    then have "unat v \<le> 0x7FF" "\<not> unat v \<le> 0x7F"
      using assms(2,3) by (simp_all add: utf8_lower_def unat_drop_bit_div word_less_nat_alt)
    then show ?thesis using \<open>k = 2\<close> by (simp add: utf8_def word_le_nat_alt)
  next
    assume "k = 3"
    then have "unat v \<le> 0xFFFF" "\<not> unat v \<le> 0x7F" "\<not> unat v \<le> 0x7FF"
      using assms(2,3) by (simp_all add: utf8_lower_def unat_drop_bit_div word_less_nat_alt)
    then show ?thesis using \<open>k = 3\<close> by (simp add: utf8_def word_le_nat_alt)
  next
    assume "k = 4"
    then have "\<not> unat v \<le> 0xFFFF" "\<not> unat v \<le> 0x7F" "\<not> unat v \<le> 0x7FF"
      using assms(3) by (simp_all add: utf8_lower_def word_less_nat_alt)
    then show ?thesis using \<open>k = 4\<close> by (simp add: utf8_def word_le_nat_alt)
  qed
qed

lemma get_utf8_canonical:
  assumes "cbs_get_utf8 cbs = (rest, Some v)"
  shows "is_valid_code_point v \<and> cbs = utf8 v @ rest"
proof -
  obtain c cs where cbs: "cbs = c # cs" using assms by (cases cbs) (auto simp: cbs_get_utf8_def)
  show ?thesis
  proof (cases "c \<le> 0x7F")
    case True
    then have v: "v = ucast c" "rest = cs" using assms cbs by (simp_all add: cbs_get_utf8_def)
    then have "unat v \<le> 0x7F" using True by (simp add: unat_ucast_less word_le_nat_alt)
    then have "is_valid_code_point v" "v \<le> 0x7F" by (auto simp: word_le_nat_alt intro: small_code_point)
    moreover have "ucast (ucast c :: u32) = c" by (simp add: word_unat_eq_iff unat_ucast_less unsigned_ucast_eq unsigned_take_bit_eq)
    ultimately show ?thesis using v cbs by (simp add: utf8_def)
  next
    case False
    obtain k where k: "k \<in> {2, 3, 4}" "c AND TOP_BITS (Suc k) = TOP_BITS k"
      "utf8_loop (k - 1) (ucast (c AND BOTTOM_BITS (7 - k))) cs = (rest, Some v)"
      "is_valid_code_point v" "\<not> v < utf8_lower k"
    proof -
      consider "c AND TOP_BITS 3 = TOP_BITS 2"
        | "c AND TOP_BITS 3 \<noteq> TOP_BITS 2" "c AND TOP_BITS 4 = TOP_BITS 3"
        | "c AND TOP_BITS 3 \<noteq> TOP_BITS 2" "c AND TOP_BITS 4 \<noteq> TOP_BITS 3" "c AND TOP_BITS 5 = TOP_BITS 4"
        using assms cbs False by (auto simp: cbs_get_utf8_def split: if_splits)
      then show thesis
      proof cases
        case 1
        then show thesis using that [of 2] assms cbs False
          by (auto simp: cbs_get_utf8_def utf8_lower_def split: prod.splits option.splits if_splits
              simp del: utf8_loop.simps)
      next
        case 2
        then show thesis using that [of 3] assms cbs False
          by (auto simp: cbs_get_utf8_def utf8_lower_def split: prod.splits option.splits if_splits
              simp del: utf8_loop.simps)
      next
        case 3
        then show thesis using that [of 4] assms cbs False
          by (auto simp: cbs_get_utf8_def utf8_lower_def split: prod.splits option.splits if_splits
              simp del: utf8_loop.simps)
      qed
    qed
    let ?w = "ucast (c AND BOTTOM_BITS (7 - k)) :: u32"
    have k6: "k \<le> 6" "k - 1 \<le> 3" using k(1) by auto
    have w: "unat ?w < 2 ^ (7 - k)"
      by (rule unat_less_expI) (auto simp: byte_bits)
    have "unat ?w < 2 ^ (32 - 6 * (k - 1))" using w k(1) by auto
    from utf8_loop_canonical [OF k(3) this k6(2)]
    have v: "drop_bit (6 * (k - 1)) v = ?w" "cs = utf8_tail (k - 1) v @ rest" by auto
    have "top_or k (drop_bit (6 * (k - 1)) v) = c" unfolding v(1) by (rule top_or_unique [OF k6(1) k(2) refl])
    then show ?thesis
      using utf8_top [OF k(1) _ k(5)] w k(4) v cbs by simp
  qed
qed

interpretation utf8: canonical_codec utf8 cbs_get_utf8 is_valid_code_point
  by unfold_locales (blast intro: get_utf8_utf8 dest: get_utf8_canonical)+

lemma ucast_small:
  fixes u :: u32
  shows "u \<le> 0xFF \<Longrightarrow> ucast (ucast u :: u8) = u" "u \<le> 0xFFFF \<Longrightarrow> ucast (ucast u :: u16) = u"
  by (simp_all add: word_le_nat_alt word_unat_eq_iff unsigned_ucast_eq unsigned_take_bit_eq
      take_bit_nat_eq_self)

lemma ucast_back:
  "ucast (ucast (b :: u8) :: u32) = b" "ucast (ucast (w :: u16) :: u32) = w"
  "(ucast (b :: u8) :: u32) \<le> 0xFF" "(ucast (w :: u16) :: u32) \<le> 0xFFFF"
  using unat_word8_lt [of b] unsigned_less [where 'a = nat and w = w]
  by (simp_all add: word_unat_eq_iff unsigned_ucast_eq unsigned_take_bit_eq take_bit_nat_eq_self word_le_nat_alt)

interpretation latin1: canonical_codec "\<lambda>u. [ucast u]" cbs_get_latin1 "\<lambda>u. u \<le> 0xFF"
proof
  fix cbs rest v assume "cbs_get_latin1 cbs = (rest, Some v)"
  then show "v \<le> 0xFF \<and> cbs = [ucast v] @ rest"
    by (cases cbs) (auto simp: cbs_get_latin1_def ucast_back)
qed (simp add: cbs_get_latin1_def ucast_small)

interpretation ucs2: canonical_codec "\<lambda>u. be_bytes 2 (ucast u :: u16)" cbs_get_ucs2_be
    "\<lambda>u. u \<le> 0xFFFF \<and> is_valid_code_point u"
proof
  fix cbs rest v assume "cbs_get_ucs2_be cbs = (rest, Some v)"
  then obtain w where "CBS_get_u16 cbs = (rest, Some w)" "is_valid_code_point (ucast w)" "v = ucast w"
    by (auto simp: cbs_get_ucs2_be_def split: prod.splits option.splits if_splits)
  then show "(v \<le> 0xFFFF \<and> is_valid_code_point v) \<and> cbs = be_bytes 2 (ucast v :: u16) @ rest"
    using u16.dec_canonical [of cbs rest w] by (simp add: ucast_back)
qed (simp add: cbs_get_ucs2_be_def ucast_small u16.dec_enc)

interpretation utf32: canonical_codec "be_bytes 4" cbs_get_utf32_be is_valid_code_point
proof
  fix cbs rest v assume "cbs_get_utf32_be cbs = (rest, Some v)"
  then show "is_valid_code_point v \<and> cbs = be_bytes 4 v @ rest"
    using u32.dec_canonical [of cbs rest v]
    by (auto simp: cbs_get_utf32_be_def split: prod.splits option.splits if_splits)
qed (simp add: cbs_get_utf32_be_def u32.dec_enc)

subsection \<open>Writing\<close>

lemma cbb_writes_bytes_of:
  "cbb_writes d (cbb_all [CBB_add_u8 d a]) [a]"
  "cbb_writes d (cbb_all [CBB_add_u8 d a, CBB_add_u8 d b]) [a, b]"
  "cbb_writes d (cbb_all [CBB_add_u8 d a, CBB_add_u8 d b, CBB_add_u8 d e]) [a, b, e]"
  "cbb_writes d (cbb_all [CBB_add_u8 d a, CBB_add_u8 d b, CBB_add_u8 d e, CBB_add_u8 d f]) [a, b, e, f]"
  using cbb_writes_u8s [of "[a]" d] cbb_writes_u8s [of "[a, b]" d] cbb_writes_u8s [of "[a, b, e]" d]
    cbb_writes_u8s [of "[a, b, e, f]" d] by simp_all

lemma cbb_writes_utf8:
  assumes "is_valid_code_point u"
  shows "cbb_writes d (cbb_add_utf8 d u) (utf8 u)"
proof -
  have u: "u \<le> 0x10FFFF" using assms by (simp add: is_valid_code_point_def not_less)
  let ?low = "\<lambda>x. top_or 1 (x AND ucast (BOTTOM_BITS 6))"
  have "cbb_add_utf8 d u =
     (if u \<le> 0x7F then cbb_all [CBB_add_u8 d (ucast u)]
      else if u \<le> 0x7FF then cbb_all [CBB_add_u8 d (top_or 2 (drop_bit 6 u)), CBB_add_u8 d (?low u)]
      else if u \<le> 0xFFFF then
        cbb_all [CBB_add_u8 d (top_or 3 (drop_bit 12 u)), CBB_add_u8 d (?low (drop_bit 6 u)),
                 CBB_add_u8 d (?low u)]
      else cbb_all [CBB_add_u8 d (top_or 4 (drop_bit 18 u)), CBB_add_u8 d (?low (drop_bit 12 u)),
                 CBB_add_u8 d (?low (drop_bit 6 u)), CBB_add_u8 d (?low u)])"
    using assms u by (auto simp: cbb_add_utf8_def fun_eq_iff Let_def)
  moreover have "utf8 u =
     (if u \<le> 0x7F then [ucast u]
      else if u \<le> 0x7FF then [top_or 2 (drop_bit 6 u), ?low u]
      else if u \<le> 0xFFFF then [top_or 3 (drop_bit 12 u), ?low (drop_bit 6 u), ?low u]
      else [top_or 4 (drop_bit 18 u), ?low (drop_bit 12 u), ?low (drop_bit 6 u), ?low u])"
    by (simp add: utf8_def utf8_low_def numeral_eq_Suc)
  ultimately show ?thesis
    using cbb_writes_bytes_of
    by (cases "u \<le> 0x7F"; cases "u \<le> 0x7FF"; cases "u \<le> 0xFFFF"; simp only: if_True if_False)
qed

lemma cbb_writes_latin1: "u \<le> 0xFF \<Longrightarrow> cbb_writes d (cbb_add_latin1 d u) [ucast u]"
  using cbb_writes_u8 [of d "ucast u"] by (simp add: cbb_add_latin1_def [abs_def] cbb_writes_def)

lemma cbb_writes_ucs2:
  "u \<le> 0xFFFF \<and> is_valid_code_point u \<Longrightarrow> cbb_writes d (cbb_add_ucs2_be d u) (be_bytes 2 (ucast u :: u16))"
  using cbb_writes_u16 [of d "ucast u"] by (simp add: cbb_add_ucs2_be_def [abs_def] cbb_writes_def)

lemma cbb_writes_utf32: "is_valid_code_point u \<Longrightarrow> cbb_writes d (cbb_add_utf32_be d u) (be_bytes 4 u)"
  using cbb_writes_u32 [of d u] by (simp add: cbb_add_utf32_be_def [abs_def] cbb_writes_def)

interpretation put_utf8: cbb_codec utf8 cbs_get_utf8 is_valid_code_point cbb_add_utf8
  by unfold_locales (rule cbb_writes_utf8)

interpretation put_latin1: cbb_codec "\<lambda>u. [ucast u]" cbs_get_latin1 "\<lambda>u. u \<le> 0xFF" cbb_add_latin1
  by unfold_locales (rule cbb_writes_latin1)

interpretation put_ucs2: cbb_codec "\<lambda>u. be_bytes 2 (ucast u :: u16)" cbs_get_ucs2_be
    "\<lambda>u. u \<le> 0xFFFF \<and> is_valid_code_point u" cbb_add_ucs2_be
  by unfold_locales (rule cbb_writes_ucs2)

interpretation put_utf32: cbb_codec "be_bytes 4" cbs_get_utf32_be is_valid_code_point cbb_add_utf32_be
  by unfold_locales (rule cbb_writes_utf32)

text \<open>Invalid code points are not written.\<close>

lemma utf_invalid:
  "cbb_add_utf8 d u c = (c', True) \<Longrightarrow> is_valid_code_point u"
  "cbb_add_latin1 d u c = (c', True) \<Longrightarrow> u \<le> 0xFF"
  "cbb_add_ucs2_be d u c = (c', True) \<Longrightarrow> u \<le> 0xFFFF \<and> is_valid_code_point u"
  "cbb_add_utf32_be d u c = (c', True) \<Longrightarrow> is_valid_code_point u"
  by (auto simp: cbb_add_utf8_def cbb_add_latin1_def cbb_add_ucs2_be_def cbb_add_utf32_be_def
      split: if_splits)

subsection \<open>Properties\<close>

text \<open>C18: UTF-8 is read in shortest form only: \<open>cbs_get_utf8\<close> accepts exactly the encodings of
  the valid code points (no surrogates, no non-characters, nothing above 0x10FFFF, nothing overlong),
  of the length \<open>cbb_get_utf8_len\<close> announces, and leaves the rest.\<close>

theorem utf8_canonical:
  "cbs_get_utf8 cbs = (rest, Some v) \<longleftrightarrow>
     is_valid_code_point v \<and> cbs = utf8 v @ rest \<and> unat (cbb_get_utf8_len v) = length (utf8 v)"
proof -
  have "unat (cbb_get_utf8_len v) = length (utf8 v)"
    by (simp add: cbb_get_utf8_len_def utf8_def length_utf8_tail)
  then show ?thesis using utf8.dec_iff by simp
qed

text \<open>C34: Code points round-trip in all four encodings, and only the code points an encoding admits
  are written: what \<open>cbb_add_utf8\<close> (\<open>latin1\<close>, \<open>ucs2_be\<close>, \<open>utf32_be\<close>) wrote is read back
  by the reader of the same encoding, with the rest left over.\<close>

theorem code_point_roundtrip:
  assumes "CBB_init mok alloc n = (c, True)" and "CBB_finish True c1 = (c2, Some bs)"
  shows "(cbb_add_utf8 0 u c = (c1, True) \<longrightarrow>
      is_valid_code_point u \<and> cbs_get_utf8 (bs @ rest) = (rest, Some u)) \<and>
    (cbb_add_latin1 0 u c = (c1, True) \<longrightarrow> u \<le> 0xFF \<and> cbs_get_latin1 (bs @ rest) = (rest, Some u)) \<and>
    (cbb_add_ucs2_be 0 u c = (c1, True) \<longrightarrow>
      is_valid_code_point u \<and> cbs_get_ucs2_be (bs @ rest) = (rest, Some u)) \<and>
    (cbb_add_utf32_be 0 u c = (c1, True) \<longrightarrow>
      is_valid_code_point u \<and> cbs_get_utf32_be (bs @ rest) = (rest, Some u))"
proof (intro conjI impI)
  note fin = assms(2)
  show "is_valid_code_point u" "cbs_get_utf8 (bs @ rest) = (rest, Some u)"
    if "cbb_add_utf8 0 u c = (c1, True)"
    using put_utf8.put_finish_dec [OF assms(1) _ that fin] utf_invalid(1) [OF that] by auto
  show "u \<le> 0xFF" "cbs_get_latin1 (bs @ rest) = (rest, Some u)" if "cbb_add_latin1 0 u c = (c1, True)"
    using put_latin1.put_finish_dec [OF assms(1) _ that fin] utf_invalid(2) [OF that] by auto
  show "is_valid_code_point u" "cbs_get_ucs2_be (bs @ rest) = (rest, Some u)"
    if "cbb_add_ucs2_be 0 u c = (c1, True)"
    using put_ucs2.put_finish_dec [OF assms(1) _ that fin] utf_invalid(3) [OF that] by auto
  show "is_valid_code_point u" "cbs_get_utf32_be (bs @ rest) = (rest, Some u)"
    if "cbb_add_utf32_be 0 u c = (c1, True)"
    using put_utf32.put_finish_dec [OF assms(1) _ that fin] utf_invalid(4) [OF that] by auto
qed

theorem code_point_roundtrip_witness:
  "\<exists>c c1 c2. CBB_init True (\<lambda>_. True) 8 = (c, True) \<and> cbb_add_utf8 0 0x20AC c = (c1, True) \<and>
     CBB_finish True c1 = (c2, Some [0xE2, 0x82, 0xAC]) \<and>
     cbs_get_utf8 [0xE2, 0x82, 0xAC, 0x21] = ([0x21], Some 0x20AC)"
proof -
  obtain c where c: "CBB_init True (\<lambda>_. True) 8 = (c, True)"
    by (simp add: CBB_init_def cbb_init_def)
  have "snd (cbb_add_utf8 0 0x20AC (fst (CBB_init True (\<lambda>_. True) 8)))" by code_simp
  then obtain c1 where c1: "cbb_add_utf8 0 0x20AC c = (c1, True)"
    using c by (cases "cbb_add_utf8 0 0x20AC c") auto
  have "snd (CBB_finish True (fst (cbb_add_utf8 0 0x20AC (fst (CBB_init True (\<lambda>_. True) 8))))) =
      Some [0xE2, 0x82, 0xAC]" by code_simp
  then obtain c2 where f: "CBB_finish True c1 = (c2, Some [0xE2, 0x82, 0xAC])"
    using c c1 by (cases "CBB_finish True c1") auto
  show ?thesis using c c1 f code_point_roundtrip [OF c f, of "0x20AC" "[0x21]"] by auto
qed

end
