(* ===== verification/Ber.thy ===== *)
theory Ber
  imports Asn1Spec
begin

text \<open>
  The conversion of BER to DER
  (\<open>BoringSSL-GRPC/src/crypto/bytestring/ber.c\<close>): the search for indefinite lengths and
  constructed strings, the rewriting of an element tree, and implicitly tagged strings.
\<close>

subsection \<open>Elements in BER\<close>

text \<open>An element the BER reader accepts is a DER element or an indefinite-length header.\<close>

lemma get_ber_element_cases:
  assumes "cbs_get_any_asn1_element True cbs = (rest, Some (elem, t, hl))"
  shows "cbs_get_any_asn1_element False cbs = (rest, Some (elem, t, hl)) \<or>
    (elem = der_tag t @ [0x80] \<and> cbs = elem @ rest \<and> t AND CBS_ASN1_CONSTRUCTED \<noteq> 0 \<and>
     hl = of_nat (length elem))"
proof -
  obtain header tag where tag: "parse_asn1_tag cbs = (header, Some tag)"
    using assms by (auto simp: cbs_get_any_asn1_element_def split: prod.splits option.splits)
  obtain b header' where hd: "header = b # header'"
    using assms tag by (cases header) (auto simp: cbs_get_any_asn1_element_def)
  have cbs: "cbs = der_tag tag @ b # header'" using asn1_tag.dec_canonical [OF tag] hd by simp
  show ?thesis
  proof (cases "b AND 0x80 \<noteq> 0 \<and> (ucast (b AND 0x7F) :: u64) = 0 \<and> tag AND CBS_ASN1_CONSTRUCTED \<noteq> 0")
    case True
    have "b = 0x80"
      using True base128_byte(1) [of b] by (simp add: and_0x80_eq_0_iff)
    let ?h = "of_nat (Suc (length (der_tag tag))) :: u64"
    have u: "unat ?h = Suc (length (der_tag tag))"
      using length_der_tag(2) [of tag] by (simp add: unat_of_nat del: of_nat_Suc)
    have "cbs_get_any_asn1_element True cbs = (header', Some (der_tag tag @ [b], tag, ?h))"
      unfolding cbs_get_any_asn1_element_def Let_def
      using True u
      by (simp add: cbs parse_der_tag CBS_len_header CBS_get_bytes_eq del: of_nat_Suc)
    then show ?thesis using assms \<open>b = 0x80\<close> True cbs by (auto simp del: of_nat_Suc)
  next
    case False
    have "cbs_get_any_asn1_element True cbs = cbs_get_any_asn1_element False cbs"
      unfolding cbs_get_any_asn1_element_def Let_def
      using False by (auto simp add: cbs parse_der_tag split: prod.splits option.splits)
    then show ?thesis using assms by simp
  qed
qed

lemma get_ber_elementE:
  assumes "CBS_get_any_ber_asn1_element cbs = (rest, Some (elem, t, hl))"
  obtains "cbs = elem @ rest" "0 < unat hl" "unat hl \<le> length elem"
proof -
  have "cbs_get_any_asn1_element True cbs = (rest, Some (elem, t, hl))"
    using assms by (simp add: CBS_get_any_ber_asn1_element_def)
  from get_ber_element_cases [OF this] show thesis
  proof (elim disjE conjE)
    assume "cbs_get_any_asn1_element False cbs = (rest, Some (elem, t, hl))"
    from get_element_canonical [OF this] obtain body where
      b: "elem = der_element t body" "cbs = elem @ rest" "hl = of_nat (der_header_length t (length body))"
      by blast
    then show thesis using that [OF b(2)] length_der_tag(1) [of t]
      by (simp add: unat_der_header_length) (simp add: der_header_length_def der_element_def)
  next
    assume e: "elem = der_tag t @ [0x80]" "cbs = elem @ rest" "hl = of_nat (length elem)"
    have "unat hl = length elem" using length_der_tag(2) [of t] e
      by (simp add: unat_of_nat del: of_nat_Suc)
    then show thesis using that [OF e(2)] e(1) by simp
  qed
qed

lemma ber_rest_decreases:
  "CBS_get_any_ber_asn1_element cbs = (rest, Some (elem, t, hl)) \<Longrightarrow> length rest < length cbs"
  by (erule get_ber_elementE) auto

lemma ber_body_decreases:
  "CBS_get_any_ber_asn1_element cbs = (rest, Some (elem, t, hl)) \<Longrightarrow>
     CBS_skip hl elem = (body, Some u) \<Longrightarrow> length body < length cbs"
  by (erule get_ber_elementE) (auto simp: CBS_skip_eq split: if_splits)

lemmas ber_decreases = ber_rest_decreases ber_body_decreases

subsection \<open>The code\<close>

definition kMaxDepth :: nat where
  "kMaxDepth = 2048"

definition is_string_type :: "u32 \<Rightarrow> bool" where
  "is_string_type tag \<longleftrightarrow>
     tag AND NOT CBS_ASN1_CONSTRUCTED \<in>
       {CBS_ASN1_BITSTRING, CBS_ASN1_OCTETSTRING, CBS_ASN1_UTF8STRING, CBS_ASN1_NUMERICSTRING,
        CBS_ASN1_PRINTABLESTRING, CBS_ASN1_T61STRING, CBS_ASN1_VIDEOTEXSTRING, CBS_ASN1_IA5STRING,
        CBS_ASN1_GRAPHICSTRING, CBS_ASN1_VISIBLESTRING, CBS_ASN1_GENERALSTRING,
        CBS_ASN1_UNIVERSALSTRING, CBS_ASN1_BMPSTRING}"

text \<open>The test for an element that is only a header of indefinite length.\<close>

definition is_indefinite :: "u64 \<Rightarrow> cbs \<Rightarrow> bool" where
  "is_indefinite header_len contents \<longleftrightarrow>
     CBS_len contents = header_len \<and> 0 < header_len \<and> contents ! unat (header_len - 1) = 0x80"

text \<open>
  \<open>cbs_find_ber\<close> and its loop, with the current value of \<open>*ber_found\<close>; \<open>None\<close> is the
  return value 0.
\<close>

function cbs_find_ber :: "nat \<Rightarrow> cbs \<Rightarrow> bool option"
  and find_ber_loop :: "nat \<Rightarrow> bool \<Rightarrow> cbs \<Rightarrow> bool option" where
  "cbs_find_ber depth orig_in =
     (if kMaxDepth < depth then None else find_ber_loop depth False orig_in)"
| "find_ber_loop depth ber_found inp =
     (if inp = [] then Some ber_found
      else (case CBS_get_any_ber_asn1_element inp of
              (_, None) \<Rightarrow> None
            | (inp', Some (contents, tag, header_len)) \<Rightarrow>
                if is_indefinite header_len contents then Some True
                else if tag AND CBS_ASN1_CONSTRUCTED \<noteq> 0 then
                  (if is_string_type tag then Some True
                   else (case CBS_skip header_len contents of
                           (_, None) \<Rightarrow> None
                         | (body, Some _) \<Rightarrow>
                             (case cbs_find_ber (depth + 1) body of
                                None \<Rightarrow> None
                              | Some found \<Rightarrow> find_ber_loop depth found inp')))
                else find_ber_loop depth ber_found inp'))"
  by pat_completeness auto
termination
  by (relation "measure (\<lambda>x. case x of Inl (_, inp) \<Rightarrow> 2 * length inp + 1
                                     | Inr (_, _, inp) \<Rightarrow> 2 * length inp)")
    (auto dest: ber_body_decreases [OF sym sym] ber_rest_decreases [OF sym])

declare cbs_find_ber.simps [simp del] find_ber_loop.simps [simp del]

definition is_eoc :: "u64 \<Rightarrow> cbs \<Rightarrow> bool" where
  "is_eoc header_len contents \<longleftrightarrow> header_len = 2 \<and> contents = [0, 0]"

text \<open>
  Where the contents of an element go: the level of the \<open>CBB\<close> to write to and the string tag of
  the children, \<open>None\<close> on failure.
\<close>

definition convert_open :: "nat \<Rightarrow> u32 \<Rightarrow> u32 \<Rightarrow> cbb \<Rightarrow> cbb \<times> (nat \<times> u32) option" where
  "convert_open d string_tag tag out =
     (if string_tag \<noteq> 0 then
        (if tag AND NOT CBS_ASN1_CONSTRUCTED \<noteq> string_tag then (out, None)
         else (out, Some (d, string_tag)))
      else
        let is_constructed_string = tag AND CBS_ASN1_CONSTRUCTED \<noteq> 0 \<and> is_string_type tag;
            out_tag = (if is_constructed_string then tag AND NOT CBS_ASN1_CONSTRUCTED else tag);
            child_string_tag = (if is_constructed_string then out_tag else string_tag)
        in (case CBB_add_asn1 d out_tag out of
              (c, False) \<Rightarrow> (c, None)
            | (c, True) \<Rightarrow> (c, Some (d + 1, child_string_tag))))"

text \<open>
  \<open>cbs_convert_ber\<close>: the input is advanced over what was read.  The recursion is nested: behind
  an element of indefinite length the loop goes on where the recursive call stopped reading.
\<close>

function cbs_convert_ber :: "nat \<Rightarrow> u32 \<Rightarrow> bool \<Rightarrow> nat \<Rightarrow> cbs \<Rightarrow> cbb \<Rightarrow> cbs \<times> cbb \<times> bool" where
  "cbs_convert_ber d string_tag looking_for_eoc depth inp out =
     (if kMaxDepth < depth then (inp, out, False)
      else if inp = [] then (inp, out, \<not> looking_for_eoc)
      else (case CBS_get_any_ber_asn1_element inp of
              (inp', None) \<Rightarrow> (inp', out, False)
            | (inp', Some (contents, tag, header_len)) \<Rightarrow>
                if is_eoc header_len contents then (inp', out, looking_for_eoc)
                else (case convert_open d string_tag tag out of
                        (c, None) \<Rightarrow> (inp', c, False)
                      | (c, Some (d', child_string_tag)) \<Rightarrow>
                          if is_indefinite header_len contents then
                            (case cbs_convert_ber d' child_string_tag True (depth + 1) inp' c of
                               (inp'', c', False) \<Rightarrow> (inp'', c', False)
                             | (inp'', c', True) \<Rightarrow>
                                 (case CBB_flush d c' of
                                    (c'', False) \<Rightarrow> (inp'', c'', False)
                                  | (c'', True) \<Rightarrow>
                                      cbs_convert_ber d string_tag looking_for_eoc depth inp'' c''))
                          else (case CBS_skip header_len contents of
                                  (_, None) \<Rightarrow> (inp', c, False)
                                | (body, Some _) \<Rightarrow>
                                    (case (if tag AND CBS_ASN1_CONSTRUCTED \<noteq> 0
                                           then snd (cbs_convert_ber d' child_string_tag False (depth + 1) body c)
                                           else CBB_add_bytes d' body c) of
                                       (c', False) \<Rightarrow> (inp', c', False)
                                     | (c', True) \<Rightarrow>
                                         (case CBB_flush d c' of
                                            (c'', False) \<Rightarrow> (inp', c'', False)
                                          | (c'', True) \<Rightarrow>
                                              cbs_convert_ber d string_tag looking_for_eoc depth inp' c''))))))"
  by pat_completeness auto

lemma get_ber_element_None:
  "CBS_get_any_ber_asn1_element cbs = (cbs', None) \<Longrightarrow> cbs' = cbs"
  by (auto simp: CBS_get_any_ber_asn1_element_def cbs_get_any_asn1_element_def CBS_get_bytes_eq Let_def
      split: prod.splits option.splits if_splits)

lemma convert_ber_shortens:
  "cbs_convert_ber_dom (d, st, eoc, depth, inp, out) \<Longrightarrow>
     length (fst (cbs_convert_ber d st eoc depth inp out)) \<le> length inp"
proof (induction rule: cbs_convert_ber.pinduct)
  case (1 d st eoc depth inp out)
  note unfold = cbs_convert_ber.psimps [OF "1.hyps"]
  show ?case
  proof (cases "kMaxDepth < depth \<or> inp = []")
    case True
    then show ?thesis unfolding unfold by auto
  next
    case False
    obtain inp' e where get: "CBS_get_any_ber_asn1_element inp = (inp', e)" by force
    show ?thesis
    proof (cases e)
      case None
      then show ?thesis using get get_ber_element_None [of inp inp'] False unfolding unfold by simp
    next
      case (Some x)
      obtain contents tag hl where x: "x = (contents, tag, hl)" by (cases x)
      have less: "length inp' < length inp" using ber_rest_decreases get Some x by blast
      note g = get [unfolded Some x]
      have ne: "\<not> kMaxDepth < depth" "inp \<noteq> []" using False by auto
      note base = ne g [symmetric] refl refl refl
      consider (stop) "is_eoc hl contents \<or> snd (convert_open d st tag out) = None"
        | (go) c d' cst where "\<not> is_eoc hl contents" "convert_open d st tag out = (c, Some (d', cst))"
        by (cases "convert_open d st tag out"; cases "snd (convert_open d st tag out)") auto
      then show ?thesis
      proof cases
        case stop
        then show ?thesis using less ne g unfolding unfold by (auto split: prod.splits)
      next
        case go
        note base = base go(1) go(2) [symmetric] refl refl
        show ?thesis
        proof (cases "is_indefinite hl contents")
          case True
          obtain inp'' c' ok where r: "cbs_convert_ber d' cst True (depth + 1) inp' c = (inp'', c', ok)"
            by (metis prod_cases3)
          have l1: "length inp'' \<le> length inp'" using "1.IH"(1) [OF base True] r by simp
          obtain c'' ok2 where f: "CBB_flush d c' = (c'', ok2)" by force
          have l2: "length (fst (cbs_convert_ber d st eoc depth inp'' c'')) \<le> length inp''" if ok ok2
            using "1.IH"(2) [OF base True r [symmetric] refl _ f [symmetric]] that by simp
          show ?thesis using ne g go True r f l1 l2 less unfolding unfold by (cases ok; cases ok2) simp_all
        next
          case False
          show ?thesis
          proof (cases "CBS_skip hl contents")
            case (Pair body r)
            show ?thesis
            proof (cases r)
              case None
              then show ?thesis using ne g go False Pair less unfolding unfold by simp
            next
              case (Some u)
              let ?w = "if tag AND CBS_ASN1_CONSTRUCTED \<noteq> 0
                then snd (cbs_convert_ber d' cst False (depth + 1) body c) else CBB_add_bytes d' body c"
              obtain c' ok where w: "?w = (c', ok)" by force
              obtain c'' ok2 where f: "CBB_flush d c' = (c'', ok2)" by force
              have l2: "length (fst (cbs_convert_ber d st eoc depth inp' c'')) \<le> length inp'" if ok ok2
                using "1.IH"(4) [OF base False Pair [symmetric] Some w [symmetric] _ f [symmetric]] that by simp
              show ?thesis using ne g go False Pair Some w f l2 less unfolding unfold
                by (cases ok; cases ok2) simp_all
            qed
          qed
        qed
      qed
    qed
  qed
qed

lemma convert_ber_rest_decreases:
  "(inp, Some (elem, t, hl)) = CBS_get_any_ber_asn1_element cbs \<Longrightarrow>
   (inp', r) = cbs_convert_ber d st eoc depth inp out \<Longrightarrow>
   cbs_convert_ber_dom (d, st, eoc, depth, inp, out) \<Longrightarrow> length inp' < length cbs"
  using convert_ber_shortens [of d st eoc depth inp out] ber_rest_decreases [of cbs inp elem t hl]
  by (metis fst_conv order.strict_trans1)

termination cbs_convert_ber
  by (relation "measure (\<lambda>(_, _, _, _, inp, _). length inp)")
    (auto dest: ber_body_decreases [OF sym sym] ber_rest_decreases [OF sym] convert_ber_rest_decreases)

declare cbs_convert_ber.simps [simp del]

text \<open>
  \<open>CBS_asn1_ber_to_der\<close>: what is left of the input, and on success the output with the storage
  it was allocated in, if any.
\<close>

definition CBS_asn1_ber_to_der ::
  "bool \<Rightarrow> (u64 \<Rightarrow> bool) \<Rightarrow> (cbs \<times> bytes option) cbs_reader" where
  "CBS_asn1_ber_to_der malloc_ok alloc inp =
     (case cbs_find_ber 0 inp of
        None \<Rightarrow> (inp, None)
      | Some conversion_needed \<Rightarrow>
          if \<not> conversion_needed then
            (case CBS_get_any_asn1_element inp of
               (inp', None) \<Rightarrow> (inp', None)
             | (inp', Some (out, _, _)) \<Rightarrow> (inp', Some (out, None)))
          else
            (case CBB_init malloc_ok alloc (CBS_len inp) of
               (_, False) \<Rightarrow> (inp, None)
             | (cbb, True) \<Rightarrow>
                 (case cbs_convert_ber 0 0 False 0 inp cbb of
                    (inp', _, False) \<Rightarrow> (inp', None)
                  | (inp', cbb', True) \<Rightarrow>
                      (case CBB_finish True cbb' of
                         (_, None) \<Rightarrow> (inp', None)
                       | (_, Some storage) \<Rightarrow> (inp', Some (storage, Some storage))))))"

text \<open>The loop of \<open>CBS_get_asn1_implicit_string\<close> over the chunks.\<close>

function implicit_string_loop :: "u32 \<Rightarrow> cbs \<Rightarrow> cbb_op" where
  "implicit_string_loop inner_tag child result =
     (if child = [] then (result, True)
      else (case CBS_get_asn1 inner_tag child of
              (_, None) \<Rightarrow> (result, False)
            | (child', Some chunk) \<Rightarrow>
                (case CBB_add_bytes 0 chunk result of
                   (c, False) \<Rightarrow> (c, False)
                 | (c, True) \<Rightarrow> implicit_string_loop inner_tag child' c)))"
  by pat_completeness auto
termination
proof (relation "measure (\<lambda>(_, child, _). length child)", simp, clarsimp)
  fix inner_tag child child' chunk
  assume "(child', Some chunk) = CBS_get_asn1 inner_tag child"
  then have "child = der_element inner_tag chunk @ child'"
    using canonical_codec.dec_canonical [OF CBS_get_asn1_canonical] by metis
  then show "length child' < length child"
    using length_der_tag(1) [of inner_tag] by (simp add: der_element_def)
qed

declare implicit_string_loop.simps [simp del]

definition CBS_get_asn1_implicit_string ::
  "bool \<Rightarrow> (u64 \<Rightarrow> bool) \<Rightarrow> u32 \<Rightarrow> u32 \<Rightarrow> (cbs \<times> bytes option) cbs_reader" where
  "CBS_get_asn1_implicit_string malloc_ok alloc outer_tag inner_tag inp =
     (if CBS_peek_asn1_tag inp outer_tag then
        (case CBS_get_asn1 outer_tag inp of
           (inp', None) \<Rightarrow> (inp', None)
         | (inp', Some out) \<Rightarrow> (inp', Some (out, None)))
      else
        (case CBB_init malloc_ok alloc (CBS_len inp) of
           (_, False) \<Rightarrow> (inp, None)
         | (result, True) \<Rightarrow>
             (case CBS_get_asn1 (outer_tag OR CBS_ASN1_CONSTRUCTED) inp of
                (inp', None) \<Rightarrow> (inp', None)
              | (inp', Some child) \<Rightarrow>
                  (case implicit_string_loop inner_tag child result of
                     (_, False) \<Rightarrow> (inp', None)
                   | (result', True) \<Rightarrow>
                       (case CBB_finish True result' of
                          (_, None) \<Rightarrow> (inp', None)
                        | (_, Some data) \<Rightarrow> (inp', Some (data, Some data)))))))"

end
