(* ===== verification/BerSpec.thy ===== *)
theory BerSpec
  imports Ber Oid
begin

text \<open>
  What the conversion does on element trees: a tree with definite and indefinite lengths and
  constructed strings is written as the DER encoding of the same tree, with the fragments of every
  constructed string put together.
\<close>

subsection \<open>Trees\<close>

text \<open>\<open>Constr True\<close> has an indefinite length and is closed by an end-of-contents element.\<close>

datatype ber = Prim u32 bytes | Constr bool u32 "ber list"

fun ber_enc :: "ber \<Rightarrow> bytes" where
  "ber_enc (Prim t b) = der_element t b"
| "ber_enc (Constr indef t bs) =
     (if indef then der_tag t @ 0x80 # concat (map ber_enc bs) @ [0, 0]
      else der_element t (concat (map ber_enc bs)))"

text \<open>The contents of a fragment, and the DER encoding.\<close>

fun ber_body :: "ber \<Rightarrow> bytes" where
  "ber_body (Prim t b) = b"
| "ber_body (Constr indef t bs) = concat (map ber_body bs)"

fun ber_der :: "ber \<Rightarrow> bytes" where
  "ber_der (Prim t b) = der_element t b"
| "ber_der (Constr indef t bs) =
     (if is_string_type t then der_element (t AND NOT CBS_ASN1_CONSTRUCTED) (concat (map ber_body bs))
      else der_element t (concat (map ber_der bs)))"

definition ber_item :: "u32 \<Rightarrow> ber \<Rightarrow> bytes" where
  "ber_item st b = (if st = 0 then ber_der b else ber_body b)"

text \<open>
  Trees the conversion accepts below depth \<open>n\<close> and inside a string of tag \<open>st\<close> (0 outside):
  the constructed bit fits the form, lengths fit 32 bits, no element looks like an end of contents,
  and all fragments of a string carry its tag.
\<close>

fun ber_ok :: "nat \<Rightarrow> u32 \<Rightarrow> ber \<Rightarrow> bool" where
  "ber_ok n st (Prim t b) \<longleftrightarrow>
     t AND CBS_ASN1_CONSTRUCTED = 0 \<and> \<not> (t = 0 \<and> b = []) \<and> length b < 2 ^ 32 - 1 \<and>
     (st = 0 \<or> t = st)"
| "ber_ok n st (Constr indef t bs) \<longleftrightarrow>
     0 < n \<and> t AND CBS_ASN1_CONSTRUCTED \<noteq> 0 \<and> length (concat (map ber_enc bs)) < 2 ^ 32 - 1 \<and>
     (st = 0 \<or> t AND NOT CBS_ASN1_CONSTRUCTED = st) \<and>
     (let st' = (if st = 0 \<and> is_string_type t then t AND NOT CBS_ASN1_CONSTRUCTED else st)
      in (\<forall>b \<in> set bs. ber_ok (n - 1) st' b) \<and> length (concat (map (ber_item st') bs)) < 2 ^ 32 - 1)"

subsection \<open>Reading one element of a tree\<close>

lemma der_tag_0: "der_tag 0 = [0]"
  by code_simp

lemma der_length_0: "der_length 0 = [0]"
  by (simp add: der_length_def)

lemma is_eoc_element:
  assumes "length body < 2 ^ 32"
  shows "is_eoc (of_nat (der_header_length t (length body))) (der_element t body) \<longleftrightarrow> t = 0 \<and> body = []"
proof
  assume "is_eoc (of_nat (der_header_length t (length body))) (der_element t body)"
  then have e: "der_element t body = [0, 0]" and l: "der_header_length t (length body) = 2"
    using unat_der_header_length [of t "length body"] by (auto simp: is_eoc_def)
  have "length (der_element t body) = 2" using e by simp
  with l have "length body = 0" by (simp add: der_element_def der_header_length_def del: length_0_conv)
  then have "der_tag t @ [0] = der_tag 0 @ [0]" using e by (simp add: der_element_def der_length_0 der_tag_0)
  then show "t = 0 \<and> body = []" using asn1_tag.enc_inject [of t 0] \<open>length body = 0\<close> by simp
next
  assume "t = 0 \<and> body = []"
  then show "is_eoc (of_nat (der_header_length t (length body))) (der_element t body)"
    by (simp add: is_eoc_def der_element_def der_header_length_def der_tag_0 der_length_0)
qed

lemma not_indefinite_element:
  assumes "length body < 2 ^ 32"
  shows "\<not> is_indefinite (of_nat (der_header_length t (length body))) (der_element t body)"
proof
  let ?h = "der_header_length t (length body)"
  assume i: "is_indefinite (of_nat ?h) (der_element t body)"
  have "length (der_element t body) = ?h"
    using i unat_CBS_len [of "der_element t body"] unat_der_header_length [of t "length body"]
      der_element_length_less [OF assms, of t] by (simp add: is_indefinite_def)
  then have b: "body = []" by (simp add: der_element_def der_header_length_def)
  have "unat (of_nat ?h - 1 :: u64) = length (der_tag t)"
    using b length_der_tag(2) [of t]
    by (simp add: der_header_length_def der_length_0 unat_of_nat)
  then have "der_element t body ! unat (of_nat ?h - 1 :: u64) = 0"
    using b by (simp add: der_element_def der_length_0 nth_append)
  then show False using i by (simp add: is_indefinite_def)
qed

lemma get_ber_definite:
  "length body < 2 ^ 32 \<Longrightarrow> CBS_get_any_ber_asn1_element (der_element t body @ rest) =
     (rest, Some (der_element t body, t, of_nat (der_header_length t (length body))))"
  by (simp add: CBS_get_any_ber_asn1_element_def get_der_element)

lemma get_ber_indefinite:
  assumes "t AND CBS_ASN1_CONSTRUCTED \<noteq> 0"
  shows "CBS_get_any_ber_asn1_element (der_tag t @ 0x80 # rest) =
     (rest, Some (der_tag t @ [0x80], t, of_nat (Suc (length (der_tag t)))))"
proof -
  have u: "unat (of_nat (Suc (length (der_tag t))) :: u64) = Suc (length (der_tag t))"
    using length_der_tag(2) [of t] by (simp add: unat_of_nat del: of_nat_Suc)
  show ?thesis
    unfolding CBS_get_any_ber_asn1_element_def cbs_get_any_asn1_element_def Let_def
    using assms u by (simp add: parse_der_tag CBS_len_header CBS_get_bytes_eq del: of_nat_Suc)
qed

lemma indefinite_header:
  "is_indefinite (of_nat (Suc (length (der_tag t)))) (der_tag t @ [0x80])"
  "\<not> is_eoc (of_nat (Suc (length (der_tag t)))) (der_tag t @ [0x80])"
proof -
  have u: "unat (of_nat (Suc (length (der_tag t))) :: u64) = Suc (length (der_tag t))"
    using length_der_tag(2) [of t] by (simp add: unat_of_nat del: of_nat_Suc)
  have "0 < (of_nat (Suc (length (der_tag t))) :: u64)" by (simp only: word_less_nat_alt u unat_0)
  then show "is_indefinite (of_nat (Suc (length (der_tag t)))) (der_tag t @ [0x80])"
    using length_der_tag(2) [of t] by (simp add: is_indefinite_def CBS_len_def unat_of_nat nth_append)
  show "\<not> is_eoc (of_nat (Suc (length (der_tag t)))) (der_tag t @ [0x80])"
    by (auto simp: is_eoc_def append_eq_Cons_conv)
qed

lemma get_ber_eoc:
  "CBS_get_any_ber_asn1_element (0 # 0 # rest) = (rest, Some ([0, 0], 0, 2))" "is_eoc 2 [0, 0]"
  using get_ber_definite [of "[]" 0 rest]
  by (simp_all add: der_element_def der_tag_0 der_length_0 der_header_length_def is_eoc_def)

lemmas ber_reads = get_ber_definite get_ber_indefinite get_ber_eoc is_eoc_element
  not_indefinite_element indefinite_header skip_der_header

subsection \<open>The operations on the builder\<close>

text \<open>The string tag below an element, and what the conversion does with one tree.\<close>

definition child_tag :: "u32 \<Rightarrow> u32 \<Rightarrow> u32" where
  "child_tag st t = (if st = 0 \<and> is_string_type t then t AND NOT CBS_ASN1_CONSTRUCTED else st)"

definition out_tag :: "u32 \<Rightarrow> u32" where
  "out_tag t = (if is_string_type t then t AND NOT CBS_ASN1_CONSTRUCTED else t)"

fun ber_op :: "nat \<Rightarrow> u32 \<Rightarrow> ber \<Rightarrow> cbb_op" where
  "ber_op d st (Prim t b) =
     (if st = 0 then cbb_all [CBB_add_asn1 d t, CBB_add_bytes (d + 1) b, CBB_flush d]
      else cbb_all [CBB_add_bytes d b, CBB_flush d])"
| "ber_op d st (Constr indef t bs) =
     (if st = 0 then cbb_all [CBB_add_asn1 d (out_tag t),
                              cbb_all (map (ber_op (d + 1) (child_tag st t)) bs), CBB_flush d]
      else cbb_all [cbb_all (map (ber_op d st) bs), CBB_flush d])"

lemma prim_string_tag: "t AND CBS_ASN1_CONSTRUCTED = 0 \<Longrightarrow> t AND NOT CBS_ASN1_CONSTRUCTED = (t :: u32)"
proof (rule bit_word_eqI)
  fix n assume "t AND CBS_ASN1_CONSTRUCTED = 0"
  then have "\<not> bit (t AND CBS_ASN1_CONSTRUCTED) n" by simp
  then show "n < LENGTH(32) \<Longrightarrow> bit (t AND NOT CBS_ASN1_CONSTRUCTED) n = bit t n"
    by (auto simp: bit_and_iff bit_not_iff)
qed

text \<open>The prefix of a list of trees that is followed by \<open>tail\<close>: the end of the input, or an
  end-of-contents element.\<close>

definition ber_tail :: "bool \<Rightarrow> bytes \<Rightarrow> bytes \<Rightarrow> bool" where
  "ber_tail eoc tail rest \<longleftrightarrow> (if eoc then tail = 0 # 0 # rest else tail = [] \<and> rest = [])"

lemma convert_ber_end:
  "ber_tail eoc tail rest \<Longrightarrow> depth \<le> kMaxDepth \<Longrightarrow>
     cbs_convert_ber d st eoc depth tail out = (rest, out, True)"
  by (cases eoc) (simp_all add: ber_tail_def cbs_convert_ber.simps [of d st] get_ber_eoc not_less)

text \<open>One round of the loop.\<close>

lemma convert_ber_definite:
  assumes "depth \<le> kMaxDepth" and "length body < 2 ^ 32" and "\<not> (t = 0 \<and> body = [])"
  shows "cbs_convert_ber d st eoc depth (der_element t body @ after) out =
    (case convert_open d st t out of
       (c, None) \<Rightarrow> (after, c, False)
     | (c, Some (d', cst)) \<Rightarrow>
         (case (if t AND CBS_ASN1_CONSTRUCTED \<noteq> 0 then snd (cbs_convert_ber d' cst False (depth + 1) body c)
                else CBB_add_bytes d' body c) of
            (c', False) \<Rightarrow> (after, c', False)
          | (c', True) \<Rightarrow>
              (case CBB_flush d c' of
                 (c'', False) \<Rightarrow> (after, c'', False)
               | (c'', True) \<Rightarrow> cbs_convert_ber d st eoc depth after c'')))"
proof -
  have ne: "der_element t body @ after \<noteq> []" using length_der_tag(1) [of t] by (auto simp: der_element_def)
  have nd: "\<not> kMaxDepth < depth" using assms(1) by simp
  have eoc: "\<not> is_eoc (of_nat (der_header_length t (length body))) (der_element t body)"
    using is_eoc_element [OF assms(2)] assms(3) by blast
  show ?thesis
    by (subst cbs_convert_ber.simps)
      (simp only: ne nd eoc get_ber_definite [OF assms(2)] not_indefinite_element [OF assms(2)]
        skip_der_header if_False prod.case option.case cong: option.case_cong prod.case_cong)
qed

lemma convert_ber_indefinite:
  assumes "depth \<le> kMaxDepth" and "t AND CBS_ASN1_CONSTRUCTED \<noteq> 0"
  shows "cbs_convert_ber d st eoc depth (der_tag t @ 0x80 # after) out =
    (case convert_open d st t out of
       (c, None) \<Rightarrow> (after, c, False)
     | (c, Some (d', cst)) \<Rightarrow>
         (case cbs_convert_ber d' cst True (depth + 1) after c of
            (inp'', c', False) \<Rightarrow> (inp'', c', False)
          | (inp'', c', True) \<Rightarrow>
              (case CBB_flush d c' of
                 (c'', False) \<Rightarrow> (inp'', c'', False)
               | (c'', True) \<Rightarrow> cbs_convert_ber d st eoc depth inp'' c'')))"
proof -
  have ne: "der_tag t @ 0x80 # after \<noteq> []" by simp
  have nd: "\<not> kMaxDepth < depth" using assms(1) by simp
  show ?thesis
    by (subst cbs_convert_ber.simps)
      (simp only: ne nd get_ber_indefinite [OF assms(2)] indefinite_header if_False if_True
        prod.case option.case cong: option.case_cong prod.case_cong)
qed

lemma open_prim:
  assumes "t AND CBS_ASN1_CONSTRUCTED = 0" and "st = 0 \<or> t = st"
  shows "convert_open d st t out =
    (if st = 0 then (case CBB_add_asn1 d t out of (c, False) \<Rightarrow> (c, None) | (c, True) \<Rightarrow> (c, Some (d + 1, 0)))
     else (out, Some (d, st)))"
  using assms prim_string_tag [OF assms(1)]
  by (auto simp: convert_open_def Let_def split: prod.split bool.split)

lemma open_constr:
  assumes "t AND CBS_ASN1_CONSTRUCTED \<noteq> 0" and "st = 0 \<or> t AND NOT CBS_ASN1_CONSTRUCTED = st"
  shows "convert_open d st t out =
    (if st = 0 then (case CBB_add_asn1 d (out_tag t) out of
                       (c, False) \<Rightarrow> (c, None) | (c, True) \<Rightarrow> (c, Some (d + 1, child_tag st t)))
     else (out, Some (d, st)))"
  using assms by (auto simp: convert_open_def Let_def out_tag_def child_tag_def split: prod.split bool.split)

text \<open>The contents of a constructed element, at the level they are written to.\<close>

definition inner_level :: "nat \<Rightarrow> u32 \<Rightarrow> nat" where
  "inner_level d st = (if st = 0 then d + 1 else d)"

lemma ber_op_constr:
  "ber_op d st (Constr indef t bs) =
     cbb_and (if st = 0 then CBB_add_asn1 d (out_tag t) else cbb_done)
       (cbb_and (cbb_all (map (ber_op (inner_level d st) (child_tag st t)) bs)) (CBB_flush d))"
  by (simp add: inner_level_def child_tag_def)

lemma open_constr_and:
  assumes "t AND CBS_ASN1_CONSTRUCTED \<noteq> 0" and "st = 0 \<or> t AND NOT CBS_ASN1_CONSTRUCTED = st"
  shows "convert_open d st t out =
    (case (if st = 0 then CBB_add_asn1 d (out_tag t) else cbb_done) out of
       (c, False) \<Rightarrow> (c, None) | (c, True) \<Rightarrow> (c, Some (inner_level d st, child_tag st t)))"
  using open_constr [OF assms] by (auto simp: inner_level_def child_tag_def cbb_done_def)

definition agrees :: "cbs \<times> cbb \<times> bool \<Rightarrow> cbs \<Rightarrow> cbb \<times> bool \<Rightarrow> bool" where
  "agrees r rest cr \<longleftrightarrow> snd r = cr \<and> (snd cr \<longrightarrow> fst r = rest)"

lemma agrees_cases:
  assumes "agrees r rest cr"
  obtains c where "r = (rest, c, True)" "cr = (c, True)" | c inp where "r = (inp, c, False)" "cr = (c, False)"
  using assms by (cases r; cases cr) (auto simp: agrees_def)

lemma convert_ber_constr:
  assumes ok: "ber_ok n st (Constr indef t bs)" and depth: "depth + n \<le> kMaxDepth"
    and inner: "\<And>eoc tail rest c. ber_tail eoc tail rest \<Longrightarrow>
      agrees (cbs_convert_ber (inner_level d st) (child_tag st t) eoc (depth + 1)
                (concat (map ber_enc bs) @ tail) c) rest
        (cbb_all (map (ber_op (inner_level d st) (child_tag st t)) bs) c)"
    and after: "\<And>c'. ber_op d st (Constr indef t bs) out = (c', True) \<Longrightarrow>
      agrees (cbs_convert_ber d st eoc depth after c') rest (g c')"
  shows "agrees (cbs_convert_ber d st eoc depth (ber_enc (Constr indef t bs) @ after) out) rest
    (cbb_and (ber_op d st (Constr indef t bs)) g out)"
proof -
  have t: "t AND CBS_ASN1_CONSTRUCTED \<noteq> 0" and st: "st = 0 \<or> t AND NOT CBS_ASN1_CONSTRUCTED = st"
    and size: "length (concat (map ber_enc bs)) < 2 ^ 32" and dep: "depth \<le> kMaxDepth"
    using ok depth by auto
  have t0: "\<not> (t = 0 \<and> concat (map ber_enc bs) = [])" using t by auto
  let ?open = "if st = 0 then CBB_add_asn1 d (out_tag t) else cbb_done"
  let ?ops = "cbb_all (map (ber_op (inner_level d st) (child_tag st t)) bs)"
  note op = ber_op_constr [of d st indef t bs]
  obtain c1 ok1 where o: "?open out = (c1, ok1)" by force
  show ?thesis
  proof (cases ok1)
    case False
    have "ber_op d st (Constr indef t bs) out = (c1, False)" unfolding op using o False by (simp add: cbb_and_def)
    moreover have "convert_open d st t out = (c1, None)" unfolding open_constr_and [OF t st] o using False by simp
    ultimately show ?thesis
      by (cases indef)
        (simp_all add: agrees_def cbb_and_def convert_ber_indefinite [OF dep t] convert_ber_definite [OF dep size t0])
  next
    case True
    have open_eq: "convert_open d st t out = (c1, Some (inner_level d st, child_tag st t))"
      unfolding open_constr_and [OF t st] o using True by simp
    have op1: "ber_op d st (Constr indef t bs) out = cbb_and ?ops (CBB_flush d) c1"
      unfolding op using o True by (simp add: cbb_and_def)
    obtain c2 ok2 where r: "?ops c1 = (c2, ok2)" by force
    obtain c3 ok3 where f: "CBB_flush d c2 = (c3, ok3)" by force
    have step: "cbs_convert_ber d st eoc depth (ber_enc (Constr indef t bs) @ after) out =
        (if \<not> ok2 then (fst (cbs_convert_ber d st eoc depth (ber_enc (Constr indef t bs) @ after) out), c2, False)
         else if \<not> ok3 then (after, c3, False) else cbs_convert_ber d st eoc depth after c3)"
    proof (cases indef)
      case True
      have "ber_tail True (0 # 0 # after) after" by (simp add: ber_tail_def)
      from inner [OF this, of c1] have "agrees (cbs_convert_ber (inner_level d st) (child_tag st t) True (depth + 1)
          (concat (map ber_enc bs) @ 0 # 0 # after) c1) after (c2, ok2)" unfolding r .
      then show ?thesis
        by (rule agrees_cases)
          (use True f in \<open>simp_all add: convert_ber_indefinite [OF dep t] open_eq split: bool.split\<close>)
    next
      case False
      have "ber_tail False [] []" by (simp add: ber_tail_def)
      from inner [OF this, of c1] have "agrees (cbs_convert_ber (inner_level d st) (child_tag st t) False (depth + 1)
          (concat (map ber_enc bs)) c1) [] (c2, ok2)" unfolding r by simp
      then show ?thesis
        by (rule agrees_cases)
          (use False f t in \<open>simp_all add: convert_ber_definite [OF dep size t0] open_eq split: bool.split\<close>)
    qed
    have op2: "ber_op d st (Constr indef t bs) out = (if ok2 then (c3, ok3) else (c2, False))"
      unfolding op1 using r f by (simp add: cbb_and_def split: bool.split)
    show ?thesis
    proof (cases "ok2 \<and> ok3")
      case True
      then have "ber_op d st (Constr indef t bs) out = (c3, True)" using op2 by simp
      then show ?thesis using step True after [of c3] by (simp add: cbb_and_def)
    next
      case False
      then have "snd (cbs_convert_ber d st eoc depth (ber_enc (Constr indef t bs) @ after) out) =
          ber_op d st (Constr indef t bs) out"
        using arg_cong [OF step, of snd] op2 by (cases ok2) simp_all
      then show ?thesis using op2 False unfolding agrees_def cbb_and_def
        by (cases ok2) (simp_all del: ber_op.simps ber_enc.simps)
    qed
  qed
qed

lemma convert_ber_prim:
  assumes ok: "ber_ok n st (Prim t b)" and dep: "depth \<le> kMaxDepth"
    and after: "\<And>c'. ber_op d st (Prim t b) out = (c', True) \<Longrightarrow>
      agrees (cbs_convert_ber d st eoc depth after c') rest (g c')"
  shows "agrees (cbs_convert_ber d st eoc depth (ber_enc (Prim t b) @ after) out) rest
    (cbb_and (ber_op d st (Prim t b)) g out)"
proof -
  have t: "t AND CBS_ASN1_CONSTRUCTED = 0" "st = 0 \<or> t = st" and size: "length b < 2 ^ 32"
    and t0: "\<not> (t = 0 \<and> b = [])"
    using ok by auto
  have step: "cbs_convert_ber d st eoc depth (der_element t b @ after) out =
      (case ber_op d st (Prim t b) out of
         (c, False) \<Rightarrow> (after, c, False)
       | (c, True) \<Rightarrow> cbs_convert_ber d st eoc depth after c)"
    unfolding convert_ber_definite [OF dep size t0] open_prim [OF t] using t(1)
    by (cases "st = 0") (simp_all add: cbb_and_def cbb_done_def split: prod.split bool.split)
  show ?thesis
    using after unfolding ber_enc.simps step
    by (auto simp: agrees_def cbb_and_def simp del: ber_op.simps split: prod.split bool.split)
qed

text \<open>The conversion of a list of trees is the sequence of their operations.\<close>

lemma convert_ber_run:
  "(\<And>b. b \<in> set bs \<Longrightarrow> ber_ok n st b) \<Longrightarrow> depth + n \<le> kMaxDepth \<Longrightarrow> ber_tail eoc tail rest \<Longrightarrow>
     agrees (cbs_convert_ber d st eoc depth (concat (map ber_enc bs) @ tail) out) rest
       (cbb_all (map (ber_op d st) bs) out)"
proof (induction "size_list size bs" arbitrary: bs n d st eoc depth tail rest out rule: less_induct)
  case less
  show ?case
  proof (cases bs)
    case Nil
    then show ?thesis using convert_ber_end [OF less.prems(3)] less.prems(2)
      by (simp add: agrees_def cbb_done_def)
  next
    case (Cons b bs')
    have "size_list size bs' < size_list size bs" using Cons by simp
    from less.hyps [OF this _ less.prems(2,3)] less.prems(1) Cons
    have after: "agrees (cbs_convert_ber d st eoc depth (concat (map ber_enc bs') @ tail) c) rest
        (cbb_all (map (ber_op d st) bs') c)" for c by simp
    have ok: "ber_ok n st b" using less.prems(1) Cons by simp
    show ?thesis
    proof (cases b)
      case (Prim t body)
      from convert_ber_prim [OF ok [unfolded Prim] _ after] less.prems(2)
      show ?thesis by (simp add: Cons Prim del: ber_op.simps ber_enc.simps)
    next
      case (Constr indef t cs)
      have "size_list size cs < size_list size bs" using Cons Constr by simp
      note IH = less.hyps [OF this]
      have n: "0 < n" and cs: "c \<in> set cs \<Longrightarrow> ber_ok (n - 1) (child_tag st t) c" for c
        using ok Constr by (auto simp: child_tag_def Let_def)
      have "agrees (cbs_convert_ber (inner_level d st) (child_tag st t) eoc' (depth + 1)
          (concat (map ber_enc cs) @ tail') c) rest'
          (cbb_all (map (ber_op (inner_level d st) (child_tag st t)) cs) c)"
        if "ber_tail eoc' tail' rest'" for eoc' tail' rest' c
        by (rule IH [OF cs _ that]) (use n less.prems(2) in simp_all)
      from convert_ber_constr [OF ok [unfolded Constr] less.prems(2) this after]
      show ?thesis by (simp add: Cons Constr del: ber_op.simps ber_enc.simps)
    qed
  qed
qed

subsection \<open>What the operations write\<close>

lemma cbb_writes_cong:
  assumes "\<And>c b xs. cbb_holds c b xs \<Longrightarrow> d \<le> length (frames c) \<Longrightarrow> f c = g c"
  shows "cbb_writes d g bs \<Longrightarrow> cbb_writes d f bs"
  unfolding cbb_writes_def using assms by metis

lemma cbb_writes_empty_element:
  "cbb_writes d (cbb_all [CBB_add_asn1 d t, cbb_done, CBB_flush d]) (der_element t [])"
proof (rule cbb_writes_cong)
  have "cbb_writes (d + 1) (CBB_flush (d + 1)) []" by (rule cbb_writes_flush)
  from cbb_writes_element [OF this]
  show "cbb_writes d (cbb_all [CBB_add_asn1 d t, CBB_flush (d + 1), CBB_flush d]) (der_element t [])" by simp
next
  fix c b xs assume h: "cbb_holds c b xs" and d: "d \<le> length (frames c)"
  obtain c1 ok where c1: "CBB_add_asn1 d t c = (c1, ok)" by force
  have "CBB_flush (d + 1) c1 = (c1, True)" if ok
  proof -
    from cbb_opensD(1) [OF cbb_opens_asn1 h d, of t c1] c1 that obtain b1 ch y where
      "frames c1 = take d (frames c) @ [ch]" "cbb_holds c1 b1 (take d xs @ [y @ der_tag t, []])" by auto
    then show ?thesis using d by (intro CBB_flush_idle [of _ b1]) (simp_all add: cbb_holds_def cbb_fits_def)
  qed
  then show "cbb_all [CBB_add_asn1 d t, cbb_done, CBB_flush d] c =
      cbb_all [CBB_add_asn1 d t, CBB_flush (d + 1), CBB_flush d] c"
    using c1 by (cases ok) (simp_all add: cbb_and_def cbb_done_def)
qed

lemma string_tag_not_0: "is_string_type t \<Longrightarrow> t AND NOT CBS_ASN1_CONSTRUCTED \<noteq> 0"
  by (auto simp: is_string_type_def CBS_ASN1_BITSTRING_def CBS_ASN1_OCTETSTRING_def
      CBS_ASN1_UTF8STRING_def CBS_ASN1_NUMERICSTRING_def CBS_ASN1_PRINTABLESTRING_def
      CBS_ASN1_T61STRING_def CBS_ASN1_VIDEOTEXSTRING_def CBS_ASN1_IA5STRING_def
      CBS_ASN1_GRAPHICSTRING_def CBS_ASN1_VISIBLESTRING_def CBS_ASN1_GENERALSTRING_def
      CBS_ASN1_UNIVERSALSTRING_def CBS_ASN1_BMPSTRING_def)

lemma ber_der_constr:
  "ber_der (Constr indef t bs) = der_element (out_tag t) (concat (map (ber_item (child_tag 0 t)) bs))"
proof -
  have "ber_item (t AND NOT CBS_ASN1_CONSTRUCTED) = ber_body" if "is_string_type t"
    using string_tag_not_0 [OF that] by (simp add: ber_item_def fun_eq_iff)
  moreover have "ber_item 0 = ber_der" by (simp add: ber_item_def fun_eq_iff)
  ultimately show ?thesis by (simp add: out_tag_def child_tag_def)
qed

lemma cbb_writes_map:
  assumes "\<And>b. b \<in> set bs \<Longrightarrow> cbb_writes d (f b) (g b)" and "bs \<noteq> []"
  shows "cbb_writes d (cbb_all (map f bs)) (concat (map g bs))"
  by (rule cbb_writes_list) (use assms in \<open>auto simp: list_all2_map1 list_all2_map2 list_all2_same\<close>)

lemma cbb_writes_ber_op: "ber_ok n st b \<Longrightarrow> cbb_writes d (ber_op d st b) (ber_item st b)"
proof (induction b arbitrary: n st d)
  case (Prim t b)
  then have l: "length b \<le> 0xFFFFFFFE" by simp
  show ?case
  proof (cases "st = 0")
    case True
    have "cbb_writes (d + 1) (CBB_add_bytes (d + 1) b) b" using l by (intro cbb_writes_bytes) simp
    from cbb_writes_element [OF this l] show ?thesis using True by (simp add: ber_item_def)
  next
    case False
    have "cbb_writes d (CBB_add_bytes d b) b" using l by (intro cbb_writes_bytes) simp
    from cbb_writes_and [OF this cbb_writes_flush] show ?thesis using False by (simp add: ber_item_def)
  qed
next
  case (Constr indef t bs)
  let ?st = "child_tag st t"
  have ok: "\<And>b. b \<in> set bs \<Longrightarrow> ber_ok (n - 1) ?st b"
    and l: "length (concat (map (ber_item ?st) bs)) \<le> 0xFFFFFFFE"
    using Constr.prems by (auto simp: child_tag_def Let_def)
  have w: "bs \<noteq> [] \<Longrightarrow> cbb_writes k (cbb_all (map (ber_op k ?st) bs)) (concat (map (ber_item ?st) bs))" for k
    by (rule cbb_writes_map) (use Constr.IH ok in blast)+
  show ?case
  proof (cases "st = 0")
    case True
    note item = ber_der_constr [of indef t bs, unfolded True [symmetric]]
    show ?thesis
    proof (cases "bs = []")
      case True
      then show ?thesis using cbb_writes_empty_element [of d "out_tag t"] \<open>st = 0\<close> item
        by (simp add: ber_item_def)
    next
      case False
      from cbb_writes_element [OF w [OF False, of "d + 1"] l, of "out_tag t"] \<open>st = 0\<close> item
      show ?thesis by (simp add: ber_item_def del: ber_der.simps)
    qed
  next
    case False
    then have st: "?st = st" "ber_item st = ber_body" by (simp_all add: child_tag_def ber_item_def fun_eq_iff)
    show ?thesis
    proof (cases "bs = []")
      case True
      then show ?thesis using False cbb_writes_flush by (simp add: ber_item_def)
    next
      case ne: False
      from cbb_writes_and [OF w [OF ne, of d] cbb_writes_flush] False st
      show ?thesis by (simp add: ber_item_def)
    qed
  qed
qed

subsection \<open>What the search reports\<close>

text \<open>
  The answer of the search: an indefinite length or a constructed string among the elements ends it;
  otherwise the answer is that of the last constructed element, since the recursive call resets what
  an earlier element has reported.
\<close>

function found_in :: "bool \<Rightarrow> ber list \<Rightarrow> bool" where
  "found_in found [] = found"
| "found_in found (Prim t b # bs) = found_in found bs"
| "found_in found (Constr indef t cs # bs) =
     (if indef \<or> is_string_type t then True else found_in (found_in False cs) bs)"
  by pat_completeness auto
termination by (relation "measure (\<lambda>(_, bs). size_list size bs)") auto

fun has_ber :: "ber \<Rightarrow> bool" where
  "has_ber (Prim t b) = False"
| "has_ber (Constr indef t bs) = (indef \<or> is_string_type t \<or> (\<exists>b \<in> set bs. has_ber b))"

lemma found_in_DER: "\<forall>b \<in> set bs. \<not> has_ber b \<Longrightarrow> \<not> found \<Longrightarrow> \<not> found_in found bs"
  by (induction found bs rule: found_in.induct) simp_all

lemma ber_der_DER: "\<not> has_ber b \<Longrightarrow> ber_der b = ber_enc b"
proof (induction b)
  case (Constr indef t bs)
  then have "map ber_der bs = map ber_enc bs" by auto
  then have "concat (map ber_der bs) = concat (map ber_enc bs)" by (rule arg_cong)
  then show ?case using Constr.prems by simp
qed simp

lemma find_ber_loop_tree:
  "(\<And>b. b \<in> set bs \<Longrightarrow> ber_ok n 0 b) \<Longrightarrow> depth + n \<le> kMaxDepth \<Longrightarrow>
     find_ber_loop depth found (concat (map ber_enc bs)) = Some (found_in found bs)"
proof (induction found bs arbitrary: depth n rule: found_in.induct)
  case (1 found)
  then show ?case by (simp add: find_ber_loop.simps)
next
  case (2 found t b bs)
  have ok: "ber_ok n 0 (Prim t b)" using "2.prems"(1) [of "Prim t b"] by simp
  then have t: "t AND CBS_ASN1_CONSTRUCTED = 0" "length b < 2 ^ 32" by auto
  have "find_ber_loop depth found (concat (map ber_enc bs)) = Some (found_in found bs)"
    by (rule "2.IH") (use "2.prems" in auto)
  then show ?case using t
    by (subst find_ber_loop.simps)
      (simp add: get_ber_definite not_indefinite_element)
next
  case (3 found indef t cs bs)
  have ok: "ber_ok n 0 (Constr indef t cs)" using "3.prems"(1) [of "Constr indef t cs"] by simp
  then have t: "t AND CBS_ASN1_CONSTRUCTED \<noteq> 0" "length (concat (map ber_enc cs)) < 2 ^ 32" by auto
  show ?case
  proof (cases "indef \<or> is_string_type t")
    case True
    then show ?thesis using t
      by (subst find_ber_loop.simps)
        (auto simp: get_ber_definite get_ber_indefinite not_indefinite_element indefinite_header
          simp del: of_nat_Suc)
  next
    case False
    then have n: "0 < n" and cs: "c \<in> set cs \<Longrightarrow> ber_ok (n - 1) 0 c" for c using ok by (auto simp: Let_def)
    have inner: "cbs_find_ber (depth + 1) (concat (map ber_enc cs)) = Some (found_in False cs)"
      using "3.IH"(1) [OF False cs, of "depth + 1"] n "3.prems"(2)
      by (simp add: cbs_find_ber.simps)
    have "find_ber_loop depth (found_in False cs) (concat (map ber_enc bs)) = Some (found_in (found_in False cs) bs)"
      by (rule "3.IH"(2) [OF False]) (use "3.prems" in auto)
    then show ?thesis using t False inner
      by (subst find_ber_loop.simps)
        (simp add: get_ber_definite not_indefinite_element skip_der_header)
  qed
qed

subsection \<open>Properties\<close>

lemma ber_to_der_result:
  assumes ok: "ber_ok kMaxDepth 0 t"
  shows "CBS_asn1_ber_to_der True (\<lambda>_. True) (ber_enc t) =
    ([], Some (if found_in False [t] then (ber_der t, Some (ber_der t)) else (ber_enc t, None)))"
proof -
  have find: "cbs_find_ber 0 (ber_enc t) = Some (found_in False [t])"
    using find_ber_loop_tree [of "[t]" kMaxDepth 0 False] ok by (simp add: cbs_find_ber.simps)
  show ?thesis
  proof (cases "found_in False [t]")
    case True
    let ?n = "CBS_len (ber_enc t)"
    obtain c where c: "CBB_init True (\<lambda>_. True) ?n = (c, True)" by (simp add: CBB_init_def cbb_init_def)
    let ?b = "\<lparr>buf = [], cap = ?n, can_resize = True, error = False, alloc_ok = \<lambda>_. True\<rparr>"
    have hc: "cbb_holds c ?b [[]]" "frames c = []"
      using c by (auto simp: CBB_init_def cbb_init_def CBB_zero_def cbb_holds_def cbb_fits_def)
    have w: "cbb_writes 0 (ber_op 0 0 t) (ber_der t)"
      using cbb_writes_ber_op [OF ok, of 0] by (simp add: ber_item_def)
    have size: "length (ber_der t) < 2 ^ 64"
    proof (cases t)
      case (Prim u b)
      then show ?thesis using ok der_element_length_less [of b u] by simp
    next
      case (Constr indef u bs)
      then show ?thesis using ok der_element_length_less [of "concat (map (ber_item (child_tag 0 u)) bs)" "out_tag u"]
          ber_der_constr [of indef u bs] by (simp add: child_tag_def Let_def del: ber_der.simps)
    qed
    have "\<exists>c1. ber_op 0 0 t c = (c1, True)"
      by (rule cbb_writesD(2) [OF w hc(1), of "[]"]) (use hc(2) size in \<open>auto simp: level_start_def cbb_room_def\<close>)
    then obtain c1 where c1: "ber_op 0 0 t c = (c1, True)" by blast
    from cbb_writesD(1) [OF w hc(1) _ c1] hc(2) obtain b1 where
      "frames c1 = []" "cbb_holds c1 b1 [ber_der t]" by auto
    then have fin: "snd (CBB_finish True c1) = Some (ber_der t)"
      by (auto simp: CBB_finish_def CBB_flush_def cbb_holds_def cbb_fits_def split: if_splits)
    have "ber_tail False [] []" by (simp add: ber_tail_def)
    from convert_ber_run [of "[t]" kMaxDepth 0 0, OF _ _ this, of 0 c] ok
    have "cbs_convert_ber 0 0 False 0 (ber_enc t) c = ([], c1, True)"
      using c1 by (simp add: agrees_def prod_eq_iff)
    then show ?thesis using find True c fin
      by (auto simp: CBS_asn1_ber_to_der_def split: prod.split option.split)
  next
    case False
    have "\<exists>u body. ber_enc t = der_element u body \<and> length body < 2 ^ 32"
    proof (cases t)
      case (Prim u b)
      then show ?thesis using ok by (intro exI [of _ u] exI [of _ b]) simp
    next
      case (Constr indef u bs)
      then show ?thesis using ok False
        by (intro exI [of _ u] exI [of _ "concat (map ber_enc bs)"]) (simp split: if_splits)
    qed
    then obtain u body where "ber_enc t = der_element u body" "length body < 2 ^ 32" by blast
    then have "CBS_get_any_asn1_element (ber_enc t) =
        ([], Some (ber_enc t, u, of_nat (der_header_length u (length body))))"
      using get_der_element [of body False u "[]"] by (simp add: CBS_get_any_asn1_element_def)
    then show ?thesis using find False by (simp add: CBS_asn1_ber_to_der_def)
  qed
qed

text \<open>The tags of the examples.\<close>

lemma example_tags:
  "der_tag CBS_ASN1_SEQUENCE = [0x30]" "der_tag CBS_ASN1_OCTETSTRING = [4]" "der_tag CBS_ASN1_INTEGER = [2]"
  "der_tag (CBS_ASN1_OCTETSTRING OR CBS_ASN1_CONSTRUCTED) = [0x24]"
  "CBS_ASN1_SEQUENCE AND CBS_ASN1_CONSTRUCTED \<noteq> 0" "CBS_ASN1_OCTETSTRING AND CBS_ASN1_CONSTRUCTED = 0"
  "CBS_ASN1_INTEGER AND CBS_ASN1_CONSTRUCTED = 0"
  "(CBS_ASN1_OCTETSTRING OR CBS_ASN1_CONSTRUCTED) AND CBS_ASN1_CONSTRUCTED \<noteq> 0"
  "(CBS_ASN1_OCTETSTRING OR CBS_ASN1_CONSTRUCTED) AND NOT CBS_ASN1_CONSTRUCTED = CBS_ASN1_OCTETSTRING"
  "CBS_ASN1_CONSTRUCTED \<noteq> 0" "CBS_ASN1_OCTETSTRING \<noteq> 0"
  "\<not> is_string_type CBS_ASN1_SEQUENCE" "is_string_type (CBS_ASN1_OCTETSTRING OR CBS_ASN1_CONSTRUCTED)"
  by code_simp+

text \<open>C8: The conversion of BER to DER: for every tree of elements up to depth 2048 with definite and
  indefinite lengths and constructed strings, \<open>CBS_asn1_ber_to_der\<close> consumes the whole encoding;
  when the search reports BER, it returns the DER encoding of the tree (definite minimal lengths, the
  fragments of every constructed string put together), in memory of its own, and otherwise the input
  itself; for a tree without any BER it returns the input, which then is the DER encoding.\<close>

theorem ber_to_der_tree:
  assumes "ber_ok kMaxDepth 0 t"
  shows "CBS_asn1_ber_to_der True (\<lambda>_. True) (ber_enc t) =
      ([], Some (if cbs_find_ber 0 (ber_enc t) = Some True then (ber_der t, Some (ber_der t))
                 else (ber_enc t, None))) \<and>
    (\<not> has_ber t \<longrightarrow> cbs_find_ber 0 (ber_enc t) = Some False \<and> ber_der t = ber_enc t)"
proof -
  have "cbs_find_ber 0 (ber_enc t) = Some (found_in False [t])"
    using find_ber_loop_tree [of "[t]" kMaxDepth 0 False] assms by (simp add: cbs_find_ber.simps)
  then show ?thesis
    using ber_to_der_result [OF assms] found_in_DER [of "[t]" False] ber_der_DER [of t] by simp
qed

theorem ber_to_der_tree_witness:
  "CBS_asn1_ber_to_der True (\<lambda>_. True) [0x30, 0x80, 0x24, 0x80, 4, 1, 65, 4, 1, 66, 0, 0, 2, 1, 7, 0, 0] =
     ([], Some ([0x30, 7, 4, 2, 65, 66, 2, 1, 7], Some [0x30, 7, 4, 2, 65, 66, 2, 1, 7]))"
proof -
  let ?t = "Constr True CBS_ASN1_SEQUENCE
      [Constr True (CBS_ASN1_OCTETSTRING OR CBS_ASN1_CONSTRUCTED)
         [Prim CBS_ASN1_OCTETSTRING [65], Prim CBS_ASN1_OCTETSTRING [66]], Prim CBS_ASN1_INTEGER [7]]"
  have e: "ber_enc ?t = [0x30, 0x80, 0x24, 0x80, 4, 1, 65, 4, 1, 66, 0, 0, 2, 1, 7, 0, 0]"
    "ber_der ?t = [0x30, 7, 4, 2, 65, 66, 2, 1, 7]" by code_simp+
  have ok: "ber_ok 2048 0 ?t"
    by (simp add: example_tags der_element_def der_length_def ber_item_def)
  have f: "cbs_find_ber 0 (ber_enc ?t) = Some True" unfolding e by code_simp
  from ber_to_der_tree [OF ok [folded kMaxDepth_def]] f show ?thesis unfolding e by simp
qed

text \<open>C35: The search forgets: the recursive call of \<open>cbs_find_ber\<close> resets \<open>*ber_found\<close> and the
  loop does not stop when it has set it, so BER in one constructed element goes unnoticed when another
  constructed element follows.  The SEQUENCE of a SEQUENCE with a constructed OCTET STRING and of an
  empty SEQUENCE is returned unconverted, although its DER encoding is another one; with the two
  elements swapped it is converted.\<close>

theorem ber_search_forgets:
  "\<exists>t u. t = Constr False CBS_ASN1_SEQUENCE
        [Constr False CBS_ASN1_SEQUENCE
           [Constr False (CBS_ASN1_OCTETSTRING OR CBS_ASN1_CONSTRUCTED) [Prim CBS_ASN1_OCTETSTRING [65]]],
         Constr False CBS_ASN1_SEQUENCE []] \<and>
     u = Constr False CBS_ASN1_SEQUENCE
        [Constr False CBS_ASN1_SEQUENCE [],
         Constr False CBS_ASN1_SEQUENCE
           [Constr False (CBS_ASN1_OCTETSTRING OR CBS_ASN1_CONSTRUCTED) [Prim CBS_ASN1_OCTETSTRING [65]]]] \<and>
     ber_enc t = [0x30, 9, 0x30, 5, 0x24, 3, 4, 1, 65, 0x30, 0] \<and> has_ber t \<and>
     CBS_asn1_ber_to_der True (\<lambda>_. True) (ber_enc t) = ([], Some (ber_enc t, None)) \<and>
     ber_der t = [0x30, 7, 0x30, 3, 4, 1, 65, 0x30, 0] \<and>
     CBS_asn1_ber_to_der True (\<lambda>_. True) (ber_enc u) = ([], Some (ber_der u, Some (ber_der u)))"
  (is "\<exists>t u. t = ?t \<and> u = ?u \<and> _")
proof -
  have e: "ber_enc ?t = [0x30, 9, 0x30, 5, 0x24, 3, 4, 1, 65, 0x30, 0]"
    "ber_der ?t = [0x30, 7, 0x30, 3, 4, 1, 65, 0x30, 0]" by code_simp+
  have ok: "ber_ok 2048 0 ?t" "ber_ok 2048 0 ?u"
    by (simp_all add: example_tags der_element_def der_length_def ber_item_def)
  have f: "\<not> found_in False [?t]" "found_in False [?u]" "has_ber ?t" by code_simp+
  from ber_to_der_result [OF ok(1) [folded kMaxDepth_def]] ber_to_der_result [OF ok(2) [folded kMaxDepth_def]] e f
  show ?thesis by (intro exI conjI) (simp_all only: if_True if_False)
qed

subsection \<open>Implicitly tagged strings\<close>

lemma implicit_string_loop_writes:
  assumes "\<And>s. s \<in> set chunks \<Longrightarrow> length s < 2 ^ 32" and "chunks \<noteq> []"
  shows "cbb_writes 0 (implicit_string_loop t (concat (map (der_element t) chunks))) (concat chunks)"
proof -
  have "implicit_string_loop t (concat (map (der_element t) chunks)) = cbb_all (map (CBB_add_bytes 0) chunks)"
    using assms(1)
  proof (induction chunks)
    case Nil
    then show ?case by (simp add: implicit_string_loop.simps [abs_def] cbb_done_def fun_eq_iff)
  next
    case (Cons s chunks)
    have "CBS_get_asn1 t (der_element t s @ concat (map (der_element t) chunks)) =
        (concat (map (der_element t) chunks), Some s)"
      using Cons.prems by (intro canonical_codec.dec_enc [OF CBS_get_asn1_canonical]) simp
    then have "implicit_string_loop t (der_element t s @ concat (map (der_element t) chunks)) c =
        cbb_and (CBB_add_bytes 0 s) (implicit_string_loop t (concat (map (der_element t) chunks))) c" for c
      by (subst implicit_string_loop.simps) (auto simp: cbb_and_def split: prod.split bool.split)
    moreover have "implicit_string_loop t (concat (map (der_element t) chunks)) =
        cbb_all (map (CBB_add_bytes 0) chunks)"
      by (rule Cons.IH) (use Cons.prems in simp)
    ultimately show ?case by (simp add: fun_eq_iff)
  qed
  moreover have "cbb_writes 0 (cbb_all (map (CBB_add_bytes 0) chunks)) (concat (map (\<lambda>s. s) chunks))"
    using assms by (intro cbb_writes_map cbb_writes_bytes) fastforce+
  ultimately show ?thesis by simp
qed

lemma peek_element:
  assumes "length body < 2 ^ 32" and "length rest < 2 ^ 63"
  shows "CBS_peek_asn1_tag (der_element t body @ rest) u \<longleftrightarrow> t = u"
proof -
  have "length (der_element t body @ rest) < 2 ^ 64"
    using assms length_der_tag(2) [of t] length_der_length(2) [of "length body"] by (simp add: der_element_def)
  then have "CBS_len (der_element t body @ rest) \<noteq> 0" by (simp only: CBS_len_eq_0_iff) simp
  then have "\<not> CBS_len (der_element t body @ rest) < 1" by (simp add: word_less_1)
  then show ?thesis by (simp add: CBS_peek_asn1_tag_def) (simp add: der_element_def parse_der_tag)
qed

lemmas get_element = canonical_codec.dec_enc [OF CBS_get_asn1_canonical]

text \<open>C36: Implicitly tagged strings: \<open>CBS_get_asn1_implicit_string\<close> returns the contents of the
  primitive form in place, and for the constructed form the concatenation of its chunks in memory of
  its own; the rest of the input is left in both cases.\<close>

theorem implicit_string_concat:
  assumes "outer AND CBS_ASN1_CONSTRUCTED = 0" and "length s < 2 ^ 32"
    and "length (concat (map (der_element inner) chunks)) < 2 ^ 32" and "chunks \<noteq> []"
    and "length rest < 2 ^ 63"
  shows "CBS_get_asn1_implicit_string True (\<lambda>_. True) outer inner (der_element outer s @ rest) =
      (rest, Some (s, None)) \<and>
    CBS_get_asn1_implicit_string True (\<lambda>_. True) outer inner
        (der_element (outer OR CBS_ASN1_CONSTRUCTED) (concat (map (der_element inner) chunks)) @ rest) =
      (rest, Some (concat chunks, Some (concat chunks)))"
proof
  show "CBS_get_asn1_implicit_string True (\<lambda>_. True) outer inner (der_element outer s @ rest) =
      (rest, Some (s, None))"
    using assms(2,5) by (simp add: CBS_get_asn1_implicit_string_def peek_element get_element)
  let ?t = "outer OR CBS_ASN1_CONSTRUCTED" and ?body = "concat (map (der_element inner) chunks)"
  have "?t AND CBS_ASN1_CONSTRUCTED = CBS_ASN1_CONSTRUCTED" by (rule bit_word_eqI) (auto simp: bit_simps)
  then have t: "?t \<noteq> outer" using assms(1) example_tags(10) by metis
  let ?n = "CBS_len (der_element ?t ?body @ rest)"
  obtain c where c: "CBB_init True (\<lambda>_. True) ?n = (c, True)" by (simp add: CBB_init_def cbb_init_def)
  let ?b = "\<lparr>buf = [], cap = ?n, can_resize = True, error = False, alloc_ok = \<lambda>_. True\<rparr>"
  have hc: "cbb_holds c ?b [[]]" "frames c = []"
    using c by (auto simp: CBB_init_def cbb_init_def CBB_zero_def cbb_holds_def cbb_fits_def)
  have le: "length (concat chunks) \<le> length ?body"
    by (induction chunks) (auto simp: der_element_def)
  have w: "cbb_writes 0 (implicit_string_loop inner ?body) (concat chunks)"
  proof (rule implicit_string_loop_writes [OF _ assms(4)])
    fix x assume "x \<in> set chunks"
    then have "length x \<le> length (concat chunks)" by (auto dest!: split_list)
    then show "length x < 2 ^ 32" using le assms(3) by linarith
  qed
  have "\<exists>c1. implicit_string_loop inner ?body c = (c1, True)"
    by (rule cbb_writesD(2) [OF w hc(1), of "[]"])
      (use hc(2) le assms(3) in \<open>auto simp: level_start_def cbb_room_def\<close>)
  then obtain c1 where c1: "implicit_string_loop inner ?body c = (c1, True)" by blast
  from cbb_writesD(1) [OF w hc(1) _ c1] hc(2) obtain b1 where
    "frames c1 = []" "cbb_holds c1 b1 [concat chunks]" by auto
  then have "snd (CBB_finish True c1) = Some (concat chunks)"
    by (auto simp: CBB_finish_def CBB_flush_def cbb_holds_def cbb_fits_def split: if_splits)
  then show "CBS_get_asn1_implicit_string True (\<lambda>_. True) outer inner (der_element ?t ?body @ rest) =
      (rest, Some (concat chunks, Some (concat chunks)))"
    using t c c1 assms(3,5)
    by (auto simp: CBS_get_asn1_implicit_string_def peek_element get_element split: prod.split option.split)
qed

theorem implicit_string_concat_witness:
  "CBS_get_asn1_implicit_string True (\<lambda>_. True) 0x80000000 CBS_ASN1_OCTETSTRING
     [0xA0, 6, 4, 1, 65, 4, 1, 66, 9] = ([9], Some ([65, 66], Some [65, 66]))"
proof -
  have e: "der_element (0x80000000 OR CBS_ASN1_CONSTRUCTED) (concat (map (der_element CBS_ASN1_OCTETSTRING) [[65], [66]])) @ [9] =
      [0xA0, 6, 4, 1, 65, 4, 1, 66, 9]" by code_simp
  have "(0x80000000 :: u32) AND CBS_ASN1_CONSTRUCTED = 0" by code_simp
  from implicit_string_concat [OF this, of "[]" CBS_ASN1_OCTETSTRING "[[65], [66]]" "[9]"] e
  show ?thesis by (simp add: der_element_def der_length_def example_tags)
qed

end
