(* ===== verification/Stack.thy ===== *)
theory Stack
  imports CmpOrder
begin

text \<open>
  Stacks of pointers (\<open>BoringSSL-GRPC/src/crypto/stack/stack.c\<close>), the containers of BoringSSL.

  A pointer is an \<open>option\<close>, \<open>None\<close> is \<open>NULL\<close>; so is a pointer to a stack.  \<open>data\<close>
  are the \<open>num\<close> valid entries; what lies behind them up to \<open>num_alloc\<close> is not part of the
  model.  A comparison function is an identifier that the callback \<open>call_cmp_func\<close> calls;
  \<open>alloc n\<close> says whether \<open>n\<close> bytes can be allocated.  The functions called on the elements
  are returned as the list of calls, in order.
\<close>

record ('p, 'f) stack =
  data :: "'p option list"
  is_sorted :: bool
  num_alloc :: u64
  comp :: "'f option"

type_synonym ('p, 'f) cmp_caller = "'f \<Rightarrow> 'p option \<Rightarrow> 'p option \<Rightarrow> int"

definition stack_num :: "('p, 'f) stack \<Rightarrow> u64" where
  "stack_num sk = of_nat (length (data sk))"

definition kMinSize :: u64 where
  "kMinSize = 4"

subsection \<open>Creating, reading and emptying\<close>

definition sk_new :: "(u64 \<Rightarrow> bool) \<Rightarrow> bool \<Rightarrow> 'f option \<Rightarrow> ('p, 'f) stack option" where
  "sk_new alloc malloc_ok f =
     (if \<not> malloc_ok then None
      else if \<not> alloc (8 * kMinSize) then None
      else Some \<lparr>data = [], is_sorted = False, num_alloc = kMinSize, comp = f\<rparr>)"

definition sk_new_null :: "(u64 \<Rightarrow> bool) \<Rightarrow> bool \<Rightarrow> ('p, 'f) stack option" where
  "sk_new_null alloc malloc_ok = sk_new alloc malloc_ok None"

definition sk_num :: "('p, 'f) stack option \<Rightarrow> u64" where
  "sk_num sk = (case sk of None \<Rightarrow> 0 | Some s \<Rightarrow> stack_num s)"

definition sk_zero :: "('p, 'f) stack option \<Rightarrow> ('p, 'f) stack option" where
  "sk_zero sk =
     (case sk of
        None \<Rightarrow> None
      | Some s \<Rightarrow> if stack_num s = 0 then Some s else Some (s\<lparr>data := [], is_sorted := False\<rparr>))"

definition sk_value :: "('p, 'f) stack option \<Rightarrow> u64 \<Rightarrow> 'p option" where
  "sk_value sk i =
     (case sk of None \<Rightarrow> None | Some s \<Rightarrow> if stack_num s \<le> i then None else data s ! unat i)"

definition sk_set :: "('p, 'f) stack option \<Rightarrow> u64 \<Rightarrow> 'p option \<Rightarrow> ('p, 'f) stack option \<times> 'p option" where
  "sk_set sk i value =
     (case sk of
        None \<Rightarrow> (None, None)
      | Some s \<Rightarrow>
          if stack_num s \<le> i then (Some s, None)
          else (Some (s\<lparr>data := (data s)[unat i := value]\<rparr>), value))"

text \<open>The pointers \<open>free_func\<close> is called on, in order; the stack itself is gone.\<close>

definition sk_pop_free_ex :: "('p, 'f) stack option \<Rightarrow> 'p list" where
  "sk_pop_free_ex sk =
     (case sk of None \<Rightarrow> [] | Some s \<Rightarrow> map the (filter (\<lambda>p. p \<noteq> None) (data s)))"

definition sk_pop_free :: "('p, 'f) stack option \<Rightarrow> 'p list" where
  "sk_pop_free sk = sk_pop_free_ex sk"

subsection \<open>Inserting and deleting\<close>

text \<open>The new allocation of \<open>sk_insert\<close>: twice the old one, or one more when that overflows.\<close>

definition sk_grow :: "(u64 \<Rightarrow> bool) \<Rightarrow> ('p, 'f) stack \<Rightarrow> ('p, 'f) stack option" where
  "sk_grow alloc s =
     (let new_alloc = push_bit 1 (num_alloc s);
          alloc_size = new_alloc * 8;
          (new_alloc', alloc_size') =
            (if new_alloc < num_alloc s \<or> alloc_size div 8 \<noteq> new_alloc
             then (num_alloc s + 1, (num_alloc s + 1) * 8) else (new_alloc, alloc_size))
      in if new_alloc' < num_alloc s \<or> alloc_size' div 8 \<noteq> new_alloc' then None
         else if \<not> alloc alloc_size' then None
         else Some (s\<lparr>num_alloc := new_alloc'\<rparr>))"

definition sk_insert ::
  "(u64 \<Rightarrow> bool) \<Rightarrow> ('p, 'f) stack option \<Rightarrow> 'p option \<Rightarrow> u64 \<Rightarrow> ('p, 'f) stack option \<times> u64" where
  "sk_insert alloc sk p where =
     (case sk of
        None \<Rightarrow> (None, 0)
      | Some s \<Rightarrow>
          (case (if num_alloc s \<le> stack_num s + 1 then sk_grow alloc s else Some s) of
             None \<Rightarrow> (Some s, 0)
           | Some s' \<Rightarrow>
               let entries = (if stack_num s' \<le> where then data s' @ [p]
                              else take (unat where) (data s') @ p # drop (unat where) (data s'));
                   s'' = s'\<lparr>data := entries, is_sorted := False\<rparr>
               in (Some s'', stack_num s'')))"

definition sk_delete :: "('p, 'f) stack option \<Rightarrow> u64 \<Rightarrow> ('p, 'f) stack option \<times> 'p option" where
  "sk_delete sk where =
     (case sk of
        None \<Rightarrow> (None, None)
      | Some s \<Rightarrow>
          if stack_num s \<le> where then (Some s, None)
          else (Some (s\<lparr>data := take (unat where) (data s) @ drop (Suc (unat where)) (data s)\<rparr>),
                data s ! unat where))"

text \<open>The loops over the entries: the index of the first that \<open>P\<close> holds of.\<close>

fun first_index :: "('a \<Rightarrow> bool) \<Rightarrow> u64 \<Rightarrow> 'a list \<Rightarrow> u64 option" where
  "first_index P i [] = None"
| "first_index P i (x # xs) = (if P x then Some i else first_index P (i + 1) xs)"

definition sk_delete_ptr :: "('p, 'f) stack option \<Rightarrow> 'p option \<Rightarrow> ('p, 'f) stack option \<times> 'p option" where
  "sk_delete_ptr sk p =
     (case sk of
        None \<Rightarrow> (None, None)
      | Some s \<Rightarrow>
          (case first_index (\<lambda>x. x = p) 0 (data s) of
             None \<Rightarrow> (Some s, None)
           | Some i \<Rightarrow> sk_delete (Some s) i))"

definition sk_shift :: "('p, 'f) stack option \<Rightarrow> ('p, 'f) stack option \<times> 'p option" where
  "sk_shift sk =
     (case sk of
        None \<Rightarrow> (None, None)
      | Some s \<Rightarrow> if stack_num s = 0 then (Some s, None) else sk_delete (Some s) 0)"

definition sk_push :: "(u64 \<Rightarrow> bool) \<Rightarrow> ('p, 'f) stack option \<Rightarrow> 'p option \<Rightarrow> ('p, 'f) stack option \<times> u64" where
  "sk_push alloc sk p = sk_insert alloc sk p (sk_num sk)"

definition sk_pop :: "('p, 'f) stack option \<Rightarrow> ('p, 'f) stack option \<times> 'p option" where
  "sk_pop sk =
     (case sk of
        None \<Rightarrow> (None, None)
      | Some s \<Rightarrow> if stack_num s = 0 then (Some s, None) else sk_delete (Some s) (stack_num s - 1))"

subsection \<open>Finding\<close>

text \<open>
  The binary search: \<open>r x\<close> is the comparison of the key with an entry.  The range is halved
  until one entry is left, so that the earliest match is found.
\<close>

definition bsearch_mid :: "u64 \<Rightarrow> u64 \<Rightarrow> u64" where
  "bsearch_mid lo hi = lo + (hi - lo - 1) div 2"

lemma unat_bsearch_mid:
  assumes "lo < hi"
  shows "unat (bsearch_mid lo hi) = unat lo + (unat hi - unat lo - 1) div 2"
proof -
  have l: "unat lo < unat hi" using assms by (simp add: word_less_nat_alt)
  then have "unat (hi - lo) = unat hi - unat lo" by (simp add: unat_sub_if')
  then have d: "unat ((hi - lo - 1) div 2) = (unat hi - unat lo - 1) div 2"
    using l by (simp add: unat_div unat_sub_if')
  show ?thesis
    using l unat_word64_lt [of hi] unfolding bsearch_mid_def
    by (subst unat_plus_if') (auto simp: d)
qed

lemma unat_mid_Suc:
  "lo < hi \<Longrightarrow> unat (bsearch_mid lo hi + 1) = unat (bsearch_mid lo hi) + 1"
  using unat_bsearch_mid [of lo hi] unat_word64_lt [of hi]
  by (simp add: unat_plus_if' word_less_nat_alt)

lemma bsearch_mid_bounds:
  assumes "lo < hi"
  shows "unat lo \<le> unat (bsearch_mid lo hi)" "unat (bsearch_mid lo hi) < unat hi"
    "hi - lo \<noteq> 1 \<Longrightarrow> unat (bsearch_mid lo hi) + 1 < unat hi"
    "hi - lo = 1 \<Longrightarrow> unat hi = unat lo + 1"
proof -
  have l: "unat lo < unat hi" using assms by (simp add: word_less_nat_alt)
  have d: "unat (hi - lo) = unat hi - unat lo" using l by (simp add: unat_sub_if')
  show "unat lo \<le> unat (bsearch_mid lo hi)" "unat (bsearch_mid lo hi) < unat hi"
    using unat_bsearch_mid [OF assms] l by linarith+
  have "hi - lo \<noteq> 1 \<Longrightarrow> unat (hi - lo) \<noteq> 1" by (auto simp: word_unat_eq_iff)
  then show "hi - lo \<noteq> 1 \<Longrightarrow> unat (bsearch_mid lo hi) + 1 < unat hi"
    using d unat_bsearch_mid [OF assms] l by linarith
  show "unat hi = unat lo + 1" if "hi - lo = 1"
  proof -
    have "unat (hi - lo) = 1" unfolding that by simp
    then show ?thesis using d l by linarith
  qed
qed

function sk_bsearch :: "('a \<Rightarrow> int) \<Rightarrow> 'a list \<Rightarrow> u64 \<Rightarrow> u64 \<Rightarrow> u64 option" where
  "sk_bsearch r xs lo hi =
     (if lo < hi then
        let mid = bsearch_mid lo hi; c = r (xs ! unat mid)
        in if 0 < c then sk_bsearch r xs (mid + 1) hi
           else if c < 0 then sk_bsearch r xs lo mid
           else if hi - lo = 1 then Some mid
           else sk_bsearch r xs lo (mid + 1)
      else None)"
  by pat_completeness auto
termination
proof (relation "measure (\<lambda>(_, _, lo, hi). unat hi - unat lo)", simp_all only: wf_measure, goal_cases)
  case (1 r xs lo hi mid c)
  then show ?case using bsearch_mid_bounds [of lo hi] unat_mid_Suc [of lo hi] by simp
next
  case (2 r xs lo hi mid c)
  then show ?case using bsearch_mid_bounds [of lo hi] by simp
next
  case (3 r xs lo hi mid c)
  then show ?case using bsearch_mid_bounds [of lo hi] unat_mid_Suc [of lo hi] by simp
qed

declare sk_bsearch.simps [simp del]

definition sk_find :: "('p, 'f) cmp_caller \<Rightarrow> ('p, 'f) stack option \<Rightarrow> 'p option \<Rightarrow> u64 option" where
  "sk_find call_cmp_func sk p =
     (case sk of
        None \<Rightarrow> None
      | Some s \<Rightarrow>
          (case comp s of
             None \<Rightarrow> first_index (\<lambda>x. x = p) 0 (data s)
           | Some f \<Rightarrow>
               if p = None then None
               else if \<not> is_sorted s then first_index (\<lambda>x. call_cmp_func f p x = 0) 0 (data s)
               else sk_bsearch (call_cmp_func f p) (data s) 0 (stack_num s)))"

subsection \<open>Sorting and copying\<close>

text \<open>\<open>qsort_func\<close> is the sorting function of the C library.\<close>

definition sk_sort ::
  "(('p option \<Rightarrow> 'p option \<Rightarrow> int) \<Rightarrow> 'p option list \<Rightarrow> 'p option list) \<Rightarrow>
     ('p, 'f) cmp_caller \<Rightarrow> ('p, 'f) stack option \<Rightarrow> ('p, 'f) stack option" where
  "sk_sort qsort_func call_cmp_func sk =
     (case sk of
        None \<Rightarrow> None
      | Some s \<Rightarrow>
          (case comp s of
             None \<Rightarrow> Some s
           | Some f \<Rightarrow>
               if is_sorted s then Some s
               else let entries = (if 2 \<le> stack_num s then qsort_func (call_cmp_func f) (data s)
                                   else data s)
                    in Some (s\<lparr>data := entries, is_sorted := True\<rparr>)))"

definition sk_is_sorted :: "('p, 'f) stack option \<Rightarrow> bool" where
  "sk_is_sorted sk = (case sk of None \<Rightarrow> True | Some s \<Rightarrow> is_sorted s)"

definition sk_set_cmp_func :: "('p, 'f) stack \<Rightarrow> 'f option \<Rightarrow> ('p, 'f) stack \<times> 'f option" where
  "sk_set_cmp_func s f =
     (let s' = (if comp s \<noteq> f then s\<lparr>is_sorted := False\<rparr> else s) in (s'\<lparr>comp := f\<rparr>, comp s))"

definition sk_dup :: "(u64 \<Rightarrow> bool) \<Rightarrow> bool \<Rightarrow> ('p, 'f) stack option \<Rightarrow> ('p, 'f) stack option" where
  "sk_dup alloc malloc_ok sk =
     (case sk of
        None \<Rightarrow> None
      | Some s \<Rightarrow>
          (case sk_new alloc malloc_ok (comp s) of
             None \<Rightarrow> None
           | Some ret \<Rightarrow>
               if \<not> alloc (8 * num_alloc s) then None
               else Some (ret\<lparr>data := data s, is_sorted := is_sorted s, num_alloc := num_alloc s,
                              comp := comp s\<rparr>)))"

text \<open>
  The loop of \<open>sk_deep_copy\<close>: the entries copied so far and those still to copy; when a copy
  fails, the copies already made are freed.
\<close>

fun deep_copy_loop :: "('p \<Rightarrow> 'p option) \<Rightarrow> 'p option list \<Rightarrow> 'p option list \<Rightarrow> 'p option list option \<times> 'p list" where
  "deep_copy_loop copy done [] = (Some done, [])"
| "deep_copy_loop copy done (None # rest) = deep_copy_loop copy (done @ [None]) rest"
| "deep_copy_loop copy done (Some p # rest) =
     (case copy p of
        None \<Rightarrow> (None, map the (filter (\<lambda>q. q \<noteq> None) done))
      | Some q \<Rightarrow> deep_copy_loop copy (done @ [Some q]) rest)"

definition sk_deep_copy ::
  "(u64 \<Rightarrow> bool) \<Rightarrow> bool \<Rightarrow> ('p \<Rightarrow> 'p option) \<Rightarrow> ('p, 'f) stack option \<Rightarrow> ('p, 'f) stack option \<times> 'p list" where
  "sk_deep_copy alloc malloc_ok copy sk =
     (case sk_dup alloc malloc_ok sk of
        None \<Rightarrow> (None, [])
      | Some ret \<Rightarrow>
          (case deep_copy_loop copy [] (data ret) of
             (None, freed) \<Rightarrow> (None, freed)
           | (Some entries, _) \<Rightarrow> (Some (ret\<lparr>data := entries\<rparr>), [])))"

end
