(* ===== verification/StackProps.thy ===== *)
theory StackProps
  imports Stack
begin

text \<open>
  The stacks as lists: the linear searches, the binary search, the invariant of reachable stacks
  (for any calls, and with the order of stacks marked as sorted where \<open>sk_set\<close> and
  \<open>sk_deep_copy\<close> are used with care), and the operations on lists they implement.
\<close>

subsection \<open>Searching\<close>

lemma first_index_from:
  "unat i + length xs < 2 ^ 64 \<Longrightarrow>
     first_index P i xs =
       (if \<exists>x \<in> set xs. P x then Some (i + of_nat (length (takeWhile (\<lambda>x. \<not> P x) xs))) else None)"
proof (induction xs arbitrary: i)
  case (Cons x xs)
  then have "unat (i + 1) = unat i + 1" by (simp add: unat_plus_if')
  with Cons.IH [of "i + 1"] Cons.prems show ?case by (auto simp: add.commute add.left_commute)
qed simp

text \<open>The index is that of the first entry with the property.\<close>

lemma first_index_Some_iff:
  assumes "length xs < 2 ^ 64"
  shows "first_index P 0 xs = Some k \<longleftrightarrow>
    unat k < length xs \<and> P (xs ! unat k) \<and> (\<forall>j < unat k. \<not> P (xs ! j))"
proof -
  let ?n = "length (takeWhile (\<lambda>x. \<not> P x) xs)"
  have le: "?n \<le> length xs" by (rule length_takeWhile_le)
  then have u: "unat (of_nat ?n :: u64) = ?n" using assms by (simp add: unat_of_nat)
  have before: "j < ?n \<Longrightarrow> \<not> P (xs ! j)" for j
    using nth_mem [of j "takeWhile (\<lambda>x. \<not> P x) xs"] takeWhile_nth [of j "\<lambda>x. \<not> P x" xs]
    by (auto dest: set_takeWhileD)
  have at: "?n < length xs \<Longrightarrow> P (xs ! ?n)" using nth_length_takeWhile by fastforce
  have found: "(\<exists>x \<in> set xs. P x) \<longleftrightarrow> ?n < length xs"
    using before at by (metis in_set_conv_nth le le_less nth_mem)
  show ?thesis
  proof (cases "?n < length xs")
    case True
    then have "first_index P 0 xs = Some (of_nat ?n)" using first_index_from [of 0 xs P] assms found by simp
    moreover have "k = of_nat ?n \<longleftrightarrow> unat k < length xs \<and> P (xs ! unat k) \<and> (\<forall>j < unat k. \<not> P (xs ! j))"
      using u before at True by (metis linorder_neqE_nat word_unat_eq_iff)
    ultimately show ?thesis by auto
  next
    case False
    then have "first_index P 0 xs = None" using first_index_from [of 0 xs P] assms found by simp
    moreover have "\<not> P (xs ! j)" if "j < length xs" for j using found False that nth_mem by blast
    ultimately show ?thesis by auto
  qed
qed

lemma first_index_None_iff:
  "length xs < 2 ^ 64 \<Longrightarrow> first_index P 0 xs = None \<longleftrightarrow> (\<forall>x \<in> set xs. \<not> P x)"
  using first_index_from [of 0 xs P] by auto

text \<open>
  The binary search, in a list sorted by the comparison: everything below the range is smaller than
  the key, nothing from its end on is greater, and a match, if there is one, begins in the range.
\<close>

context cmp_order
begin

lemma sorted_le: "cmp_sorted cmp xs \<Longrightarrow> i < j \<Longrightarrow> j < length xs \<Longrightarrow> cmp (xs ! i) (xs ! j) \<le> 0"
  by (auto simp: cmp_sorted_def sorted_wrt_iff_nth_less)

lemma bsearch_first:
  "cmp_sorted cmp xs \<Longrightarrow> length xs < 2 ^ 64 \<Longrightarrow> unat hi \<le> length xs \<Longrightarrow>
    \<forall>j < unat lo. 0 < cmp p (xs ! j) \<Longrightarrow>
    (\<exists>x \<in> set xs. cmp p x = 0) \<longrightarrow> (\<exists>i < unat hi. cmp p (xs ! i) = 0) \<Longrightarrow>
    sk_bsearch (cmp p) xs lo hi = first_index (\<lambda>x. cmp p x = 0) 0 xs"
proof (induction "cmp p" xs lo hi rule: sk_bsearch.induct)
  case (1 xs lo hi)
  note sorted = "1.prems"(1) and len = "1.prems"(2) and hi = "1.prems"(3) and below = "1.prems"(4)
    and inside = "1.prems"(5)
  show ?case
  proof (cases "lo < hi")
    case False
    then have "unat hi \<le> unat lo" by (simp add: word_less_nat_alt)
    then have "\<not> (\<exists>i < unat hi. cmp p (xs ! i) = 0)"
      using below by (metis less_irrefl order.strict_trans2)
    then have "first_index (\<lambda>x. cmp p x = 0) 0 xs = None"
      using inside first_index_None_iff [OF len, of "\<lambda>x. cmp p x = 0"] by blast
    then show ?thesis using False by (simp add: sk_bsearch.simps)
  next
    case True
    let ?mid = "bsearch_mid lo hi"
    note b = bsearch_mid_bounds [OF True] unat_mid_Suc [OF True]
    have mid: "unat ?mid < length xs" using b(2) hi by linarith
    note step = sk_bsearch.simps [of "cmp p" xs lo hi]
    consider "0 < cmp p (xs ! unat ?mid)" | "cmp p (xs ! unat ?mid) < 0"
      | "cmp p (xs ! unat ?mid) = 0" "hi - lo = 1" | "cmp p (xs ! unat ?mid) = 0" "hi - lo \<noteq> 1" by linarith
    then show ?thesis
    proof cases
      case 1
      have "0 < cmp p (xs ! j)" if "j < unat (?mid + 1)" for j
        using that b(5) 1 cmp_greater_trans [OF sorted_le [OF sorted, of j "unat ?mid"] 1] mid
        by (cases "j = unat ?mid") auto
      then show ?thesis
        using "1.hyps"(1) [OF True refl refl 1 sorted len hi _ inside] True 1 by (simp add: step Let_def)
    next
      case 2
      have "\<exists>i < unat ?mid. cmp p (xs ! i) = 0" if ex: "\<exists>x \<in> set xs. cmp p x = 0"
      proof -
        obtain i where i: "i < unat hi" "cmp p (xs ! i) = 0" using inside ex by blast
        have "\<not> unat ?mid < i" using cmp_less_trans [OF 2 sorted_le [OF sorted, of "unat ?mid" i]] i hi by auto
        then show ?thesis using i 2 by (metis less_irrefl linorder_neqE_nat)
      qed
      then show ?thesis
        using "1.hyps"(2) [OF True refl refl _ 2 sorted len _ below] True 2 mid by (simp add: step Let_def)
    next
      case 3
      have "unat ?mid = unat lo" using b(1,2,4) 3 by linarith
      then have "\<forall>j < unat ?mid. cmp p (xs ! j) \<noteq> 0" using below by (metis less_irrefl)
      then have "first_index (\<lambda>x. cmp p x = 0) 0 xs = Some ?mid"
        using first_index_Some_iff [OF len, of "\<lambda>x. cmp p x = 0" ?mid] mid 3 by blast
      then show ?thesis using True 3 by (simp add: step Let_def)
    next
      case 4
      have "\<exists>i < unat (?mid + 1). cmp p (xs ! i) = 0" using b(5) 4 by (metis less_add_one)
      moreover have "unat (?mid + 1) \<le> length xs" using b(3,5) hi 4 by simp
      ultimately show ?thesis
        using "1.hyps"(3) [OF True refl refl _ _ _ sorted len _ below] True 4 by (simp add: step Let_def)
    qed
  qed
qed

end

subsection \<open>The invariant\<close>

text \<open>There is room for the entries, the allocation is not empty and its size in bytes does not
  overflow, and a stack marked as sorted is sorted.\<close>

definition sk_inv :: "('p, 'f) cmp_caller \<Rightarrow> ('p, 'f) stack \<Rightarrow> bool" where
  "sk_inv call s \<longleftrightarrow>
     0 < unat (num_alloc s) \<and> unat (num_alloc s) * 8 < 2 ^ 64 \<and> length (data s) \<le> unat (num_alloc s) \<and>
     (is_sorted s \<longrightarrow> (\<forall>f. comp s = Some f \<longrightarrow> cmp_sorted (call f) (data s)))"

lemma sk_inv_length: "sk_inv call s \<Longrightarrow> length (data s) < 2 ^ 61"
  by (simp add: sk_inv_def)

lemma unat_stack_num: "sk_inv call s \<Longrightarrow> unat (stack_num s) = length (data s)"
  using sk_inv_length [of call s] by (simp add: stack_num_def unat_of_nat)

subsection \<open>Steps\<close>

text \<open>The entries of a deep copy, and the copy functions that keep the order of what they copy.\<close>

definition copied :: "('p \<Rightarrow> 'p option) \<Rightarrow> 'p option \<Rightarrow> 'p option" where
  "copied copy x = (case x of None \<Rightarrow> None | Some p \<Rightarrow> copy p)"

definition copy_keeps_order :: "('p, 'f) cmp_caller \<Rightarrow> ('p \<Rightarrow> 'p option) \<Rightarrow> bool" where
  "copy_keeps_order call copy \<longleftrightarrow>
     (\<forall>f x y. (copied copy x = None \<longrightarrow> x = None) \<longrightarrow> (copied copy y = None \<longrightarrow> y = None) \<longrightarrow>
        call f x y \<le> 0 \<longrightarrow> call f (copied copy x) (copied copy y) \<le> 0)"

text \<open>
  \<open>sk_step call qs care s s'\<close>: one call of an operation that makes or changes a stack, with any
  arguments, any answer of the allocator and any result.  \<open>sk_set\<close> and \<open>sk_deep_copy\<close> replace
  entries and leave the mark of a sorted stack as it is.  With \<open>care\<close> they are called only where
  that does no harm: \<open>sk_set\<close> on stacks that are not marked, \<open>sk_deep_copy\<close> with a function
  that keeps the order.  Without it they are called on anything.
\<close>

inductive sk_step ::
  "('p, 'f) cmp_caller \<Rightarrow> (('p option \<Rightarrow> 'p option \<Rightarrow> int) \<Rightarrow> 'p option list \<Rightarrow> 'p option list) \<Rightarrow> bool \<Rightarrow>
     ('p, 'f) stack \<Rightarrow> ('p, 'f) stack \<Rightarrow> bool" for call qs care where
  zero: "sk_zero (Some s) = Some s' \<Longrightarrow> sk_step call qs care s s'"
| set: "sk_set (Some s) i p = (Some s', r) \<Longrightarrow> (care \<Longrightarrow> \<not> is_sorted s) \<Longrightarrow> sk_step call qs care s s'"
| insert: "sk_insert alloc (Some s) p i = (Some s', n) \<Longrightarrow> sk_step call qs care s s'"
| push: "sk_push alloc (Some s) p = (Some s', n) \<Longrightarrow> sk_step call qs care s s'"
| delete: "sk_delete (Some s) i = (Some s', r) \<Longrightarrow> sk_step call qs care s s'"
| delete_ptr: "sk_delete_ptr (Some s) p = (Some s', r) \<Longrightarrow> sk_step call qs care s s'"
| shift: "sk_shift (Some s) = (Some s', r) \<Longrightarrow> sk_step call qs care s s'"
| pop: "sk_pop (Some s) = (Some s', r) \<Longrightarrow> sk_step call qs care s s'"
| sort: "sk_sort qs call (Some s) = Some s' \<Longrightarrow> sk_step call qs care s s'"
| set_cmp_func: "sk_set_cmp_func s f = (s', old) \<Longrightarrow> sk_step call qs care s s'"
| dup: "sk_dup alloc mok (Some s) = Some s' \<Longrightarrow> sk_step call qs care s s'"
| deep_copy: "sk_deep_copy alloc mok copy (Some s) = (Some s', freed) \<Longrightarrow>
    (care \<Longrightarrow> copy_keeps_order call copy) \<Longrightarrow> sk_step call qs care s s'"

inductive sk_reach ::
  "('p, 'f) cmp_caller \<Rightarrow> (('p option \<Rightarrow> 'p option \<Rightarrow> int) \<Rightarrow> 'p option list \<Rightarrow> 'p option list) \<Rightarrow> bool \<Rightarrow>
     ('p, 'f) stack \<Rightarrow> bool" for call qs care where
  new: "sk_new alloc mok f = Some s \<Longrightarrow> sk_reach call qs care s"
| step: "sk_reach call qs care s \<Longrightarrow> sk_step call qs care s s' \<Longrightarrow> sk_reach call qs care s'"

lemma new_inv: "sk_new alloc mok f = Some s \<Longrightarrow> sk_inv call s"
  by (auto simp: sk_new_def sk_inv_def kMinSize_def split: if_splits)

lemma zero_inv: "sk_zero (Some s) = Some s' \<Longrightarrow> sk_inv call s \<Longrightarrow> sk_inv call s'"
  by (auto simp: sk_zero_def sk_inv_def split: if_splits)

text \<open>The allocation grows, and by at least one entry.\<close>

lemma times_8_no_overflow: "(n * 8 mod 2 ^ 64) div 8 = n \<Longrightarrow> n * 8 < (2 :: nat) ^ 64"
proof -
  assume "(n * 8 mod 2 ^ 64) div 8 = n"
  moreover have "n * 8 mod 2 ^ 64 < 2 ^ 61 * (8 :: nat)" by simp
  then have "(n * 8 mod 2 ^ 64) div 8 < 2 ^ 61" by (rule less_mult_imp_div_less)
  ultimately have "n < 2 ^ 61" by metis
  then show ?thesis by simp
qed

lemma double_no_overflow:
  fixes v :: u64
  assumes "\<not> push_bit 1 v < v" and "push_bit 1 v * 8 div 8 = push_bit 1 v"
  shows "unat (push_bit 1 v) = 2 * unat v \<and> unat (push_bit 1 v) * 8 < 2 ^ 64"
proof -
  have d: "push_bit 1 v = v + v" by (simp add: push_bit_eq_mult)
  have a: "unat (v + v) = 2 * unat v"
  proof -
    have "unat (v + v) = (if unat v + unat v < 2 ^ 64 then unat v + unat v else unat v + unat v - 2 ^ 64)"
      by (subst unat_plus_if') simp
    then show ?thesis
      using assms(1) unat_word64_lt [of v] unfolding d word_less_nat_alt by (auto split: if_splits)
  qed
  have "unat (push_bit 1 v * 8 div 8) = unat (push_bit 1 v)" using assms(2) by simp
  then have "(unat (push_bit 1 v) * 8 mod 2 ^ 64) div 8 = unat (push_bit 1 v)"
    by (simp add: unat_div unat_word_ariths)
  then have "unat (push_bit 1 v) * 8 < 2 ^ 64" by (rule times_8_no_overflow)
  then show ?thesis using a unfolding d by simp
qed

lemma grow_inv:
  assumes "sk_grow alloc s = Some s'" and "sk_inv call s"
  shows "data s' = data s \<and> comp s' = comp s \<and> is_sorted s' = is_sorted s \<and>
    unat (num_alloc s) < unat (num_alloc s') \<and> unat (num_alloc s') * 8 < 2 ^ 64"
proof -
  let ?v = "num_alloc s"
  have v: "0 < unat ?v" "unat ?v * 8 < 2 ^ 64" using assms(2) by (auto simp: sk_inv_def)
  have inc: "unat (?v + 1) = unat ?v + 1" using v(2) by (subst unat_plus_if') simp
  show ?thesis
  proof (cases "push_bit 1 ?v < ?v \<or> push_bit 1 ?v * 8 div 8 \<noteq> push_bit 1 ?v")
    case True
    then have a: "s' = s\<lparr>num_alloc := ?v + 1\<rparr>" "(?v + 1) * 8 div 8 = ?v + 1"
      using assms(1) by (auto simp: sk_grow_def Let_def split: if_splits)
    have "unat ((?v + 1) * 8 div 8) = unat (?v + 1)" using a(2) by simp
    then have "(unat (?v + 1) * 8 mod 2 ^ 64) div 8 = unat (?v + 1)"
      by (simp add: unat_div unat_word_ariths)
    from times_8_no_overflow [OF this] show ?thesis using a(1) inc by simp
  next
    case False
    then have "s' = s\<lparr>num_alloc := push_bit 1 ?v\<rparr>"
      using assms(1) by (auto simp: sk_grow_def Let_def split: if_splits)
    then show ?thesis using double_no_overflow [of ?v] False v(1) by simp
  qed
qed

text \<open>What \<open>sk_insert\<close> does: it grows when only one entry is left.\<close>

lemma insert_inv:
  assumes r: "sk_insert alloc (Some s) p i = (Some s', n)" and inv: "sk_inv call s"
  shows "sk_inv call s' \<and>
    (if n = 0 then s' = s
     else data s' = take (unat i) (data s) @ p # drop (unat i) (data s) \<and> n = of_nat (Suc (length (data s))))"
proof -
  have num: "unat (stack_num s) = length (data s)" by (rule unat_stack_num [OF inv])
  have len: "length (data s) < 2 ^ 61" by (rule sk_inv_length [OF inv])
  have suc: "unat (stack_num s + 1) = length (data s) + 1"
    using num len by (subst unat_plus_if') simp
  let ?g = "if num_alloc s \<le> stack_num s + 1 then sk_grow alloc s else Some s"
  show ?thesis
  proof (cases ?g)
    case None
    then have "s' = s" "n = 0" using r by (simp_all add: sk_insert_def)
    then show ?thesis using inv by simp
  next
    case (Some t)
    have t: "data t = data s" "comp t = comp s" "length (data s) + 1 \<le> unat (num_alloc t)"
      "unat (num_alloc t) * 8 < 2 ^ 64"
    proof -
      have "length (data s) \<le> unat (num_alloc s)" "unat (num_alloc s) * 8 < 2 ^ 64"
        using inv by (simp_all add: sk_inv_def)
      then show "data t = data s" "comp t = comp s" "length (data s) + 1 \<le> unat (num_alloc t)"
        "unat (num_alloc t) * 8 < 2 ^ 64"
        using Some grow_inv [OF _ inv, of alloc t] suc by (auto simp: word_le_nat_alt split: if_splits)
    qed
    let ?e = "take (unat i) (data s) @ p # drop (unat i) (data s)"
    have e: "(if stack_num t \<le> i then data t @ [p]
        else take (unat i) (data t) @ p # drop (unat i) (data t)) = ?e"
      using t(1) num by (auto simp: stack_num_def word_le_nat_alt)
    have le: "length ?e = Suc (length (data s))" by simp
    have s': "s' = t\<lparr>data := ?e, is_sorted := False\<rparr>" "n = of_nat (Suc (length (data s)))"
      using r Some e le by (simp_all add: sk_insert_def Let_def stack_num_def del: of_nat_Suc)
    have "unat n = Suc (length (data s))" using s'(2) len by (simp add: unat_of_nat del: of_nat_Suc)
    then have "n \<noteq> 0" by auto
    then show ?thesis using s' t by (simp add: sk_inv_def del: of_nat_Suc)
  qed
qed

lemma delete_inv:
  assumes "sk_delete (Some s) i = (Some s', r)" and "sk_inv call s"
  shows "sk_inv call s'"
proof (cases "stack_num s \<le> i")
  case False
  then have i: "unat i < length (data s)" using unat_stack_num [OF assms(2)] by (simp add: word_le_nat_alt)
  have s': "s' = s\<lparr>data := take (unat i) (data s) @ drop (Suc (unat i)) (data s)\<rparr>"
    using assms(1) False by (simp add: sk_delete_def)
  have "cmp_sorted c (data s) \<Longrightarrow> cmp_sorted c (take (unat i) (data s) @ drop (Suc (unat i)) (data s))" for c
    using id_take_nth_drop [OF i] unfolding cmp_sorted_def
    by (metis (no_types, lifting) sorted_wrt_append sorted_wrt.simps(2) list.set_intros(2))
  then show ?thesis using assms(2) s' i by (auto simp: sk_inv_def)
qed (use assms in \<open>simp add: sk_delete_def\<close>)

text \<open>A sorting function that does its work for every comparison the stacks use.\<close>

definition sorts_all ::
  "('p, 'f) cmp_caller \<Rightarrow> (('p option \<Rightarrow> 'p option \<Rightarrow> int) \<Rightarrow> 'p option list \<Rightarrow> 'p option list) \<Rightarrow> bool" where
  "sorts_all call qs \<longleftrightarrow> (\<forall>f. sorter (call f) (qs (call f)))"

lemma sort_inv:
  assumes "sk_sort qs call (Some s) = Some s'" and "sk_inv call s" and "sorts_all call qs"
  shows "sk_inv call s' \<and> mset (data s') = mset (data s)"
proof (cases "comp s")
  case (Some f)
  have "sorter (call f) (qs (call f))" using assms(3) by (simp add: sorts_all_def)
  note q = sorter.length_sort_by [OF this] sorter.sort_by_sorted [OF this] sorter.sort_by_perm [OF this]
  have short: "cmp_sorted (call f) (data s)" if "\<not> 2 \<le> stack_num s"
  proof -
    have "length (data s) < 2" using that unat_stack_num [OF assms(2)] by (simp add: word_le_nat_alt)
    then show ?thesis by (cases "data s") (auto simp: cmp_sorted_def)
  qed
  show ?thesis using assms(1,2) Some q short
    by (auto simp: sk_sort_def sk_inv_def Let_def split: if_splits)
qed (use assms in \<open>simp add: sk_sort_def\<close>)

lemma set_cmp_func_inv: "sk_set_cmp_func s f = (s', old) \<Longrightarrow> sk_inv call s \<Longrightarrow> sk_inv call s'"
  by (auto simp: sk_set_cmp_func_def sk_inv_def Let_def split: if_splits)

lemma dup_inv: "sk_dup alloc mok (Some s) = Some s' \<Longrightarrow> sk_inv call s \<Longrightarrow> sk_inv call s'"
  by (auto simp: sk_dup_def sk_inv_def split: option.splits if_splits)

text \<open>\<open>sk_set\<close> and \<open>sk_deep_copy\<close> keep the invariant where they keep the order.\<close>

lemma set_inv:
  "sk_set (Some s) i p = (Some s', r) \<Longrightarrow> sk_inv call s \<Longrightarrow>
   (is_sorted s \<Longrightarrow> \<forall>f xs. cmp_sorted (call f) xs) \<Longrightarrow> sk_inv call s'"
  by (auto simp: sk_set_def sk_inv_def split: if_splits)

lemma deep_copy_entries:
  "deep_copy_loop copy ys xs = (Some zs, freed) \<Longrightarrow>
   zs = ys @ map (copied copy) xs \<and> (\<forall>x \<in> set xs. copied copy x = None \<longrightarrow> x = None)"
  by (induction copy ys xs rule: deep_copy_loop.induct) (auto simp: copied_def split: option.splits)

lemma copied_sorted:
  assumes "copy_keeps_order call copy" and "\<forall>x \<in> set xs. copied copy x = None \<longrightarrow> x = None"
    and "cmp_sorted (call f) xs"
  shows "cmp_sorted (call f) (map (copied copy) xs)"
  using assms(3) unfolding cmp_sorted_def sorted_wrt_map
  by (rule sorted_wrt_mono_rel [rotated]) (use assms(1,2) in \<open>auto simp: copy_keeps_order_def\<close>)

lemma deep_copy_inv:
  assumes "sk_deep_copy alloc mok copy (Some s) = (Some s', freed)" and "sk_inv call s"
    and "is_sorted s \<Longrightarrow> copy_keeps_order call copy"
  shows "sk_inv call s'"
proof -
  obtain t zs fr where t: "sk_dup alloc mok (Some s) = Some t" "deep_copy_loop copy [] (data t) = (Some zs, fr)"
    and s': "s' = t\<lparr>data := zs\<rparr>"
    using assms(1) by (auto simp: sk_deep_copy_def split: option.splits prod.splits)
  have inv: "sk_inv call t" by (rule dup_inv [OF t(1) assms(2)])
  have zs: "zs = map (copied copy) (data t)" "\<forall>x \<in> set (data t). copied copy x = None \<longrightarrow> x = None"
    using deep_copy_entries [OF t(2)] by simp_all
  have "is_sorted s = is_sorted t" using t(1) by (auto simp: sk_dup_def split: option.splits if_splits)
  then show ?thesis using inv assms(3) copied_sorted [OF _ zs(2)] by (auto simp: sk_inv_def s' zs(1))
qed

lemma step_inv:
  "sk_step call qs care s s' \<Longrightarrow> care \<Longrightarrow> sorts_all call qs \<Longrightarrow> sk_inv call s \<Longrightarrow> sk_inv call s'"
proof (induction rule: sk_step.induct)
  case (insert alloc s p i s' n)
  then show ?case using insert_inv by blast
next
  case (push alloc s p s' n)
  then show ?case using insert_inv [of alloc s p "sk_num (Some s)" s' n call] by (simp add: sk_push_def)
next
  case (sort s s')
  then show ?case using sort_inv by blast
next
  case (set s i p s' r)
  then show ?case using set_inv by blast
next
  case (deep_copy alloc mok copy s s' freed)
  then show ?case using deep_copy_inv by blast
qed (auto simp: sk_delete_ptr_def sk_shift_def sk_pop_def split: option.splits if_splits
    intro: zero_inv delete_inv set_cmp_func_inv dup_inv)

lemma reach_inv: "sk_reach call qs care s \<Longrightarrow> care \<Longrightarrow> sorts_all call qs \<Longrightarrow> sk_inv call s"
  by (induction rule: sk_reach.induct) (auto intro: new_inv step_inv)

text \<open>
  The invariant without the order is that for comparisons that call everything equal, and all steps
  keep it.
\<close>

abbreviation no_order :: "'f \<Rightarrow> 'p option \<Rightarrow> 'p option \<Rightarrow> int" where
  "no_order f x y \<equiv> 0"

lemma no_order_sorted [simp]: "cmp_sorted (no_order f) xs" "copy_keeps_order no_order copy"
  by (simp_all add: cmp_sorted_def copy_keeps_order_def sorted_wrt_iff_nth_less)

lemma sort_room:
  assumes "sk_sort qs call (Some s) = Some s'" and "sk_inv no_order s" and "sorts_all call qs"
  shows "sk_inv no_order s'"
proof (cases "comp s")
  case (Some f)
  have "sorter (call f) (qs (call f))" using assms(3) by (simp add: sorts_all_def)
  note q = sorter.length_sort_by [OF this]
  show ?thesis using assms(1,2) Some q by (auto simp: sk_sort_def sk_inv_def Let_def split: if_splits)
qed (use assms in \<open>simp add: sk_sort_def\<close>)

lemma step_room:
  "sk_step call qs care s s' \<Longrightarrow> sorts_all call qs \<Longrightarrow> sk_inv no_order s \<Longrightarrow> sk_inv no_order s'"
proof (induction rule: sk_step.induct)
  case (insert alloc s p i s' n)
  then show ?case using insert_inv by blast
next
  case (push alloc s p s' n)
  then show ?case using insert_inv [of alloc s p "sk_num (Some s)" s' n no_order] by (simp add: sk_push_def)
next
  case (sort s s')
  then show ?case using sort_room by blast
next
  case (set s i p s' r)
  then show ?case using set_inv [of s i p s' r no_order] by simp
next
  case (deep_copy alloc mok copy s s' freed)
  then show ?case using deep_copy_inv [of alloc mok copy s s' freed no_order] by simp
qed (auto simp: sk_delete_ptr_def sk_shift_def sk_pop_def split: option.splits if_splits
    intro: zero_inv delete_inv set_cmp_func_inv dup_inv)

lemma reach_room: "sk_reach call qs care s \<Longrightarrow> sorts_all call qs \<Longrightarrow> sk_inv no_order s"
  by (induction rule: sk_reach.induct) (auto intro: new_inv step_room)

subsection \<open>Properties\<close>

text \<open>C16: The invariant of stacks: every stack that comes from \<open>sk_new\<close> through any sequence of
  calls of the operations, with any arguments and any failures of the allocator, keeps its entries
  within its allocation, and the size of the allocation in bytes does not overflow.  It is also
  sorted by its comparison whenever it is marked as sorted, provided that \<open>sk_set\<close> was only
  called on stacks not marked as sorted and \<open>sk_deep_copy\<close> with functions that keep the order
  (the code does not reset the mark in these two).\<close>

theorem sk_invariant:
  assumes "sk_reach call qs care s" and "\<forall>f. sorter (call f) (qs (call f))"
  shows "length (data s) \<le> unat (num_alloc s) \<and> unat (num_alloc s) * 8 < 2 ^ 64 \<and>
    (care \<longrightarrow> sk_is_sorted (Some s) \<longrightarrow> (\<forall>f. comp s = Some f \<longrightarrow> cmp_sorted (call f) (data s)))"
  using reach_inv [OF assms(1)] reach_room [OF assms(1)] assms(2)
  by (simp add: sorts_all_def sk_inv_def sk_is_sorted_def)

text \<open>C13: The binary search finds what a linear search finds: in every stack that satisfies the
  invariant, for a comparison that is an order, \<open>sk_find\<close> returns the same result whether or not
  the stack is marked as sorted, namely the index of the first entry that compares equal to the key,
  and nothing when there is none.\<close>

theorem sk_find_first:
  assumes "cmp_order (call f)" and "sk_inv call s" and "comp s = Some f"
  shows "sk_find call (Some s) (Some p) = sk_find call (Some (s\<lparr>is_sorted := False\<rparr>)) (Some p) \<and>
    (\<forall>k. sk_find call (Some s) (Some p) = Some k \<longleftrightarrow>
       unat k < length (data s) \<and> call f (Some p) (data s ! unat k) = 0 \<and>
       (\<forall>j < unat k. call f (Some p) (data s ! j) \<noteq> 0))"
proof -
  have len: "length (data s) < 2 ^ 64" using sk_inv_length [OF assms(2)] by simp
  let ?first = "first_index (\<lambda>x. call f (Some p) x = 0) 0 (data s)"
  have linear: "sk_find call (Some (s\<lparr>is_sorted := False\<rparr>)) (Some p) = ?first"
    using assms(3) by (simp add: sk_find_def)
  have "sk_find call (Some s) (Some p) = ?first"
  proof (cases "is_sorted s")
    case True
    then have "cmp_sorted (call f) (data s)" using assms(2,3) by (simp add: sk_inv_def)
    moreover have "(\<exists>x \<in> set (data s). call f (Some p) x = 0) \<longrightarrow>
        (\<exists>i < unat (stack_num s). call f (Some p) (data s ! i) = 0)"
      using unat_stack_num [OF assms(2)] by (auto simp: in_set_conv_nth)
    ultimately show ?thesis
      using cmp_order.bsearch_first [OF assms(1) _ len, of "stack_num s" 0 "Some p"] assms(3) True
        unat_stack_num [OF assms(2)] by (simp add: sk_find_def)
  qed (use assms(3) in \<open>simp add: sk_find_def\<close>)
  then show ?thesis using linear first_index_Some_iff [OF len] by simp
qed

text \<open>C37: Stacks are lists: on a stack that satisfies the invariant, \<open>sk_insert\<close> either fails
  and changes nothing or puts the pointer at the index (at the end, if it is beyond), \<open>sk_delete\<close>
  at that index gives the pointer and the old entries back, \<open>sk_push\<close> appends and \<open>sk_pop\<close>
  undoes it.\<close>

theorem sk_list_operations:
  assumes "sk_inv call s" and "sk_insert alloc (Some s) p i = (Some s', n)" and "n \<noteq> 0"
  shows "data s' = take (unat i) (data s) @ p # drop (unat i) (data s) \<and>
    unat n = Suc (length (data s)) \<and> sk_num (Some s') = n \<and>
    (\<exists>t. sk_delete (Some s') (min i (sk_num (Some s))) = (Some t, p) \<and> data t = data s) \<and>
    (i = sk_num (Some s) \<longrightarrow> sk_push alloc (Some s) p = (Some s', n) \<and>
       (\<exists>t. sk_pop (Some s') = (Some t, p) \<and> data t = data s))"
proof -
  have d: "data s' = take (unat i) (data s) @ p # drop (unat i) (data s)"
    and n: "n = of_nat (Suc (length (data s)))"
    using insert_inv [OF assms(2,1)] assms(3) by (auto split: if_splits)
  have un: "unat n = Suc (length (data s))"
    using n sk_inv_length [OF assms(1)] by (simp add: unat_of_nat del: of_nat_Suc)
  have "length (data s') = Suc (length (data s))" using d by simp
  then have num: "sk_num (Some s') = n" using n by (simp only: sk_num_def stack_num_def option.case)
  have old: "unat (sk_num (Some s)) = length (data s)" using unat_stack_num [OF assms(1)] by (simp add: sk_num_def)
  let ?m = "min (unat i) (length (data s))"
  have m: "unat (min i (sk_num (Some s))) = ?m" using old by (auto simp: min_def word_le_nat_alt)
  have d': "data s' = take ?m (data s) @ p # drop ?m (data s)" using d by (simp add: min_def)
  have del: "\<exists>t. sk_delete (Some s') j = (Some t, p) \<and> data t = data s" if "unat j = ?m" for j
  proof -
    have "\<not> stack_num s' \<le> j" using that un num by (simp add: sk_num_def word_le_nat_alt)
    moreover have "data s' ! ?m = p" "take ?m (data s') @ drop (Suc ?m) (data s') = data s"
      unfolding d' by (simp_all add: nth_append)
    ultimately show ?thesis using that by (simp add: sk_delete_def)
  qed
  have "sk_pop (Some s') = sk_delete (Some s') (n - 1)"
    using num assms(3) by (simp add: sk_pop_def sk_num_def)
  moreover have "unat (n - 1) = length (data s)" using un by (simp add: unat_sub_if')
  ultimately have "i = sk_num (Some s) \<Longrightarrow> \<exists>t. sk_pop (Some s') = (Some t, p) \<and> data t = data s"
    using del [of "n - 1"] old by simp
  then show ?thesis using d un num del [OF m] assms(2) by (auto simp: sk_push_def)
qed

text \<open>C38: \<open>sk_set\<close> does not reset the mark of a sorted stack, unlike \<open>sk_insert\<close>: after it,
  the stack can be marked as sorted without being sorted, against what \<open>stack.h\<close> says of the
  field, and \<open>sk_find\<close> misses an entry that is there.  Here 1, 2, 3 becomes 9, 2, 3 and the search
  for 9, at index 0, finds nothing.\<close>

theorem sk_set_breaks_search:
  "let call = (\<lambda>f :: unit. \<lambda>x y. the x - the y);
       s = \<lparr>data = [Some (1 :: int), Some 2, Some 3], is_sorted = True, num_alloc = 4, comp = Some ()\<rparr>;
       s' = fst (sk_set (Some s) 0 (Some 9))
   in sk_inv call s \<and> sk_is_sorted s' \<and> sk_value s' 0 = Some 9 \<and>
      sk_find call s' (Some 9) = None \<and>
      sk_find call (map_option (\<lambda>t. t\<lparr>is_sorted := False\<rparr>) s') (Some 9) = Some 0"
proof -
  let ?call = "\<lambda>f :: unit. \<lambda>x y. the x - the y"
  let ?s = "\<lparr>data = [Some (1 :: int), Some 2, Some 3], is_sorted = True, num_alloc = 4, comp = Some ()\<rparr>"
  have "sk_inv ?call ?s" by (simp add: sk_inv_def cmp_sorted_def)
  moreover have "sk_is_sorted (fst (sk_set (Some ?s) 0 (Some 9)))"
    "sk_value (fst (sk_set (Some ?s) 0 (Some 9))) 0 = Some 9"
    "sk_find ?call (fst (sk_set (Some ?s) 0 (Some 9))) (Some 9) = None"
    "sk_find ?call (map_option (\<lambda>t. t\<lparr>is_sorted := False\<rparr>) (fst (sk_set (Some ?s) 0 (Some 9)))) (Some 9) = Some 0"
    by code_simp+
  ultimately show ?thesis by (simp add: Let_def)
qed

text \<open>The witnesses of the properties, with \<open>unit\<close> as the only comparison function.\<close>

definition by_value :: "unit \<Rightarrow> int option \<Rightarrow> int option \<Rightarrow> int" where
  "by_value f x y =
     (case (x, y) of
        (None, None) \<Rightarrow> 0 | (None, Some _) \<Rightarrow> - 1 | (Some _, None) \<Rightarrow> 1 | (Some a, Some b) \<Rightarrow> a - b)"

interpretation by_value: cmp_order "by_value f" for f
  by unfold_locales (auto simp: by_value_def split: option.splits)

theorem sk_invariant_witness:
  "\<exists>s. sk_reach by_value qsort True s \<and> sk_is_sorted (Some s) \<and> data s = [Some 1, Some 2] \<and>
     length (data s) \<le> unat (num_alloc s) \<and> cmp_sorted (by_value ()) (data s)"
proof -
  let ?s0 = "\<lparr>data = [], is_sorted = False, num_alloc = 4, comp = Some ()\<rparr>"
  let ?s1 = "?s0\<lparr>data := [Some (2 :: int)]\<rparr>"
  let ?s2 = "?s0\<lparr>data := [Some 2, Some 1]\<rparr>"
  let ?s3 = "?s0\<lparr>data := [Some 1, Some 2], is_sorted := True\<rparr>"
  have "sk_new (\<lambda>_. True) True (Some ()) = Some ?s0" by (simp add: sk_new_def kMinSize_def)
  moreover have "sk_push (\<lambda>_. True) (Some ?s0) (Some 2) = (Some ?s1, 1)"
    "sk_push (\<lambda>_. True) (Some ?s1) (Some 1) = (Some ?s2, 2)"
    by (simp_all add: sk_push_def sk_insert_def stack_num_def sk_num_def Let_def word_le_nat_alt)
  moreover have "sk_sort qsort by_value (Some ?s2) = Some ?s3"
    by (simp add: sk_sort_def stack_num_def by_value_def qsort_def)
  ultimately have r: "sk_reach by_value qsort True ?s3"
    by (blast intro: sk_reach.intros sk_step.push sk_step.sort)
  have "\<forall>f. sorter (by_value f) (qsort (by_value f))" using by_value.insertion.sorter_axioms by blast
  from sk_invariant [OF r this] r show ?thesis by (intro exI [of _ ?s3]) (simp add: sk_is_sorted_def)
qed

theorem sk_find_first_witness:
  "sk_find by_value (Some \<lparr>data = [Some (1 :: int), Some 4, Some 4, Some 7], is_sorted = True, num_alloc = 8,
     comp = Some ()\<rparr>) (Some 4) = Some 1"
proof -
  let ?s = "\<lparr>data = [Some (1 :: int), Some 4, Some 4, Some 7], is_sorted = True, num_alloc = 8, comp = Some ()\<rparr>"
  have "sk_inv by_value ?s" by (simp add: sk_inv_def cmp_sorted_def by_value_def)
  note find = sk_find_first [OF by_value.cmp_order_axioms this, of "()" 4]
  show ?thesis using find [simplified, THEN conjunct2, THEN spec, of 1]
    by (simp add: by_value_def)
qed

theorem sk_list_operations_witness:
  "\<exists>s' n. sk_insert (\<lambda>_. True) (Some \<lparr>data = [Some (1 :: int), Some 7, Some 8], is_sorted = True, num_alloc = 4,
       comp = Some ()\<rparr>) (Some 5) 1 = (Some s', n) \<and> n = 4 \<and> data s' = [Some 1, Some 5, Some 7, Some 8]"
proof -
  let ?s = "\<lparr>data = [Some (1 :: int), Some 7, Some 8], is_sorted = True, num_alloc = 4, comp = Some ()\<rparr>"
  have inv: "sk_inv by_value ?s" by (simp add: sk_inv_def cmp_sorted_def by_value_def)
  obtain s' n where r: "sk_insert (\<lambda>_. True) (Some ?s) (Some 5) 1 = (Some s', n)" "n \<noteq> 0"
    by (simp add: sk_insert_def sk_grow_def stack_num_def Let_def push_bit_eq_mult)
  from sk_list_operations [OF inv r] have "data s' = [Some 1, Some 5, Some 7, Some 8]" "unat n = 4" by simp_all
  then show ?thesis using r(1) unat_eq_of_nat [of n 4] by auto
qed

end
