(* ===== verification/Lhash.thy ===== *)
theory Lhash
  imports Prelude
begin

text \<open>
  The hash table \<open>LHASH\<close> (\<open>BoringSSL-GRPC/src/crypto/lhash/lhash.c\<close>): an array of chains
  that grows and shrinks with the number of items, with iteration that callbacks may disturb.

  An item of a chain is allocated memory: it has an address, which \<open>lh_doall\<close> keeps as its
  cursor while callbacks insert and delete, and address 0 is \<open>NULL\<close>.  \<open>next\<close> is the
  order of the list.  The elements \<open>'d\<close> are non-\<open>NULL\<close> pointers.  \<open>hash\<close> and
  \<open>comp\<close> are identifiers that the callbacks \<open>call_hash_func\<close> and \<open>call_cmp_func\<close>
  call; \<open>alloc n\<close> says whether an array of \<open>n\<close> bytes can be allocated, \<open>node\<close> is
  the address \<open>malloc\<close> returns for a new item.
\<close>

record 'd lhash_item =
  item_addr :: u64
  item_data :: 'd
  item_hash :: u32

record ('d, 'h, 'f) lhash =
  num_items :: u64
  buckets :: "'d lhash_item list list"
  num_buckets :: u64
  callback_depth :: u32
  lh_comp :: 'f
  lh_hash :: 'h

type_synonym ('d, 'h) hash_caller = "'h \<Rightarrow> 'd \<Rightarrow> u32"
type_synonym ('d, 'f) eq_caller = "'f \<Rightarrow> 'd \<Rightarrow> 'd \<Rightarrow> int"

definition kMinNumBuckets :: u64 where
  "kMinNumBuckets = 16"

definition kMaxAverageChainLength :: u64 where
  "kMaxAverageChainLength = 2"

definition kMinAverageChainLength :: u64 where
  "kMinAverageChainLength = 1"

subsection \<open>Creating and freeing\<close>

definition lh_new :: "(u64 \<Rightarrow> bool) \<Rightarrow> bool \<Rightarrow> 'h \<Rightarrow> 'f \<Rightarrow> ('d, 'h, 'f) lhash option" where
  "lh_new alloc malloc_ok h f =
     (if \<not> malloc_ok then None
      else if \<not> alloc (8 * kMinNumBuckets) then None
      else Some \<lparr>num_items = 0, buckets = replicate (unat kMinNumBuckets) [],
                 num_buckets = kMinNumBuckets, callback_depth = 0, lh_comp = f, lh_hash = h\<rparr>)"

text \<open>The item addresses \<open>lh_free\<close> releases, in order; the table itself is gone.\<close>

definition lh_free :: "('d, 'h, 'f) lhash option \<Rightarrow> u64 list" where
  "lh_free lh = (case lh of None \<Rightarrow> [] | Some t \<Rightarrow> map item_addr (concat (buckets t)))"

definition lh_num_items :: "('d, 'h, 'f) lhash \<Rightarrow> u64" where
  "lh_num_items t = num_items t"

subsection \<open>Searching\<close>

text \<open>
  A pointer to the pointer to an item is a position in a chain: the index of the item, or the
  length of the chain for the \<open>NULL\<close> at its end.
\<close>

fun chain_pos :: "('d \<Rightarrow> bool) \<Rightarrow> 'd lhash_item list \<Rightarrow> nat" where
  "chain_pos P [] = 0"
| "chain_pos P (it # its) = (if P (item_data it) then 0 else Suc (chain_pos P its))"

definition bucket_of :: "u32 \<Rightarrow> u64 \<Rightarrow> u64" where
  "bucket_of h n = ucast h mod n"

definition get_next_ptr_and_hash ::
  "('d, 'h) hash_caller \<Rightarrow> ('d, 'f) eq_caller \<Rightarrow> ('d, 'h, 'f) lhash \<Rightarrow> 'd \<Rightarrow> u64 \<times> nat \<times> u32" where
  "get_next_ptr_and_hash call_hash_func call_cmp_func t d =
     (let h = call_hash_func (lh_hash t) d;
          b = bucket_of h (num_buckets t)
      in (b, chain_pos (\<lambda>x. call_cmp_func (lh_comp t) x d = 0) (buckets t ! unat b), h))"

definition get_next_ptr_by_key ::
  "('d, 'h, 'f) lhash \<Rightarrow> 'k \<Rightarrow> u32 \<Rightarrow> ('k \<Rightarrow> 'd \<Rightarrow> int) \<Rightarrow> u64 \<times> nat" where
  "get_next_ptr_by_key t key key_hash cmp_key =
     (let b = bucket_of key_hash (num_buckets t)
      in (b, chain_pos (\<lambda>x. cmp_key key x = 0) (buckets t ! unat b)))"

text \<open>What a position points to.\<close>

definition item_at :: "('d, 'h, 'f) lhash \<Rightarrow> u64 \<Rightarrow> nat \<Rightarrow> 'd lhash_item option" where
  "item_at t b p =
     (let chain = buckets t ! unat b in if p < length chain then Some (chain ! p) else None)"

definition lh_retrieve ::
  "('d, 'h) hash_caller \<Rightarrow> ('d, 'f) eq_caller \<Rightarrow> ('d, 'h, 'f) lhash \<Rightarrow> 'd \<Rightarrow> 'd option" where
  "lh_retrieve call_hash_func call_cmp_func t d =
     (let (b, p, h) = get_next_ptr_and_hash call_hash_func call_cmp_func t d
      in map_option item_data (item_at t b p))"

definition lh_retrieve_key ::
  "('d, 'h, 'f) lhash \<Rightarrow> 'k \<Rightarrow> u32 \<Rightarrow> ('k \<Rightarrow> 'd \<Rightarrow> int) \<Rightarrow> 'd option" where
  "lh_retrieve_key t key key_hash cmp_key =
     (let (b, p) = get_next_ptr_by_key t key key_hash cmp_key
      in map_option item_data (item_at t b p))"

subsection \<open>Resizing\<close>

text \<open>Every item is pushed in front of its chain in the new array, in the order of the old one.\<close>

definition push_item :: "u64 \<Rightarrow> 'd lhash_item list list \<Rightarrow> 'd lhash_item \<Rightarrow> 'd lhash_item list list" where
  "push_item n bs it =
     (let i = unat (bucket_of (item_hash it) n) in bs[i := it # bs ! i])"

definition lh_rebucket :: "(u64 \<Rightarrow> bool) \<Rightarrow> ('d, 'h, 'f) lhash \<Rightarrow> u64 \<Rightarrow> ('d, 'h, 'f) lhash" where
  "lh_rebucket alloc t new_num_buckets =
     (let alloc_size = 8 * new_num_buckets
      in if alloc_size div 8 \<noteq> new_num_buckets then t
         else if \<not> alloc alloc_size then t
         else t\<lparr>num_buckets := new_num_buckets,
                buckets := foldl (foldl (push_item new_num_buckets))
                             (replicate (unat new_num_buckets) []) (buckets t)\<rparr>)"

definition lh_maybe_resize :: "(u64 \<Rightarrow> bool) \<Rightarrow> ('d, 'h, 'f) lhash \<Rightarrow> ('d, 'h, 'f) lhash" where
  "lh_maybe_resize alloc t =
     (if 0 < callback_depth t then t
      else
        let avg_chain_length = num_items t div num_buckets t
        in if kMaxAverageChainLength < avg_chain_length then
             let new_num_buckets = num_buckets t * 2
             in if num_buckets t < new_num_buckets then lh_rebucket alloc t new_num_buckets else t
           else if avg_chain_length < kMinAverageChainLength \<and> kMinNumBuckets < num_buckets t then
             let new_num_buckets = num_buckets t div 2
             in lh_rebucket alloc t
                  (if new_num_buckets < kMinNumBuckets then kMinNumBuckets else new_num_buckets)
           else t)"

subsection \<open>Inserting and deleting\<close>

definition lh_insert ::
  "('d, 'h) hash_caller \<Rightarrow> ('d, 'f) eq_caller \<Rightarrow> (u64 \<Rightarrow> bool) \<Rightarrow> u64 \<Rightarrow> ('d, 'h, 'f) lhash \<Rightarrow> 'd \<Rightarrow>
   ('d, 'h, 'f) lhash \<times> 'd option \<times> bool" where
  "lh_insert call_hash_func call_cmp_func alloc node t d =
     (let (b, p, h) = get_next_ptr_and_hash call_hash_func call_cmp_func t d;
          chain = buckets t ! unat b
      in case item_at t b p of
           Some it \<Rightarrow>
             (t\<lparr>buckets := (buckets t)[unat b := chain[p := it\<lparr>item_data := d\<rparr>]]\<rparr>,
              Some (item_data it), True)
         | None \<Rightarrow>
             if node = 0 then (t, None, False)
             else
               let item = \<lparr>item_addr = node, item_data = d, item_hash = h\<rparr>;
                   t' = t\<lparr>buckets := (buckets t)[unat b := chain @ [item]],
                          num_items := num_items t + 1\<rparr>
               in (lh_maybe_resize alloc t', None, True))"

definition lh_delete ::
  "('d, 'h) hash_caller \<Rightarrow> ('d, 'f) eq_caller \<Rightarrow> (u64 \<Rightarrow> bool) \<Rightarrow> ('d, 'h, 'f) lhash \<Rightarrow> 'd \<Rightarrow>
   ('d, 'h, 'f) lhash \<times> 'd option" where
  "lh_delete call_hash_func call_cmp_func alloc t d =
     (let (b, p, h) = get_next_ptr_and_hash call_hash_func call_cmp_func t d;
          chain = buckets t ! unat b
      in case item_at t b p of
           None \<Rightarrow> (t, None)
         | Some it \<Rightarrow>
             let t' = t\<lparr>buckets := (buckets t)[unat b := take p chain @ drop (Suc p) chain],
                        num_items := num_items t - 1\<rparr>
             in (lh_maybe_resize alloc t', Some (item_data it)))"

subsection \<open>Iterating\<close>

text \<open>
  The cursor of \<open>lh_doall_arg\<close> is an item address; reading the item is only defined while it
  is in the table.  The callback gets the table and a state of its own and may change both; it can
  itself fail to return.  Fuel bounds the two loops: a callback that keeps inserting behind the
  cursor never lets them end.
\<close>

definition chain_head :: "'d lhash_item list \<Rightarrow> u64" where
  "chain_head c = (case c of [] \<Rightarrow> 0 | it # _ \<Rightarrow> item_addr it)"

fun chain_deref :: "u64 \<Rightarrow> 'd lhash_item list \<Rightarrow> ('d \<times> u64) option" where
  "chain_deref a [] = None"
| "chain_deref a (it # its) =
     (if item_addr it = a then Some (item_data it, chain_head its) else chain_deref a its)"

fun item_deref :: "u64 \<Rightarrow> 'd lhash_item list list \<Rightarrow> ('d \<times> u64) option" where
  "item_deref a [] = None"
| "item_deref a (c # cs) =
     (case chain_deref a c of Some r \<Rightarrow> Some r | None \<Rightarrow> item_deref a cs)"

type_synonym ('d, 'h, 'f, 's) doall_func =
  "'d \<Rightarrow> ('d, 'h, 'f) lhash \<Rightarrow> 's \<Rightarrow> (('d, 'h, 'f) lhash \<times> 's) option"

fun doall_chain ::
  "('d, 'h, 'f, 's) doall_func \<Rightarrow> nat \<Rightarrow> u64 \<Rightarrow> ('d, 'h, 'f) lhash \<Rightarrow> 's \<Rightarrow>
   (('d, 'h, 'f) lhash \<times> 's) option" where
  "doall_chain func 0 cur t s = None"
| "doall_chain func (Suc k) cur t s =
     (if cur = 0 then Some (t, s)
      else case item_deref cur (buckets t) of
             None \<Rightarrow> None
           | Some (d, next) \<Rightarrow>
               (case func d t s of
                  None \<Rightarrow> None
                | Some (t', s') \<Rightarrow> doall_chain func k next t' s'))"

fun doall_buckets ::
  "('d, 'h, 'f, 's) doall_func \<Rightarrow> nat \<Rightarrow> u64 \<Rightarrow> ('d, 'h, 'f) lhash \<Rightarrow> 's \<Rightarrow>
   (('d, 'h, 'f) lhash \<times> 's) option" where
  "doall_buckets func 0 i t s = None"
| "doall_buckets func (Suc k) i t s =
     (if num_buckets t \<le> i then Some (t, s)
      else case doall_chain func k (chain_head (buckets t ! unat i)) t s of
             None \<Rightarrow> None
           | Some (t', s') \<Rightarrow> doall_buckets func k (i + 1) t' s')"

definition UINT_MAX :: u32 where
  "UINT_MAX = 0xFFFFFFFF"

definition lh_doall_arg ::
  "(u64 \<Rightarrow> bool) \<Rightarrow> ('d, 'h, 'f, 's) doall_func \<Rightarrow> nat \<Rightarrow> ('d, 'h, 'f) lhash option \<Rightarrow> 's \<Rightarrow>
   (('d, 'h, 'f) lhash option \<times> 's) option" where
  "lh_doall_arg alloc func k lh s =
     (case lh of
        None \<Rightarrow> Some (None, s)
      | Some t \<Rightarrow>
          let t1 = (if callback_depth t < UINT_MAX then t\<lparr>callback_depth := callback_depth t + 1\<rparr> else t)
          in case doall_buckets func k 0 t1 s of
               None \<Rightarrow> None
             | Some (t2, s2) \<Rightarrow>
                 let t3 = (if callback_depth t2 < UINT_MAX
                           then t2\<lparr>callback_depth := callback_depth t2 - 1\<rparr> else t2)
                 in Some (Some (lh_maybe_resize alloc t3), s2))"

subsection \<open>The hash of a string\<close>

text \<open>\<open>OPENSSL_hash32\<close> of \<open>mem.c\<close> is FNV-1a; \<open>lh_strhash\<close> hashes a string up to its terminator.\<close>

definition kPrime :: u32 where
  "kPrime = 16777619"

definition kOffsetBasis :: u32 where
  "kOffsetBasis = 2166136261"

definition OPENSSL_hash32 :: "bytes \<Rightarrow> u32" where
  "OPENSSL_hash32 xs = foldl (\<lambda>h x. (h XOR ucast x) * kPrime) kOffsetBasis xs"

definition lh_strhash :: "bytes option \<Rightarrow> u32" where
  "lh_strhash c = (case c of None \<Rightarrow> 0 | Some xs \<Rightarrow> OPENSSL_hash32 (takeWhile (\<lambda>x. x \<noteq> 0) xs))"

end
