(* ===== verification/LhashSpec.thy ===== *)
theory LhashSpec
  imports Lhash "HOL-Library.Multiset"
begin

text \<open>
  The hash table as a set: locale \<open>lh_keys\<close> is what the hash and the comparison function
  promise, \<open>lh_inv\<close> the invariant of the table, \<open>lh_elems\<close> the elements it holds.
\<close>

locale lh_keys =
  fixes h :: "'d \<Rightarrow> u32" and eq :: "'d \<Rightarrow> 'd \<Rightarrow> int"
  assumes eq_refl: "eq a a = 0"
    and eq_sym: "eq a b = 0 \<Longrightarrow> eq b a = 0"
    and eq_trans: "eq a b = 0 \<Longrightarrow> eq b c = 0 \<Longrightarrow> eq a c = 0"
    and eq_hash: "eq a b = 0 \<Longrightarrow> h a = h b"

definition lh_items :: "('d, 'h, 'f) lhash \<Rightarrow> 'd lhash_item list" where
  "lh_items t = concat (buckets t)"

definition lh_elems :: "('d, 'h, 'f) lhash \<Rightarrow> 'd set" where
  "lh_elems t = item_data ` set (lh_items t)"

text \<open>What only depends on the items, and what ties them to their buckets.\<close>

definition items_ok :: "('d \<Rightarrow> u32) \<Rightarrow> ('d \<Rightarrow> 'd \<Rightarrow> int) \<Rightarrow> 'd lhash_item list \<Rightarrow> bool" where
  "items_ok h eq its \<longleftrightarrow>
     distinct (map item_addr its) \<and>
     (\<forall>it \<in> set its. item_addr it \<noteq> 0 \<and> item_hash it = h (item_data it)) \<and>
     (\<forall>x \<in> set its. \<forall>y \<in> set its. eq (item_data x) (item_data y) = 0 \<longrightarrow> x = y)"

definition bucketed :: "u64 \<Rightarrow> 'd lhash_item list list \<Rightarrow> bool" where
  "bucketed n bs \<longleftrightarrow> length bs = unat n \<and>
     (\<forall>i < length bs. \<forall>it \<in> set (bs ! i). unat (bucket_of (item_hash it) n) = i)"

definition lh_inv :: "('d, 'h) hash_caller \<Rightarrow> ('d, 'f) eq_caller \<Rightarrow> ('d, 'h, 'f) lhash \<Rightarrow> bool" where
  "lh_inv call_hash_func call_cmp_func t \<longleftrightarrow>
     kMinNumBuckets \<le> num_buckets t \<and>
     unat (num_items t) = length (lh_items t) \<and>
     bucketed (num_buckets t) (buckets t) \<and>
     items_ok (call_hash_func (lh_hash t)) (call_cmp_func (lh_comp t)) (lh_items t)"

subsection \<open>Positions in chains\<close>

lemma chain_pos_le: "chain_pos P c \<le> length c"
  by (induction c) auto

lemma chain_pos_item: "chain_pos P c < length c \<Longrightarrow> P (item_data (c ! chain_pos P c))"
  by (induction c) auto

lemma chain_pos_less: "it \<in> set c \<Longrightarrow> P (item_data it) \<Longrightarrow> chain_pos P c < length c"
  by (induction c) auto

lemma bucket_of_less: "0 < n \<Longrightarrow> unat (bucket_of k n) < unat n"
  by (simp add: bucket_of_def unat_mod_distrib word_less_nat_alt)

lemma concat_update:
  assumes "b < length bs"
  shows "mset (concat (bs[b := c])) + mset (bs ! b) = mset (concat bs) + mset c"
proof -
  have "concat bs = concat (take b bs) @ bs ! b @ concat (drop (Suc b) bs)"
    using assms by (metis concat.simps(2) concat_append id_take_nth_drop)
  moreover have "concat (bs[b := c]) = concat (take b bs) @ c @ concat (drop (Suc b) bs)"
    using assms by (simp add: upd_conv_take_nth_drop)
  ultimately show ?thesis by simp
qed

subsection \<open>Items\<close>

lemma items_ok_perm:
  assumes "mset xs = mset ys"
  shows "items_ok h eq xs \<longleftrightarrow> items_ok h eq ys"
proof -
  have "set xs = set ys" using assms by (rule mset_eq_setD)
  moreover have "distinct (map item_addr xs) \<longleftrightarrow> distinct (map item_addr ys)"
    by (rule mset_eq_imp_distinct_iff) (simp add: assms)
  ultimately show ?thesis by (simp add: items_ok_def)
qed

lemma items_ok_distinct: "items_ok h eq xs \<Longrightarrow> distinct xs"
  by (simp add: items_ok_def distinct_map)

lemma items_ok_length: "items_ok h eq xs \<Longrightarrow> length xs < 2 ^ 64"
proof -
  assume ok: "items_ok h eq xs"
  have sub: "set (map item_addr xs) \<subseteq> UNIV - {0}" using ok by (auto simp: items_ok_def)
  have "length xs = card (set (map item_addr xs))"
    using ok distinct_card [of "map item_addr xs"] by (simp add: items_ok_def)
  also have "\<dots> \<le> card (UNIV - {0 :: u64})" by (rule card_mono [OF _ sub]) simp
  also have "\<dots> = 2 ^ 64 - 1" by (simp add: card_Diff_singleton card_word)
  finally show ?thesis by simp
qed

context lh_keys
begin

lemma items_ok_Cons:
  "items_ok h eq (it # its) \<longleftrightarrow> items_ok h eq its \<and> item_addr it \<noteq> 0 \<and>
     item_hash it = h (item_data it) \<and> item_addr it \<notin> item_addr ` set its \<and>
     (\<forall>x \<in> set its. eq (item_data x) (item_data it) \<noteq> 0)"
  unfolding items_ok_def by (auto dest: eq_sym simp: eq_refl)

lemma items_ok_remove1: "items_ok h eq its \<Longrightarrow> items_ok h eq (remove1 it its)"
  by (auto simp: items_ok_def distinct_map distinct_remove1 inj_on_def dest!: notin_set_remove1)

text \<open>Equal keys are in the same bucket, so a chain holds every match of the table.\<close>

lemma chain_match:
  assumes ok: "items_ok h eq (concat bs)" and bk: "bucketed n bs" and n: "0 < n"
    and it: "it \<in> set (concat bs)" and eq: "eq (item_data it) d = 0"
  shows "it \<in> set (bs ! unat (bucket_of (h d) n))"
proof -
  obtain i where i: "i < length bs" "it \<in> set (bs ! i)"
    using it by (auto simp: in_set_conv_nth) blast
  have "item_hash it = h d" using ok it eq eq_hash by (auto simp: items_ok_def)
  moreover have "unat (bucket_of (item_hash it) n) = i" using bk i by (simp add: bucketed_def)
  ultimately show ?thesis using i by simp
qed

text \<open>What the position found in the chain of a key says about the whole table.\<close>

lemma position_found:
  assumes ok: "items_ok h eq (concat bs)" and bk: "bucketed n bs" and n: "0 < n"
    and c: "c = bs ! unat (bucket_of (h d) n)" and p: "p = chain_pos (\<lambda>x. eq x d = 0) c"
  shows "p < length c \<Longrightarrow> c ! p \<in> set (concat bs) \<and> eq (item_data (c ! p)) d = 0"
    and "\<not> p < length c \<Longrightarrow> it \<in> set (concat bs) \<Longrightarrow> eq (item_data it) d \<noteq> 0"
proof -
  have b: "unat (bucket_of (h d) n) < length bs"
    using bucket_of_less [OF n] bk by (simp add: bucketed_def)
  show "p < length c \<Longrightarrow> c ! p \<in> set (concat bs) \<and> eq (item_data (c ! p)) d = 0"
    using b chain_pos_item [of "\<lambda>x. eq x d = 0" c] c p by (metis UN_I nth_mem set_concat)
  show "\<not> p < length c \<Longrightarrow> it \<in> set (concat bs) \<Longrightarrow> eq (item_data it) d \<noteq> 0"
    using chain_match [OF ok bk n] chain_pos_less [of it c "\<lambda>x. eq x d = 0"] c p by metis
qed

end

subsection \<open>Resizing keeps the items\<close>

lemma bucketed_new: "bucketed n (replicate (unat n) [])"
  by (simp add: bucketed_def)

lemma bucketed_update:
  assumes "bucketed n bs" and "\<And>it. it \<in> set c \<Longrightarrow> unat (bucket_of (item_hash it) n) = b"
  shows "bucketed n (bs[b := c])"
proof -
  have "unat (bucket_of (item_hash it) n) = i"
    if "i < length bs" and "it \<in> set (bs[b := c] ! i)" for i it
    using assms that by (cases "i = b") (auto simp: bucketed_def)
  then show ?thesis using assms(1) by (simp add: bucketed_def)
qed

lemma push_item:
  assumes "bucketed n bs" and "0 < n"
  shows "bucketed n (push_item n bs it) \<and>
    mset (concat (push_item n bs it)) = add_mset it (mset (concat bs))"
proof -
  define i where "i = unat (bucket_of (item_hash it) n)"
  have i: "i < length bs" using assms bucket_of_less [of n] by (simp add: i_def bucketed_def)
  have "bucketed n (bs[i := it # bs ! i])"
    using assms i by (intro bucketed_update) (auto simp: i_def bucketed_def)
  then show ?thesis
    using concat_update [OF i, of "it # bs ! i"] by (simp add: push_item_def Let_def i_def)
qed

lemma push_chain:
  "bucketed n bs \<Longrightarrow> 0 < n \<Longrightarrow> bucketed n (foldl (push_item n) bs c) \<and>
    mset (concat (foldl (push_item n) bs c)) = mset (concat bs) + mset c"
proof (induction c arbitrary: bs)
  case (Cons it c)
  then show ?case using Cons.IH [of "push_item n bs it"] push_item [of n bs it] by simp
qed simp

lemma push_chains:
  "bucketed n bs \<Longrightarrow> 0 < n \<Longrightarrow> bucketed n (foldl (foldl (push_item n)) bs cs) \<and>
    mset (concat (foldl (foldl (push_item n)) bs cs)) = mset (concat bs) + mset (concat cs)"
proof (induction cs arbitrary: bs)
  case (Cons c cs)
  then show ?case using Cons.IH [of "foldl (push_item n) bs c"] push_chain [of n bs c]
    by (simp add: add.assoc)
qed simp

text \<open>Two tables with the same items, whatever their buckets.\<close>

definition same_items :: "('d, 'h, 'f) lhash \<Rightarrow> ('d, 'h, 'f) lhash \<Rightarrow> bool" where
  "same_items t' t \<longleftrightarrow> mset (lh_items t') = mset (lh_items t) \<and> num_items t' = num_items t \<and>
     lh_comp t' = lh_comp t \<and> lh_hash t' = lh_hash t \<and> callback_depth t' = callback_depth t"

lemma same_items_refl [simp]: "same_items t t"
  by (simp add: same_items_def)

lemma same_items_inv:
  assumes "same_items t' t" and "lh_inv ch cf t"
    and "kMinNumBuckets \<le> num_buckets t'" and "bucketed (num_buckets t') (buckets t')"
  shows "lh_inv ch cf t'"
  using assms items_ok_perm [of "lh_items t'" "lh_items t"] mset_eq_length [of "lh_items t'" "lh_items t"]
  by (simp add: lh_inv_def same_items_def)

lemma same_items_elems: "same_items t' t \<Longrightarrow> lh_elems t' = lh_elems t"
  by (auto simp: same_items_def lh_elems_def dest: mset_eq_setD)

lemma rebucket_same:
  assumes "0 < n"
  shows "same_items (lh_rebucket alloc t n) t"
  using push_chains [OF bucketed_new assms, of "buckets t"] concat_replicate_trivial [of "unat n"]
  by (simp add: lh_rebucket_def Let_def same_items_def lh_items_def)

lemma rebucket_inv:
  assumes "lh_inv ch cf t" and n: "kMinNumBuckets \<le> n"
  shows "lh_inv ch cf (lh_rebucket alloc t n) \<and> same_items (lh_rebucket alloc t n) t"
proof -
  have pos: "0 < n" using n by (simp add: kMinNumBuckets_def word_less_nat_alt word_le_nat_alt)
  have same: "same_items (lh_rebucket alloc t n) t" by (rule rebucket_same [OF pos])
  have "kMinNumBuckets \<le> num_buckets (lh_rebucket alloc t n) \<and>
      bucketed (num_buckets (lh_rebucket alloc t n)) (buckets (lh_rebucket alloc t n))"
    using assms push_chains [OF bucketed_new pos, of "buckets t"]
    by (simp add: lh_rebucket_def Let_def lh_inv_def)
  with same show ?thesis using same_items_inv [OF same assms(1)] by simp
qed

lemma resize_inv:
  assumes "lh_inv ch cf t"
  shows "lh_inv ch cf (lh_maybe_resize alloc t) \<and> same_items (lh_maybe_resize alloc t) t"
proof -
  have "kMinNumBuckets \<le> num_buckets t" using assms by (simp add: lh_inv_def)
  then have "num_buckets t < num_buckets t * 2 \<Longrightarrow> kMinNumBuckets \<le> num_buckets t * 2"
    by simp
  then show ?thesis
    unfolding lh_maybe_resize_def Let_def
    by (auto intro!: rebucket_inv [OF assms, THEN conjunct1] rebucket_inv [OF assms, THEN conjunct2]
        simp: assms not_less)
qed

subsection \<open>The operations on the set of elements\<close>

text \<open>The abstract operations: at most one element of each class of equal elements.\<close>

definition set_lookup :: "('d \<Rightarrow> 'd \<Rightarrow> int) \<Rightarrow> 'd set \<Rightarrow> 'd \<Rightarrow> 'd option \<Rightarrow> bool" where
  "set_lookup eq S d r \<longleftrightarrow>
     (case r of None \<Rightarrow> \<forall>x \<in> S. eq x d \<noteq> 0 | Some x \<Rightarrow> x \<in> S \<and> eq x d = 0)"

definition set_remove :: "('d \<Rightarrow> 'd \<Rightarrow> int) \<Rightarrow> 'd set \<Rightarrow> 'd \<Rightarrow> 'd set" where
  "set_remove eq S d = {x \<in> S. eq x d \<noteq> 0}"

lemma lh_inv_pos: "lh_inv ch cf t \<Longrightarrow> 0 < num_buckets t"
  by (simp add: lh_inv_def kMinNumBuckets_def word_less_nat_alt word_le_nat_alt)

lemma lh_inv_bucket_of:
  "lh_inv ch cf t \<Longrightarrow> unat (bucket_of k (num_buckets t)) < length (buckets t)"
  using bucket_of_less [OF lh_inv_pos] by (simp add: lh_inv_def bucketed_def)

context lh_keys
begin

lemma found:
  assumes inv: "lh_inv ch cf t" and hc: "ch (lh_hash t) = h" "cf (lh_comp t) = eq"
    and g: "get_next_ptr_and_hash ch cf t d = (b, p, k)"
  shows "k = h d" "unat b < length (buckets t)" "unat b = unat (bucket_of (h d) (num_buckets t))"
    "item_at t b p = Some it \<Longrightarrow> p < length (buckets t ! unat b) \<and> it = buckets t ! unat b ! p \<and>
       it \<in> set (lh_items t) \<and> eq (item_data it) d = 0"
    "item_at t b p = None \<Longrightarrow> \<forall>x \<in> lh_elems t. eq x d \<noteq> 0"
proof -
  have ok: "items_ok h eq (concat (buckets t))" and bk: "bucketed (num_buckets t) (buckets t)"
    using inv hc by (simp_all add: lh_inv_def lh_items_def)
  have bp: "b = bucket_of (h d) (num_buckets t)" "k = h d"
      "p = chain_pos (\<lambda>x. eq x d = 0) (buckets t ! unat b)"
    using g hc by (auto simp: get_next_ptr_and_hash_def Let_def)
  show "k = h d" "unat b < length (buckets t)" "unat b = unat (bucket_of (h d) (num_buckets t))"
    using bp lh_inv_bucket_of [OF inv] by simp_all
  note pf = position_found [OF ok bk lh_inv_pos [OF inv] _ bp(3) [unfolded bp(1)], OF refl]
  show "item_at t b p = Some it \<Longrightarrow> p < length (buckets t ! unat b) \<and> it = buckets t ! unat b ! p \<and>
       it \<in> set (lh_items t) \<and> eq (item_data it) d = 0"
    using pf(1) by (auto simp: item_at_def Let_def bp(1) lh_items_def split: if_splits)
  show "item_at t b p = None \<Longrightarrow> \<forall>x \<in> lh_elems t. eq x d \<noteq> 0"
    using pf(2) by (auto simp: item_at_def Let_def bp(1) lh_items_def lh_elems_def split: if_splits)
qed

lemma retrieve:
  assumes "lh_inv ch cf t" and "ch (lh_hash t) = h" "cf (lh_comp t) = eq"
  shows "set_lookup eq (lh_elems t) d (lh_retrieve ch cf t d)"
proof -
  obtain b p k where g: "get_next_ptr_and_hash ch cf t d = (b, p, k)" by (metis prod_cases3)
  note f = found [OF assms g]
  show ?thesis
  proof (cases "item_at t b p")
    case None
    then show ?thesis using f(5) g by (simp add: lh_retrieve_def set_lookup_def)
  next
    case (Some it)
    then show ?thesis using f(4) [OF Some] g
      by (auto simp: lh_retrieve_def set_lookup_def lh_elems_def)
  qed
qed

text \<open>A table whose bucket \<open>b\<close> was replaced.\<close>

lemma update_bucket:
  assumes inv: "lh_inv ch cf t" and hc: "ch (lh_hash t) = h" "cf (lh_comp t) = eq"
    and b: "unat b < length (buckets t)"
    and t': "t' = t\<lparr>buckets := (buckets t)[unat b := c], num_items := n\<rparr>"
    and c: "\<And>it. it \<in> set c \<Longrightarrow> unat (bucket_of (item_hash it) (num_buckets t)) = unat b"
    and m: "mset c + mset (lh_items t) = mset (buckets t ! unat b) + mset its"
    and n: "unat n = length its" and ok: "items_ok h eq its"
  shows "lh_inv ch cf t' \<and> mset (lh_items t') = mset its"
proof -
  have "mset (lh_items t') + mset (buckets t ! unat b) = mset (lh_items t) + mset c"
    using concat_update [OF b, of c] by (simp add: t' lh_items_def)
  then have m': "mset (lh_items t') = mset its" using m by (metis add.commute add_left_cancel)
  have "bucketed (num_buckets t') (buckets t')"
    using inv c by (auto simp: t' lh_inv_def intro: bucketed_update)
  then have "lh_inv ch cf t'"
    using inv n ok hc items_ok_perm [OF m'] mset_eq_length [OF m'] by (simp add: lh_inv_def t')
  with m' show ?thesis by simp
qed

end

subsection \<open>Insertion and deletion\<close>

lemma mset_chain_update:
  assumes "p < length c"
  shows "mset (c[p := y]) + {#c ! p#} = mset c + {#y#}"
    and "mset (take p c @ drop (Suc p) c) + {#c ! p#} = mset c"
proof -
  have "mset c = mset (take p c) + add_mset (c ! p) (mset (drop (Suc p) c))"
    by (metis id_take_nth_drop [OF assms] mset.simps(2) mset_append)
  then show "mset (c[p := y]) + {#c ! p#} = mset c + {#y#}"
    and "mset (take p c @ drop (Suc p) c) + {#c ! p#} = mset c"
    using assms by (simp_all add: upd_conv_take_nth_drop)
qed

text \<open>The handles of a table that no operation changes.\<close>

definition same_handles :: "('d, 'h, 'f) lhash \<Rightarrow> ('d, 'h, 'f) lhash \<Rightarrow> bool" where
  "same_handles t' t \<longleftrightarrow> lh_comp t' = lh_comp t \<and> lh_hash t' = lh_hash t \<and>
     callback_depth t' = callback_depth t"

lemma same_handles_refl [simp]: "same_handles t t"
  by (simp add: same_handles_def)

context lh_keys
begin

lemma chain_hash:
  assumes "lh_inv ch cf t" and "i < length (buckets t)" and "it \<in> set (buckets t ! i)"
  shows "unat (bucket_of (item_hash it) (num_buckets t)) = i"
  using assms by (simp add: lh_inv_def bucketed_def)

lemma items_hash:
  assumes "lh_inv ch cf t" and "ch (lh_hash t) = h" and "it \<in> set (lh_items t)"
  shows "item_hash it = h (item_data it)" and "item_addr it \<noteq> 0"
  using assms by (simp_all add: lh_inv_def items_ok_def)

lemma insert_replaces:
  assumes inv: "lh_inv ch cf t" and hc: "ch (lh_hash t) = h" "cf (lh_comp t) = eq"
    and g: "get_next_ptr_and_hash ch cf t d = (b, p, k)" and it: "item_at t b p = Some it"
    and t': "t' = t\<lparr>buckets := (buckets t)[unat b := (buckets t ! unat b)[p := it\<lparr>item_data := d\<rparr>]]\<rparr>"
  shows "lh_inv ch cf t' \<and> lh_elems t' = insert d (set_remove eq (lh_elems t) d)"
proof -
  note f = found [OF inv hc g]
  note fi = f(4) [OF it]
  define c where "c = (buckets t ! unat b)[p := it\<lparr>item_data := d\<rparr>]"
  define its where "its = it\<lparr>item_data := d\<rparr> # remove1 it (lh_items t)"
  have ok: "items_ok h eq (lh_items t)" using inv hc by (simp add: lh_inv_def)
  have mem: "it \<in> set (lh_items t)" and eqd: "eq (item_data it) d = 0"
    using fi by blast+
  have dist: "distinct (lh_items t)" by (rule items_ok_distinct [OF ok])
  have rest: "set (remove1 it (lh_items t)) = set (lh_items t) - {it}"
    by (rule set_remove1_eq [OF dist])
  have others: "eq (item_data x) d \<noteq> 0" if "x \<in> set (lh_items t)" "x \<noteq> it" for x
    using ok that mem eqd eq_trans [of "item_data x" d "item_data it"] eq_sym
    unfolding items_ok_def by metis
  have ok': "items_ok h eq its"
    unfolding its_def items_ok_Cons
  proof (intro conjI)
    show "items_ok h eq (remove1 it (lh_items t))" by (rule items_ok_remove1 [OF ok])
    show "item_addr (it\<lparr>item_data := d\<rparr>) \<noteq> 0"
      "item_hash (it\<lparr>item_data := d\<rparr>) = h (item_data (it\<lparr>item_data := d\<rparr>))"
      using items_hash [OF inv hc(1) mem] eq_hash [OF eqd] by simp_all
    have "inj_on item_addr (set (lh_items t))" using ok by (simp add: items_ok_def distinct_map)
    then show "item_addr (it\<lparr>item_data := d\<rparr>) \<notin> item_addr ` set (remove1 it (lh_items t))"
      using mem rest by (auto dest: inj_onD)
    show "\<forall>x\<in>set (remove1 it (lh_items t)). eq (item_data x) (item_data (it\<lparr>item_data := d\<rparr>)) \<noteq> 0"
      using rest others by simp
  qed
  have m: "mset c + mset (lh_items t) = mset (buckets t ! unat b) + mset its"
  proof -
    have "mset (lh_items t) = add_mset it (mset (remove1 it (lh_items t)))" using mem by simp
    moreover have "add_mset it (mset c) = add_mset (it\<lparr>item_data := d\<rparr>) (mset (buckets t ! unat b))"
      using mset_chain_update(1) [of p "buckets t ! unat b" "it\<lparr>item_data := d\<rparr>"] fi
      by (metis add_mset_add_single c_def)
    ultimately show ?thesis by (simp add: its_def) (metis add_mset_add_single union_assoc union_commute)
  qed
  have "lh_inv ch cf t' \<and> mset (lh_items t') = mset its"
  proof (rule update_bucket [OF inv hc f(2) _ _ m _ ok', of _ "num_items t"])
    show "t' = t\<lparr>buckets := (buckets t)[unat b := c], num_items := num_items t\<rparr>"
      by (simp add: t' c_def)
    show "unat (bucket_of (item_hash x) (num_buckets t)) = unat b" if "x \<in> set c" for x
    proof -
      have "it \<in> set (buckets t ! unat b)" using fi by auto
      moreover have "x = it\<lparr>item_data := d\<rparr> \<or> x \<in> set (buckets t ! unat b)"
        using that set_update_subset_insert [of "buckets t ! unat b" p] by (auto simp: c_def)
      ultimately show ?thesis using chain_hash [OF inv f(2)] by auto
    qed
    show "unat (num_items t) = length its"
      using inv mem length_pos_if_in_set [OF mem] by (simp add: lh_inv_def its_def length_remove1)
  qed
  moreover from this have "set (lh_items t') = insert (it\<lparr>item_data := d\<rparr>) (set (lh_items t) - {it})"
    using rest by (metis its_def list.simps(15) mset_eq_setD)
  then have "lh_elems t' = insert d (set_remove eq (lh_elems t) d)"
    using others eqd by (auto simp: lh_elems_def set_remove_def)
  ultimately show ?thesis by simp
qed

lemma insert_adds:
  assumes inv: "lh_inv ch cf t" and hc: "ch (lh_hash t) = h" "cf (lh_comp t) = eq"
    and g: "get_next_ptr_and_hash ch cf t d = (b, p, k)" and none: "item_at t b p = None"
    and node: "node \<noteq> 0" "node \<notin> item_addr ` set (lh_items t)"
    and t': "t' = t\<lparr>buckets := (buckets t)[unat b := buckets t ! unat b @
               [\<lparr>item_addr = node, item_data = d, item_hash = k\<rparr>]], num_items := num_items t + 1\<rparr>"
  shows "lh_inv ch cf t' \<and> lh_elems t' = insert d (set_remove eq (lh_elems t) d)"
proof -
  note f = found [OF inv hc g]
  define it where "it = \<lparr>item_addr = node, item_data = d, item_hash = k\<rparr>"
  have ok: "items_ok h eq (lh_items t)" using inv hc by (simp add: lh_inv_def)
  have none': "eq (item_data x) d \<noteq> 0" if "x \<in> set (lh_items t)" for x
    using f(5) [OF none] that by (simp add: lh_elems_def)
  have ok': "items_ok h eq (it # lh_items t)"
    unfolding items_ok_Cons using ok node none' f(1) by (simp add: it_def)
  have "lh_inv ch cf t' \<and> mset (lh_items t') = mset (it # lh_items t)"
  proof (rule update_bucket [OF inv hc f(2) _ _ _ _ ok'])
    show "t' = t\<lparr>buckets := (buckets t)[unat b := buckets t ! unat b @ [it]],
        num_items := num_items t + 1\<rparr>"
      by (simp add: t' it_def)
    show "unat (bucket_of (item_hash x) (num_buckets t)) = unat b"
      if "x \<in> set (buckets t ! unat b @ [it])" for x
      using that chain_hash [OF inv f(2)] f(1,3) by (auto simp: it_def)
    show "mset (buckets t ! unat b @ [it]) + mset (lh_items t) =
        mset (buckets t ! unat b) + mset (it # lh_items t)" by simp
    have "Suc (length (lh_items t)) < 2 ^ 64" using items_ok_length [OF ok'] by simp
    then show "unat (num_items t + 1) = length (it # lh_items t)"
      using inv by (simp add: lh_inv_def unat_word_ariths)
  qed
  moreover from this have "set (lh_items t') = insert it (set (lh_items t))"
    by (metis list.simps(15) mset_eq_setD)
  then have "lh_elems t' = insert d (set_remove eq (lh_elems t) d)"
    using none' by (auto simp: lh_elems_def set_remove_def it_def)
  ultimately show ?thesis by simp
qed

end

context lh_keys
begin

lemma delete_removes:
  assumes inv: "lh_inv ch cf t" and hc: "ch (lh_hash t) = h" "cf (lh_comp t) = eq"
    and g: "get_next_ptr_and_hash ch cf t d = (b, p, k)" and it: "item_at t b p = Some it"
    and t': "t' = t\<lparr>buckets := (buckets t)[unat b := take p (buckets t ! unat b) @
               drop (Suc p) (buckets t ! unat b)], num_items := num_items t - 1\<rparr>"
  shows "lh_inv ch cf t' \<and> mset (lh_items t') = mset (remove1 it (lh_items t)) \<and>
    lh_elems t' = set_remove eq (lh_elems t) d"
proof -
  note f = found [OF inv hc g]
  note fi = f(4) [OF it]
  have ok: "items_ok h eq (lh_items t)" using inv hc by (simp add: lh_inv_def)
  have mem: "it \<in> set (lh_items t)" and eqd: "eq (item_data it) d = 0" using fi by blast+
  have dist: "distinct (lh_items t)" by (rule items_ok_distinct [OF ok])
  have others: "eq (item_data x) d \<noteq> 0" if "x \<in> set (lh_items t)" "x \<noteq> it" for x
    using ok that mem eqd eq_trans [of "item_data x" d "item_data it"] eq_sym
    unfolding items_ok_def by metis
  have len: "unat (num_items t) = length (lh_items t)" using inv by (simp add: lh_inv_def)
  have pos: "0 < length (lh_items t)" using mem by (cases "lh_items t") auto
  have "lh_inv ch cf t' \<and> mset (lh_items t') = mset (remove1 it (lh_items t))"
  proof (rule update_bucket [OF inv hc f(2) t' _ _ _ items_ok_remove1 [OF ok]])
    show "unat (bucket_of (item_hash x) (num_buckets t)) = unat b"
      if "x \<in> set (take p (buckets t ! unat b) @ drop (Suc p) (buckets t ! unat b))" for x
      using that chain_hash [OF inv f(2)] by (auto dest: in_set_takeD in_set_dropD)
    show "mset (take p (buckets t ! unat b) @ drop (Suc p) (buckets t ! unat b)) +
        mset (lh_items t) = mset (buckets t ! unat b) + mset (remove1 it (lh_items t))"
    proof -
      have "mset (lh_items t) = add_mset it (mset (remove1 it (lh_items t)))" using mem by simp
      moreover have "mset (buckets t ! unat b) =
          add_mset it (mset (take p (buckets t ! unat b) @ drop (Suc p) (buckets t ! unat b)))"
        using mset_chain_update(2) [of p "buckets t ! unat b"] fi by (metis add_mset_add_single)
      ultimately show ?thesis by (simp del: mset_append)
    qed
    show "unat (num_items t - 1) = length (remove1 it (lh_items t))"
    proof -
      have "1 \<le> num_items t" using len pos by (simp add: word_le_nat_alt Suc_le_eq)
      then show ?thesis using len mem by (simp add: unat_sub length_remove1)
    qed
  qed
  moreover from this have "set (lh_items t') = set (lh_items t) - {it}"
    using set_remove1_eq [OF dist] by (metis mset_eq_setD)
  then have "lh_elems t' = set_remove eq (lh_elems t) d"
    using others eqd by (auto simp: lh_elems_def set_remove_def)
  ultimately show ?thesis by simp
qed

lemma resized:
  assumes "lh_inv ch cf t'" and "same_handles t' t"
  shows "lh_inv ch cf (lh_maybe_resize alloc t')" "same_handles (lh_maybe_resize alloc t') t"
    "lh_elems (lh_maybe_resize alloc t') = lh_elems t'"
    "mset (lh_items (lh_maybe_resize alloc t')) = mset (lh_items t')"
    "num_items (lh_maybe_resize alloc t') = num_items t'"
  using resize_inv [OF assms(1), of alloc] assms(2)
    same_items_elems [of "lh_maybe_resize alloc t'" t']
  by (simp_all add: same_items_def same_handles_def)

text \<open>The two operations as a whole, on every branch.\<close>

lemma insert_set:
  assumes inv: "lh_inv ch cf t" and hc: "ch (lh_hash t) = h" "cf (lh_comp t) = eq"
    and node: "node \<notin> item_addr ` set (lh_items t)"
    and r: "lh_insert ch cf alloc node t d = (t', old, ok)"
  shows "lh_inv ch cf t'" "same_handles t' t" "set_lookup eq (lh_elems t) d old"
    "ok \<longleftrightarrow> old \<noteq> None \<or> node \<noteq> 0"
    "lh_elems t' = (if ok then insert d (set_remove eq (lh_elems t) d) else lh_elems t)"
proof -
  obtain b p k where g: "get_next_ptr_and_hash ch cf t d = (b, p, k)" by (metis prod_cases3)
  note f = found [OF inv hc g]
  have "lh_inv ch cf t' \<and> same_handles t' t \<and> set_lookup eq (lh_elems t) d old \<and>
    (ok \<longleftrightarrow> old \<noteq> None \<or> node \<noteq> 0) \<and>
    lh_elems t' = (if ok then insert d (set_remove eq (lh_elems t) d) else lh_elems t)"
  proof (cases "item_at t b p")
    case None
    have look: "set_lookup eq (lh_elems t) d None" using f(5) [OF None] by (simp add: set_lookup_def)
    show ?thesis
    proof (cases "node = 0")
      case True
      then show ?thesis using r g None inv look by (simp add: lh_insert_def)
    next
      case False
      define t1 where "t1 = t\<lparr>buckets := (buckets t)[unat b := buckets t ! unat b @
        [\<lparr>item_addr = node, item_data = d, item_hash = k\<rparr>]], num_items := num_items t + 1\<rparr>"
      have res: "t' = lh_maybe_resize alloc t1" "old = None" "ok"
        using r g None False by (simp_all add: lh_insert_def t1_def Let_def)
      note t1 = insert_adds [OF inv hc g None False node t1_def]
      have "same_handles t1 t" by (simp add: t1_def same_handles_def)
      with t1 show ?thesis using resized [of ch cf t1 t alloc] res look False by simp
    qed
  next
    case (Some it)
    note t1 = insert_replaces [OF inv hc g Some refl]
    have res: "t' = t\<lparr>buckets := (buckets t)[unat b := (buckets t ! unat b)[p := it\<lparr>item_data := d\<rparr>]]\<rparr>"
        "old = Some (item_data it)" "ok"
      using r g Some by (simp_all add: lh_insert_def Let_def)
    have "set_lookup eq (lh_elems t) d old"
      using f(4) [OF Some] res(2) by (simp add: set_lookup_def lh_elems_def) blast
    with t1 res show ?thesis by (simp add: same_handles_def)
  qed
  then show "lh_inv ch cf t'" "same_handles t' t" "set_lookup eq (lh_elems t) d old"
    "ok \<longleftrightarrow> old \<noteq> None \<or> node \<noteq> 0"
    "lh_elems t' = (if ok then insert d (set_remove eq (lh_elems t) d) else lh_elems t)"
    by blast+
qed

lemma delete_set:
  assumes inv: "lh_inv ch cf t" and hc: "ch (lh_hash t) = h" "cf (lh_comp t) = eq"
    and r: "lh_delete ch cf alloc t d = (t', old)"
  shows "lh_inv ch cf t'" "same_handles t' t" "set_lookup eq (lh_elems t) d old"
    "lh_elems t' = set_remove eq (lh_elems t) d"
    "set (lh_items t') \<subseteq> set (lh_items t)"
proof -
  obtain b p k where g: "get_next_ptr_and_hash ch cf t d = (b, p, k)" by (metis prod_cases3)
  note f = found [OF inv hc g]
  have "lh_inv ch cf t' \<and> same_handles t' t \<and> set_lookup eq (lh_elems t) d old \<and>
    lh_elems t' = set_remove eq (lh_elems t) d \<and> set (lh_items t') \<subseteq> set (lh_items t)"
  proof (cases "item_at t b p")
    case None
    then have "t' = t" "old = None" using r g by (simp_all add: lh_delete_def)
    moreover have "set_lookup eq (lh_elems t) d None" "set_remove eq (lh_elems t) d = lh_elems t"
      using f(5) [OF None] by (auto simp: set_lookup_def set_remove_def)
    ultimately show ?thesis using inv by simp
  next
    case (Some it)
    define t1 where "t1 = t\<lparr>buckets := (buckets t)[unat b := take p (buckets t ! unat b) @
               drop (Suc p) (buckets t ! unat b)], num_items := num_items t - 1\<rparr>"
    have res: "t' = lh_maybe_resize alloc t1" "old = Some (item_data it)"
      using r g Some by (simp_all add: lh_delete_def t1_def Let_def)
    note t1 = delete_removes [OF inv hc g Some t1_def]
    have "same_handles t1 t" by (simp add: t1_def same_handles_def)
    moreover have "set_lookup eq (lh_elems t) d old"
      using f(4) [OF Some] res(2) by (simp add: set_lookup_def lh_elems_def) blast
    moreover have "set (lh_items t1) \<subseteq> set (lh_items t)"
      using t1 set_remove1_subset by (metis mset_eq_setD)
    ultimately show ?thesis using t1 resized [of ch cf t1 t alloc] res by (metis mset_eq_setD)
  qed
  then show "lh_inv ch cf t'" "same_handles t' t" "set_lookup eq (lh_elems t) d old"
    "lh_elems t' = set_remove eq (lh_elems t) d" "set (lh_items t') \<subseteq> set (lh_items t)"
    by blast+
qed

end

subsection \<open>Iteration with a callback that deletes\<close>

text \<open>
  The callback of a cache flush: it updates its own state by \<open>g\<close> for every element and deletes
  the element it is called on when \<open>P\<close> holds of it.
\<close>

definition sweep ::
  "('d, 'h) hash_caller \<Rightarrow> ('d, 'f) eq_caller \<Rightarrow> (u64 \<Rightarrow> bool) \<Rightarrow> ('d \<Rightarrow> bool) \<Rightarrow> ('s \<Rightarrow> 'd \<Rightarrow> 's) \<Rightarrow>
   ('d, 'h, 'f, 's) doall_func" where
  "sweep ch cf alloc P g d t s =
     Some (if P d then fst (lh_delete ch cf alloc t d) else t, g s d)"

abbreviation kept :: "('d \<Rightarrow> bool) \<Rightarrow> 'd lhash_item list \<Rightarrow> 'd lhash_item list" where
  "kept P c \<equiv> filter (\<lambda>it. \<not> P (item_data it)) c"

lemma chain_deref_None: "a \<notin> item_addr ` set c \<Longrightarrow> chain_deref a c = None"
  by (induction c) auto

lemma chain_deref_at:
  "distinct (map item_addr (xs @ it # ys)) \<Longrightarrow>
   chain_deref (item_addr it) (xs @ it # ys) = Some (item_data it, chain_head ys)"
  by (induction xs) auto

lemma chain_mem: "b < length bs \<Longrightarrow> bs ! b = xs @ it # ys \<Longrightarrow> it \<in> set (concat bs)"
  using nth_mem [of b bs] by (auto intro!: bexI [of _ "bs ! b"])

lemma item_deref_at:
  assumes "distinct (map item_addr (concat bs))" and "b < length bs" and "bs ! b = xs @ it # ys"
  shows "item_deref (item_addr it) bs = Some (item_data it, chain_head ys)"
  using assms
proof (induction bs arbitrary: b)
  case (Cons c bs)
  show ?case
  proof (cases b)
    case 0
    then show ?thesis using Cons.prems chain_deref_at [of xs it ys] by simp
  next
    case (Suc b')
    have "it \<in> set (concat bs)" using Cons.prems Suc chain_mem [of b' bs xs it ys] by simp
    then have "item_addr it \<notin> item_addr ` set c" using Cons.prems(1) by auto
    then have "chain_deref (item_addr it) c = None" by (rule chain_deref_None)
    then show ?thesis using Cons Suc by simp
  qed
qed simp

lemma maybe_resize_iterating [simp]: "0 < callback_depth t \<Longrightarrow> lh_maybe_resize alloc t = t"
  by (simp add: lh_maybe_resize_def)

context lh_keys
begin

lemma delete_exact:
  assumes inv: "lh_inv ch cf t" and hc: "ch (lh_hash t) = h" "cf (lh_comp t) = eq"
    and cd: "0 < callback_depth t" and b: "b < length (buckets t)"
    and chain: "buckets t ! b = xs @ it # ys"
  shows "fst (lh_delete ch cf alloc t (item_data it)) =
    t\<lparr>buckets := (buckets t)[b := xs @ ys], num_items := num_items t - 1\<rparr>"
proof -
  obtain b' p k where g: "get_next_ptr_and_hash ch cf t (item_data it) = (b', p, k)"
    by (metis prod_cases3)
  note f = found [OF inv hc g]
  have ok: "items_ok h eq (lh_items t)" using inv hc by (simp add: lh_inv_def)
  have it: "it \<in> set (buckets t ! b)" using chain by simp
  then have mem: "it \<in> set (lh_items t)" using b by (auto simp: lh_items_def intro!: bexI [of _ "buckets t ! b"])
  have b': "unat b' = b"
    using chain_hash [OF inv b it] items_hash(1) [OF inv hc(1) mem] f(3) by simp
  have "lh_elems t \<noteq> {} \<and> \<not> (\<forall>x \<in> lh_elems t. eq x (item_data it) \<noteq> 0)"
    using mem eq_refl [of "item_data it"] by (auto simp: lh_elems_def)
  then obtain it' where it': "item_at t b' p = Some it'" using f(5) by (cases "item_at t b' p") auto
  have "it' = it" and p: "p < length (buckets t ! b)" and at: "buckets t ! b ! p = it'"
    using f(4) [OF it'] ok mem b' by (auto simp: items_ok_def)
  have dist: "distinct (buckets t ! b)"
  proof -
    have "distinct (concat (buckets t))" using items_ok_distinct [OF ok] by (simp add: lh_items_def)
    then show ?thesis using b by (simp add: distinct_concat_iff)
  qed
  have "p = length xs"
    using dist p at \<open>it' = it\<close> chain nth_eq_iff_index_eq [of "buckets t ! b" p "length xs"] by simp
  then show ?thesis using g it' b' chain cd by (simp add: lh_delete_def Let_def)
qed

lemma sweep_chain:
  assumes "lh_inv ch cf t" and "ch (lh_hash t) = h" "cf (lh_comp t) = eq" and "0 < callback_depth t"
    and "b < length (buckets t)" and "buckets t ! b = xs @ rest" and "length rest < k"
  shows "\<exists>t'. doall_chain (sweep ch cf alloc P g) k (chain_head rest) t s =
      Some (t', foldl g s (map item_data rest)) \<and> lh_inv ch cf t' \<and> same_handles t' t \<and>
    buckets t' = (buckets t)[b := xs @ kept P rest] \<and> num_buckets t' = num_buckets t"
  using assms
proof (induction rest arbitrary: t s xs k)
  case Nil
  moreover have "(buckets t)[b := xs] = buckets t"
    using Nil.prems(6) by (metis append_Nil2 list_update_id)
  ultimately show ?case by (cases k) (simp_all add: chain_head_def)
next
  case (Cons it rest)
  obtain k' where k: "k = Suc k'" "length rest < k'" using Cons.prems(7) by (cases k) auto
  have ok: "items_ok h eq (lh_items t)" using Cons.prems(1-3) by (simp add: lh_inv_def)
  have dist: "distinct (map item_addr (concat (buckets t)))"
    using ok by (simp add: items_ok_def lh_items_def)
  have deref: "item_deref (item_addr it) (buckets t) = Some (item_data it, chain_head rest)"
    by (rule item_deref_at [OF dist Cons.prems(5,6)])
  have mem: "it \<in> set (lh_items t)"
    using chain_mem [OF Cons.prems(5,6)] by (simp add: lh_items_def)
  have addr: "chain_head (it # rest) = item_addr it" "item_addr it \<noteq> 0"
    using items_hash(2) [OF Cons.prems(1,2) mem] by (simp_all add: chain_head_def)
  define t1 where "t1 = (if P (item_data it) then fst (lh_delete ch cf alloc t (item_data it)) else t)"
  define xs' where "xs' = (if P (item_data it) then xs else xs @ [it])"
  have t1: "buckets t1 = (buckets t)[b := xs' @ rest] \<and> num_buckets t1 = num_buckets t"
  proof (cases "P (item_data it)")
    case True
    then show ?thesis using delete_exact [OF Cons.prems(1-6)] by (simp add: t1_def xs'_def)
  next
    case False
    then show ?thesis using Cons.prems(6) by (simp add: t1_def xs'_def) (metis list_update_id)
  qed
  have inv1: "lh_inv ch cf t1 \<and> same_handles t1 t"
    using delete_set(1,2) [OF Cons.prems(1-3), of alloc "item_data it"] Cons.prems(1)
    by (cases "lh_delete ch cf alloc t (item_data it)") (simp add: t1_def)
  then have pre: "lh_inv ch cf t1" "ch (lh_hash t1) = h" "cf (lh_comp t1) = eq" "0 < callback_depth t1"
    using Cons.prems(2-4) by (simp_all add: same_handles_def)
  have at: "b < length (buckets t1)" "buckets t1 ! b = xs' @ rest" using t1 Cons.prems(5) by simp_all
  obtain t' where t': "doall_chain (sweep ch cf alloc P g) k' (chain_head rest) t1 (g s (item_data it)) =
      Some (t', foldl g (g s (item_data it)) (map item_data rest))"
      "lh_inv ch cf t'" "same_handles t' t1" "buckets t' = (buckets t1)[b := xs' @ kept P rest]"
      "num_buckets t' = num_buckets t1"
    using Cons.IH [OF pre at k(2), of "g s (item_data it)"] by blast
  have "doall_chain (sweep ch cf alloc P g) k (chain_head (it # rest)) t s =
      Some (t', foldl g s (map item_data (it # rest)))"
    using t'(1) by (simp add: k(1) addr deref sweep_def flip: t1_def)
  moreover have "buckets t' = (buckets t)[b := xs @ kept P (it # rest)]"
    using t'(4) t1 by (simp add: xs'_def)
  moreover have "same_handles t' t" using t'(3) inv1 by (simp add: same_handles_def)
  ultimately show ?case using t' t1 by simp
qed

end

context lh_keys
begin

lemma sweep_buckets:
  assumes "lh_inv ch cf t" and "ch (lh_hash t) = h" "cf (lh_comp t) = eq" and "0 < callback_depth t"
    and "i \<le> num_buckets t"
    and "unat (num_buckets t) - unat i + length (concat (drop (unat i) (buckets t))) < k"
  shows "\<exists>t'. doall_buckets (sweep ch cf alloc P g) k i t s =
      Some (t', foldl g s (map item_data (concat (drop (unat i) (buckets t))))) \<and>
    lh_inv ch cf t' \<and> same_handles t' t \<and> num_buckets t' = num_buckets t \<and>
    buckets t' = take (unat i) (buckets t) @ map (kept P) (drop (unat i) (buckets t))"
  using assms
proof (induction k arbitrary: i t s)
  case (Suc k)
  have len: "length (buckets t) = unat (num_buckets t)" using Suc.prems(1) by (simp add: lh_inv_def bucketed_def)
  show ?case
  proof (cases "num_buckets t \<le> i")
    case True
    then have "unat i = length (buckets t)" using Suc.prems(5) len by simp
    then show ?thesis using True Suc.prems(1) by simp
  next
    case False
    then have i: "unat i < length (buckets t)" by (simp add: len word_less_nat_alt not_le)
    have "Suc (unat i) < 2 ^ 64"
      using i len unat_word64_lt [of "num_buckets t"] by (simp add: len)
    then have i1: "unat (i + 1) = Suc (unat i)" by (simp add: unat_word_ariths)
    then have i2: "i + 1 \<le> num_buckets t" using i len by (simp add: word_le_nat_alt)
    define c where "c = buckets t ! unat i"
    have drop: "drop (unat i) (buckets t) = c # drop (Suc (unat i)) (buckets t)"
      using i by (simp add: c_def Cons_nth_drop_Suc)
    have kc: "length c < k" using Suc.prems(6) i len by (simp add: drop)
    obtain t1 where t1: "doall_chain (sweep ch cf alloc P g) k (chain_head c) t s =
          Some (t1, foldl g s (map item_data c))" "lh_inv ch cf t1" "same_handles t1 t"
        "buckets t1 = (buckets t)[unat i := kept P c]" "num_buckets t1 = num_buckets t"
      using sweep_chain [OF Suc.prems(1-4) i _ kc, of "[]" alloc P g s] by (auto simp: c_def)
    have drop1: "drop (unat (i + 1)) (buckets t1) = drop (Suc (unat i)) (buckets t)"
      using t1(4) i1 by simp
    have pre: "ch (lh_hash t1) = h" "cf (lh_comp t1) = eq" "0 < callback_depth t1" "i + 1 \<le> num_buckets t1"
      using t1(3,5) Suc.prems(2-4) i2 by (simp_all add: same_handles_def)
    have fuel: "unat (num_buckets t1) - unat (i + 1) + length (concat (drop (unat (i + 1)) (buckets t1))) < k"
      unfolding drop1 using Suc.prems(6) i len i1 t1(5) by (simp add: drop)
    obtain t' where t': "doall_buckets (sweep ch cf alloc P g) k (i + 1) t1 (foldl g s (map item_data c)) =
        Some (t', foldl g (foldl g s (map item_data c))
          (map item_data (concat (drop (Suc (unat i)) (buckets t)))))"
        "lh_inv ch cf t'" "same_handles t' t1" "num_buckets t' = num_buckets t1"
        "buckets t' = take (unat (i + 1)) (buckets t1) @ map (kept P) (drop (Suc (unat i)) (buckets t))"
      using Suc.IH [OF t1(2) pre fuel, of "foldl g s (map item_data c)"] by (auto simp: drop1)
    have "doall_buckets (sweep ch cf alloc P g) (Suc k) i t s =
        Some (t', foldl g s (map item_data (concat (drop (unat i) (buckets t)))))"
      using False t1(1) t'(1) by (simp add: drop flip: c_def)
    moreover have "buckets t' = take (unat i) (buckets t) @ map (kept P) (drop (unat i) (buckets t))"
      using t'(5) t1(4) i by (simp add: drop i1 take_Suc_conv_app_nth)
    moreover have "same_handles t' t" using t'(3) t1(3) by (simp add: same_handles_def)
    ultimately show ?thesis using t' t1 by simp
  qed
qed simp

lemma doall_sweep:
  assumes inv: "lh_inv ch cf t" and hc: "ch (lh_hash t) = h" "cf (lh_comp t) = eq"
    and depth: "callback_depth t < 0xFFFFFFFE"
    and k: "unat (num_buckets t) + length (lh_items t) < k"
  shows "\<exists>t'. lh_doall_arg alloc (sweep ch cf alloc P g) k (Some t) s =
      Some (Some t', foldl g s (map item_data (lh_items t))) \<and>
    lh_inv ch cf t' \<and> same_handles t' t \<and> lh_elems t' = {x \<in> lh_elems t. \<not> P x}"
proof -
  define t1 where "t1 = t\<lparr>callback_depth := callback_depth t + 1\<rparr>"
  have u: "unat (callback_depth t) < 4294967294" using depth by (simp add: word_less_nat_alt)
  then have "unat (callback_depth t + 1) = Suc (unat (callback_depth t))" by (simp add: unat_word_ariths)
  then have d: "callback_depth t < UINT_MAX" "callback_depth t + 1 < UINT_MAX" "0 < callback_depth t + 1"
    using u by (simp_all add: word_less_nat_alt UINT_MAX_def)
  have inv1: "lh_inv ch cf t1" "ch (lh_hash t1) = h" "cf (lh_comp t1) = eq" "0 < callback_depth t1"
    using inv hc d(3) by (simp_all add: t1_def lh_inv_def lh_items_def)
  have k1: "unat (num_buckets t1) - unat 0 + length (concat (drop (unat 0) (buckets t1))) < k"
    using k by (simp add: t1_def lh_items_def)
  obtain t2 where t2: "doall_buckets (sweep ch cf alloc P g) k 0 t1 s =
      Some (t2, foldl g s (map item_data (lh_items t)))" "lh_inv ch cf t2" "same_handles t2 t1"
      "buckets t2 = map (kept P) (buckets t)"
    using sweep_buckets [OF inv1 _ k1, of alloc P g s] by (auto simp: t1_def lh_items_def)
  define t3 where "t3 = t2\<lparr>callback_depth := callback_depth t2 - 1\<rparr>"
  have inv3: "lh_inv ch cf t3" using t2(2) by (simp add: t3_def lh_inv_def lh_items_def)
  have sh: "same_handles t3 t" using t2(3) by (simp add: t3_def t1_def same_handles_def)
  have "lh_items t3 = kept P (lh_items t)"
    using t2(4) by (simp add: t3_def lh_items_def filter_concat)
  then have "lh_elems t3 = {x \<in> lh_elems t. \<not> P x}" by (auto simp: lh_elems_def)
  moreover have "lh_doall_arg alloc (sweep ch cf alloc P g) k (Some t) s =
      Some (Some (lh_maybe_resize alloc t3), foldl g s (map item_data (lh_items t)))"
    using t2(1,3) d by (simp add: lh_doall_arg_def Let_def t3_def t1_def same_handles_def)
  ultimately show ?thesis using resized(1-3) [OF inv3 sh, of alloc] by blast
qed

end

end
