(* ===== verification/Pool.thy ===== *)
theory Pool
  imports LhashSpec
begin

text \<open>
  Pools of reference-counted buffers (\<open>BoringSSL-GRPC/src/crypto/pool/pool.c\<close>), which keep one
  copy of every byte string in use, and the interleavings of threads that share a pool.

  A pointer to a buffer is an address, 0 is \<open>NULL\<close>; \<open>mem\<close> are the buffers that are
  allocated.  The hash table of the pool holds such pointers, and its callbacks read the buffers
  they point to.  \<open>len\<close> is the length of the data.  The addresses \<open>malloc\<close> returns are
  arguments; so is \<open>tmp\<close>, the address of the local buffer of \<open>CRYPTO_BUFFER_new\<close>.
\<close>

record crypto_buffer =
  pooled :: bool
  buf_data :: bytes
  references :: u32

type_synonym buffer_memory = "u64 \<Rightarrow> crypto_buffer option"
type_synonym buffer_table = "(u64, unit, unit) lhash"

record buffer_pool =
  mem :: buffer_memory
  bufs :: buffer_table

subsection \<open>Reference counts\<close>

text \<open>The count saturates: once at its maximum it stays there, and the buffer is never freed.\<close>

definition CRYPTO_REFCOUNT_MAX :: u32 where
  "CRYPTO_REFCOUNT_MAX = 0xFFFFFFFF"

definition CRYPTO_refcount_inc :: "u32 \<Rightarrow> u32" where
  "CRYPTO_refcount_inc c = (if c \<noteq> CRYPTO_REFCOUNT_MAX then c + 1 else c)"

text \<open>\<open>None\<close> is the call of \<open>abort\<close>.\<close>

definition CRYPTO_refcount_dec_and_test_zero :: "u32 \<Rightarrow> (u32 \<times> bool) option" where
  "CRYPTO_refcount_dec_and_test_zero c =
     (if c = 0 then None
      else if c = CRYPTO_REFCOUNT_MAX then Some (c, False)
      else Some (c - 1, c - 1 = 0))"

subsection \<open>Hashing and comparing buffers\<close>

definition CRYPTO_BUFFER_hash :: "crypto_buffer \<Rightarrow> u32" where
  "CRYPTO_BUFFER_hash b = OPENSSL_hash32 (buf_data b)"

definition CRYPTO_BUFFER_cmp :: "crypto_buffer \<Rightarrow> crypto_buffer \<Rightarrow> int" where
  "CRYPTO_BUFFER_cmp a b =
     (if length (buf_data a) \<noteq> length (buf_data b) then 1 else memcmp (buf_data a) (buf_data b))"

text \<open>The callbacks on pointers; a dangling pointer would read an empty buffer.\<close>

definition deref :: "buffer_memory \<Rightarrow> u64 \<Rightarrow> crypto_buffer" where
  "deref m a =
     (case m a of Some b \<Rightarrow> b | None \<Rightarrow> \<lparr>pooled = False, buf_data = [], references = 0\<rparr>)"

definition call_buf_hash :: "buffer_memory \<Rightarrow> (u64, unit) hash_caller" where
  "call_buf_hash m f a = CRYPTO_BUFFER_hash (deref m a)"

definition call_buf_cmp :: "buffer_memory \<Rightarrow> (u64, unit) eq_caller" where
  "call_buf_cmp m f a b = CRYPTO_BUFFER_cmp (deref m a) (deref m b)"

lemma buffer_cmp_iff: "CRYPTO_BUFFER_cmp a b = 0 \<longleftrightarrow> buf_data a = buf_data b"
  by (auto simp: CRYPTO_BUFFER_cmp_def memcmp_eq_0_iff)

interpretation buffers: lh_keys "call_buf_hash m f" "call_buf_cmp m g" for m f g
  by unfold_locales
    (auto simp: call_buf_hash_def call_buf_cmp_def buffer_cmp_iff CRYPTO_BUFFER_hash_def)

subsection \<open>Creating pools and buffers\<close>

definition CRYPTO_BUFFER_POOL_new :: "(u64 \<Rightarrow> bool) \<Rightarrow> bool \<Rightarrow> bool \<Rightarrow> buffer_pool option" where
  "CRYPTO_BUFFER_POOL_new alloc malloc_ok lh_malloc_ok =
     (if \<not> malloc_ok then None
      else case lh_new alloc lh_malloc_ok () () of
             None \<Rightarrow> None
           | Some t \<Rightarrow> Some \<lparr>mem = (\<lambda>_. None), bufs = t\<rparr>)"

definition inc_references :: "buffer_memory \<Rightarrow> u64 \<Rightarrow> buffer_memory" where
  "inc_references m a =
     m(a \<mapsto> (deref m a)\<lparr>references := CRYPTO_refcount_inc (references (deref m a))\<rparr>)"

text \<open>
  \<open>CRYPTO_BUFFER_new\<close> in its three parts: the search under the read lock, the allocation
  without a lock, and the insertion under the write lock.  The result of the first is the
  duplicate, if there is one.
\<close>

definition buffer_lookup :: "u64 \<Rightarrow> buffer_pool \<Rightarrow> bytes \<Rightarrow> buffer_pool \<times> u64 option" where
  "buffer_lookup tmp p data =
     (let m = (mem p)(tmp \<mapsto> \<lparr>pooled = False, buf_data = data, references = 0\<rparr>)
      in case lh_retrieve (call_buf_hash m) (call_buf_cmp m) (bufs p) tmp of
           None \<Rightarrow> (p, None)
         | Some duplicate \<Rightarrow> (p\<lparr>mem := inc_references (mem p) duplicate\<rparr>, Some duplicate))"

definition buffer_make :: "u64 \<Rightarrow> bool \<Rightarrow> bool \<Rightarrow> buffer_pool \<Rightarrow> bytes \<Rightarrow> buffer_pool \<times> bool" where
  "buffer_make buf memdup_ok in_pool p data =
     (if buf = 0 then (p, False)
      else if data \<noteq> [] \<and> \<not> memdup_ok then (p, False)
      else (p\<lparr>mem := (mem p)(buf \<mapsto> \<lparr>pooled = in_pool, buf_data = data, references = 1\<rparr>)\<rparr>, True))"

definition buffer_insert ::
  "(u64 \<Rightarrow> bool) \<Rightarrow> u64 \<Rightarrow> u64 \<Rightarrow> buffer_pool \<Rightarrow> buffer_pool \<times> u64 option" where
  "buffer_insert alloc node buf p =
     (let h = call_buf_hash (mem p); e = call_buf_cmp (mem p);
          (p', inserted, duplicate) =
            (case lh_retrieve h e (bufs p) buf of
               None \<Rightarrow> (case lh_insert h e alloc node (bufs p) buf of
                           (t, old, ok) \<Rightarrow> (p\<lparr>bufs := t\<rparr>, ok, None))
             | Some d \<Rightarrow> (p\<lparr>mem := inc_references (mem p) d\<rparr>, False, Some d))
      in if \<not> inserted then (p'\<lparr>mem := (mem p')(buf := None)\<rparr>, duplicate) else (p', Some buf))"

text \<open>The call as a whole when no other thread comes in between; \<open>None\<close> is \<open>NULL\<close>.\<close>

definition CRYPTO_BUFFER_new ::
  "(u64 \<Rightarrow> bool) \<Rightarrow> u64 \<Rightarrow> u64 \<Rightarrow> u64 \<Rightarrow> bool \<Rightarrow> bool \<Rightarrow> buffer_pool \<Rightarrow> bytes \<Rightarrow>
   buffer_pool \<times> u64 option" where
  "CRYPTO_BUFFER_new alloc tmp buf node memdup_ok in_pool p data =
     (case (if in_pool then buffer_lookup tmp p data else (p, None)) of
        (p', Some duplicate) \<Rightarrow> (p', Some duplicate)
      | (p', None) \<Rightarrow>
          (case buffer_make buf memdup_ok in_pool p' data of
             (p'', False) \<Rightarrow> (p'', None)
           | (p'', True) \<Rightarrow>
               if \<not> in_pool then (p'', Some buf) else buffer_insert alloc node buf p''))"

text \<open>The memory of a buffer from \<open>CRYPTO_BUFFER_alloc\<close> is what \<open>malloc\<close> returned: \<open>junk\<close>.\<close>

definition CRYPTO_BUFFER_alloc :: "u64 \<Rightarrow> bool \<Rightarrow> buffer_pool \<Rightarrow> bytes \<Rightarrow> buffer_pool \<times> u64 option" where
  "CRYPTO_BUFFER_alloc buf data_ok p junk =
     (case buffer_make buf data_ok False p junk of
        (p', False) \<Rightarrow> (p', None)
      | (p', True) \<Rightarrow> (p', Some buf))"

definition CRYPTO_BUFFER_new_from_CBS ::
  "(u64 \<Rightarrow> bool) \<Rightarrow> u64 \<Rightarrow> u64 \<Rightarrow> u64 \<Rightarrow> bool \<Rightarrow> bool \<Rightarrow> buffer_pool \<Rightarrow> bytes \<Rightarrow>
   buffer_pool \<times> u64 option" where
  "CRYPTO_BUFFER_new_from_CBS alloc tmp buf node memdup_ok in_pool p cbs =
     CRYPTO_BUFFER_new alloc tmp buf node memdup_ok in_pool p cbs"

subsection \<open>Sharing, reading and freeing\<close>

definition CRYPTO_BUFFER_up_ref :: "buffer_pool \<Rightarrow> u64 \<Rightarrow> buffer_pool" where
  "CRYPTO_BUFFER_up_ref p a = p\<lparr>mem := inc_references (mem p) a\<rparr>"

definition CRYPTO_BUFFER_data :: "buffer_pool \<Rightarrow> u64 \<Rightarrow> bytes" where
  "CRYPTO_BUFFER_data p a = buf_data (deref (mem p) a)"

definition CRYPTO_BUFFER_len :: "buffer_pool \<Rightarrow> u64 \<Rightarrow> u64" where
  "CRYPTO_BUFFER_len p a = of_nat (length (buf_data (deref (mem p) a)))"

definition CRYPTO_BUFFER_init_CBS :: "buffer_pool \<Rightarrow> u64 \<Rightarrow> bytes" where
  "CRYPTO_BUFFER_init_CBS p a = CRYPTO_BUFFER_data p a"

text \<open>
  Freeing decrements the count, for a pooled buffer under the write lock, and takes the buffer out
  of the table before its memory is released.  \<open>None\<close> is undefined: a pointer that does not
  point to a buffer, the abort of the reference count, or one of the assertions failing.
\<close>

definition CRYPTO_BUFFER_free :: "(u64 \<Rightarrow> bool) \<Rightarrow> buffer_pool \<Rightarrow> u64 \<Rightarrow> buffer_pool option" where
  "CRYPTO_BUFFER_free alloc p a =
     (if a = 0 then Some p
      else case mem p a of
        None \<Rightarrow> None
      | Some b \<Rightarrow>
          (case CRYPTO_refcount_dec_and_test_zero (references b) of
             None \<Rightarrow> None
           | Some (r, zero) \<Rightarrow>
               let p' = p\<lparr>mem := (mem p)(a \<mapsto> b\<lparr>references := r\<rparr>)\<rparr>
               in if \<not> zero then Some p'
                  else if \<not> pooled b then Some (p'\<lparr>mem := (mem p')(a := None)\<rparr>)
                  else (case lh_delete (call_buf_hash (mem p')) (call_buf_cmp (mem p')) alloc
                               (bufs p') a of
                          (t, found) \<Rightarrow>
                            if found = Some a then Some \<lparr>mem = (mem p')(a := None), bufs = t\<rparr>
                            else None)))"

end
