(* ===== verification/PoolSpec.thy ===== *)
theory PoolSpec
  imports Pool
begin

text \<open>
  Threads that share a pool: every step is what a thread does while it holds the lock (or one
  atomic operation), in any order.  The ghost state counts the references a program holds.
\<close>

subsection \<open>The table of a pool in changing memory\<close>

abbreviation table_inv :: "buffer_memory \<Rightarrow> buffer_table \<Rightarrow> bool" where
  "table_inv m t \<equiv> lh_inv (call_buf_hash m) (call_buf_cmp m) t"

text \<open>The callbacks only read the data of the buffers in the table.\<close>

lemma items_ok_cong:
  assumes "\<And>x. x \<in> item_data ` set its \<Longrightarrow> h x = h' x"
    and "\<And>x y. x \<in> item_data ` set its \<Longrightarrow> y \<in> item_data ` set its \<Longrightarrow> eq x y = eq' x y"
  shows "items_ok h eq its \<longleftrightarrow> items_ok h' eq' its"
  using assms by (simp add: items_ok_def)

lemma table_inv_cong:
  assumes "\<And>a. a \<in> lh_elems t \<Longrightarrow> buf_data (deref m' a) = buf_data (deref m a)"
  shows "table_inv m' t \<longleftrightarrow> table_inv m t"
proof -
  have "items_ok (call_buf_hash m' f) (call_buf_cmp m' g) (lh_items t) \<longleftrightarrow>
      items_ok (call_buf_hash m f) (call_buf_cmp m g) (lh_items t)" for f g
    using assms
    by (intro items_ok_cong)
      (auto simp: lh_elems_def call_buf_hash_def call_buf_cmp_def CRYPTO_BUFFER_hash_def
        CRYPTO_BUFFER_cmp_def)
  then show ?thesis by (simp add: lh_inv_def)
qed

lemma table_unique:
  assumes "table_inv m t" and "a \<in> lh_elems t" "b \<in> lh_elems t"
    and "buf_data (deref m a) = buf_data (deref m b)"
  shows "a = b"
  using assms
  by (auto simp: lh_inv_def items_ok_def lh_elems_def call_buf_cmp_def buffer_cmp_iff)

lemma deref_Some [simp]: "m a = Some b \<Longrightarrow> deref m a = b"
  by (simp add: deref_def)

lemma deref_upd [simp]: "deref (m(a \<mapsto> b)) c = (if c = a then b else deref m c)"
  by (simp add: deref_def)

lemma deref_other [simp]: "c \<noteq> a \<Longrightarrow> deref (m(a := x)) c = deref m c"
  by (simp add: deref_def)

lemma inc_references_Some:
  "m a = Some b \<Longrightarrow>
   inc_references m a = m(a \<mapsto> b\<lparr>references := CRYPTO_refcount_inc (references b)\<rparr>)"
  by (simp add: inc_references_def)

lemma deref_inc_data [simp]: "buf_data (deref (inc_references m a) c) = buf_data (deref m c)"
  by (simp add: inc_references_def)

lemma buf_cmp_iff: "call_buf_cmp m f x y = 0 \<longleftrightarrow> buf_data (deref m x) = buf_data (deref m y)"
  by (simp add: call_buf_cmp_def buffer_cmp_iff)

lemma set_lookup_buf:
  "set_lookup (call_buf_cmp m f) S a None \<longleftrightarrow>
     (\<forall>x \<in> S. buf_data (deref m x) \<noteq> buf_data (deref m a))"
  "set_lookup (call_buf_cmp m f) S a (Some x) \<longleftrightarrow>
     x \<in> S \<and> buf_data (deref m x) = buf_data (deref m a)"
  by (simp_all add: set_lookup_def buf_cmp_iff)

subsection \<open>What the operations do to table and memory\<close>

lemma buffer_lookup_cases:
  assumes inv: "table_inv (mem p) (bufs p)" and tmp: "tmp \<notin> lh_elems (bufs p)"
    and r: "buffer_lookup tmp p data = (p', r)"
  obtains (miss) "r = None" "p' = p"
      "\<And>a. a \<in> lh_elems (bufs p) \<Longrightarrow> buf_data (deref (mem p) a) \<noteq> data"
  | (hit) a where "r = Some a" "a \<in> lh_elems (bufs p)" "buf_data (deref (mem p) a) = data"
      "p' = p\<lparr>mem := inc_references (mem p) a\<rparr>"
proof -
  define m where "m = (mem p)(tmp \<mapsto> \<lparr>pooled = False, buf_data = data, references = 0\<rparr>)"
  have agree: "buf_data (deref m a) = buf_data (deref (mem p) a)" if "a \<in> lh_elems (bufs p)" for a
    using that tmp by (auto simp: m_def)
  have "table_inv m (bufs p)" using table_inv_cong [of "bufs p" m "mem p"] agree inv by simp
  note look = buffers.retrieve [OF this refl refl, of tmp]
  have tmp_data: "buf_data (deref m tmp) = data" by (simp add: m_def)
  show thesis
  proof (cases "lh_retrieve (call_buf_hash m) (call_buf_cmp m) (bufs p) tmp")
    case None
    have "buf_data (deref (mem p) a) \<noteq> data" if "a \<in> lh_elems (bufs p)" for a
      using look that agree tmp_data unfolding None set_lookup_buf by simp
    then show ?thesis using r None by (intro miss) (simp_all add: buffer_lookup_def m_def)
  next
    case (Some a)
    have "a \<in> lh_elems (bufs p)" "buf_data (deref (mem p) a) = data"
      using look agree tmp_data unfolding Some set_lookup_buf by auto
    then show ?thesis using r Some by (intro hit [of a]) (simp_all add: buffer_lookup_def m_def)
  qed
qed

lemma buffer_insert_cases:
  assumes inv: "table_inv (mem p) (bufs p)" and a: "a \<notin> lh_elems (bufs p)"
    and node: "node \<notin> item_addr ` set (lh_items (bufs p))"
    and r: "buffer_insert alloc node a p = (p', r)"
  obtains (lost) d where "r = Some d" "d \<in> lh_elems (bufs p)"
      "buf_data (deref (mem p) d) = buf_data (deref (mem p) a)"
      "p' = p\<lparr>mem := (inc_references (mem p) d)(a := None)\<rparr>"
  | (failed) t where "r = None" "table_inv (mem p) t" "lh_elems t = lh_elems (bufs p)" "node = 0"
      "p' = p\<lparr>bufs := t, mem := (mem p)(a := None)\<rparr>"
  | (added) t where "r = Some a" "table_inv (mem p) t" "lh_elems t = insert a (lh_elems (bufs p))"
      "p' = p\<lparr>bufs := t\<rparr>"
proof -
  note look = buffers.retrieve [OF inv refl refl, of a]
  show thesis
  proof (cases "lh_retrieve (call_buf_hash (mem p)) (call_buf_cmp (mem p)) (bufs p) a")
    case (Some d)
    show ?thesis
    proof (rule lost [of d])
      show "d \<in> lh_elems (bufs p)" "buf_data (deref (mem p) d) = buf_data (deref (mem p) a)"
        using look unfolding Some set_lookup_buf by simp_all
    qed (use Some r in \<open>simp_all add: buffer_insert_def Let_def\<close>)
  next
    case None
    obtain t old ok where ins: "lh_insert (call_buf_hash (mem p)) (call_buf_cmp (mem p)) alloc node
        (bufs p) a = (t, old, ok)" by (metis prod_cases3)
    note i = buffers.insert_set [OF inv refl refl node ins]
    have nomatch: "\<And>x. x \<in> lh_elems (bufs p) \<Longrightarrow> call_buf_cmp (mem p) (lh_comp (bufs p)) x a \<noteq> 0"
      using None look by (simp add: set_lookup_def)
    then have old: "old = None" using i(3) by (auto simp: set_lookup_def split: option.splits)
    have same: "set_remove (call_buf_cmp (mem p) (lh_comp (bufs p))) (lh_elems (bufs p)) a =
        lh_elems (bufs p)"
      using nomatch by (auto simp: set_remove_def)
    show ?thesis
    proof (cases ok)
      case True
      then show ?thesis using None ins i(1,5) same r
        by (intro added [of t]) (simp_all add: buffer_insert_def Let_def)
    next
      case False
      then show ?thesis using None ins i(1,4,5) old r
        by (intro failed [of t]) (simp_all add: buffer_insert_def Let_def)
    qed
  qed
qed

lemma buffer_free_cases:
  assumes inv: "table_inv (mem p) (bufs p)" and a: "mem p a = Some b" "a \<noteq> 0"
    and refs: "references b \<noteq> 0" and in_table: "pooled b \<longrightarrow> a \<in> lh_elems (bufs p)"
  obtains (saturated) "references b = CRYPTO_REFCOUNT_MAX" "CRYPTO_BUFFER_free alloc p a = Some p"
  | (shared) "references b \<noteq> CRYPTO_REFCOUNT_MAX" "references b \<noteq> 1"
      "CRYPTO_BUFFER_free alloc p a =
         Some (p\<lparr>mem := (mem p)(a \<mapsto> b\<lparr>references := references b - 1\<rparr>)\<rparr>)"
  | (last) t where "references b = 1" "table_inv (mem p) t"
      "lh_elems t = (if pooled b then lh_elems (bufs p) - {a} else lh_elems (bufs p))"
      "CRYPTO_BUFFER_free alloc p a = Some \<lparr>mem = (mem p)(a := None), bufs = t\<rparr>"
proof -
  consider "references b = CRYPTO_REFCOUNT_MAX" | "references b \<noteq> CRYPTO_REFCOUNT_MAX" "references b \<noteq> 1"
    | "references b = 1" "pooled b" | "references b = 1" "\<not> pooled b"
    by blast
  then show thesis
  proof cases
    case 1
    have "(mem p)(a \<mapsto> b\<lparr>references := CRYPTO_REFCOUNT_MAX\<rparr>) = mem p"
      using a(1) 1 by (metis crypto_buffer.surjective crypto_buffer.update_convs(3) fun_upd_triv)
    then show ?thesis using 1 a refs
      by (intro saturated) (simp_all add: CRYPTO_BUFFER_free_def CRYPTO_refcount_dec_and_test_zero_def)
  next
    case 2
    then show ?thesis using a refs
      by (intro shared) (simp_all add: CRYPTO_BUFFER_free_def CRYPTO_refcount_dec_and_test_zero_def
          flip: eq_diff_eq)
  next
    case 3
    define m where "m = (mem p)(a \<mapsto> b\<lparr>references := 0\<rparr>)"
    have agree: "buf_data (deref m c) = buf_data (deref (mem p) c)" for c
      using a(1) by (simp add: m_def)
    have inv': "table_inv m (bufs p)" using table_inv_cong [of "bufs p" m "mem p"] agree inv by simp
    obtain t found where del: "lh_delete (call_buf_hash m) (call_buf_cmp m) alloc (bufs p) a = (t, found)"
      by force
    note d = buffers.delete_set [OF inv' refl refl del]
    have mem: "a \<in> lh_elems (bufs p)" using in_table 3 by simp
    have match: "call_buf_cmp m (lh_comp (bufs p)) x a = 0 \<longleftrightarrow> x = a" if "x \<in> lh_elems (bufs p)" for x
      using table_unique [OF inv' that mem] by (auto simp: call_buf_cmp_def buffer_cmp_iff)
    then have "found = Some a" using d(3) mem by (auto simp: set_lookup_def split: option.splits)
    moreover have "lh_elems t = lh_elems (bufs p) - {a}"
      using d(4) match by (auto simp: set_remove_def)
    moreover have "table_inv (mem p) t" using table_inv_cong [of t "mem p" m] agree d(1) by simp
    ultimately show ?thesis using 3 a del
      by (intro last [of t]) (simp_all add: CRYPTO_BUFFER_free_def CRYPTO_refcount_dec_and_test_zero_def
          CRYPTO_REFCOUNT_MAX_def flip: m_def, simp add: m_def)
  next
    case 4
    then show ?thesis using a inv
      by (intro last [of "bufs p"])
        (simp_all add: CRYPTO_BUFFER_free_def CRYPTO_refcount_dec_and_test_zero_def CRYPTO_REFCOUNT_MAX_def)
  qed
qed

subsection \<open>Threads\<close>

text \<open>
  Where a thread is in \<open>CRYPTO_BUFFER_new\<close>: not in it, after a search without a hit, or with a
  buffer of its own that is not yet in the table.
\<close>

datatype pool_pc = Outside | Missed bytes | Made u64

record 't pool_world =
  pool :: buffer_pool
  handles :: "u64 \<Rightarrow> nat"
  pc :: "'t \<Rightarrow> pool_pc"

definition world_init :: "buffer_pool \<Rightarrow> 't pool_world" where
  "world_init p = \<lparr>pool = p, handles = (\<lambda>_. 0), pc = (\<lambda>_. Outside)\<rparr>"

abbreviation gain :: "u64 \<Rightarrow> (u64 \<Rightarrow> nat) \<Rightarrow> u64 \<Rightarrow> nat" where
  "gain a hs \<equiv> hs(a := Suc (hs a))"

definition gained :: "u64 option \<Rightarrow> (u64 \<Rightarrow> nat) \<Rightarrow> u64 \<Rightarrow> nat" where
  "gained r hs = (case r of None \<Rightarrow> hs | Some a \<Rightarrow> gain a hs)"

inductive pool_step :: "(u64 \<Rightarrow> bool) \<Rightarrow> 't pool_world \<Rightarrow> 't pool_world \<Rightarrow> bool" for alloc where
  search: "pc w t = Outside \<Longrightarrow> mem (pool w) tmp = None \<Longrightarrow>
    buffer_lookup tmp (pool w) data = (p', r) \<Longrightarrow>
    pool_step alloc w (w\<lparr>pool := p', handles := gained r (handles w),
      pc := (pc w)(t := if r = None then Missed data else Outside)\<rparr>)"
| make: "pc w t = Missed data \<Longrightarrow> mem (pool w) a = None \<Longrightarrow>
    buffer_make a memdup_ok True (pool w) data = (p', ok) \<Longrightarrow>
    pool_step alloc w (w\<lparr>pool := p', pc := (pc w)(t := if ok then Made a else Outside)\<rparr>)"
| publish: "pc w t = Made a \<Longrightarrow> node \<notin> item_addr ` set (lh_items (bufs (pool w))) \<Longrightarrow>
    buffer_insert alloc node a (pool w) = (p', r) \<Longrightarrow>
    pool_step alloc w (w\<lparr>pool := p', handles := gained r (handles w), pc := (pc w)(t := Outside)\<rparr>)"
| standalone: "pc w t = Outside \<Longrightarrow> mem (pool w) a = None \<Longrightarrow>
    buffer_make a memdup_ok False (pool w) data = (p', ok) \<Longrightarrow>
    pool_step alloc w (w\<lparr>pool := p', handles := gained (if ok then Some a else None) (handles w)\<rparr>)"
| share: "0 < handles w a \<Longrightarrow>
    pool_step alloc w (w\<lparr>pool := CRYPTO_BUFFER_up_ref (pool w) a, handles := gain a (handles w)\<rparr>)"
| release: "0 < handles w a \<Longrightarrow> CRYPTO_BUFFER_free alloc (pool w) a = Some p' \<Longrightarrow>
    pool_step alloc w (w\<lparr>pool := p', handles := (handles w)(a := handles w a - 1)\<rparr>)"

inductive_cases pool_stepE: "pool_step alloc w w'"

definition made :: "'t pool_world \<Rightarrow> u64 set" where
  "made w = {a. \<exists>t. pc w t = Made a}"

lemma made_frame [simp]:
  "made (w\<lparr>pool := p\<rparr>) = made w" "made (w\<lparr>handles := hs\<rparr>) = made w"
  by (simp_all add: made_def)

text \<open>The count of a buffer is exact until it saturates.\<close>

definition counted :: "crypto_buffer \<Rightarrow> nat \<Rightarrow> bool" where
  "counted b n \<longleftrightarrow> references b = CRYPTO_REFCOUNT_MAX \<or> unat (references b) = n \<and> 0 < n"

definition buffer_ok :: "'t pool_world \<Rightarrow> u64 \<Rightarrow> bool" where
  "buffer_ok w a \<longleftrightarrow>
     (case mem (pool w) a of
        None \<Rightarrow> handles w a = 0 \<and> a \<notin> made w \<and> a \<notin> lh_elems (bufs (pool w))
      | Some b \<Rightarrow>
          a \<noteq> 0 \<and>
          (if a \<in> made w
           then pooled b \<and> references b = 1 \<and> handles w a = 0 \<and> a \<notin> lh_elems (bufs (pool w))
           else counted b (handles w a) \<and> (a \<in> lh_elems (bufs (pool w)) \<longleftrightarrow> pooled b)))"

definition world_inv :: "'t pool_world \<Rightarrow> bool" where
  "world_inv w \<longleftrightarrow> table_inv (mem (pool w)) (bufs (pool w)) \<and> (\<forall>a. buffer_ok w a) \<and>
     (\<forall>t u a. pc w t = Made a \<longrightarrow> pc w u = Made a \<longrightarrow> t = u)"

lemma world_invD:
  assumes "world_inv w"
  shows "table_inv (mem (pool w)) (bufs (pool w))" "buffer_ok w a"
    "pc w t = Made a \<Longrightarrow> pc w u = Made a \<Longrightarrow> t = u"
  using assms by (auto simp: world_inv_def)

text \<open>A step that leaves a buffer alone leaves its condition alone.\<close>

lemma buffer_ok_same:
  assumes "buffer_ok w a" and "mem (pool w') a = mem (pool w) a" and "handles w' a = handles w a"
    and "a \<in> made w' \<longleftrightarrow> a \<in> made w"
    and "a \<in> lh_elems (bufs (pool w')) \<longleftrightarrow> a \<in> lh_elems (bufs (pool w))"
  shows "buffer_ok w' a"
  using assms by (cases "mem (pool w) a") (simp_all add: buffer_ok_def split: if_splits)

lemma counted_inc:
  assumes "counted b n"
  shows "counted (b\<lparr>references := CRYPTO_refcount_inc (references b)\<rparr>) (Suc n)"
proof (cases "references b = CRYPTO_REFCOUNT_MAX")
  case False
  then have "unat (references b) \<noteq> 4294967295"
    by (auto simp: CRYPTO_REFCOUNT_MAX_def word_unat_eq_iff)
  then have "unat (references b + 1) = Suc (unat (references b))"
    using unat_word32_lt [of "references b"] by (simp add: unat_plus_if')
  then show ?thesis using assms False by (simp add: counted_def CRYPTO_refcount_inc_def)
qed (simp add: counted_def CRYPTO_refcount_inc_def)

lemma counted_dec:
  assumes "counted b n" and "references b \<noteq> CRYPTO_REFCOUNT_MAX" and "references b \<noteq> 1"
  shows "counted (b\<lparr>references := references b - 1\<rparr>) (n - 1)"
proof -
  have "unat (references b) = n" "0 < n" using assms(1,2) by (simp_all add: counted_def)
  moreover from this have "n \<noteq> 1" using assms(3) by (auto simp: word_unat_eq_iff)
  moreover have "1 \<le> references b" using calculation by (simp add: word_le_nat_alt)
  ultimately show ?thesis by (simp add: counted_def unat_sub)
qed

subsection \<open>The invariant is preserved\<close>

lemma handled:
  assumes "world_inv w" and "0 < handles w a"
  obtains b where "mem (pool w) a = Some b" "a \<noteq> 0" "a \<notin> made w" "counted b (handles w a)"
    "a \<in> lh_elems (bufs (pool w)) \<longleftrightarrow> pooled b"
  using world_invD(2) [OF assms(1), of a] assms(2)
  by (cases "mem (pool w) a") (auto simp: buffer_ok_def split: if_splits)

lemma in_table:
  assumes "world_inv w" and "a \<in> lh_elems (bufs (pool w))"
  obtains b where "mem (pool w) a = Some b" "a \<noteq> 0" "a \<notin> made w" "counted b (handles w a)" "pooled b"
  using world_invD(2) [OF assms(1), of a] assms(2)
  by (cases "mem (pool w) a") (auto simp: buffer_ok_def split: if_splits)

text \<open>A reference is added to a buffer that is not private to a thread.\<close>

lemma inc_inv:
  assumes w: "world_inv w" and b: "mem (pool w) a = Some b" "a \<notin> made w"
    and w': "w' = w\<lparr>pool := (pool w)\<lparr>mem := inc_references (mem (pool w)) a\<rparr>,
      handles := gain a (handles w), pc := pcs\<rparr>"
    and pcs: "\<And>t c. pcs t = Made c \<longleftrightarrow> pc w t = Made c"
  shows "world_inv w'"
proof -
  have m: "made w' = made w" using pcs by (simp add: w' made_def)
  have ok: "buffer_ok w' c" for c
  proof (cases "c = a")
    case True
    then show ?thesis using world_invD(2) [OF w, of a] b m
      by (simp add: buffer_ok_def w' inc_references_Some counted_inc)
  next
    case False
    then show ?thesis
      by (intro buffer_ok_same [OF world_invD(2) [OF w]]) (simp_all add: m, simp_all add: w' inc_references_def)
  qed
  have "table_inv (mem (pool w')) (bufs (pool w'))"
    using table_inv_cong [of "bufs (pool w)" "inc_references (mem (pool w)) a" "mem (pool w)"]
      world_invD(1) [OF w] by (simp add: w')
  with ok show ?thesis using world_invD(3) [OF w] pcs by (auto simp: world_inv_def w')
qed

lemma search_inv:
  assumes w: "world_inv w" and t: "pc w t = Outside" and tmp: "mem (pool w) tmp = None"
    and r: "buffer_lookup tmp (pool w) data = (p', r)"
  shows "world_inv (w\<lparr>pool := p', handles := gained r (handles w),
      pc := (pc w)(t := if r = None then Missed data else Outside)\<rparr>)" (is "world_inv ?w")
proof -
  have tmp': "tmp \<notin> lh_elems (bufs (pool w))" using in_table [OF w] tmp by (metis option.distinct(1))
  have pcs: "((pc w)(t := if r = None then Missed data else Outside)) u = Made c \<longleftrightarrow> pc w u = Made c"
    for u c using t by simp
  from world_invD(1) [OF w] tmp' r show ?thesis
  proof (cases rule: buffer_lookup_cases)
    case miss
    have "made ?w = made w" using pcs by (simp add: made_def)
    then have "buffer_ok ?w c" for c
      by (intro buffer_ok_same [OF world_invD(2) [OF w]]) (simp_all add: miss gained_def)
    then show ?thesis using world_invD(1,3) [OF w] miss pcs by (simp add: world_inv_def)
  next
    case (hit a)
    obtain b where b: "mem (pool w) a = Some b" "a \<notin> made w" using in_table [OF w hit(2)] by blast
    show ?thesis by (rule inc_inv [OF w b _ pcs]) (simp add: hit gained_def fun_upd_def)
  qed
qed

lemma made_upd:
  assumes "\<And>d. f t \<noteq> Made d"
  shows "{c. \<exists>u. (f(t := Made a)) u = Made c} = insert a {c. \<exists>u. f u = Made c}"
proof (rule set_eqI)
  fix c
  show "c \<in> {c. \<exists>u. (f(t := Made a)) u = Made c} \<longleftrightarrow> c \<in> insert a {c. \<exists>u. f u = Made c}"
  proof (cases "c = a")
    case True
    have "\<exists>u. (f(t := Made a)) u = Made a" by (rule exI [of _ t]) simp
    with True show ?thesis by (simp del: fun_upd_apply)
  next
    case False
    then have "(f(t := Made a)) u = Made c \<longleftrightarrow> f u = Made c" for u
      using assms [of c] by (cases "u = t") auto
    with False show ?thesis by (simp del: fun_upd_apply)
  qed
qed

lemma table_fresh:
  assumes w: "world_inv w" and a: "mem (pool w) a = None"
  shows "a \<notin> lh_elems (bufs (pool w))" "handles w a = 0" "a \<notin> made w"
    "table_inv ((mem (pool w))(a := x)) (bufs (pool w))"
proof -
  show 1: "a \<notin> lh_elems (bufs (pool w))" and "handles w a = 0" "a \<notin> made w"
    using world_invD(2) [OF w, of a] a by (simp_all add: buffer_ok_def)
  have "buf_data (deref ((mem (pool w))(a := x)) c) = buf_data (deref (mem (pool w)) c)"
    if "c \<in> lh_elems (bufs (pool w))" for c
    using that 1 by (cases "c = a") simp_all
  then show "table_inv ((mem (pool w))(a := x)) (bufs (pool w))"
    using table_inv_cong [of "bufs (pool w)" "(mem (pool w))(a := x)" "mem (pool w)"]
      world_invD(1) [OF w] by blast
qed

lemma make_inv:
  assumes w: "world_inv w" and t: "pc w t = Missed data" and a: "mem (pool w) a = None"
    and r: "buffer_make a memdup_ok True (pool w) data = (p', ok)"
  shows "world_inv (w\<lparr>pool := p', pc := (pc w)(t := if ok then Made a else Outside)\<rparr>)" (is "world_inv ?w")
proof (cases ok)
  case False
  then have p': "p' = pool w" using r by (simp add: buffer_make_def split: if_splits)
  have pcs: "((pc w)(t := Outside)) u = Made c \<longleftrightarrow> pc w u = Made c" for u c using t by simp
  then have "made ?w = made w" using False by (simp add: made_def)
  then have "buffer_ok ?w c" for c
    by (intro buffer_ok_same [OF world_invD(2) [OF w]]) (simp_all add: p')
  then show ?thesis using world_invD(1,3) [OF w] p' pcs False by (simp add: world_inv_def)
next
  case True
  then have p': "a \<noteq> 0"
      "p' = (pool w)\<lparr>mem := (mem (pool w))(a \<mapsto> \<lparr>pooled = True, buf_data = data, references = 1\<rparr>)\<rparr>"
    using r by (simp_all add: buffer_make_def split: if_splits)
  note fresh = table_fresh [OF w a]
  have made: "made ?w = insert a (made w)" using made_upd [of "pc w" t a] t True by (simp add: made_def del: fun_upd_apply)
  have ok: "buffer_ok ?w c" for c
  proof (cases "c = a")
    case True
    then show ?thesis using fresh(1,2) made p' by (simp add: buffer_ok_def)
  next
    case False
    then show ?thesis
      by (intro buffer_ok_same [OF world_invD(2) [OF w]]) (simp_all add: made, simp_all add: p')
  qed
  have "pc w u \<noteq> Made a" for u using fresh(3) by (auto simp: made_def)
  then show ?thesis using ok fresh(4) world_invD(3) [OF w] p' True t
    by (auto simp: world_inv_def)
qed

lemma standalone_inv:
  assumes w: "world_inv w" and a: "mem (pool w) a = None"
    and r: "buffer_make a memdup_ok False (pool w) data = (p', ok)"
  shows "world_inv (w\<lparr>pool := p', handles := gained (if ok then Some a else None) (handles w)\<rparr>)"
    (is "world_inv ?w")
proof (cases ok)
  case False
  then have "p' = pool w" using r by (simp add: buffer_make_def split: if_splits)
  then show ?thesis using w False by (simp add: gained_def)
next
  case True
  then have p': "a \<noteq> 0"
      "p' = (pool w)\<lparr>mem := (mem (pool w))(a \<mapsto> \<lparr>pooled = False, buf_data = data, references = 1\<rparr>)\<rparr>"
    using r by (simp_all add: buffer_make_def split: if_splits)
  note fresh = table_fresh [OF w a]
  have made: "made ?w = made w" by (simp add: made_def)
  have ok: "buffer_ok ?w c" for c
  proof (cases "c = a")
    case True
    then show ?thesis using fresh(1-3) made p' \<open>ok\<close> by (simp add: buffer_ok_def gained_def counted_def)
  next
    case False
    then show ?thesis
      by (intro buffer_ok_same [OF world_invD(2) [OF w]])
        (simp_all add: made, simp_all add: p' gained_def \<open>ok\<close>)
  qed
  then show ?thesis using ok fresh(4) world_invD(3) [OF w] p' by (auto simp: world_inv_def)
qed

text \<open>A buffer goes from memory, and from the table when it is in there.\<close>

lemma removed_inv:
  assumes w: "world_inv w" and t: "table_inv (mem (pool w)) t" "lh_elems t = lh_elems (bufs (pool w)) - {a}"
    and w': "w' = w\<lparr>pool := \<lparr>mem = (mem (pool w))(a := None), bufs = t\<rparr>, handles := (handles w)(a := 0),
      pc := pcs\<rparr>"
    and pcs: "\<And>u c. pcs u = Made c \<longleftrightarrow> pc w u = Made c \<and> c \<noteq> a"
  shows "world_inv w'"
proof -
  have made: "made w' = made w - {a}" using pcs by (auto simp: made_def w')
  have ok: "buffer_ok w' c" for c
  proof (cases "c = a")
    case True
    then show ?thesis using made t(2) by (simp add: buffer_ok_def w')
  next
    case False
    then show ?thesis
      by (intro buffer_ok_same [OF world_invD(2) [OF w]]) (simp_all add: made, simp_all add: w' t(2))
  qed
  have "table_inv ((mem (pool w))(a := None)) t"
    by (subst table_inv_cong [of _ _ "mem (pool w)"]) (use t in auto)
  with ok show ?thesis using world_invD(3) [OF w] pcs by (auto simp: world_inv_def w')
qed

lemma madeD:
  assumes "world_inv w" and "pc w t = Made a"
  obtains b where "mem (pool w) a = Some b" "a \<noteq> 0" "a \<in> made w" "pooled b" "references b = 1"
    "handles w a = 0" "a \<notin> lh_elems (bufs (pool w))"
proof -
  have m: "a \<in> made w" using assms(2) by (auto simp: made_def)
  with world_invD(2) [OF assms(1), of a] show thesis
    using that by (cases "mem (pool w) a") (simp_all add: buffer_ok_def)
qed

lemma publish_inv:
  assumes w: "world_inv w" and t: "pc w t = Made a"
    and node: "node \<notin> item_addr ` set (lh_items (bufs (pool w)))"
    and r: "buffer_insert alloc node a (pool w) = (p', r)"
  shows "world_inv (w\<lparr>pool := p', handles := gained r (handles w), pc := (pc w)(t := Outside)\<rparr>)"
    (is "world_inv ?w")
proof -
  obtain b where b: "mem (pool w) a = Some b" "a \<noteq> 0" "a \<in> made w" "pooled b" "references b = 1"
    "handles w a = 0" "a \<notin> lh_elems (bufs (pool w))"
    using madeD [OF w t] .
  have pcs: "((pc w)(t := Outside)) u = Made c \<longleftrightarrow> pc w u = Made c \<and> c \<noteq> a" for u c
    by (cases "u = t") (use t world_invD(3) [OF w, of t a u] in auto)
  from world_invD(1) [OF w] b(7) node r show ?thesis
  proof (cases rule: buffer_insert_cases)
    case (lost d)
    obtain b' where b': "mem (pool w) d = Some b'" "d \<notin> made w" using in_table [OF w lost(2)] by blast
    then have da: "d \<noteq> a" using b(3) by auto
    define w1 where "w1 = w\<lparr>pool := (pool w)\<lparr>mem := inc_references (mem (pool w)) d\<rparr>,
      handles := gain d (handles w), pc := pc w\<rparr>"
    have w1: "world_inv w1" by (rule inc_inv [OF w b' w1_def refl])
    have elems: "lh_elems (bufs (pool w)) = lh_elems (bufs (pool w1)) - {a}"
      using b(7) by (simp add: w1_def)
    have "table_inv (mem (pool w1)) (bufs (pool w))" using world_invD(1) [OF w1] by (simp add: w1_def)
    moreover have "(gain d (handles w))(a := 0) = gain d (handles w)"
      using da b(6) by (simp add: fun_eq_iff)
    ultimately show ?thesis
      by (intro removed_inv [OF w1 _ elems, of _ "(pc w)(t := Outside)"])
        (use lost(1,4) pcs in \<open>simp_all add: w1_def gained_def\<close>)
  next
    case (failed u)
    have "(handles w)(a := 0) = handles w" using b(6) by (simp add: fun_upd_idem)
    then show ?thesis
      by (intro removed_inv [OF w failed(2), of a _ "(pc w)(t := Outside)"])
        (use failed b(7) pcs in \<open>simp_all add: gained_def\<close>)
  next
    case (added u)
    have made: "made ?w = made w - {a}" using pcs by (auto simp: made_def)
    have ok: "buffer_ok ?w c" for c
    proof (cases "c = a")
      case True
      then show ?thesis using made added b by (simp add: buffer_ok_def gained_def counted_def)
    next
      case False
      then show ?thesis
        by (intro buffer_ok_same [OF world_invD(2) [OF w]])
          (simp_all add: made, simp_all add: added gained_def)
    qed
    then show ?thesis using added(2,4) world_invD(3) [OF w] pcs by (auto simp: world_inv_def)
  qed
qed

lemma release_inv:
  assumes w: "world_inv w" and a: "0 < handles w a" and r: "CRYPTO_BUFFER_free alloc (pool w) a = Some p'"
  shows "world_inv (w\<lparr>pool := p', handles := (handles w)(a := handles w a - 1)\<rparr>)" (is "world_inv ?w")
proof -
  obtain b where b: "mem (pool w) a = Some b" "a \<noteq> 0" "a \<notin> made w" "counted b (handles w a)"
    "a \<in> lh_elems (bufs (pool w)) \<longleftrightarrow> pooled b"
    using handled [OF w a] .
  have "references b \<noteq> 0" using b(4) by (auto simp: counted_def CRYPTO_REFCOUNT_MAX_def)
  have made: "made ?w = made w" by (simp add: made_def)
  have "pooled b \<longrightarrow> a \<in> lh_elems (bufs (pool w))" using b(5) by simp
  with world_invD(1) [OF w] b(1,2) \<open>references b \<noteq> 0\<close> show ?thesis
  proof (cases rule: buffer_free_cases [where alloc = alloc])
    case saturated
    then have p': "p' = pool w" using r by simp
    have "buffer_ok ?w c" for c
    proof (cases "c = a")
      case True
      then show ?thesis using b saturated(1) made p' by (simp add: buffer_ok_def counted_def)
    next
      case False
      then show ?thesis
        by (intro buffer_ok_same [OF world_invD(2) [OF w]]) (simp_all add: made, simp_all add: p')
    qed
    then show ?thesis using world_invD(1,3) [OF w] p' by (simp add: world_inv_def)
  next
    case shared
    then have p': "p' = (pool w)\<lparr>mem := (mem (pool w))(a \<mapsto> b\<lparr>references := references b - 1\<rparr>)\<rparr>"
      using r by simp
    have ok: "buffer_ok ?w c" for c
    proof (cases "c = a")
      case True
      then show ?thesis using b counted_dec [OF b(4) shared(1,2)] made p' by (simp add: buffer_ok_def)
    next
      case False
      then show ?thesis
        by (intro buffer_ok_same [OF world_invD(2) [OF w]]) (simp_all add: made, simp_all add: p')
    qed
    have "table_inv ((mem (pool w))(a \<mapsto> b\<lparr>references := references b - 1\<rparr>)) (bufs (pool w))"
      by (subst table_inv_cong [of _ _ "mem (pool w)"]) (use b(1) world_invD(1) [OF w] in auto)
    with ok show ?thesis using world_invD(3) [OF w] p' by (auto simp: world_inv_def)
  next
    case (last t)
    then have p': "p' = \<lparr>mem = (mem (pool w))(a := None), bufs = t\<rparr>" using r by simp
    have "handles w a = 1" using b(4) last(1) by (simp add: counted_def CRYPTO_REFCOUNT_MAX_def)
    moreover have "lh_elems t = lh_elems (bufs (pool w)) - {a}" using last(3) b(5) by auto
    moreover have "pc w u = Made c \<longleftrightarrow> pc w u = Made c \<and> c \<noteq> a" for u c
      using b(3) by (auto simp: made_def)
    ultimately show ?thesis
      by (intro removed_inv [OF w last(2), of a _ "pc w"]) (simp_all add: p')
  qed
qed

lemma pool_step_inv:
  assumes "world_inv w" and "pool_step alloc w w'"
  shows "world_inv w'"
  using assms(2)
proof (cases rule: pool_step.cases)
  case (share a)
  obtain b where "mem (pool w) a = Some b" "a \<notin> made w" using handled [OF assms(1) share(2)] by blast
  then show ?thesis
    by (rule inc_inv [OF assms(1), of a _ _ "pc w"]) (simp_all add: share CRYPTO_BUFFER_up_ref_def)
next
  case (search t tmp data p' r)
  then show ?thesis using search_inv [OF assms(1)] by simp
next
  case (make t data a memdup_ok p' ok)
  then show ?thesis using make_inv [OF assms(1)] by simp
next
  case (publish t a node p' r)
  then show ?thesis using publish_inv [OF assms(1)] by simp
next
  case (standalone t a memdup_ok data p' ok)
  then show ?thesis using standalone_inv [OF assms(1)] by simp
next
  case (release a p')
  then show ?thesis using release_inv [OF assms(1)] by simp
qed

definition pool_reachable :: "(u64 \<Rightarrow> bool) \<Rightarrow> buffer_pool \<Rightarrow> 't pool_world \<Rightarrow> bool" where
  "pool_reachable alloc p w \<longleftrightarrow> (pool_step alloc)\<^sup>*\<^sup>* (world_init p) w"

lemma lh_new_inv:
  assumes "lh_new alloc ok h f = Some t"
  shows "lh_inv ch cf t" "lh_elems t = {}"
  using assms
  by (auto simp: lh_new_def lh_inv_def lh_items_def lh_elems_def bucketed_def items_ok_def kMinNumBuckets_def
      split: if_splits)

lemma reachable_inv:
  assumes "CRYPTO_BUFFER_POOL_new alloc ok lh_ok = Some p" and "pool_reachable alloc' p w"
  shows "world_inv w"
  using assms(2) unfolding pool_reachable_def
proof (induction rule: rtranclp_induct)
  case base
  obtain t where t: "lh_new alloc lh_ok () () = Some t" "p = \<lparr>mem = \<lambda>_. None, bufs = t\<rparr>"
    using assms(1) by (auto simp: CRYPTO_BUFFER_POOL_new_def split: if_splits option.splits)
  show ?case
    using lh_new_inv [OF t(1)]
    by (simp add: world_inv_def world_init_def t(2) buffer_ok_def made_def)
qed (rule pool_step_inv)

end
