(* ===== verification/PoolProps.thy ===== *)
theory PoolProps
  imports PoolSpec
begin

text \<open>The properties of hash tables and buffer pools.\<close>

subsection \<open>Hash tables\<close>

lemma lh_card:
  assumes "lh_keys (ch (lh_hash t)) (cf (lh_comp t))" and "lh_inv ch cf t"
  shows "unat (lh_num_items t) = card (lh_elems t)"
proof -
  have ok: "items_ok (ch (lh_hash t)) (cf (lh_comp t)) (lh_items t)" using assms(2) by (simp add: lh_inv_def)
  have "inj_on item_data (set (lh_items t))"
    using ok lh_keys.eq_refl [OF assms(1)] by (auto simp: items_ok_def inj_on_def)
  moreover have "distinct (lh_items t)" by (rule items_ok_distinct [OF ok])
  ultimately show ?thesis
    using assms(2) by (simp add: lh_elems_def lh_inv_def lh_num_items_def card_image distinct_card)
qed

text \<open>
  An example: bytes, two of which are equal when they differ in the last bit only, and a table of
  three with a chain of two.
\<close>

definition byte_hash :: "(u8, unit) hash_caller" where
  "byte_hash f x = ucast (x div 2)"

definition byte_cmp :: "(u8, unit) eq_caller" where
  "byte_cmp f x y = uint (x div 2) - uint (y div 2)"

definition byte_table :: "(u8, unit, unit) lhash" where
  "byte_table = \<lparr>num_items = 3,
     buckets = (replicate 16 [])[2 := [\<lparr>item_addr = 8, item_data = 4, item_hash = 2\<rparr>,
         \<lparr>item_addr = 24, item_data = 36, item_hash = 18\<rparr>],
       5 := [\<lparr>item_addr = 16, item_data = 11, item_hash = 5\<rparr>]],
     num_buckets = 16, callback_depth = 0, lh_comp = (), lh_hash = ()\<rparr>"

interpretation byte_keys: lh_keys "byte_hash f" "byte_cmp g" for f g
  by unfold_locales (auto simp: byte_hash_def byte_cmp_def dest: unsigned_word_eqI)

lemma byte_table_inv: "lh_inv byte_hash byte_cmp byte_table"
  by code_simp

text \<open>C10: A hash table is a set with at most one element of each class of equal elements, whatever
  its chains and however often it was resized: in every table that satisfies the invariant, for a hash
  and a comparison that fit together, retrieval finds the element equal to the key; insertion replaces
  that element and returns it, or adds a new one, and fails only when a new one cannot be allocated,
  leaving the set alone; deletion removes the element and returns it; all keep the invariant, and the
  number of items is exact.\<close>

theorem lh_refines_set:
  fixes t :: "('d, 'h, 'f) lhash"
  assumes "lh_keys (ch (lh_hash t)) (cf (lh_comp t))" and "lh_inv ch cf t"
    and "node \<notin> item_addr ` set (lh_items t)"
  shows "set_lookup (cf (lh_comp t)) (lh_elems t) d (lh_retrieve ch cf t d) \<and>
    lh_retrieve_key t d (ch (lh_hash t) d) (\<lambda>key x. cf (lh_comp t) x key) = lh_retrieve ch cf t d \<and>
    unat (lh_num_items t) = card (lh_elems t) \<and>
    (case lh_insert ch cf alloc node t d of (t', old, ok) \<Rightarrow>
       lh_inv ch cf t' \<and> same_handles t' t \<and> old = lh_retrieve ch cf t d \<and>
       (ok \<longleftrightarrow> old \<noteq> None \<or> node \<noteq> 0) \<and>
       lh_elems t' = (if ok then insert d (set_remove (cf (lh_comp t)) (lh_elems t) d) else lh_elems t)) \<and>
    (case lh_delete ch cf alloc t d of (t', old) \<Rightarrow>
       lh_inv ch cf t' \<and> same_handles t' t \<and> old = lh_retrieve ch cf t d \<and>
       lh_elems t' = set_remove (cf (lh_comp t)) (lh_elems t) d)"
proof -
  obtain b p k where g: "get_next_ptr_and_hash ch cf t d = (b, p, k)" by (metis prod_cases3)
  obtain t1 old1 ok where ins: "lh_insert ch cf alloc node t d = (t1, old1, ok)" by (metis prod_cases3)
  obtain t2 old2 where del: "lh_delete ch cf alloc t d = (t2, old2)" by force
  have "old1 = lh_retrieve ch cf t d" "old2 = lh_retrieve ch cf t d"
    using ins del g
    by (auto simp: lh_insert_def lh_delete_def lh_retrieve_def Let_def split: option.splits if_splits)
  moreover have "lh_retrieve_key t d (ch (lh_hash t) d) (\<lambda>key x. cf (lh_comp t) x key) = lh_retrieve ch cf t d"
    by (simp add: lh_retrieve_def lh_retrieve_key_def get_next_ptr_and_hash_def get_next_ptr_by_key_def Let_def)
  ultimately show ?thesis
    using lh_keys.retrieve [OF assms(1,2) refl refl, of d] lh_card [OF assms(1,2)]
      lh_keys.insert_set [OF assms(1,2) refl refl assms(3) ins]
      lh_keys.delete_set [OF assms(1,2) refl refl del]
    by (simp add: ins del)
qed

lemma lh_refines_set_witness:
  "lh_retrieve byte_hash byte_cmp byte_table 37 = Some 36 \<and>
   (case lh_insert byte_hash byte_cmp (\<lambda>_. True) 32 byte_table 37 of
      (t', old, ok) \<Rightarrow> lh_inv byte_hash byte_cmp t' \<and> old = Some 36 \<and> ok)"
proof -
  have fresh: "32 \<notin> item_addr ` set (lh_items byte_table)" by code_simp
  have r: "lh_retrieve byte_hash byte_cmp byte_table 37 = Some 36" by code_simp
  then show ?thesis
    using lh_refines_set [OF byte_keys.lh_keys_axioms byte_table_inv fresh, of 37 "\<lambda>_. True"]
    by (simp add: split: prod.splits)
qed

text \<open>C15: Going through a table visits every element exactly once, also while the callback deletes:
  with a callback that deletes the elements \<open>P\<close> holds of, \<open>lh_doall_arg\<close> returns, the
  callback was called on the elements of the table in their order, and the elements left are those
  without \<open>P\<close>.  As many steps of the two loops as there are
  buckets and items are enough.\<close>

theorem lh_doall_sweep:
  fixes t :: "('d, 'h, 'f) lhash"
  assumes "lh_keys (ch (lh_hash t)) (cf (lh_comp t))" and "lh_inv ch cf t"
    and "callback_depth t < 0xFFFFFFFE" and "unat (num_buckets t) + length (lh_items t) < k"
  shows "\<exists>t'. lh_doall_arg alloc (sweep ch cf alloc P g) k (Some t) s =
      Some (Some t', foldl g s (map item_data (lh_items t))) \<and>
    lh_inv ch cf t' \<and> same_handles t' t \<and> lh_elems t' = {x \<in> lh_elems t. \<not> P x}"
  by (rule lh_keys.doall_sweep [OF assms(1,2) refl refl assms(3,4)])

lemma lh_doall_sweep_witness:
  "\<exists>t'. lh_doall_arg (\<lambda>_. True) (sweep byte_hash byte_cmp (\<lambda>_. True) (\<lambda>x. x < 20) (\<lambda>s x. s @ [x]))
      20 (Some byte_table) [] = Some (Some t', [4, 36, 11]) \<and> lh_elems t' = {36}"
proof -
  have pre: "callback_depth byte_table < 0xFFFFFFFE"
    "unat (num_buckets byte_table) + length (lh_items byte_table) < 20"
    by code_simp+
  have items: "map item_data (lh_items byte_table) = [4, 36, 11]" by code_simp
  have "lh_elems byte_table = {4, 36, 11}" unfolding lh_elems_def set_map [symmetric] items by simp
  then have "{x \<in> lh_elems byte_table. \<not> x < 20} = {36}" by auto
  then show ?thesis
    using lh_doall_sweep [OF byte_keys.lh_keys_axioms byte_table_inv pre, of "\<lambda>_. True" "\<lambda>x. x < 20"
        "\<lambda>s x. s @ [x]" "[]"] items
    by auto
qed

subsection \<open>Buffer pools\<close>

lemma free_defined:
  assumes "world_inv w" and "0 < handles w a"
  shows "CRYPTO_BUFFER_free alloc (pool w) a \<noteq> None"
proof -
  obtain b where b: "mem (pool w) a = Some b" "a \<noteq> 0" "counted b (handles w a)"
    "a \<in> lh_elems (bufs (pool w)) \<longleftrightarrow> pooled b"
    using handled [OF assms] .
  have "references b \<noteq> 0" using b(3) by (auto simp: counted_def CRYPTO_REFCOUNT_MAX_def)
  moreover have "pooled b \<longrightarrow> a \<in> lh_elems (bufs (pool w))" using b(4) by simp
  ultimately show ?thesis
    by (cases rule: buffer_free_cases [OF world_invD(1) [OF assms(1)] b(1,2), where alloc = alloc]) simp_all
qed

lemma interned:
  assumes w: "world_inv w" and "0 < handles w a" "0 < handles w b"
    and "pooled (deref (mem (pool w)) a)" "pooled (deref (mem (pool w)) b)"
    and "CRYPTO_BUFFER_data (pool w) a = CRYPTO_BUFFER_data (pool w) b"
  shows "a = b"
proof -
  have "a \<in> lh_elems (bufs (pool w))" using handled [OF w assms(2)] assms(4) by (metis deref_Some)
  moreover have "b \<in> lh_elems (bufs (pool w))" using handled [OF w assms(3)] assms(5) by (metis deref_Some)
  ultimately show ?thesis using table_unique [OF world_invD(1) [OF w]] assms(6)
    by (simp add: CRYPTO_BUFFER_data_def)
qed

lemma no_leak:
  assumes w: "world_inv w" and "\<And>a. handles w a = 0" and "made w = {}"
    and "\<And>a. references (deref (mem (pool w)) a) \<noteq> CRYPTO_REFCOUNT_MAX"
  shows "mem (pool w) = (\<lambda>_. None) \<and> lh_num_items (bufs (pool w)) = 0"
proof -
  have none: "mem (pool w) a = None" for a
    using world_invD(2) [OF w, of a] assms(2) [of a] assms(3) assms(4) [of a]
    by (cases "mem (pool w) a") (auto simp: buffer_ok_def counted_def)
  then have "lh_elems (bufs (pool w)) = {}"
    using in_table [OF w] by (metis all_not_in_conv option.distinct(1))
  moreover have "unat (num_items (bufs (pool w))) = length (lh_items (bufs (pool w)))"
    using world_invD(1) [OF w] by (simp add: lh_inv_def)
  ultimately show ?thesis using none by (auto simp: lh_num_items_def lh_elems_def unat_eq_0)
qed

lemma step_data:
  assumes w: "world_inv w" and step: "pool_step alloc w w'"
    and a: "0 < handles w a" and a': "0 < handles w' a"
  shows "CRYPTO_BUFFER_data (pool w') a = CRYPTO_BUFFER_data (pool w) a"
proof -
  obtain b where b: "mem (pool w) a = Some b" "a \<noteq> 0" "a \<notin> made w" "counted b (handles w a)"
    "a \<in> lh_elems (bufs (pool w)) \<longleftrightarrow> pooled b"
    using handled [OF w a] .
  show ?thesis
    using step
  proof (cases rule: pool_step.cases)
    case (search t tmp data p' r)
    have "tmp \<notin> lh_elems (bufs (pool w))" using in_table [OF w] search(3) by (metis option.distinct(1))
    from world_invD(1) [OF w] this search(4) show ?thesis
      by (cases rule: buffer_lookup_cases) (simp_all add: search(1) CRYPTO_BUFFER_data_def)
  next
    case (publish t c node p' r)
    have "c \<noteq> a" "c \<notin> lh_elems (bufs (pool w))" using madeD [OF w publish(2)] b(3) by auto
    from world_invD(1) [OF w] this(2) publish(3,4) \<open>c \<noteq> a\<close> show ?thesis
      by (cases rule: buffer_insert_cases) (auto simp: publish(1) CRYPTO_BUFFER_data_def)
  next
    case (release c p')
    obtain d where d: "mem (pool w) c = Some d" "c \<noteq> 0" "counted d (handles w c)"
      "c \<in> lh_elems (bufs (pool w)) \<longleftrightarrow> pooled d"
      using handled [OF w release(2)] .
    note world_invD(1) [OF w] d(1,2)
    moreover have "references d \<noteq> 0" using d(3) by (auto simp: counted_def CRYPTO_REFCOUNT_MAX_def)
    moreover have "pooled d \<longrightarrow> c \<in> lh_elems (bufs (pool w))" using d(4) by simp
    ultimately show ?thesis
    proof (cases rule: buffer_free_cases [where alloc = alloc])
      case (last t)
      have "handles w c = 1" using d(3) last(1) by (simp add: counted_def CRYPTO_REFCOUNT_MAX_def)
      then have "a \<noteq> c" using a' release(1) by auto
      then show ?thesis using last release by (auto simp: CRYPTO_BUFFER_data_def)
    qed (use release d in \<open>auto simp: CRYPTO_BUFFER_data_def\<close>)
  qed (use b(1) in \<open>auto simp: CRYPTO_BUFFER_data_def CRYPTO_BUFFER_up_ref_def buffer_make_def
    split: if_splits\<close>)
qed

text \<open>C5: A buffer pool is safe under every interleaving of the critical sections of any number of
  threads: a buffer somebody holds a reference to is allocated, its count is the number of references
  unless it has saturated, and freeing it neither aborts nor fails an assertion; two pooled buffers in
  use with the same bytes are one buffer; the bytes of a buffer in use do not change; and when nobody
  holds a reference, no thread is about to insert and no count saturated, then nothing is allocated and
  the table is empty, as the destructor of the pool asserts.\<close>

theorem buffer_pool_safe:
  fixes w :: "'t pool_world"
  assumes "CRYPTO_BUFFER_POOL_new alloc malloc_ok lh_ok = Some p" and "pool_reachable alloc' p w"
  shows "(\<forall>a. 0 < handles w a \<longrightarrow> (\<exists>b. mem (pool w) a = Some b \<and> counted b (handles w a)) \<and>
       CRYPTO_BUFFER_free alloc' (pool w) a \<noteq> None) \<and>
    (\<forall>a b. 0 < handles w a \<and> 0 < handles w b \<and> pooled (deref (mem (pool w)) a) \<and>
       pooled (deref (mem (pool w)) b) \<and>
       CRYPTO_BUFFER_data (pool w) a = CRYPTO_BUFFER_data (pool w) b \<longrightarrow> a = b) \<and>
    (\<forall>a w'. pool_step alloc' w w' \<and> 0 < handles w a \<and> 0 < handles w' a \<longrightarrow>
       CRYPTO_BUFFER_data (pool w') a = CRYPTO_BUFFER_data (pool w) a) \<and>
    ((\<forall>a. handles w a = 0) \<and> made w = {} \<and>
       (\<forall>a. references (deref (mem (pool w)) a) \<noteq> CRYPTO_REFCOUNT_MAX) \<longrightarrow>
       mem (pool w) = (\<lambda>_. None) \<and> lh_num_items (bufs (pool w)) = 0)"
proof -
  have w: "world_inv w" by (rule reachable_inv [OF assms])
  have "\<exists>b. mem (pool w) a = Some b \<and> counted b (handles w a)" if "0 < handles w a" for a
    using handled [OF w that] by metis
  then show ?thesis
    using free_defined [OF w] interned [OF w] step_data [OF w] no_leak [OF w] by blast
qed

text \<open>An example of a race: both threads miss and make a buffer, and the second takes the first one's.\<close>

definition race :: "nat \<Rightarrow> buffer_pool" where
  "race n = [the (CRYPTO_BUFFER_POOL_new (\<lambda>_. True) True True),
     fst (buffer_make 100 True True (the (CRYPTO_BUFFER_POOL_new (\<lambda>_. True) True True)) [1, 2]),
     fst (buffer_make 101 True True (fst (buffer_make 100 True True
       (the (CRYPTO_BUFFER_POOL_new (\<lambda>_. True) True True)) [1, 2])) [1, 2])] ! n"

definition race_end :: buffer_pool where
  "race_end = fst (buffer_insert (\<lambda>_. True) 9 101 (fst (buffer_insert (\<lambda>_. True) 8 100 (race 2))))"

lemma race_steps:
  "CRYPTO_BUFFER_POOL_new (\<lambda>_. True) True True = Some (race 0)"
  "buffer_make 100 True True (race 0) [1, 2] = (race 1, True)"
  "buffer_make 101 True True (race 1) [1, 2] = (race 2, True)"
  "snd (buffer_insert (\<lambda>_. True) 8 100 (race 2)) = Some 100"
  "snd (buffer_insert (\<lambda>_. True) 9 101 (fst (buffer_insert (\<lambda>_. True) 8 100 (race 2)))) = Some 100"
  "lh_items (bufs (race 0)) = []" "lh_items (bufs (race 2)) = []"
  "9 \<notin> item_addr ` set (lh_items (bufs (fst (buffer_insert (\<lambda>_. True) 8 100 (race 2)))))"
  "mem (race 0) 7 = None" "mem (race 0) 100 = None" "mem (race 1) 101 = None"
proof -
  show "CRYPTO_BUFFER_POOL_new (\<lambda>_. True) True True = Some (race 0)"
    by (simp add: race_def CRYPTO_BUFFER_POOL_new_def lh_new_def)
  show "buffer_make 100 True True (race 0) [1, 2] = (race 1, True)"
    "buffer_make 101 True True (race 1) [1, 2] = (race 2, True)"
    by (simp_all add: race_def buffer_make_def)
  show "snd (buffer_insert (\<lambda>_. True) 8 100 (race 2)) = Some 100" by code_simp
  show "snd (buffer_insert (\<lambda>_. True) 9 101 (fst (buffer_insert (\<lambda>_. True) 8 100 (race 2)))) = Some 100"
    by code_simp
  show "lh_items (bufs (race 0)) = []" "lh_items (bufs (race 2)) = []" by code_simp+
  show "9 \<notin> item_addr ` set (lh_items (bufs (fst (buffer_insert (\<lambda>_. True) 8 100 (race 2)))))"
    by code_simp
  show "mem (race 0) 7 = None" "mem (race 0) 100 = None" "mem (race 1) 101 = None" by code_simp+
qed

lemma race_reachable:
  "\<exists>w :: bool pool_world. pool_reachable (\<lambda>_. True) (race 0) w \<and> handles w 100 = 2 \<and> pool w = race_end"
proof -
  let ?step = "pool_step (\<lambda>_. True) :: bool pool_world \<Rightarrow> bool pool_world \<Rightarrow> bool"
  define w0 :: "bool pool_world" where "w0 = world_init (race 0)"
  define w1 where "w1 = w0\<lparr>pc := (pc w0)(False := Missed [1, 2])\<rparr>"
  define w2 where "w2 = w1\<lparr>pc := (pc w1)(True := Missed [1, 2])\<rparr>"
  define w3 where "w3 = w2\<lparr>pool := race 1, pc := (pc w2)(False := Made 100)\<rparr>"
  define w4 where "w4 = w3\<lparr>pool := race 2, pc := (pc w3)(True := Made 101)\<rparr>"
  define p5 where "p5 = fst (buffer_insert (\<lambda>_. True) 8 100 (race 2))"
  define w5 where "w5 = w4\<lparr>pool := p5, handles := gained (Some 100) (handles w4),
    pc := (pc w4)(False := Outside)\<rparr>"
  define w6 where "w6 = w5\<lparr>pool := race_end, handles := gained (Some 100) (handles w5),
    pc := (pc w5)(True := Outside)\<rparr>"
  have p5: "buffer_insert (\<lambda>_. True) 8 100 (race 2) = (p5, Some 100)"
    "buffer_insert (\<lambda>_. True) 9 101 p5 = (race_end, Some 100)"
    using race_steps(4,5) by (simp_all add: p5_def race_end_def prod_eq_iff)
  have look: "buffer_lookup 7 (race 0) [1, 2] = (race 0, None)"
  proof -
    obtain p' r where l: "buffer_lookup 7 (race 0) [1, 2] = (p', r)" by force
    have "world_inv (world_init (race 0) :: bool pool_world)"
      by (rule reachable_inv [OF race_steps(1), of "\<lambda>_. True"]) (simp add: pool_reachable_def)
    then have "table_inv (mem (race 0)) (bufs (race 0))" "lh_elems (bufs (race 0)) = {}"
      using world_invD(1) race_steps(6) by (force simp: world_init_def lh_elems_def)+
    with l show ?thesis by (auto elim: buffer_lookup_cases)
  qed
  have "?step w0 w1"
    using pool_step.search [of w0 False 7 "[1, 2]" "race 0" None] look race_steps(9)
    by (simp add: w1_def w0_def world_init_def gained_def)
  moreover have "?step w1 w2"
    using pool_step.search [of w1 True 7 "[1, 2]" "race 0" None] look race_steps(9)
    by (simp add: w2_def w1_def w0_def world_init_def gained_def)
  moreover have "?step w2 w3"
    using pool_step.make [of w2 False "[1, 2]" 100 True "race 1" True] race_steps(2,10)
    by (simp add: w3_def w2_def w1_def w0_def world_init_def)
  moreover have "?step w3 w4"
    using pool_step.make [of w3 True "[1, 2]" 101 True "race 2" True] race_steps(3,11)
    by (simp add: w4_def w3_def w2_def w1_def w0_def world_init_def)
  moreover have "?step w4 w5"
    using pool_step.publish [of w4 False 100 8] p5(1) race_steps(7)
    by (simp add: w5_def w4_def w3_def w2_def w1_def w0_def world_init_def)
  moreover have "?step w5 w6"
    using pool_step.publish [of w5 True 101 9] p5(2) race_steps(8)
    by (simp add: w6_def w5_def w4_def w3_def w2_def w1_def w0_def world_init_def flip: p5_def)
  ultimately have "?step\<^sup>*\<^sup>* w0 w6" by (meson rtranclp.rtrancl_into_rtrancl rtranclp.rtrancl_refl)
  moreover have "handles w6 100 = 2" "pool w6 = race_end"
    by (simp_all add: w6_def w5_def w4_def w3_def w2_def w1_def w0_def world_init_def gained_def)
  ultimately show ?thesis unfolding pool_reachable_def w0_def by blast
qed

lemma buffer_pool_safe_witness:
  "\<exists>w :: bool pool_world. pool_reachable (\<lambda>_. True) (race 0) w \<and> handles w 100 = 2 \<and>
     CRYPTO_BUFFER_free (\<lambda>_. True) (pool w) 100 \<noteq> None"
proof -
  obtain w :: "bool pool_world" where w: "pool_reachable (\<lambda>_. True) (race 0) w" "handles w 100 = 2"
    using race_reachable by blast
  then show ?thesis using buffer_pool_safe [OF race_steps(1) w(1)] by (metis zero_less_numeral)
qed

subsection \<open>The whole call\<close>

lemma made_data:
  assumes "buffer_make a memdup_ok in_pool p data = (p', ok)"
  shows "ok \<longleftrightarrow> a \<noteq> 0 \<and> (data = [] \<or> memdup_ok)"
    "ok \<Longrightarrow> p' = p\<lparr>mem := (mem p)(a \<mapsto> \<lparr>pooled = in_pool, buf_data = data, references = 1\<rparr>)\<rparr>"
    "\<not> ok \<Longrightarrow> p' = p"
  using assms by (auto simp: buffer_make_def split: if_splits)

lemma steps:
  "pool_step alloc a b \<Longrightarrow> pool_step alloc b c \<Longrightarrow> (pool_step alloc)\<^sup>*\<^sup>* a c"
  "pool_step alloc a b \<Longrightarrow> pool_step alloc b c \<Longrightarrow> pool_step alloc c d \<Longrightarrow> (pool_step alloc)\<^sup>*\<^sup>* a d"
  by (meson r_into_rtranclp rtranclp_trans)+

text \<open>C14: A call of \<open>CRYPTO_BUFFER_new\<close> that no other thread interrupts is a sequence of steps of
  its thread.  It returns a buffer with the bytes asked for, the one everybody else has when such a
  buffer is in use in the pool, and gives the caller one reference; it returns nothing only when an
  allocation failed.\<close>

theorem crypto_buffer_new_call:
  fixes w :: "'t pool_world"
  assumes w: "world_inv w" and t: "pc w t = Outside" and tmp: "mem (pool w) tmp = None"
    and buf: "mem (pool w) buf = None" and node: "node \<notin> item_addr ` set (lh_items (bufs (pool w)))"
  shows "case CRYPTO_BUFFER_new alloc tmp buf node memdup_ok in_pool (pool w) data of (p', r) \<Rightarrow>
    (\<exists>w'. (pool_step alloc)\<^sup>*\<^sup>* w w' \<and> pool w' = p' \<and> handles w' = gained r (handles w) \<and> pc w' = pc w) \<and>
    (case r of None \<Rightarrow> buf = 0 \<or> data \<noteq> [] \<and> \<not> memdup_ok \<or> in_pool \<and> node = 0
     | Some a \<Rightarrow> CRYPTO_BUFFER_data p' a = data \<and> pooled (deref (mem p') a) = in_pool) \<and>
    (\<forall>c. in_pool \<and> 0 < handles w c \<and> pooled (deref (mem (pool w)) c) \<and>
       CRYPTO_BUFFER_data (pool w) c = data \<longrightarrow> r = Some c)"
proof -
  have tmp': "tmp \<notin> lh_elems (bufs (pool w))" using in_table [OF w] tmp by (metis option.distinct(1))
  have use: "c \<in> lh_elems (bufs (pool w))" if "0 < handles w c" "pooled (deref (mem (pool w)) c)" for c
    using handled [OF w that(1)] that(2) by (metis deref_Some)
  show ?thesis
  proof (cases in_pool)
    case False
    obtain p1 ok where m: "buffer_make buf memdup_ok False (pool w) data = (p1, ok)" by force
    define w1 where "w1 = w\<lparr>pool := p1, handles := gained (if ok then Some buf else None) (handles w)\<rparr>"
    have "pool_step alloc w w1" unfolding w1_def by (rule pool_step.standalone [OF t buf m])
    then have "\<exists>w'. (pool_step alloc)\<^sup>*\<^sup>* w w' \<and> pool w' = p1 \<and>
        handles w' = gained (if ok then Some buf else None) (handles w) \<and> pc w' = pc w"
      by (intro exI [of _ w1]) (simp add: w1_def)
    moreover have "CRYPTO_BUFFER_new alloc tmp buf node memdup_ok in_pool (pool w) data =
        (p1, if ok then Some buf else None)"
      using False m by (cases ok) (simp_all add: CRYPTO_BUFFER_new_def)
    ultimately show ?thesis using False made_data [OF m]
      by (cases ok) (simp_all add: CRYPTO_BUFFER_data_def, auto)
  next
    case True
    obtain p1 r1 where l: "buffer_lookup tmp (pool w) data = (p1, r1)" by force
    note s1 = pool_step.search [where alloc = alloc, OF t tmp l]
    from world_invD(1) [OF w] tmp' l show ?thesis
    proof (cases rule: buffer_lookup_cases)
      case (hit a)
      obtain b where b: "mem (pool w) a = Some b" "pooled b" using in_table [OF w hit(2)] by blast
      have uniq: "c = a" if "0 < handles w c" "pooled (deref (mem (pool w)) c)"
        "CRYPTO_BUFFER_data (pool w) c = data" for c
        using table_unique [OF world_invD(1) [OF w] use [OF that(1,2)] hit(2)] that(3) hit(3)
        by (simp add: CRYPTO_BUFFER_data_def)
      have new: "CRYPTO_BUFFER_new alloc tmp buf node memdup_ok in_pool (pool w) data = (p1, Some a)"
        using True l hit by (simp add: CRYPTO_BUFFER_new_def)
      have "pooled (deref (mem p1) a)" "CRYPTO_BUFFER_data p1 a = data"
        using hit b by (simp_all add: CRYPTO_BUFFER_data_def inc_references_Some)
      moreover have "(pc w)(t := Outside) = pc w" using t by (simp add: fun_upd_idem)
      ultimately show ?thesis using new s1 uniq True hit(1)
        by (auto intro!: exI r_into_rtranclp)
    next
      case miss
      define w1 where "w1 = w\<lparr>pc := (pc w)(t := Missed data)\<rparr>"
      have s1': "pool_step alloc w w1" using s1 miss by (simp add: w1_def gained_def)
      have none: "\<not> (0 < handles w c \<and> pooled (deref (mem (pool w)) c) \<and>
          CRYPTO_BUFFER_data (pool w) c = data)" for c
        using use miss(3) by (auto simp: CRYPTO_BUFFER_data_def)
      obtain p2 ok where m: "buffer_make buf memdup_ok True (pool w) data = (p2, ok)" by force
      define w2 where "w2 = w1\<lparr>pool := p2, pc := (pc w1)(t := if ok then Made buf else Outside)\<rparr>"
      have s2: "pool_step alloc w1 w2"
        unfolding w2_def by (rule pool_step.make [of _ _ data _ memdup_ok]) (simp_all add: w1_def buf m)
      note md = made_data [OF m]
      show ?thesis
      proof (cases ok)
        case False
        then have "CRYPTO_BUFFER_new alloc tmp buf node memdup_ok in_pool (pool w) data = (pool w, None)"
          using True l miss(1,2) m md(3) False by (simp add: CRYPTO_BUFFER_new_def)
        moreover have "pool w2 = pool w" "handles w2 = handles w" "pc w2 = pc w"
          using False md(3) t by (simp_all add: w2_def w1_def fun_upd_idem)
        moreover have "(pool_step alloc)\<^sup>*\<^sup>* w w2"  by (rule steps(1) [OF s1' s2])
        ultimately show ?thesis using md(1) False none by (auto simp: gained_def)
      next
        case ok: True
        obtain p3 r where i: "buffer_insert alloc node buf p2 = (p3, r)" by force
        have new: "CRYPTO_BUFFER_new alloc tmp buf node memdup_ok in_pool (pool w) data = (p3, r)"
          using True l miss m ok i by (simp add: CRYPTO_BUFFER_new_def)
        have p2: "pool w2 = p2" "bufs p2 = bufs (pool w)" "handles w2 = handles w"
          using md(2) ok by (simp_all add: w2_def w1_def)
        define w3 where "w3 = w2\<lparr>pool := p3, handles := gained r (handles w2), pc := (pc w2)(t := Outside)\<rparr>"
        have s3: "pool_step alloc w2 w3"
          unfolding w3_def by (rule pool_step.publish [of _ _ buf node]) (simp_all add: w2_def ok node p2 i)
        have "(pool_step alloc)\<^sup>*\<^sup>* w w3" by (rule steps(2) [OF s1' s2 s3])
        moreover have "pool w3 = p3" "handles w3 = gained r (handles w)" "pc w3 = pc w"
          using t p2 by (simp_all add: w3_def w2_def w1_def fun_upd_idem)
        moreover have "case r of None \<Rightarrow> node = 0
           | Some a \<Rightarrow> CRYPTO_BUFFER_data p3 a = data \<and> pooled (deref (mem p3) a)"
        proof -
          have "world_inv w2" using pool_step_inv [OF pool_step_inv [OF w s1'] s2] .
          then have inv2: "table_inv (mem p2) (bufs p2)" using world_invD(1) p2(1) by metis
          have fresh: "buf \<notin> lh_elems (bufs p2)" using table_fresh(1) [OF w buf] p2(2) by simp
          have at: "deref (mem p2) buf = \<lparr>pooled = True, buf_data = data, references = 1\<rparr>"
            using md(2) ok by simp
          have lost: False if "d \<in> lh_elems (bufs p2)" "buf_data (deref (mem p2) d) = data" for d
            using that miss(3) [of d] md(2) ok fresh p2(2) by (auto split: if_splits)
          from inv2 fresh node [folded p2(2)] i show ?thesis
            by (cases rule: buffer_insert_cases) (use at lost in \<open>auto simp: CRYPTO_BUFFER_data_def\<close>)
        qed
        moreover have "\<forall>c. in_pool \<and> 0 < handles w c \<and> pooled (deref (mem (pool w)) c) \<and>
            CRYPTO_BUFFER_data (pool w) c = data \<longrightarrow> r = Some c"
          using none by blast
        ultimately show ?thesis using new True by (auto split: option.splits)
      qed
    qed
  qed
qed

lemma crypto_buffer_new_call_witness:
  "case CRYPTO_BUFFER_new (\<lambda>_. True) 7 100 8 True True (race 0) [1, 2] of (p', r) \<Rightarrow>
     r = Some 100 \<and> CRYPTO_BUFFER_data p' 100 = [1, 2] \<and> pooled (deref (mem p') 100)"
proof -
  let ?w = "world_init (race 0) :: bool pool_world"
  have w: "world_inv ?w"
    by (rule reachable_inv [OF race_steps(1), of "\<lambda>_. True"]) (simp add: pool_reachable_def)
  have "snd (CRYPTO_BUFFER_new (\<lambda>_. True) 7 100 8 True True (race 0) [1, 2]) = Some 100" by code_simp
  then show ?thesis
    using crypto_buffer_new_call [OF w, where t = False and tmp = 7 and buf = 100 and node = 8 and
        alloc = "\<lambda>_. True" and memdup_ok = True and in_pool = True and data = "[1, 2]"] race_steps(6,9,10)
    by (auto simp: world_init_def split: prod.splits)
qed

end
