(* ===== verification/ConstTime.thy ===== *)
theory ConstTime
  imports Prelude
begin

text \<open>
  The comparisons and selections without branches of
  \<open>BoringSSL-GRPC/src/crypto/internal.h\<close>, on the 64-bit \<open>crypto_word_t\<close>.  The barriers
  against compiler optimisations are the identity.
\<close>

unbundle bit_operations_syntax

definition constant_time_msb_w :: "u64 \<Rightarrow> u64" where
  "constant_time_msb_w a = 0 - drop_bit 63 a"

definition constant_time_lt_w :: "u64 \<Rightarrow> u64 \<Rightarrow> u64" where
  "constant_time_lt_w a b = constant_time_msb_w (a XOR ((a XOR b) OR ((a - b) XOR a)))"

definition constant_time_lt_8 :: "u64 \<Rightarrow> u64 \<Rightarrow> u8" where
  "constant_time_lt_8 a b = ucast (constant_time_lt_w a b)"

definition constant_time_ge_w :: "u64 \<Rightarrow> u64 \<Rightarrow> u64" where
  "constant_time_ge_w a b = NOT (constant_time_lt_w a b)"

definition constant_time_ge_8 :: "u64 \<Rightarrow> u64 \<Rightarrow> u8" where
  "constant_time_ge_8 a b = ucast (constant_time_ge_w a b)"

definition constant_time_is_zero_w :: "u64 \<Rightarrow> u64" where
  "constant_time_is_zero_w a = constant_time_msb_w (NOT a AND (a - 1))"

definition constant_time_is_zero_8 :: "u64 \<Rightarrow> u8" where
  "constant_time_is_zero_8 a = ucast (constant_time_is_zero_w a)"

definition constant_time_eq_w :: "u64 \<Rightarrow> u64 \<Rightarrow> u64" where
  "constant_time_eq_w a b = constant_time_is_zero_w (a XOR b)"

definition constant_time_eq_8 :: "u64 \<Rightarrow> u64 \<Rightarrow> u8" where
  "constant_time_eq_8 a b = ucast (constant_time_eq_w a b)"

text \<open>An \<open>int\<close> is extended with its sign.\<close>

definition constant_time_eq_int :: "u32 \<Rightarrow> u32 \<Rightarrow> u64" where
  "constant_time_eq_int a b = constant_time_eq_w (scast a) (scast b)"

definition constant_time_eq_int_8 :: "u32 \<Rightarrow> u32 \<Rightarrow> u8" where
  "constant_time_eq_int_8 a b = constant_time_eq_8 (scast a) (scast b)"

definition constant_time_select_w :: "u64 \<Rightarrow> u64 \<Rightarrow> u64 \<Rightarrow> u64" where
  "constant_time_select_w m a b = (m AND a) OR (NOT m AND b)"

definition constant_time_select_8 :: "u8 \<Rightarrow> u8 \<Rightarrow> u8 \<Rightarrow> u8" where
  "constant_time_select_8 m a b = ucast (constant_time_select_w (ucast m) (ucast a) (ucast b))"

definition constant_time_select_int :: "u64 \<Rightarrow> u32 \<Rightarrow> u32 \<Rightarrow> u32" where
  "constant_time_select_int m a b = ucast (constant_time_select_w m (scast a) (scast b))"

subsection \<open>Masks\<close>

lemma bit_63_iff: "bit (a :: u64) 63 \<longleftrightarrow> 2 ^ 63 \<le> unat a"
proof -
  have "unat a div 2 ^ 63 < 2" using unat_word64_lt [of a] by simp
  then have "odd (unat a div 2 ^ 63) \<longleftrightarrow> 1 \<le> unat a div 2 ^ 63" by (auto simp: less_2_cases_iff)
  moreover have "bit a 63 = bit (unat a) 63" by (simp add: bit_unsigned_iff)
  then have "bit a 63 \<longleftrightarrow> odd (unat a div 2 ^ 63)" by (simp only: bit_iff_odd [of "unat a"])
  ultimately show ?thesis by (simp add: Suc_le_eq div_greater_zero_iff)
qed

lemma msb_w: "constant_time_msb_w a = (if bit a 63 then - 1 else 0)"
proof -
  have "drop_bit 63 a = (if bit a 63 then 1 else 0)"
  proof (rule bit_word_eqI)
    fix n assume "n < LENGTH(64)"
    show "bit (drop_bit 63 a) n \<longleftrightarrow> bit (if bit a 63 then 1 else 0 :: u64) n"
      by (cases "n = 0") (auto simp: bit_drop_bit_eq bit_1_iff dest!: bit_imp_le_length)
  qed
  then show ?thesis by (simp add: constant_time_msb_w_def)
qed

lemma lt_w: "constant_time_lt_w a b = (if a < b then - 1 else 0)"
proof -
  have s: "unat (a - b) = (if unat b \<le> unat a then unat a - unat b else unat a + 2 ^ 64 - unat b)"
    by (simp add: unat_sub_if')
  have "bit (a XOR ((a XOR b) OR ((a - b) XOR a))) 63 \<longleftrightarrow> a < b"
    using unat_word64_lt [of a] unat_word64_lt [of b]
    unfolding bit_xor_iff bit_or_iff unfolding bit_63_iff s word_less_nat_alt by auto
  then show ?thesis by (simp add: constant_time_lt_w_def msb_w)
qed

lemma is_zero_w: "constant_time_is_zero_w a = (if a = 0 then - 1 else 0)"
proof -
  have "bit (NOT a AND (a - 1)) 63 \<longleftrightarrow> a = 0"
  proof (cases "a = 0")
    case False
    then have "unat (a - 1) = unat a - 1" by (simp add: unat_sub_if' word_unat_eq_iff)
    then have "bit (a - 1) 63 \<Longrightarrow> bit a 63" unfolding bit_63_iff by simp
    then show ?thesis using False by (auto simp: bit_and_iff bit_not_iff)
  qed (simp add: bit_and_iff bit_not_iff)
  then show ?thesis by (simp add: constant_time_is_zero_w_def msb_w)
qed

lemma eq_w: "constant_time_eq_w a b = (if a = b then - 1 else 0)"
proof -
  have "a XOR b = 0 \<longleftrightarrow> a = b"
  proof
    assume z: "a XOR b = 0"
    show "a = b"
    proof (rule bit_word_eqI)
      fix n
      have "bit (a XOR b) n = bit (0 :: u64) n" using z by simp
      then show "bit a n = bit b n" by (simp add: bit_xor_iff)
    qed
  qed simp
  then show ?thesis by (simp add: constant_time_eq_w_def is_zero_w)
qed

lemma ucast_mask [simp]: "ucast (- 1 :: u64) = (- 1 :: u8)"
  by (rule bit_word_eqI) (simp add: bit_simps)

lemma eq_8: "constant_time_eq_8 a b = (if a = b then - 1 else 0)"
  by (simp add: constant_time_eq_8_def eq_w)

lemma select_w:
  "constant_time_select_w (- 1) a b = a" "constant_time_select_w 0 a b = b"
  by (simp_all add: constant_time_select_w_def)

lemma select_8:
  "constant_time_select_8 (- 1) a b = a" "constant_time_select_8 0 a b = b"
  unfolding constant_time_select_8_def constant_time_select_w_def
  by (rule bit_word_eqI; auto simp: bit_simps)+

lemmas const_time = lt_w is_zero_w eq_w eq_8 select_w select_8

text \<open>C39: The comparisons without branches are comparisons: for all 64-bit words the masks are all
  ones when the relation holds and zero otherwise, and a selection with such a mask is the conditional
  expression.\<close>

theorem constant_time_correct:
  "constant_time_lt_w a b = (if a < b then - 1 else 0) \<and>
   constant_time_ge_w a b = (if b \<le> a then - 1 else 0) \<and>
   constant_time_is_zero_w a = (if a = 0 then - 1 else 0) \<and>
   constant_time_eq_w a b = (if a = b then - 1 else 0) \<and>
   constant_time_lt_8 a b = (if a < b then - 1 else 0) \<and>
   constant_time_ge_8 a b = (if b \<le> a then - 1 else 0) \<and>
   constant_time_select_w (if c then - 1 else 0) a b = (if c then a else b) \<and>
   constant_time_select_8 (if c then - 1 else 0) x y = (if c then x else y)"
  by (auto simp: const_time constant_time_ge_w_def constant_time_lt_8_def constant_time_ge_8_def)

end
