(* ===== verification/Base64.thy ===== *)
theory Base64
  imports ConstTime
begin

text \<open>
  Base64 encoding and decoding (\<open>BoringSSL-GRPC/src/crypto/base64/base64.c\<close>), whole blocks and
  streams.  A buffer the code writes is the list of the bytes written, without the terminating NUL;
  the \<open>data_used\<close> first bytes of \<open>data\<close> in the context are the list \<open>ctx_data\<close>.
\<close>

unbundle bit_operations_syntax

abbreviation ch :: "char \<Rightarrow> u8" where
  "ch c \<equiv> of_char c"

abbreviation NL :: u8 where
  "NL \<equiv> 10"

definition int_max :: nat where
  "int_max = 2147483647"

subsection \<open>The two tables\<close>

definition constant_time_lt_args_8 :: "u8 \<Rightarrow> u8 \<Rightarrow> u8" where
  "constant_time_lt_args_8 a b = ucast (constant_time_msb_w (ucast a - ucast b))"

definition constant_time_in_range_8 :: "u8 \<Rightarrow> u8 \<Rightarrow> u8 \<Rightarrow> u8" where
  "constant_time_in_range_8 a lo hi = constant_time_lt_args_8 (a - lo) (hi - lo + 1)"

definition conv_bin2ascii :: "u8 \<Rightarrow> u8" where
  "conv_bin2ascii a0 =
     (let a = a0 AND 0x3f;
          ret = constant_time_select_8 (constant_time_eq_8 (ucast a) 62) (ch CHR ''+'') (ch CHR ''/'');
          ret = constant_time_select_8 (constant_time_lt_args_8 a 62) (a - 52 + ch CHR ''0'') ret;
          ret = constant_time_select_8 (constant_time_lt_args_8 a 52) (a - 26 + ch CHR ''a'') ret;
          ret = constant_time_select_8 (constant_time_lt_args_8 a 26) (a + ch CHR ''A'') ret
      in ret)"

definition base64_ascii_to_bin :: "u8 \<Rightarrow> u8" where
  "base64_ascii_to_bin a =
     (let is_upper = constant_time_in_range_8 a (ch CHR ''A'') (ch CHR ''Z'');
          is_lower = constant_time_in_range_8 a (ch CHR ''a'') (ch CHR ''z'');
          is_digit = constant_time_in_range_8 a (ch CHR ''0'') (ch CHR ''9'');
          is_plus = constant_time_eq_8 (ucast a) (ucast (ch CHR ''+''));
          is_slash = constant_time_eq_8 (ucast a) (ucast (ch CHR ''/''));
          is_equals = constant_time_eq_8 (ucast a) (ucast (ch CHR ''=''));
          ret = 0xff;
          ret = constant_time_select_8 is_upper (a - ch CHR ''A'') ret;
          ret = constant_time_select_8 is_lower (a - ch CHR ''a'' + 26) ret;
          ret = constant_time_select_8 is_digit (a - ch CHR ''0'' + 52) ret;
          ret = constant_time_select_8 is_plus 62 ret;
          ret = constant_time_select_8 is_slash 63 ret;
          ret = constant_time_select_8 is_equals 0 ret
      in ret)"

subsection \<open>Encoding\<close>

definition EVP_EncodedLength :: "u64 \<Rightarrow> u64 option" where
  "EVP_EncodedLength len =
     (if len + 2 < len then None
      else let len = (len + 2) div 3
           in if drop_bit 2 (push_bit 2 len) \<noteq> len then None
              else let len = push_bit 2 len
                   in if len + 1 < len then None else Some (len + 1))"

fun EVP_EncodeBlock :: "u8 list \<Rightarrow> u8 list" where
  "EVP_EncodeBlock [] = []"
| "EVP_EncodeBlock (s0 # s1 # s2 # src) =
     (let l = push_bit 16 (ucast s0) OR push_bit 8 (ucast s1) OR ucast s2 :: u32
      in [conv_bin2ascii (ucast (drop_bit 18 l)), conv_bin2ascii (ucast (drop_bit 12 l)),
          conv_bin2ascii (ucast (drop_bit 6 l)), conv_bin2ascii (ucast l)] @ EVP_EncodeBlock src)"
| "EVP_EncodeBlock (s0 # src) =
     (let l = push_bit 16 (ucast s0) :: u32;
          l = (case src of [] \<Rightarrow> l | s1 # _ \<Rightarrow> l OR push_bit 8 (ucast s1))
      in [conv_bin2ascii (ucast (drop_bit 18 l)), conv_bin2ascii (ucast (drop_bit 12 l)),
          if src = [] then ch CHR ''='' else conv_bin2ascii (ucast (drop_bit 6 l)), ch CHR ''=''])"

record evp_encode_ctx =
  ctx_data :: "u8 list"
  eof_seen :: bool
  error_encountered :: bool

definition ENCODE_SIZE :: nat where
  "ENCODE_SIZE = 48"

definition EVP_EncodeInit :: evp_encode_ctx where
  "EVP_EncodeInit = \<lparr>ctx_data = [], eof_seen = False, error_encountered = False\<rparr>"

text \<open>The loop over full lines: the bytes written, and the rest of the input with the total, or
  \<open>None\<close> when the total overflows.\<close>

function encode_lines :: "u8 list \<Rightarrow> u64 \<Rightarrow> u8 list \<times> (u8 list \<times> u64) option" where
  "encode_lines inp tot =
     (if length inp < ENCODE_SIZE then ([], Some (inp, tot))
      else let enc = EVP_EncodeBlock (take ENCODE_SIZE inp);
               encoded = of_nat (length enc)
           in if tot + encoded + 1 < tot then (enc @ [NL], None)
              else case encode_lines (drop ENCODE_SIZE inp) (tot + (encoded + 1)) of
                     (out, r) \<Rightarrow> (enc @ [NL] @ out, r))"
  by pat_completeness auto
termination encode_lines
  by (relation "measure (length \<circ> fst)") (auto simp: ENCODE_SIZE_def)

text \<open>The context, the bytes written and \<open>*out_len\<close>.\<close>

definition EVP_EncodeUpdate ::
  "evp_encode_ctx \<Rightarrow> u8 list \<Rightarrow> evp_encode_ctx \<times> u8 list \<times> nat" where
  "EVP_EncodeUpdate ctx inp =
     (if inp = [] then (ctx, [], 0)
      else if ENCODE_SIZE - length (ctx_data ctx) > length inp
           then (ctx\<lparr>ctx_data := ctx_data ctx @ inp\<rparr>, [], 0)
      else let (line, rest, tot, used) =
                 (if ctx_data ctx \<noteq> []
                  then let todo = ENCODE_SIZE - length (ctx_data ctx);
                           enc = EVP_EncodeBlock (ctx_data ctx @ take todo inp)
                       in (enc @ [NL], drop todo inp, of_nat (length enc) + 1, [])
                  else ([], inp, 0, ctx_data ctx))
           in case encode_lines rest tot of
                (out, None) \<Rightarrow> (ctx\<lparr>ctx_data := used\<rparr>, line @ out, 0)
              | (out, Some (rest', tot')) \<Rightarrow>
                  (ctx\<lparr>ctx_data := rest'\<rparr>, line @ out,
                   unat (if unat tot' > int_max then 0 else tot')))"

definition EVP_EncodeFinal ::
  "evp_encode_ctx \<Rightarrow> evp_encode_ctx \<times> u8 list \<times> nat" where
  "EVP_EncodeFinal ctx =
     (if ctx_data ctx = [] then (ctx, [], 0)
      else let out = EVP_EncodeBlock (ctx_data ctx) @ [NL]
           in (ctx\<lparr>ctx_data := []\<rparr>, out, length out))"

subsection \<open>Decoding\<close>

definition EVP_DecodedLength :: "u64 \<Rightarrow> u64 option" where
  "EVP_DecodedLength len = (if len mod 4 \<noteq> 0 then None else Some (len div 4 * 3))"

definition EVP_DecodeInit :: evp_encode_ctx where
  "EVP_DecodeInit = \<lparr>ctx_data = [], eof_seen = False, error_encountered = False\<rparr>"

definition base64_decode_quad :: "u8 list \<Rightarrow> u8 list option" where
  "base64_decode_quad inp =
     (let a = base64_ascii_to_bin (inp ! 0);
          b = base64_ascii_to_bin (inp ! 1);
          c = base64_ascii_to_bin (inp ! 2);
          d = base64_ascii_to_bin (inp ! 3)
      in if a = 0xff \<or> b = 0xff \<or> c = 0xff \<or> d = 0xff then None
         else let v = push_bit 18 (ucast a) OR push_bit 12 (ucast b) OR push_bit 6 (ucast c) OR ucast d
                      :: u32;
                  eq = (\<lambda>i. if inp ! i = ch CHR ''='' then 1 else 0 :: u32);
                  padding_pattern = push_bit 3 (eq 0) OR push_bit 2 (eq 1) OR push_bit 1 (eq 2) OR eq 3
              in if padding_pattern = 0
                 then Some [ucast (drop_bit 16 v), ucast (drop_bit 8 v), ucast v]
                 else if padding_pattern = 1
                 then Some [ucast (drop_bit 16 v), ucast (drop_bit 8 v)]
                 else if padding_pattern = 3
                 then Some [ucast (drop_bit 16 v)]
                 else None)"

definition is_space :: "u8 \<Rightarrow> bool" where
  "is_space c \<longleftrightarrow> c = ch CHR '' '' \<or> c = 9 \<or> c = 13 \<or> c = NL"

text \<open>The loop over the bytes of the input: the context, the bytes written and whether it ran to
  the end.\<close>

fun decode_loop :: "evp_encode_ctx \<Rightarrow> u8 list \<Rightarrow> evp_encode_ctx \<times> u8 list \<times> bool" where
  "decode_loop ctx [] = (ctx, [], True)"
| "decode_loop ctx (c # cs) =
     (if is_space c then decode_loop ctx cs
      else if eof_seen ctx then (ctx\<lparr>error_encountered := True\<rparr>, [], False)
      else let dat = ctx_data ctx @ [c]
           in if length dat = 4
              then (case base64_decode_quad dat of
                      None \<Rightarrow> (ctx\<lparr>ctx_data := dat, error_encountered := True\<rparr>, [], False)
                    | Some out \<Rightarrow>
                        let ctx' = ctx\<lparr>ctx_data := [], eof_seen := eof_seen ctx \<or> length out < 3\<rparr>
                        in case decode_loop ctx' cs of (ctx'', outs, ok) \<Rightarrow> (ctx'', out @ outs, ok))
              else decode_loop (ctx\<lparr>ctx_data := dat\<rparr>) cs)"

text \<open>The context, the bytes written, \<open>*out_len\<close> and the result.\<close>

definition EVP_DecodeUpdate ::
  "evp_encode_ctx \<Rightarrow> u8 list \<Rightarrow> evp_encode_ctx \<times> u8 list \<times> nat \<times> int" where
  "EVP_DecodeUpdate ctx inp =
     (if error_encountered ctx then (ctx, [], 0, - 1)
      else case decode_loop ctx inp of
             (ctx', out, False) \<Rightarrow> (ctx', out, 0, - 1)
           | (ctx', out, True) \<Rightarrow>
               if length out > int_max then (ctx'\<lparr>error_encountered := True\<rparr>, out, 0, - 1)
               else (ctx', out, length out, if eof_seen ctx' then 0 else 1))"

definition EVP_DecodeFinal :: "evp_encode_ctx \<Rightarrow> int" where
  "EVP_DecodeFinal ctx = (if error_encountered ctx \<or> ctx_data ctx \<noteq> [] then - 1 else 1)"

fun decode_base64_loop :: "u8 list \<Rightarrow> u8 list option" where
  "decode_base64_loop [] = Some []"
| "decode_base64_loop (a # b # c # d # inp) =
     (case base64_decode_quad [a, b, c, d] of
        None \<Rightarrow> None
      | Some out \<Rightarrow> if length out \<noteq> 3 \<and> inp \<noteq> [] then None
                    else map_option ((@) out) (decode_base64_loop inp))"
| "decode_base64_loop _ = None"

definition EVP_DecodeBase64 :: "u64 \<Rightarrow> u8 list \<Rightarrow> u8 list option" where
  "EVP_DecodeBase64 max_out inp =
     (if length inp mod 4 \<noteq> 0 then None
      else case EVP_DecodedLength (of_nat (length inp)) of
             None \<Rightarrow> None
           | Some max_len \<Rightarrow> if max_out < max_len then None else decode_base64_loop inp)"

text \<open>\<open>None\<close> is the result -1, \<open>Some\<close> the bytes at \<open>dst\<close> whose number is the
  result.\<close>

definition EVP_DecodeBlock :: "u8 list \<Rightarrow> u8 list option" where
  "EVP_DecodeBlock src0 =
     (let src = dropWhile (\<lambda>c. c = ch CHR '' '' \<or> c = 9) src0;
          src = rev (dropWhile is_space (rev src))
      in case EVP_DecodedLength (of_nat (length src)) of
           None \<Rightarrow> None
         | Some dst_len \<Rightarrow>
             if unat dst_len > int_max then None
             else case EVP_DecodeBase64 dst_len src of
                    None \<Rightarrow> None
                  | Some dst \<Rightarrow> Some (dst @ replicate ((3 - length dst mod 3) mod 3) 0))"

subsection \<open>The tables as conditional expressions\<close>

lemma unat_ucast_8_64: "unat (ucast (a :: u8) :: u64) = unat a"
  by (simp add: unat_ucast_less)

lemma ucast_8_64_inject: "(ucast (a :: u8) = (ucast b :: u64)) \<longleftrightarrow> a = b"
  by (simp add: word_unat_eq_iff unat_ucast_8_64)

lemma lt_args_8: "constant_time_lt_args_8 a b = (if a < b then - 1 else 0)"
proof -
  let ?x = "ucast a :: u64" and ?y = "ucast b :: u64"
  have "bit (?x - ?y) 63 \<longleftrightarrow> a < b"
    using unat_word8_lt [of a] unat_word8_lt [of b]
    unfolding bit_63_iff unat_sub_if' unat_ucast_8_64 word_less_nat_alt by auto
  then show ?thesis by (simp add: constant_time_lt_args_8_def msb_w)
qed

lemma eq_8_ucast: "constant_time_eq_8 (ucast a) (ucast (b :: u8)) = (if a = b then - 1 else 0)"
  by (simp add: eq_8 ucast_8_64_inject)

lemma bin2ascii_if:
  "conv_bin2ascii a0 =
     (let a = a0 AND 0x3f
      in if a < 26 then a + 65 else if a < 52 then a + 71 else if a < 62 then a - 4
         else if a = 62 then 43 else 47)"
proof -
  have "constant_time_eq_8 (ucast a) 62 = (if a = 62 then - 1 else 0)" for a :: u8
    using eq_8_ucast [of a 62] by simp
  then show ?thesis
    by (simp add: conv_bin2ascii_def lt_args_8 select_8 Let_def)
qed

lemma ascii2bin_if:
  "base64_ascii_to_bin a =
     (if a = 61 then 0 else if a = 47 then 63 else if a = 43 then 62
      else if a - 48 < 10 then a + 4 else if a - 97 < 26 then a - 71
      else if a - 65 < 26 then a - 65 else 0xff)"
proof -
  have "constant_time_eq_8 (ucast a) 43 = (if a = 43 then - 1 else 0)"
    "constant_time_eq_8 (ucast a) 47 = (if a = 47 then - 1 else 0)"
    "constant_time_eq_8 (ucast a) 61 = (if a = 61 then - 1 else 0)"
    using eq_8_ucast [of a 43] eq_8_ucast [of a 47] eq_8_ucast [of a 61] by simp_all
  then show ?thesis
    by (simp add: base64_ascii_to_bin_def constant_time_in_range_8_def lt_args_8 select_8 Let_def)
qed

lemma table_inverse:
  "list_all (\<lambda>n. base64_ascii_to_bin (conv_bin2ascii (of_nat n)) = of_nat n \<and>
      conv_bin2ascii (of_nat n) \<noteq> 61 \<and> \<not> is_space (conv_bin2ascii (of_nat n))) [0..<64]"
  unfolding bin2ascii_if ascii2bin_if is_space_def by code_simp

lemma bin2ascii:
  "base64_ascii_to_bin (conv_bin2ascii a) = a AND 0x3f" "conv_bin2ascii a \<noteq> 61"
  "\<not> is_space (conv_bin2ascii a)"
proof -
  have m: "conv_bin2ascii a = conv_bin2ascii (a AND 0x3f)"
    by (simp add: bin2ascii_if and.assoc)
  have "unat (a AND 0x3f) < 64"
    using take_bit_nat_less_exp [of 6 "unat a"]
    by (simp add: mask_numerals unsigned_take_bit_eq flip: take_bit_eq_mask)
  then have "list_all P [0..<64] \<Longrightarrow> P (unat (a AND 0x3f))" for P
    by (simp add: list_all_iff)
  from this [OF table_inverse]
  show "base64_ascii_to_bin (conv_bin2ascii a) = a AND 0x3f" "conv_bin2ascii a \<noteq> 61"
    "\<not> is_space (conv_bin2ascii a)"
    unfolding m by auto
qed

text \<open>A quad of the encoder decodes to the bytes it was made of.\<close>

lemma bin2ascii_valid: "base64_ascii_to_bin (conv_bin2ascii a) \<noteq> 0xff"
proof
  assume "base64_ascii_to_bin (conv_bin2ascii a) = 0xff"
  then have "bit (a AND 0x3f) 7" by (simp add: bin2ascii)
  then show False by (simp add: mask_numerals bit_simps)
qed

lemma ascii2bin_pad: "base64_ascii_to_bin 61 = 0"
  by (simp add: ascii2bin_if)

lemma bit_sextet:
  fixes l :: u32
  assumes "k \<le> 18"
  shows "bit (push_bit k (ucast ((ucast (drop_bit k l) :: u8) AND 0x3f) :: u32)) n \<longleftrightarrow>
     k \<le> n \<and> n < k + 6 \<and> bit l n"
proof (cases "k \<le> n")
  case True
  then obtain j where "n = k + j" using le_Suc_ex by blast
  then show ?thesis using assms
    by (auto simp: bit_push_bit_iff bit_ucast_iff bit_and_iff bit_drop_bit_eq mask_numerals bit_mask_iff
        dest: bit_imp_le_length)
qed (simp add: bit_push_bit_iff)

lemmas bit_sextets = bit_or_iff bit_sextet bit_sextet [where k = 0, simplified]

lemma bit_octet:
  "bit (push_bit k (ucast (s :: u8)) :: u32) n \<longleftrightarrow> k \<le> n \<and> n < 32 \<and> bit s (n - k)"
  by (auto simp: bit_push_bit_iff bit_ucast_iff dest: bit_imp_le_length)

lemma bit_8_ge: "8 \<le> n \<Longrightarrow> \<not> bit (s :: u8) n"
  using bit_imp_le_length [of s n] by auto

lemma bin2ascii_not_ff: "a AND 0x3f \<noteq> (0xff :: u8)"
  using bin2ascii_valid [of a] by (simp add: bin2ascii)

abbreviation sextet_char :: "nat \<Rightarrow> u32 \<Rightarrow> u8" where
  "sextet_char k l \<equiv> conv_bin2ascii (ucast (drop_bit k l))"

lemmas quad_simps = base64_decode_quad_def bin2ascii bin2ascii_not_ff ascii2bin_pad Let_def

lemma quad_full:
  assumes "l = push_bit 16 (ucast s0) OR push_bit 8 (ucast s1) OR (ucast (s2 :: u8) :: u32)"
  shows "base64_decode_quad [sextet_char 18 l, sextet_char 12 l, sextet_char 6 l, conv_bin2ascii (ucast l)]
    = Some [s0, s1, s2]"
proof -
  have l: "bit l n \<longleftrightarrow> n < 32 \<and> (bit s2 n \<or> 8 \<le> n \<and> bit s1 (n - 8) \<or> 16 \<le> n \<and> bit s0 (n - 16))" for n
    unfolding assms by (auto simp: bit_or_iff bit_octet bit_ucast_iff dest: bit_imp_le_length)
  show ?thesis
    by (simp add: quad_simps; intro conjI bit_word_eqI;
        simp only: bit_drop_bit_eq bit_ucast_iff o_def bit_sextets l;
        auto simp: bit_8_ge bit_and_iff mask_numerals bit_mask_iff bit_ucast_iff l)
qed

lemma quad_two:
  assumes "l = push_bit 16 (ucast s0) OR (push_bit 8 (ucast (s1 :: u8)) :: u32)"
  shows "base64_decode_quad [sextet_char 18 l, sextet_char 12 l, sextet_char 6 l, 61] = Some [s0, s1]"
proof -
  have l: "bit l n \<longleftrightarrow> n < 32 \<and> (8 \<le> n \<and> bit s1 (n - 8) \<or> 16 \<le> n \<and> bit s0 (n - 16))" for n
    unfolding assms by (auto simp: bit_or_iff bit_octet)
  show ?thesis
    by (simp add: quad_simps; intro conjI bit_word_eqI;
        simp only: bit_drop_bit_eq bit_ucast_iff o_def bit_sextets l; auto simp: bit_8_ge)
qed

lemma quad_one:
  assumes "l = (push_bit 16 (ucast (s0 :: u8)) :: u32)"
  shows "base64_decode_quad [sextet_char 18 l, sextet_char 12 l, 61, 61] = Some [s0]"
proof -
  have l: "bit l n \<longleftrightarrow> n < 32 \<and> 16 \<le> n \<and> bit s0 (n - 16)" for n
    unfolding assms by (auto simp: bit_octet)
  show ?thesis
    by (simp add: quad_simps; intro bit_word_eqI;
        simp only: bit_drop_bit_eq bit_ucast_iff o_def bit_sextets l; auto simp: bit_8_ge)
qed

subsection \<open>Blocks\<close>

lemma block_roundtrip: "decode_base64_loop (EVP_EncodeBlock xs) = Some xs"
proof (induction xs rule: EVP_EncodeBlock.induct)
  case (2 s0 s1 s2 src)
  then show ?case using quad_full [OF refl, of s0 s1 s2] by (simp add: Let_def)
qed (use quad_two [OF refl] quad_one [OF refl] in \<open>simp_all add: Let_def\<close>)

lemma length_EncodeBlock: "length (EVP_EncodeBlock xs) = (length xs + 2) div 3 * 4"
proof (induction xs rule: EVP_EncodeBlock.induct)
  case (2 s0 s1 s2 src)
  have "(length src + 2 + 3) div 3 = Suc ((length src + 2) div 3)" by simp
  then show ?case using 2 by (simp add: Let_def add.commute)
qed (simp_all add: Let_def)

lemma mod_3_Suc: "Suc (Suc (Suc n)) mod 3 = n mod 3"
  by presburger

lemma EncodeBlock_append:
  "length xs mod 3 = 0 \<Longrightarrow> EVP_EncodeBlock (xs @ ys) = EVP_EncodeBlock xs @ EVP_EncodeBlock ys"
  by (induction xs rule: EVP_EncodeBlock.induct) (simp_all add: Let_def mod_3_Suc)

lemma pad_not_space: "\<not> is_space 61"
  by (simp add: is_space_def)

lemma EncodeBlock_not_space: "list_all (\<lambda>c. \<not> is_space c) (EVP_EncodeBlock xs)"
  by (induction xs rule: EVP_EncodeBlock.induct) (simp_all add: Let_def bin2ascii pad_not_space)

subsection \<open>Streams\<close>

text \<open>Decoding a stream is decoding the block of its non-space bytes.\<close>

lemma quad_length: "base64_decode_quad inp = Some out \<Longrightarrow> length out \<in> {1, 2, 3}"
  by (auto simp: base64_decode_quad_def Let_def split: if_splits)

lemma decode_loop_block:
  assumes "decode_loop ctx s = (ctx', out, ok)" and "length (ctx_data ctx) < 4"
    and "eof_seen ctx \<longrightarrow> ctx_data ctx = []" and "\<not> error_encountered ctx"
  shows "(if ok \<and> ctx_data ctx' = [] then Some out else None) =
    (let t = filter (\<lambda>c. \<not> is_space c) s
     in if eof_seen ctx then (if t = [] then Some [] else None)
        else decode_base64_loop (ctx_data ctx @ t))"
  using assms
proof (induction ctx s arbitrary: ctx' out ok rule: decode_loop.induct)
  case (1 ctx)
  then show ?case
    by (cases "ctx_data ctx" rule: decode_base64_loop.cases) (auto simp: Let_def)
next
  case (2 ctx c cs)
  let ?dat = "ctx_data ctx @ [c]"
  let ?t = "filter (\<lambda>c. \<not> is_space c) cs"
  consider (space) "is_space c" | (eof) "\<not> is_space c" "eof_seen ctx"
    | (quad) "\<not> is_space c" "\<not> eof_seen ctx" "length ?dat = 4"
    | (store) "\<not> is_space c" "\<not> eof_seen ctx" "length ?dat \<noteq> 4" by blast
  then show ?case
  proof cases
    case space
    then show ?thesis using "2.IH"(1) [OF space, of ctx' out ok] "2.prems" by simp
  next
    case eof
    then show ?thesis using "2.prems" by (auto simp: Let_def)
  next
    case quad
    then obtain x y z where d: "ctx_data ctx = [x, y, z]"
      by (auto simp: numeral_eq_Suc length_Suc_conv)
    show ?thesis
    proof (cases "base64_decode_quad ?dat")
      case None
      then show ?thesis using "2.prems" quad d by (auto simp: Let_def)
    next
      case (Some o1)
      let ?ctx = "ctx\<lparr>ctx_data := [], eof_seen := eof_seen ctx \<or> length o1 < 3\<rparr>"
      obtain o2 where o2: "decode_loop ?ctx cs = (ctx', o2, ok)" "out = o1 @ o2"
        using "2.prems"(1) quad Some by (auto simp: Let_def split: prod.splits)
      show ?thesis
        using "2.IH"(2) [OF quad(1, 2) refl quad(3) Some refl o2(1)] "2.prems" quad d Some o2
          quad_length [OF Some]
        by (auto simp: Let_def split: if_splits dest!: sym [where s = "Some _"])
    qed
  next
    case store
    then show ?thesis using "2.IH"(3) [OF store(1, 2) refl store(3), of ctx' out ok] "2.prems"
      by (auto simp: Let_def)
  qed
qed

text \<open>A whole stream: the updates on the pieces of the input, each giving the \<open>*out_len\<close>
  first bytes of what it wrote, and the final call.  \<open>None\<close> when a call returns -1.\<close>

fun decode_stream :: "evp_encode_ctx \<Rightarrow> u8 list list \<Rightarrow> u8 list option" where
  "decode_stream ctx [] = (if EVP_DecodeFinal ctx = 1 then Some [] else None)"
| "decode_stream ctx (inp # inps) =
     (case EVP_DecodeUpdate ctx inp of
        (ctx', out, n, r) \<Rightarrow>
          if r < 0 then None else map_option ((@) (take n out)) (decode_stream ctx' inps))"

fun encode_stream :: "evp_encode_ctx \<Rightarrow> u8 list list \<Rightarrow> u8 list" where
  "encode_stream ctx [] = (case EVP_EncodeFinal ctx of (_, out, n) \<Rightarrow> take n out)"
| "encode_stream ctx (inp # inps) =
     (case EVP_EncodeUpdate ctx inp of (ctx', out, n) \<Rightarrow> take n out @ encode_stream ctx' inps)"

lemma decode_loop_append:
  "decode_loop ctx (s @ t) =
     (case decode_loop ctx s of
        (ctx', out, False) \<Rightarrow> (ctx', out, False)
      | (ctx', out, True) \<Rightarrow> (case decode_loop ctx' t of (ctx'', outs, ok) \<Rightarrow> (ctx'', out @ outs, ok)))"
  by (induction ctx s rule: decode_loop.induct)
     (auto simp: Let_def split: prod.splits option.splits bool.splits)

lemma decode_loop_length: "decode_loop ctx s = (ctx', out, ok) \<Longrightarrow>
   length out * 4 + length (ctx_data ctx') * 3 \<le> (length s + length (ctx_data ctx)) * 3"
proof (induction ctx s arbitrary: ctx' out ok rule: decode_loop.induct)
  case (2 ctx c cs)
  then show ?case
    by (fastforce simp: Let_def split: if_splits option.splits prod.splits dest!: quad_length)
qed simp

lemma decode_loop_error:
  "decode_loop ctx s = (ctx', out, ok) \<Longrightarrow> \<not> error_encountered ctx \<Longrightarrow> error_encountered ctx' = (\<not> ok)"
  by (induction ctx s arbitrary: ctx' out ok rule: decode_loop.induct)
     (auto simp: Let_def split: if_splits option.splits prod.splits)

lemma decode_stream_loop:
  assumes "length (ctx_data ctx) + length (concat inps) \<le> int_max" and "\<not> error_encountered ctx"
  shows "decode_stream ctx inps =
    (case decode_loop ctx (concat inps) of
       (ctx', out, ok) \<Rightarrow> if ok \<and> ctx_data ctx' = [] then Some out else None)"
  using assms
proof (induction inps arbitrary: ctx)
  case Nil
  then show ?case by (simp add: EVP_DecodeFinal_def)
next
  case (Cons inp inps)
  obtain ctx1 o1 ok1 where d1: "decode_loop ctx inp = (ctx1, o1, ok1)" by (cases "decode_loop ctx inp")
  from decode_loop_length [OF d1] have len: "length o1 \<le> int_max"
    "length (ctx_data ctx1) + length (concat inps) \<le> int_max"
    using Cons.prems(1) by simp_all
  show ?case
  proof (cases ok1)
    case True
    then have "\<not> error_encountered ctx1" using decode_loop_error [OF d1] Cons.prems(2) by simp
    from Cons.IH [OF len(2) this] show ?thesis
      using Cons.prems(2) d1 True len(1)
      by (simp add: EVP_DecodeUpdate_def decode_loop_append split: prod.splits)
  next
    case False
    then show ?thesis
      using Cons.prems(2) d1 by (simp add: EVP_DecodeUpdate_def decode_loop_append)
  qed
qed

lemma mod_4_Suc: "Suc (Suc (Suc (Suc n))) mod 4 = n mod 4"
  by presburger

lemma decode_base64_length: "decode_base64_loop t = Some out \<Longrightarrow> length t mod 4 = 0"
proof (induction t arbitrary: out rule: decode_base64_loop.induct)
  case (2 a b c d inp)
  then show ?case by (fastforce simp: mod_4_Suc split: option.splits if_splits)
qed simp_all

text \<open>C40: Streaming decoding agrees with decoding in one call: however the text is cut into
  pieces, if it has at most \<open>INT_MAX\<close> bytes, the updates and the final call succeed exactly
  when \<open>EVP_DecodeBase64\<close> accepts the text without its white space, and give the same bytes.\<close>

theorem base64_stream_equals_block:
  assumes "length (concat pieces) \<le> int_max"
  shows "decode_stream EVP_DecodeInit pieces =
    EVP_DecodeBase64 0xffffffffffffffff (filter (\<lambda>c. \<not> is_space c) (concat pieces))"
proof -
  let ?t = "filter (\<lambda>c. \<not> is_space c) (concat pieces)"
  have word_max: "\<not> (0xffffffffffffffff :: u64) < x" for x
    using unat_word64_lt [of x] by (simp add: word_less_nat_alt)
  have "length ?t \<le> int_max" using assms length_filter_le order_trans by blast
  then have l: "EVP_DecodedLength (of_nat (length ?t)) \<noteq> None" if "length ?t mod 4 = 0"
    using that by (simp add: EVP_DecodedLength_def int_max_def word_unat_eq_iff unat_mod unat_of_nat)
  have "decode_stream EVP_DecodeInit pieces = decode_base64_loop ?t"
    using decode_stream_loop [of EVP_DecodeInit pieces] assms decode_loop_block [of EVP_DecodeInit "concat pieces"]
    by (simp add: EVP_DecodeInit_def Let_def split: prod.splits)
  also have "\<dots> = EVP_DecodeBase64 0xffffffffffffffff ?t"
    using l decode_base64_length [of ?t] word_max
    by (cases "decode_base64_loop ?t") (auto simp: EVP_DecodeBase64_def split: option.splits)
  finally show ?thesis .
qed

subsection \<open>The text of a stream\<close>

text \<open>What a stream encodes to: the lines of 48 bytes, the last one possibly shorter.\<close>

function pem_lines :: "u8 list \<Rightarrow> u8 list" where
  "pem_lines xs =
     (if xs = [] then [] else EVP_EncodeBlock (take 48 xs) @ NL # pem_lines (drop 48 xs))"
  by pat_completeness auto
termination pem_lines
  by (relation "measure length") auto

declare pem_lines.simps [simp del] encode_lines.simps [simp del]

lemma pem_lines_Nil [simp]: "pem_lines [] = []"
  by (subst pem_lines.simps) simp

lemma pem_lines_line:
  "length xs = 48 \<Longrightarrow> pem_lines (xs @ ys) = EVP_EncodeBlock xs @ NL # pem_lines ys"
  by (subst pem_lines.simps) auto

lemma pem_lines_short:
  "xs \<noteq> [] \<Longrightarrow> length xs < 48 \<Longrightarrow> pem_lines xs = EVP_EncodeBlock xs @ [NL]"
  by (subst pem_lines.simps) auto

lemma pem_lines_append:
  "length xs mod 48 = 0 \<Longrightarrow> pem_lines (xs @ ys) = pem_lines xs @ pem_lines ys"
proof (induction xs rule: pem_lines.induct)
  case (1 xs)
  show ?case
  proof (cases "xs = []")
    case False
    then have len: "48 \<le> length xs" using 1(2) by (metis dvd_imp_le length_greater_0_conv mod_eq_0_iff_dvd)
    then have "(length xs - 48) mod 48 = 0" using 1(2) by (simp add: le_mod_geq)
    then have ih: "pem_lines (drop 48 xs @ ys) = pem_lines (drop 48 xs) @ pem_lines ys"
      using 1(1) [OF False] by simp
    have "pem_lines (take 48 xs @ drop 48 xs @ ys) = pem_lines (take 48 xs @ drop 48 xs) @ pem_lines ys"
      using len ih by (simp only: pem_lines_line length_take min_absorb2) simp
    then show ?thesis by (metis append.assoc append_take_drop_id)
  qed simp
qed

lemma pem_lines_filter: "filter (\<lambda>c. \<not> is_space c) (pem_lines xs) = EVP_EncodeBlock xs"
proof (induction xs rule: pem_lines.induct)
  case (1 xs)
  have nl: "is_space NL" by (simp add: is_space_def)
  have keep: "filter (\<lambda>c. \<not> is_space c) (EVP_EncodeBlock zs) = EVP_EncodeBlock zs" for zs
    using EncodeBlock_not_space [of zs] by (simp add: list_all_iff filter_id_conv)
  show ?case
  proof (cases "length xs < 48")
    case True
    then show ?thesis by (cases "xs = []") (simp_all add: pem_lines_short keep nl)
  next
    case False
    then have "xs \<noteq> []" "length (take 48 xs) mod 3 = 0" by auto
    from EncodeBlock_append [OF this(2), of "drop 48 xs"] 1 [OF this(1)] show ?thesis
      using \<open>xs \<noteq> []\<close> by (subst pem_lines.simps) (simp add: keep nl)
  qed
qed

lemma pem_lines_length: "length (pem_lines xs) * 48 \<le> length xs * 65 + 176"
proof (induction xs rule: pem_lines.induct)
  case (1 xs)
  show ?case
  proof (cases "length xs < 48")
    case True
    have "(length xs + 2) div 3 * 3 \<le> length xs + 2" by simp
    then show ?thesis using True
      by (cases "xs = []") (simp_all add: pem_lines_short length_EncodeBlock)
  next
    case False
    then have "xs \<noteq> []" "length (EVP_EncodeBlock (take 48 xs)) = 64" by (auto simp: length_EncodeBlock)
    then show ?thesis using 1 False by (subst pem_lines.simps) simp
  qed
qed

text \<open>The loop over full lines of the encoder writes those lines.\<close>

abbreviation full :: "nat \<Rightarrow> nat" where
  "full n \<equiv> n div 48 * 48"

lemma encode_lines:
  assumes "length inp * 2 + unat tot < 2 ^ 63"
  shows "encode_lines inp tot =
    (pem_lines (take (full (length inp)) inp),
     Some (drop (full (length inp)) inp,
       tot + of_nat (length (pem_lines (take (full (length inp)) inp)))))"
  using assms
proof (induction inp tot rule: encode_lines.induct)
  case (1 inp tot)
  show ?case
  proof (cases "length inp < 48")
    case True
    then show ?thesis by (subst encode_lines.simps) (simp add: ENCODE_SIZE_def)
  next
    case False
    let ?n = "length inp - 48" and ?line = "EVP_EncodeBlock (take 48 inp) :: u8 list"
    have line: "length ?line = 64" using False by (simp add: length_EncodeBlock)
    have n: "full (length inp) = 48 + full ?n"
      using False by (simp add: le_div_geq)
    have t: "take (full (length inp)) inp = take 48 inp @ take (full ?n) (drop 48 inp)"
      using n take_add [of 48 "full ?n" inp] by simp
    have u: "unat (tot + 65) = unat tot + 65"
      using 1(2) by (simp add: unat_plus_if')
    then have nw: "\<not> tot + 64 + 1 < tot" by (simp add: word_less_nat_alt add.assoc)
    have ih: "encode_lines (drop 48 inp) (tot + 65) =
        (pem_lines (take (full ?n) (drop 48 inp)), Some (drop (full (length inp)) inp,
          tot + 65 + of_nat (length (pem_lines (take (full ?n) (drop 48 inp))))))"
      using 1(1) [OF _ refl refl] False line nw u 1(2) n by (simp add: ENCODE_SIZE_def add.commute)
    show ?thesis
      using False line nw ih unfolding t
      by (subst encode_lines.simps)
         (simp add: ENCODE_SIZE_def Let_def pem_lines_line add_ac)
  qed
qed

lemma pem_lines_full:
  "pem_lines (xs @ ys) = pem_lines (take (full (length xs)) xs) @ pem_lines (drop (full (length xs)) xs @ ys)"
proof -
  have "length (take (full (length xs)) xs) mod 48 = 0" by simp
  from pem_lines_append [OF this, of "drop (full (length xs)) xs @ ys"]
  show ?thesis by (metis append.assoc append_take_drop_id)
qed

lemma pem_lines_bound:
  "length xs \<le> 2 ^ 30 \<Longrightarrow> length (pem_lines xs) \<le> int_max"
  using pem_lines_length [of xs] by (simp add: int_max_def)

lemma take_drop_append_add:
  assumes "length a = n"
  shows "take (n + k) (a @ b) = a @ take k b" and "drop (n + k) (a @ b) = drop k b"
  using assms by auto

lemma encode_update:
  assumes "length (ctx_data ctx) < 48" and "length (ctx_data ctx @ inp) \<le> 2 ^ 30"
  defines "xs \<equiv> ctx_data ctx @ inp"
  defines "out \<equiv> pem_lines (take (full (length xs)) xs)"
  shows "EVP_EncodeUpdate ctx inp = (ctx\<lparr>ctx_data := drop (full (length xs)) xs\<rparr>, out, length out)"
proof -
  consider (buffer) "length xs < 48" | (direct) "48 \<le> length xs" "ctx_data ctx = []"
    | (fill) "48 \<le> length xs" "ctx_data ctx \<noteq> []" by linarith
  then show ?thesis
  proof cases
    case buffer
    then show ?thesis by (auto simp: EVP_EncodeUpdate_def xs_def out_def ENCODE_SIZE_def)
  next
    case direct
    have b: "length out \<le> int_max"
      using assms(2) unfolding out_def xs_def by (intro pem_lines_bound) simp
    then have "unat (of_nat (length out) :: u64) = length out"
      by (simp add: unat_of_nat int_max_def)
    then show ?thesis
      using direct assms(2) b encode_lines [of inp 0]
      by (auto simp: EVP_EncodeUpdate_def xs_def out_def ENCODE_SIZE_def)
  next
    case fill
    let ?d = "ctx_data ctx"
    let ?todo = "48 - length ?d"
    let ?line = "?d @ take ?todo inp" and ?rest = "drop ?todo inp"
    have len: "length ?line = 48" "length ?rest = length xs - 48"
      using fill assms(1) by (auto simp: xs_def)
    have xs: "xs = ?line @ ?rest" by (simp add: xs_def)
    have f: "full (length xs) = 48 + full (length ?rest)"
      using fill len by (simp add: le_div_geq)
    have "take (full (length xs)) xs = ?line @ take (full (length ?rest)) ?rest"
      unfolding f by (subst xs) (rule take_drop_append_add [OF len(1)])
    then have o: "out = EVP_EncodeBlock ?line @ NL # pem_lines (take (full (length ?rest)) ?rest)"
      unfolding out_def by (simp only: pem_lines_line [OF len(1)])
    have d: "drop (full (length xs)) xs = drop (full (length ?rest)) ?rest"
      unfolding f by (subst xs) (rule take_drop_append_add [OF len(1)])
    have b: "length out \<le> int_max"
      using assms(2) unfolding out_def xs_def by (intro pem_lines_bound) simp
    then have u: "unat (of_nat (length out) :: u64) = length out"
      by (simp add: unat_of_nat int_max_def)
    have e: "length (EVP_EncodeBlock ?line) = 64" using len by (simp add: length_EncodeBlock)
    have "encode_lines ?rest 65 = (pem_lines (take (full (length ?rest)) ?rest),
        Some (drop (full (length xs)) xs, of_nat (length out)))"
      using encode_lines [of ?rest 65] assms(2) e d o by (simp add: xs_def)
    moreover have "inp \<noteq> []" "\<not> length inp < 48 - length ?d"
      using fill assms(1) by (auto simp: xs_def)
    ultimately have "EVP_EncodeUpdate ctx inp =
        (ctx\<lparr>ctx_data := drop (full (length xs)) xs\<rparr>,
         (EVP_EncodeBlock ?line @ [NL]) @ pem_lines (take (full (length ?rest)) ?rest), length out)"
      using fill(2) b u e by (simp add: EVP_EncodeUpdate_def ENCODE_SIZE_def Let_def)
    then show ?thesis using o by simp
  qed
qed

lemma encode_stream:
  assumes "length (ctx_data ctx) < 48" and "length (ctx_data ctx @ concat inps) \<le> 2 ^ 30"
  shows "encode_stream ctx inps = pem_lines (ctx_data ctx @ concat inps)"
  using assms
proof (induction inps arbitrary: ctx)
  case Nil
  then show ?case
    by (cases "ctx_data ctx = []") (simp_all add: EVP_EncodeFinal_def pem_lines_short)
next
  case (Cons inp inps)
  let ?xs = "ctx_data ctx @ inp"
  define ys where "ys = drop (full (length ?xs)) ?xs"
  define out where "out = pem_lines (take (full (length ?xs)) ?xs)"
  have len: "length ys = length ?xs mod 48"
    unfolding ys_def length_drop by (simp only: minus_div_mult_eq_mod)
  then have "length ys \<le> length ?xs" by (simp only: mod_less_eq_dividend)
  then have ih: "encode_stream (ctx\<lparr>ctx_data := ys\<rparr>) inps = pem_lines (ys @ concat inps)"
    using Cons.IH [of "ctx\<lparr>ctx_data := ys\<rparr>"] Cons.prems len by simp
  have up: "EVP_EncodeUpdate ctx inp = (ctx\<lparr>ctx_data := ys\<rparr>, out, length out)"
    using encode_update [of ctx inp] Cons.prems unfolding ys_def out_def by simp
  have "pem_lines (ctx_data ctx @ concat (inp # inps)) = out @ pem_lines (ys @ concat inps)"
    using pem_lines_full [of ?xs "concat inps"] unfolding ys_def out_def by simp
  then show ?case by (simp add: up ih)
qed

theorem base64_stream_equals_block_witness:
  "decode_stream EVP_DecodeInit [[0x61, 10], [0x6d, 0x45, 0x3d, 32]] =
     EVP_DecodeBase64 0xffffffffffffffff
       (filter (\<lambda>c. \<not> is_space c) (concat [[0x61, 10], [0x6d, 0x45, 0x3d, 32]])) \<and>
   EVP_DecodeBase64 0xffffffffffffffff [0x61, 0x6d, 0x45, 0x3d] = Some [0x6a, 0x61]"
proof
  show "decode_stream EVP_DecodeInit [[0x61, 10], [0x6d, 0x45, 0x3d, 32]] =
     EVP_DecodeBase64 0xffffffffffffffff
       (filter (\<lambda>c. \<not> is_space c) (concat [[0x61, 10], [0x6d, 0x45, 0x3d, 32]]))"
    by (rule base64_stream_equals_block) (simp add: int_max_def)
  show "EVP_DecodeBase64 0xffffffffffffffff [0x61, 0x6d, 0x45, 0x3d] = Some [0x6a, 0x61]"
    unfolding EVP_DecodeBase64_def EVP_DecodedLength_def decode_base64_loop.simps
      base64_decode_quad_def ascii2bin_if by code_simp
qed

text \<open>C12: Base64 streams round trip: however the data (up to a gigabyte) is cut into
  \<open>EVP_EncodeUpdate\<close> calls and however the text they and \<open>EVP_EncodeFinal\<close> wrote is cut
  into \<open>EVP_DecodeUpdate\<close> calls, decoding succeeds and gives the data.\<close>

theorem base64_stream_roundtrip:
  assumes "length (concat pieces) \<le> 2 ^ 30"
    and "concat texts = encode_stream EVP_EncodeInit pieces"
  shows "decode_stream EVP_DecodeInit texts = Some (concat pieces)"
proof -
  have e: "concat texts = pem_lines (concat pieces)"
    using assms encode_stream [of EVP_EncodeInit pieces] by (simp add: EVP_EncodeInit_def)
  then have "length (concat texts) \<le> int_max" using assms(1) by (simp add: pem_lines_bound)
  then show ?thesis
    using decode_stream_loop [of EVP_DecodeInit texts] decode_loop_block [of EVP_DecodeInit "concat texts"]
    by (simp add: EVP_DecodeInit_def e pem_lines_filter block_roundtrip Let_def split: prod.splits)
qed

lemma trim_spaces:
  assumes "set before \<subseteq> {32, 9}" and "list_all is_space after" and "list_all (\<lambda>c. \<not> is_space c) t"
  shows "rev (dropWhile is_space (rev (dropWhile (\<lambda>c. c = ch CHR '' '' \<or> c = 9) (before @ t @ after)))) = t"
proof (cases t)
  case Nil
  have "list_all is_space (dropWhile (\<lambda>c. c = ch CHR '' '' \<or> c = 9) (before @ after))"
    using assms(1, 2) by (auto simp: list_all_iff is_space_def dest!: set_dropWhileD)
  then show ?thesis using Nil by (simp add: list_all_iff)
next
  case (Cons c cs)
  have "\<forall>x \<in> set before. x = ch CHR '' '' \<or> x = 9" using assms(1) by auto
  then have "dropWhile (\<lambda>c. c = ch CHR '' '' \<or> c = 9) (before @ t @ after) = t @ after"
    using assms(3) Cons by (simp add: dropWhile_append2 is_space_def)
  moreover have "dropWhile is_space (rev t) = rev t"
    using assms(3) by (cases t rule: rev_cases) auto
  then have "dropWhile is_space (rev after @ rev t) = rev t"
    using assms(2) by (subst dropWhile_append2) (simp_all add: list_all_iff)
  ultimately show ?thesis by simp
qed

lemma encoded_length:
  "EVP_EncodedLength len =
     (if (unat len + 2) div 3 * 4 + 1 < 2 ^ 64
      then Some (of_nat ((unat len + 2) div 3 * 4 + 1)) else None)"
proof (cases "unat len + 2 < 2 ^ 64")
  case False
  then have "len + 2 < len" and "6148914691236517205 \<le> (unat len + 2) div 3"
    using unat_word64_lt [of len] by (simp_all add: word_less_nat_alt unat_plus_if' div_le_mono)
  then show ?thesis by (simp add: EVP_EncodedLength_def)
next
  case True
  let ?k = "(unat len + 2) div 3"
  have nw: "\<not> len + 2 < len" and k: "(len + 2) div 3 = of_nat ?k"
    using True by (simp_all add: word_less_nat_alt unat_plus_if' word_unat_eq_iff unat_div unat_of_nat)
  have m: "unat (push_bit 2 (of_nat ?k :: u64)) = ?k * 4 mod 2 ^ 64"
    using True by (simp add: push_bit_eq_mult unat_word_ariths unat_of_nat)
  show ?thesis
  proof (cases "?k < 2 ^ 62")
    case True
    define l where "l = push_bit 2 (of_nat ?k :: u64)"
    have u: "unat l = ?k * 4" using m True by (simp add: l_def)
    have k2: "?k * 4 + 1 < 2 ^ 64" using True by simp
    have "drop_bit 2 l = of_nat ?k"
      unfolding word_unat_eq_iff unat_drop_bit_div u using True by (simp add: unat_of_nat)
    moreover have u1: "unat (l + 1) = ?k * 4 + 1" using u k2 by (simp add: unat_plus_if')
    then have "l + 1 = of_nat (?k * 4 + 1)" by (rule unat_eq_of_nat)
    moreover have "\<not> l + 1 < l" unfolding word_less_nat_alt u1 u by simp
    ultimately show ?thesis
      using k2 nw k by (simp only: EVP_EncodedLength_def Let_def l_def if_True if_False refl not_True_eq_False)
  next
    case False
    have "unat (drop_bit 2 (push_bit 2 (of_nat ?k :: u64))) < 2 ^ 62"
      unfolding unat_drop_bit_div m by (simp add: less_mult_imp_div_less)
    moreover have "unat (of_nat ?k :: u64) = ?k" using True by (simp add: unat_of_nat)
    ultimately have "drop_bit 2 (push_bit 2 (of_nat ?k :: u64)) \<noteq> of_nat ?k" using False by auto
    then show ?thesis using False nw k by (simp add: EVP_EncodedLength_def Let_def)
  qed
qed

lemma decoded_length:
  assumes "k * 4 < 2 ^ 64"
  shows "EVP_DecodedLength (of_nat (k * 4)) = Some (of_nat (k * 3))"
proof -
  have k: "unat (of_nat (k * 4) :: u64) = k * 4" using assms by (rule unat_of_nat64)
  have "unat (of_nat (k * 4) mod 4 :: u64) = 0" unfolding unat_mod k by simp
  then have m: "of_nat (k * 4) mod 4 = (0 :: u64)" by (simp only: unat_eq_0)
  have d: "unat (of_nat (k * 4) div 4 :: u64) = k" unfolding unat_div k by simp
  have "of_nat (k * 4) div 4 * 3 = (of_nat (k * 3) :: u64)"
    using unat_eq_of_nat [OF d] by (simp only: of_nat_mult of_nat_numeral)
  then show ?thesis using m by (simp only: EVP_DecodedLength_def) simp
qed

theorem base64_stream_roundtrip_witness:
  "decode_stream EVP_DecodeInit [[0x61, 0x6d], [0x46, 0x6a, 10]] = Some [0x6a, 0x61, 0x63]"
proof -
  have "concat [[0x61, 0x6d], [0x46, 0x6a, 10]] = encode_stream EVP_EncodeInit [[0x6a], [0x61, 0x63]]"
    unfolding encode_stream.simps EVP_EncodeUpdate_def EVP_EncodeFinal_def EVP_EncodeInit_def
      EVP_EncodeBlock.simps ENCODE_SIZE_def by (simp add: Let_def bin2ascii_if)
  from base64_stream_roundtrip [OF _ this] show ?thesis by simp
qed

text \<open>Base64 blocks: \<open>EVP_EncodedLength\<close> fails exactly when the length with the NUL
  exceeds \<open>size_t\<close> and otherwise is the length of \<open>EVP_EncodeBlock\<close>'s text with the
  NUL; \<open>EVP_DecodeBase64\<close> gives the data back; \<open>EVP_DecodeBlock\<close>, also with
  spaces and tabs before the text and white space after it, gives the data filled with zeros to a
  multiple of three.\<close>

lemma base64_block_roundtrip:
  assumes "length xs \<le> 2 ^ 30" and "set before \<subseteq> {32, 9}" and "list_all is_space after"
  shows "EVP_EncodedLength len =
      (if (unat len + 2) div 3 * 4 + 1 < 2 ^ 64
       then Some (of_nat ((unat len + 2) div 3 * 4 + 1)) else None) \<and>
    EVP_EncodedLength (of_nat (length xs)) = Some (of_nat (length (EVP_EncodeBlock xs) + 1)) \<and>
    EVP_DecodeBase64 0xffffffffffffffff (EVP_EncodeBlock xs) = Some xs \<and>
    EVP_DecodeBlock (before @ EVP_EncodeBlock xs @ after) =
      Some (xs @ replicate ((3 - length xs mod 3) mod 3) 0)"
proof -
  let ?k = "(length xs + 2) div 3" and ?t = "EVP_EncodeBlock xs"
  have k: "?k * 3 \<le> length xs + 2" "length ?t = ?k * 4" by (simp_all add: length_EncodeBlock)
  have dl: "EVP_DecodedLength (of_nat (length ?t)) = Some (of_nat (?k * 3))"
    unfolding k(2) using k(1) assms(1) by (intro decoded_length) simp
  have u: "unat (of_nat (?k * 3) :: u64) = ?k * 3" using k(1) assms(1) by (intro unat_of_nat64) simp
  have n: "unat (of_nat (length xs) :: u64) = length xs" using assms(1) by (simp add: unat_of_nat)
  have e: "EVP_EncodedLength (of_nat (length xs)) = Some (of_nat (length ?t + 1))"
    using k assms(1) unfolding encoded_length n by simp
  have d: "EVP_DecodeBase64 m ?t = Some xs" if "of_nat (?k * 3) \<le> m" for m
    using that dl k(2) block_roundtrip [of xs] by (simp add: EVP_DecodeBase64_def)
  have w: "of_nat (?k * 3) \<le> (0xffffffffffffffff :: u64)"
    using unat_word64_lt [of "of_nat (?k * 3)"] by (simp add: word_le_nat_alt)
  have b: "EVP_DecodeBlock (before @ ?t @ after) =
      Some (xs @ replicate ((3 - length xs mod 3) mod 3) 0)"
  proof -
    have "\<not> int_max < ?k * 3" using k(1) assms(1) by (simp add: int_max_def)
    then show ?thesis
      unfolding EVP_DecodeBlock_def Let_def trim_spaces [OF assms(2, 3) EncodeBlock_not_space [of xs]] dl
        option.case u
      using d [OF order_refl] by simp
  qed
  show ?thesis using encoded_length e d [OF w] b by blast
qed

end
