(* ===== verification/Md32.thy ===== *)
theory Md32
  imports Prelude
begin

text \<open>
  The collector of the Merkle-Damgard hashes (\<open>crypto/fipsmodule/digest/md32_common.h\<close>): it cuts
  the input of any number of calls into blocks, counts the bits, pads and finishes.  The macros of
  the header are parameters: \<open>block\<close> for \<open>HASH_BLOCK_DATA_ORDER\<close> on one block, \<open>l2c\<close> for
  the byte order of \<open>HOST_l2c\<close>, \<open>big\<close> for \<open>DATA_ORDER_IS_BIG_ENDIAN\<close>.  \<open>num\<close> is
  less than the block size, and \<open>data\<close> has the length of a block.

  \<open>chain\<close> is the field \<open>h\<close>.  The record is shared with \<open>SHA512_CTX\<close>, which has the same fields at 64 bits.
\<close>

record 'w hash_ctx =
  chain :: "'w list"
  Nl :: 'w
  Nh :: 'w
  data :: bytes
  num :: u32
  md_len :: u32

type_synonym 'w hash_block = "'w list \<Rightarrow> bytes \<Rightarrow> 'w list"

subsection \<open>Byte order\<close>

definition HOST_c2l_big :: "bytes \<Rightarrow> u32" where
  "HOST_c2l_big c = push_bit 24 (ucast (c ! 0)) OR push_bit 16 (ucast (c ! 1)) OR
     push_bit 8 (ucast (c ! 2)) OR ucast (c ! 3)"

definition HOST_l2c_big :: "u32 \<Rightarrow> bytes" where
  "HOST_l2c_big l = [ucast (drop_bit 24 l AND 0xff), ucast (drop_bit 16 l AND 0xff),
     ucast (drop_bit 8 l AND 0xff), ucast (l AND 0xff)]"

definition HOST_c2l_little :: "bytes \<Rightarrow> u32" where
  "HOST_c2l_little c = ucast (c ! 0) OR push_bit 8 (ucast (c ! 1)) OR
     push_bit 16 (ucast (c ! 2)) OR push_bit 24 (ucast (c ! 3))"

definition HOST_l2c_little :: "u32 \<Rightarrow> bytes" where
  "HOST_l2c_little l = [ucast (l AND 0xff), ucast (drop_bit 8 l AND 0xff),
     ucast (drop_bit 16 l AND 0xff), ucast (drop_bit 24 l AND 0xff)]"

subsection \<open>Blocks\<close>

text \<open>The loop of every block function: \<open>num\<close> blocks of \<open>cblock\<close> bytes, one after the other.\<close>

fun block_data_order ::
  "'w hash_block \<Rightarrow> nat \<Rightarrow> 'w list \<Rightarrow> bytes \<Rightarrow> nat \<Rightarrow> 'w list" where
  "block_data_order block cblock state xs 0 = state"
| "block_data_order block cblock state xs (Suc n) =
     block_data_order block cblock (block state (take cblock xs)) (drop cblock xs) n"

text \<open>\<open>memcpy\<close> and \<open>memset\<close> into a buffer.\<close>

definition put :: "nat \<Rightarrow> bytes \<Rightarrow> bytes \<Rightarrow> bytes" where
  "put n xs buf = take n buf @ xs @ drop (n + length xs) buf"

subsection \<open>Updating\<close>

text \<open>What \<open>HASH_UPDATE\<close> does once the buffer is empty: whole blocks, then the rest.\<close>

definition update_blocks :: "u32 hash_block \<Rightarrow> u32 hash_ctx \<Rightarrow> bytes \<Rightarrow> u32 hash_ctx" where
  "update_blocks block c xs =
     (let n = length xs div 64;
          c1 = (if 0 < n then c\<lparr>chain := block_data_order block 64 (chain c) xs n\<rparr> else c);
          rest = drop (n * 64) xs
      in if rest \<noteq> [] then c1\<lparr>num := of_nat (length rest), data := put 0 rest (data c1)\<rparr> else c1)"

definition HASH_UPDATE :: "u32 hash_block \<Rightarrow> u32 hash_ctx \<Rightarrow> bytes \<Rightarrow> u32 hash_ctx" where
  "HASH_UPDATE block c xs =
     (let len = length xs
      in if len = 0 then c
         else
           let l = Nl c + push_bit 3 (of_nat len);
               c1 = (if l < Nl c then c\<lparr>Nh := Nh c + 1\<rparr> else c);
               c2 = c1\<lparr>Nh := Nh c1 + of_nat (len div 2 ^ 29), Nl := l\<rparr>;
               n = unat (num c2)
           in if n \<noteq> 0 then
                if 64 \<le> len \<or> 64 \<le> len + n then
                  let m = 64 - n;
                      buf = put n (take m xs) (data c2);
                      c3 = c2\<lparr>chain := block_data_order block 64 (chain c2) buf 1, num := 0,
                              data := replicate 64 0\<rparr>
                  in update_blocks block c3 (drop m xs)
                else c2\<lparr>data := put n xs (data c2), num := num c2 + of_nat len\<rparr>
              else update_blocks block c2 xs)"

definition HASH_TRANSFORM :: "u32 hash_block \<Rightarrow> u32 hash_ctx \<Rightarrow> bytes \<Rightarrow> u32 hash_ctx" where
  "HASH_TRANSFORM block c xs = c\<lparr>chain := block_data_order block 64 (chain c) xs 1\<rparr>"

subsection \<open>Finishing\<close>

text \<open>The context after the last block; the output is read from its \<open>chain\<close>.\<close>

definition HASH_FINAL :: "bool \<Rightarrow> (u32 \<Rightarrow> bytes) \<Rightarrow> u32 hash_block \<Rightarrow> u32 hash_ctx \<Rightarrow> u32 hash_ctx" where
  "HASH_FINAL big l2c block c =
     (let n = unat (num c) + 1;
          buf = put (unat (num c)) [0x80] (data c);
          (n1, c1, buf1) =
            (if 64 - 8 < n then
               (let full = put n (replicate (64 - n) 0) buf
                in (0, c\<lparr>chain := block_data_order block 64 (chain c) full 1\<rparr>, full))
             else (n, c, buf));
          buf2 = put n1 (replicate (64 - 8 - n1) 0) buf1;
          buf3 = put (64 - 8) (if big then l2c (Nh c) @ l2c (Nl c) else l2c (Nl c) @ l2c (Nh c)) buf2
      in c1\<lparr>chain := block_data_order block 64 (chain c1) buf3 1, num := 0, data := replicate 64 0\<rparr>)"

subsection \<open>The reference\<close>

text \<open>
  A message of \<open>n\<close> bytes is followed by the byte \<open>0x80\<close>, as few zeros as make the rest of the
  block fit the length field, and the length field, \<open>len_field n\<close> of \<open>k\<close> bytes.
\<close>

definition md_padding :: "nat \<Rightarrow> nat \<Rightarrow> (nat \<Rightarrow> bytes) \<Rightarrow> nat \<Rightarrow> bytes" where
  "md_padding cblock k len_field n =
     0x80 # replicate ((2 * cblock - 1 - k - n mod cblock) mod cblock) 0 @ len_field n"

text \<open>The number of bits in two words, modulo \<open>2^64\<close>.\<close>

definition bit_length_field :: "bool \<Rightarrow> (u32 \<Rightarrow> bytes) \<Rightarrow> nat \<Rightarrow> bytes" where
  "bit_length_field big l2c n =
     (let hi = l2c (of_nat (8 * n div 2 ^ 32)); lo = l2c (of_nat (8 * n))
      in if big then hi @ lo else lo @ hi)"

definition md_hash ::
  "'w hash_block \<Rightarrow> nat \<Rightarrow> nat \<Rightarrow> (nat \<Rightarrow> bytes) \<Rightarrow> 'w list \<Rightarrow> bytes \<Rightarrow> 'w list" where
  "md_hash block cblock k len_field init msg =
     (let padded = msg @ md_padding cblock k len_field (length msg)
      in block_data_order block cblock init padded (length padded div cblock))"

text \<open>The state of a collector that has seen \<open>msg\<close>: the chain is the one after the whole blocks,
  the rest is in the buffer, the counters hold the number of bits.\<close>

definition seen ::
  "'w::len word hash_block \<Rightarrow> nat \<Rightarrow> 'w word list \<Rightarrow> 'w word hash_ctx \<Rightarrow> bytes \<Rightarrow> bool" where
  "seen block cblock init c msg \<longleftrightarrow>
     length (data c) = cblock \<and> unat (num c) = length msg mod cblock \<and>
     take (unat (num c)) (data c) = drop (length msg div cblock * cblock) msg \<and>
     chain c = block_data_order block cblock init msg (length msg div cblock) \<and>
     (2 ^ LENGTH('w) * unat (Nh c) + unat (Nl c)) = 8 * length msg mod 2 ^ (2 * LENGTH('w))"

end
