(* ===== verification/Sha.thy ===== *)
theory Sha
  imports Md32 Cbs
begin

text \<open>
  The hashes on the collector: SHA-1 (\<open>crypto/fipsmodule/sha/sha1.c\<close>), SHA-224 and SHA-256
  (\<open>sha256.c\<close>), SHA-384 and SHA-512 (\<open>sha512.c\<close>, with a collector of its own) MD5
  (\<open>md5/md5.c\<close>) and MD4 (\<open>md4/md4.c\<close>).

  The block functions work on registers that the unrolled code passes to its macros in rotated
  order.  Here the registers are a list, and a row is the order in which one macro call gets them:
  \<open>row ! 0\<close> is the register passed for the macro's parameter \<open>a\<close>.
\<close>

text \<open>A context as the init functions leave it; \<open>p\<close> is what the buffer holds.\<close>

definition init_ctx :: "'w list \<Rightarrow> bytes \<Rightarrow> u32 \<Rightarrow> ('w :: zero) hash_ctx" where
  "init_ctx hs p len = \<lparr>chain = hs, Nl = 0, Nh = 0, data = p, num = 0, md_len = len\<rparr>"

definition ROTATE :: "u32 \<Rightarrow> nat \<Rightarrow> u32" where
  "ROTATE a n = push_bit n a OR drop_bit (32 - n) a"

subsection \<open>SHA-2 rounds\<close>

text \<open>The macros \<open>sha256.c\<close> and \<open>sha512.c\<close> have in common.\<close>

definition sha2_Ch :: "'w::len word \<Rightarrow> 'w word \<Rightarrow> 'w word \<Rightarrow> 'w word" where
  "sha2_Ch x y z = (x AND y) XOR (NOT x AND z)"

definition sha2_Maj :: "'w::len word \<Rightarrow> 'w word \<Rightarrow> 'w word \<Rightarrow> 'w word" where
  "sha2_Maj x y z = (x AND y) XOR (x AND z) XOR (y AND z)"

definition sha2_rows :: "nat list list" where
  "sha2_rows = [[0, 1, 2, 3, 4, 5, 6, 7], [7, 0, 1, 2, 3, 4, 5, 6], [6, 7, 0, 1, 2, 3, 4, 5],
     [5, 6, 7, 0, 1, 2, 3, 4], [4, 5, 6, 7, 0, 1, 2, 3], [3, 4, 5, 6, 7, 0, 1, 2],
     [2, 3, 4, 5, 6, 7, 0, 1], [1, 2, 3, 4, 5, 6, 7, 0]]"

definition ROUND_00_15 ::
  "('w::len word \<Rightarrow> 'w word) \<Rightarrow> ('w word \<Rightarrow> 'w word) \<Rightarrow> 'w word list \<Rightarrow> nat \<Rightarrow> 'w word \<Rightarrow> nat list \<Rightarrow>
   'w word list \<Rightarrow> 'w word list" where
  "ROUND_00_15 Sigma0 Sigma1 K i T1 row v =
     (let a = v ! (row ! 0); b = v ! (row ! 1); c = v ! (row ! 2); d = v ! (row ! 3);
          e = v ! (row ! 4); f = v ! (row ! 5); g = v ! (row ! 6); h = v ! (row ! 7);
          T1' = T1 + (h + Sigma1 e + sha2_Ch e f g + K ! i);
          h' = Sigma0 a + sha2_Maj a b c
      in v[row ! 3 := d + T1', row ! 7 := h' + T1'])"

text \<open>\<open>ROUND_16_63\<close> and \<open>ROUND_16_80\<close>: \<open>X\<close> holds the last sixteen words of the schedule.\<close>

definition ROUND_16 ::
  "('w::len word \<Rightarrow> 'w word) \<Rightarrow> ('w word \<Rightarrow> 'w word) \<Rightarrow> ('w word \<Rightarrow> 'w word) \<Rightarrow> ('w word \<Rightarrow> 'w word) \<Rightarrow>
   'w word list \<Rightarrow> nat \<Rightarrow> nat list \<Rightarrow> 'w word list \<times> 'w word list \<Rightarrow> 'w word list \<times> 'w word list" where
  "ROUND_16 Sigma0 Sigma1 sigma0 sigma1 K i row = (\<lambda>(X, v).
     let s0 = sigma0 (X ! ((i + 1) mod 16));
         s1 = sigma1 (X ! ((i + 14) mod 16));
         T1 = X ! (i mod 16) + (s0 + s1 + X ! ((i + 9) mod 16))
     in (X[i mod 16 := T1], ROUND_00_15 Sigma0 Sigma1 K i T1 row v))"

definition sha2_block ::
  "nat \<Rightarrow> ('w::len word \<Rightarrow> 'w word) \<Rightarrow> ('w word \<Rightarrow> 'w word) \<Rightarrow> ('w word \<Rightarrow> 'w word) \<Rightarrow> ('w word \<Rightarrow> 'w word) \<Rightarrow>
   'w word list \<Rightarrow> 'w word list \<Rightarrow> 'w word list \<Rightarrow> 'w word list" where
  "sha2_block rounds Sigma0 Sigma1 sigma0 sigma1 K state X =
     (let v1 = foldl (\<lambda>v i. ROUND_00_15 Sigma0 Sigma1 K i (X ! i) (sha2_rows ! (i mod 8)) v) state [0..<16];
          (X', v) = foldl (\<lambda>s i. ROUND_16 Sigma0 Sigma1 sigma0 sigma1 K i (sha2_rows ! (i mod 8)) s)
                      (X, v1) [16..<rounds]
      in map2 (+) state v)"

subsection \<open>SHA-224 and SHA-256\<close>

definition SHA224_Init :: "u32 hash_ctx" where
  "SHA224_Init = init_ctx
     [0xC1059ED8, 0x367CD507, 0x3070DD17, 0xF70E5939,
     0xFFC00B31, 0x68581511, 0x64F98FA7, 0xBEFA4FA4] (replicate 64 0) 28"

definition SHA256_Init :: "u32 hash_ctx" where
  "SHA256_Init = init_ctx
     [0x6A09E667, 0xBB67AE85, 0x3C6EF372, 0xA54FF53A,
     0x510E527F, 0x9B05688C, 0x1F83D9AB, 0x5BE0CD19] (replicate 64 0) 32"

definition K256 :: "u32 list" where
  "K256 =
    [0x428A2F98, 0x71374491, 0xB5C0FBCF, 0xE9B5DBA5, 0x3956C25B, 0x59F111F1,
     0x923F82A4, 0xAB1C5ED5, 0xD807AA98, 0x12835B01, 0x243185BE, 0x550C7DC3,
     0x72BE5D74, 0x80DEB1FE, 0x9BDC06A7, 0xC19BF174, 0xE49B69C1, 0xEFBE4786,
     0x0FC19DC6, 0x240CA1CC, 0x2DE92C6F, 0x4A7484AA, 0x5CB0A9DC, 0x76F988DA,
     0x983E5152, 0xA831C66D, 0xB00327C8, 0xBF597FC7, 0xC6E00BF3, 0xD5A79147,
     0x06CA6351, 0x14292967, 0x27B70A85, 0x2E1B2138, 0x4D2C6DFC, 0x53380D13,
     0x650A7354, 0x766A0ABB, 0x81C2C92E, 0x92722C85, 0xA2BFE8A1, 0xA81A664B,
     0xC24B8B70, 0xC76C51A3, 0xD192E819, 0xD6990624, 0xF40E3585, 0x106AA070,
     0x19A4C116, 0x1E376C08, 0x2748774C, 0x34B0BCB5, 0x391C0CB3, 0x4ED8AA4A,
     0x5B9CCA4F, 0x682E6FF3, 0x748F82EE, 0x78A5636F, 0x84C87814, 0x8CC70208,
     0x90BEFFFA, 0xA4506CEB, 0xBEF9A3F7, 0xC67178F2]"

definition Sigma0_256 :: "u32 \<Rightarrow> u32" where
  "Sigma0_256 x = ROTATE x 30 XOR ROTATE x 19 XOR ROTATE x 10"

definition Sigma1_256 :: "u32 \<Rightarrow> u32" where
  "Sigma1_256 x = ROTATE x 26 XOR ROTATE x 21 XOR ROTATE x 7"

definition sigma0_256 :: "u32 \<Rightarrow> u32" where
  "sigma0_256 x = ROTATE x 25 XOR ROTATE x 14 XOR drop_bit 3 x"

definition sigma1_256 :: "u32 \<Rightarrow> u32" where
  "sigma1_256 x = ROTATE x 15 XOR ROTATE x 13 XOR drop_bit 10 x"

text \<open>The sixteen words of a block.\<close>

definition words_big :: "bytes \<Rightarrow> u32 list" where
  "words_big xs = map (\<lambda>i. HOST_c2l_big (take 4 (drop (4 * i) xs))) [0..<16]"

definition sha256_block :: "u32 hash_block" where
  "sha256_block state xs =
     sha2_block 64 Sigma0_256 Sigma1_256 sigma0_256 sigma1_256 K256 state (words_big xs)"

definition SHA256_Update :: "u32 hash_ctx \<Rightarrow> bytes \<Rightarrow> u32 hash_ctx" where
  "SHA256_Update = HASH_UPDATE sha256_block"

definition SHA256_Transform :: "u32 hash_ctx \<Rightarrow> bytes \<Rightarrow> u32 hash_ctx" where
  "SHA256_Transform = HASH_TRANSFORM sha256_block"

text \<open>\<open>HASH_MAKE_STRING\<close>; \<open>None\<close> is the return of 0.\<close>

definition sha256_string :: "u32 hash_ctx \<Rightarrow> bytes option" where
  "sha256_string c =
     (let words = (\<lambda>n. concat (map (\<lambda>i. HOST_l2c_big (chain c ! i)) [0..<n]))
      in if md_len c = 28 then Some (words (28 div 4))
         else if md_len c = 32 then Some (words (32 div 4))
         else if 32 < md_len c then None
         else Some (words (unat (md_len c) div 4)))"

definition SHA256_Final :: "u32 hash_ctx \<Rightarrow> u32 hash_ctx \<times> bytes option" where
  "SHA256_Final c = (let c' = HASH_FINAL True HOST_l2c_big sha256_block c in (c', sha256_string c'))"

definition SHA224_Update :: "u32 hash_ctx \<Rightarrow> bytes \<Rightarrow> u32 hash_ctx" where
  "SHA224_Update c xs = SHA256_Update c xs"

definition SHA224_Final :: "u32 hash_ctx \<Rightarrow> u32 hash_ctx \<times> bytes option" where
  "SHA224_Final c = SHA256_Final c"

definition SHA224 :: "bytes \<Rightarrow> bytes option" where
  "SHA224 xs = snd (SHA224_Final (SHA224_Update SHA224_Init xs))"

definition SHA256 :: "bytes \<Rightarrow> bytes option" where
  "SHA256 xs = snd (SHA256_Final (SHA256_Update SHA256_Init xs))"

definition SHA256_TransformBlocks :: "u32 list \<Rightarrow> bytes \<Rightarrow> nat \<Rightarrow> u32 list" where
  "SHA256_TransformBlocks state xs n = block_data_order sha256_block 64 state xs n"

subsection \<open>SHA-384 and SHA-512\<close>

text \<open>Their init functions leave the buffer \<open>p\<close> as it is.\<close>

definition SHA384_Init :: "bytes \<Rightarrow> u64 hash_ctx" where
  "SHA384_Init p = init_ctx
     [0xCBBB9D5DC1059ED8, 0x629A292A367CD507, 0x9159015A3070DD17, 0x152FECD8F70E5939,
     0x67332667FFC00B31, 0x8EB44A8768581511, 0xDB0C2E0D64F98FA7, 0x47B5481DBEFA4FA4] p 48"

definition SHA512_Init :: "bytes \<Rightarrow> u64 hash_ctx" where
  "SHA512_Init p = init_ctx
     [0x6A09E667F3BCC908, 0xBB67AE8584CAA73B, 0x3C6EF372FE94F82B, 0xA54FF53A5F1D36F1,
     0x510E527FADE682D1, 0x9B05688C2B3E6C1F, 0x1F83D9ABFB41BD6B, 0x5BE0CD19137E2179] p 64"

definition K512 :: "u64 list" where
  "K512 =
    [0x428A2F98D728AE22, 0x7137449123EF65CD, 0xB5C0FBCFEC4D3B2F, 0xE9B5DBA58189DBBC,
     0x3956C25BF348B538, 0x59F111F1B605D019, 0x923F82A4AF194F9B, 0xAB1C5ED5DA6D8118,
     0xD807AA98A3030242, 0x12835B0145706FBE, 0x243185BE4EE4B28C, 0x550C7DC3D5FFB4E2,
     0x72BE5D74F27B896F, 0x80DEB1FE3B1696B1, 0x9BDC06A725C71235, 0xC19BF174CF692694,
     0xE49B69C19EF14AD2, 0xEFBE4786384F25E3, 0x0FC19DC68B8CD5B5, 0x240CA1CC77AC9C65,
     0x2DE92C6F592B0275, 0x4A7484AA6EA6E483, 0x5CB0A9DCBD41FBD4, 0x76F988DA831153B5,
     0x983E5152EE66DFAB, 0xA831C66D2DB43210, 0xB00327C898FB213F, 0xBF597FC7BEEF0EE4,
     0xC6E00BF33DA88FC2, 0xD5A79147930AA725, 0x06CA6351E003826F, 0x142929670A0E6E70,
     0x27B70A8546D22FFC, 0x2E1B21385C26C926, 0x4D2C6DFC5AC42AED, 0x53380D139D95B3DF,
     0x650A73548BAF63DE, 0x766A0ABB3C77B2A8, 0x81C2C92E47EDAEE6, 0x92722C851482353B,
     0xA2BFE8A14CF10364, 0xA81A664BBC423001, 0xC24B8B70D0F89791, 0xC76C51A30654BE30,
     0xD192E819D6EF5218, 0xD69906245565A910, 0xF40E35855771202A, 0x106AA07032BBD1B8,
     0x19A4C116B8D2D0C8, 0x1E376C085141AB53, 0x2748774CDF8EEB99, 0x34B0BCB5E19B48A8,
     0x391C0CB3C5C95A63, 0x4ED8AA4AE3418ACB, 0x5B9CCA4F7763E373, 0x682E6FF3D6B2B8A3,
     0x748F82EE5DEFB2FC, 0x78A5636F43172F60, 0x84C87814A1F0AB72, 0x8CC702081A6439EC,
     0x90BEFFFA23631E28, 0xA4506CEBDE82BDE9, 0xBEF9A3F7B2C67915, 0xC67178F2E372532B,
     0xCA273ECEEA26619C, 0xD186B8C721C0C207, 0xEADA7DD6CDE0EB1E, 0xF57D4F7FEE6ED178,
     0x06F067AA72176FBA, 0x0A637DC5A2C898A6, 0x113F9804BEF90DAE, 0x1B710B35131C471B,
     0x28DB77F523047D84, 0x32CAAB7B40C72493, 0x3C9EBE0A15C9BEBC, 0x431D67C49C100D4C,
     0x4CC5D4BECB3E42B6, 0x597F299CFC657E2A, 0x5FCB6FAB3AD6FAEC, 0x6C44198C4A475817]"

definition ROTR :: "u64 \<Rightarrow> nat \<Rightarrow> u64" where
  "ROTR x s = drop_bit s x OR push_bit (64 - s) x"

definition Sigma0_512 :: "u64 \<Rightarrow> u64" where
  "Sigma0_512 x = ROTR x 28 XOR ROTR x 34 XOR ROTR x 39"

definition Sigma1_512 :: "u64 \<Rightarrow> u64" where
  "Sigma1_512 x = ROTR x 14 XOR ROTR x 18 XOR ROTR x 41"

definition sigma0_512 :: "u64 \<Rightarrow> u64" where
  "sigma0_512 x = ROTR x 1 XOR ROTR x 8 XOR drop_bit 7 x"

definition sigma1_512 :: "u64 \<Rightarrow> u64" where
  "sigma1_512 x = ROTR x 19 XOR ROTR x 61 XOR drop_bit 6 x"

definition load_u64_be :: "bytes \<Rightarrow> u64" where
  "load_u64_be xs = CRYPTO_bswap8 (le_word (take 8 xs))"

definition sha512_block :: "u64 hash_block" where
  "sha512_block state xs =
     sha2_block 80 Sigma0_512 Sigma1_512 sigma0_512 sigma1_512 K512 state
       (map (\<lambda>i. load_u64_be (drop (i * 8) xs)) [0..<16])"

definition SHA512_Transform :: "u64 hash_ctx \<Rightarrow> bytes \<Rightarrow> u64 hash_ctx" where
  "SHA512_Transform c xs = c\<lparr>chain := block_data_order sha512_block 128 (chain c) xs 1\<rparr>"

text \<open>\<open>SHA512_Update\<close> behind the handling of a partly filled buffer.\<close>

definition sha512_update_blocks :: "u64 hash_ctx \<Rightarrow> bytes \<Rightarrow> u64 hash_ctx" where
  "sha512_update_blocks c xs =
     (let len = length xs;
          c1 = (if 128 \<le> len
                then c\<lparr>chain := block_data_order sha512_block 128 (chain c) xs (len div 128)\<rparr> else c);
          rest = (if 128 \<le> len then drop (len - len mod 128) xs else xs)
      in if rest \<noteq> [] then c1\<lparr>num := of_nat (length rest), data := put 0 rest (data c1)\<rparr> else c1)"

definition SHA512_Update :: "u64 hash_ctx \<Rightarrow> bytes \<Rightarrow> u64 hash_ctx" where
  "SHA512_Update c xs =
     (let len = length xs
      in if len = 0 then c
         else
           let l = Nl c + push_bit 3 (of_nat len);
               c1 = (if l < Nl c then c\<lparr>Nh := Nh c + 1\<rparr> else c);
               c2 = c1\<lparr>Nh := Nh c1 + of_nat (len div 2 ^ 61), Nl := l\<rparr>
           in if num c2 \<noteq> 0 then
                let n = 128 - unat (num c2)
                in if len < n then c2\<lparr>data := put (unat (num c2)) xs (data c2), num := num c2 + of_nat len\<rparr>
                   else
                     let p = put (unat (num c2)) (take n xs) (data c2)
                     in sha512_update_blocks
                          (c2\<lparr>data := p, num := 0, chain := block_data_order sha512_block 128 (chain c2) p 1\<rparr>)
                          (drop n xs)
              else sha512_update_blocks c2 xs)"

definition SHA384_Update :: "u64 hash_ctx \<Rightarrow> bytes \<Rightarrow> u64 hash_ctx" where
  "SHA384_Update c xs = SHA512_Update c xs"

text \<open>The bytes of a word as both loops of the final function write them.\<close>

definition be64 :: "u64 \<Rightarrow> bytes" where
  "be64 t = [ucast (drop_bit 56 t), ucast (drop_bit 48 t), ucast (drop_bit 40 t), ucast (drop_bit 32 t),
     ucast (drop_bit 24 t), ucast (drop_bit 16 t), ucast (drop_bit 8 t), ucast t]"

definition SHA512_Final :: "bool \<Rightarrow> u64 hash_ctx \<Rightarrow> u64 hash_ctx \<times> bytes option" where
  "SHA512_Final out_ok c =
     (let n = unat (num c) + 1;
          p = put (unat (num c)) [0x80] (data c);
          (n1, hs, p1) =
            (if 128 - 16 < n then
               (let full = put n (replicate (128 - n) 0) p
                in (0, block_data_order sha512_block 128 (chain c) full 1, full))
             else (n, chain c, p));
          p2 = put n1 (replicate (128 - 16 - n1) 0) p1;
          p3 = put (128 - 16) (be64 (Nh c) @ be64 (Nl c)) p2;
          c' = c\<lparr>chain := block_data_order sha512_block 128 hs p3 1, data := p3\<rparr>
      in (c', if \<not> out_ok then None
              else if md_len c = 48 then Some (concat (map (\<lambda>i. be64 (chain c' ! i)) [0..<48 div 8]))
              else if md_len c = 64 then Some (concat (map (\<lambda>i. be64 (chain c' ! i)) [0..<64 div 8]))
              else None))"

definition SHA384_Final :: "bool \<Rightarrow> u64 hash_ctx \<Rightarrow> u64 hash_ctx \<times> bytes option" where
  "SHA384_Final out_ok c = SHA512_Final out_ok c"

definition SHA384 :: "bytes \<Rightarrow> bytes \<Rightarrow> bytes option" where
  "SHA384 p xs = snd (SHA384_Final True (SHA384_Update (SHA384_Init p) xs))"

definition SHA512 :: "bytes \<Rightarrow> bytes \<Rightarrow> bytes option" where
  "SHA512 p xs = snd (SHA512_Final True (SHA512_Update (SHA512_Init p) xs))"

subsection \<open>SHA-1\<close>

definition SHA1_Init :: "u32 hash_ctx" where
  "SHA1_Init = init_ctx
     [0x67452301, 0xEFCDAB89, 0x98BADCFE, 0x10325476,
     0xC3D2E1F0] (replicate 64 0) 0"

definition K_00_19 :: u32 where
  "K_00_19 = 0x5A827999"

definition K_20_39 :: u32 where
  "K_20_39 = 0x6ED9EBA1"

definition K_40_59 :: u32 where
  "K_40_59 = 0x8F1BBCDC"

definition K_60_79 :: u32 where
  "K_60_79 = 0xCA62C1D6"

definition F_00_19 :: "u32 \<Rightarrow> u32 \<Rightarrow> u32 \<Rightarrow> u32" where
  "F_00_19 b c d = ((c XOR d) AND b) XOR d"

definition F_20_39 :: "u32 \<Rightarrow> u32 \<Rightarrow> u32 \<Rightarrow> u32" where
  "F_20_39 b c d = b XOR c XOR d"

definition F_40_59 :: "u32 \<Rightarrow> u32 \<Rightarrow> u32 \<Rightarrow> u32" where
  "F_40_59 b c d = (b AND c) OR ((b OR c) AND d)"

definition F_60_79 :: "u32 \<Rightarrow> u32 \<Rightarrow> u32 \<Rightarrow> u32" where
  "F_60_79 b c d = F_20_39 b c d"

text \<open>Six registers \<open>A\<close> to \<open>E\<close> and \<open>T\<close>, in the order of the parameters \<open>a\<close> to \<open>f\<close>.\<close>

definition sha1_rows :: "nat list list" where
  "sha1_rows = [[0, 1, 2, 3, 4, 5], [5, 0, 1, 2, 3, 4], [4, 5, 0, 1, 2, 3], [3, 4, 5, 0, 1, 2],
     [2, 3, 4, 5, 0, 1], [1, 2, 3, 4, 5, 0]]"

text \<open>The bodies differ in the constant and the function of their range; \<open>xi\<close> is the word of
  the schedule.\<close>

definition sha1_K :: "nat \<Rightarrow> u32" where
  "sha1_K i = (if i < 20 then K_00_19 else if i < 40 then K_20_39 else if i < 60 then K_40_59 else K_60_79)"

definition sha1_F :: "nat \<Rightarrow> u32 \<Rightarrow> u32 \<Rightarrow> u32 \<Rightarrow> u32" where
  "sha1_F i = (if i < 20 then F_00_19 else if i < 40 then F_20_39 else if i < 60 then F_40_59 else F_60_79)"

definition sha1_BODY :: "nat \<Rightarrow> nat list \<Rightarrow> u32 \<Rightarrow> u32 list \<Rightarrow> u32 list" where
  "sha1_BODY i row xi v =
     (let a = v ! (row ! 0); b = v ! (row ! 1); c = v ! (row ! 2); d = v ! (row ! 3); e = v ! (row ! 4)
      in v[row ! 5 := xi + e + sha1_K i + ROTATE a 5 + sha1_F i b c d, row ! 1 := ROTATE b 30])"

text \<open>\<open>Xupdate\<close> and the body that follows it: the word of the round replaces the one of sixteen
  rounds before.\<close>

definition sha1_Xupdate :: "nat \<Rightarrow> u32 list \<Rightarrow> u32" where
  "sha1_Xupdate i X =
     ROTATE (X ! (i mod 16) XOR X ! ((i + 2) mod 16) XOR X ! ((i + 8) mod 16) XOR X ! ((i + 13) mod 16)) 1"

definition sha1_BODY_X :: "nat \<Rightarrow> nat list \<Rightarrow> u32 list \<times> u32 list \<Rightarrow> u32 list \<times> u32 list" where
  "sha1_BODY_X i row = (\<lambda>(X, v).
     let xi = sha1_Xupdate i X in (X[i mod 16 := xi], sha1_BODY i row xi v))"

definition sha1_block :: "u32 hash_block" where
  "sha1_block state xs =
     (let X = words_big xs;
          v1 = foldl (\<lambda>v i. sha1_BODY i (sha1_rows ! (i mod 6)) (X ! i) v) (state @ [0]) [0..<16];
          (X', v) = foldl (\<lambda>s i. sha1_BODY_X i (sha1_rows ! (i mod 6)) s) (X, v1) [16..<80]
      in [state ! 0 + v ! 4, state ! 1 + v ! 5, state ! 2 + v ! 0, state ! 3 + v ! 1, state ! 4 + v ! 2])"

definition SHA1_Update :: "u32 hash_ctx \<Rightarrow> bytes \<Rightarrow> u32 hash_ctx" where
  "SHA1_Update = HASH_UPDATE sha1_block"

definition SHA1_Transform :: "u32 hash_ctx \<Rightarrow> bytes \<Rightarrow> u32 hash_ctx" where
  "SHA1_Transform = HASH_TRANSFORM sha1_block"

definition sha1_string :: "u32 hash_ctx \<Rightarrow> bytes" where
  "sha1_string c = HOST_l2c_big (chain c ! 0) @ HOST_l2c_big (chain c ! 1) @ HOST_l2c_big (chain c ! 2) @
     HOST_l2c_big (chain c ! 3) @ HOST_l2c_big (chain c ! 4)"

definition SHA1_Final :: "u32 hash_ctx \<Rightarrow> u32 hash_ctx \<times> bytes option" where
  "SHA1_Final c = (let c' = HASH_FINAL True HOST_l2c_big sha1_block c in (c', Some (sha1_string c')))"

definition SHA1 :: "bytes \<Rightarrow> bytes option" where
  "SHA1 xs = snd (SHA1_Final (SHA1_Update SHA1_Init xs))"

subsection \<open>MD5\<close>

definition MD5_Init :: "u32 hash_ctx" where
  "MD5_Init = init_ctx
     [0x67452301, 0xEFCDAB89, 0x98BADCFE, 0x10325476] (replicate 64 0) 0"

definition md5_F :: "u32 \<Rightarrow> u32 \<Rightarrow> u32 \<Rightarrow> u32" where
  "md5_F b c d = ((c XOR d) AND b) XOR d"

definition md5_G :: "u32 \<Rightarrow> u32 \<Rightarrow> u32 \<Rightarrow> u32" where
  "md5_G b c d = ((b XOR c) AND d) XOR c"

definition md5_H :: "u32 \<Rightarrow> u32 \<Rightarrow> u32 \<Rightarrow> u32" where
  "md5_H b c d = b XOR c XOR d"

definition md5_I :: "u32 \<Rightarrow> u32 \<Rightarrow> u32 \<Rightarrow> u32" where
  "md5_I b c d = (NOT d OR b) XOR c"

text \<open>The macros \<open>R0\<close> to \<open>R3\<close>, which differ in the function, and the table of their calls:
  the word, the rotation and the constant, with the registers \<open>A\<close> to \<open>D\<close> rotated.\<close>

definition md5_R :: "(u32 \<Rightarrow> u32 \<Rightarrow> u32 \<Rightarrow> u32) \<Rightarrow> nat list \<Rightarrow> u32 \<Rightarrow> nat \<Rightarrow> u32 \<Rightarrow> u32 list \<Rightarrow> u32 list" where
  "md5_R f row k s t v =
     (let b = v ! (row ! 1); c = v ! (row ! 2); d = v ! (row ! 3);
          a = v ! (row ! 0) + (k + t + f b c d)
      in v[row ! 0 := ROTATE a s + b])"

definition md5_rows :: "nat list list" where
  "md5_rows = [[0, 1, 2, 3], [3, 0, 1, 2], [2, 3, 0, 1], [1, 2, 3, 0]]"

definition md5_table :: "(nat \<times> nat \<times> u32) list" where
  "md5_table =
    [(0, 7, 0xD76AA478), (1, 12, 0xE8C7B756), (2, 17, 0x242070DB), (3, 22, 0xC1BDCEEE),
     (4, 7, 0xF57C0FAF), (5, 12, 0x4787C62A), (6, 17, 0xA8304613), (7, 22, 0xFD469501),
     (8, 7, 0x698098D8), (9, 12, 0x8B44F7AF), (10, 17, 0xFFFF5BB1), (11, 22, 0x895CD7BE),
     (12, 7, 0x6B901122), (13, 12, 0xFD987193), (14, 17, 0xA679438E), (15, 22, 0x49B40821),
     (1, 5, 0xF61E2562), (6, 9, 0xC040B340), (11, 14, 0x265E5A51), (0, 20, 0xE9B6C7AA),
     (5, 5, 0xD62F105D), (10, 9, 0x02441453), (15, 14, 0xD8A1E681), (4, 20, 0xE7D3FBC8),
     (9, 5, 0x21E1CDE6), (14, 9, 0xC33707D6), (3, 14, 0xF4D50D87), (8, 20, 0x455A14ED),
     (13, 5, 0xA9E3E905), (2, 9, 0xFCEFA3F8), (7, 14, 0x676F02D9), (12, 20, 0x8D2A4C8A),
     (5, 4, 0xFFFA3942), (8, 11, 0x8771F681), (11, 16, 0x6D9D6122), (14, 23, 0xFDE5380C),
     (1, 4, 0xA4BEEA44), (4, 11, 0x4BDECFA9), (7, 16, 0xF6BB4B60), (10, 23, 0xBEBFBC70),
     (13, 4, 0x289B7EC6), (0, 11, 0xEAA127FA), (3, 16, 0xD4EF3085), (6, 23, 0x04881D05),
     (9, 4, 0xD9D4D039), (12, 11, 0xE6DB99E5), (15, 16, 0x1FA27CF8), (2, 23, 0xC4AC5665),
     (0, 6, 0xF4292244), (7, 10, 0x432AFF97), (14, 15, 0xAB9423A7), (5, 21, 0xFC93A039),
     (12, 6, 0x655B59C3), (3, 10, 0x8F0CCC92), (10, 15, 0xFFEFF47D), (1, 21, 0x85845DD1),
     (8, 6, 0x6FA87E4F), (15, 10, 0xFE2CE6E0), (6, 15, 0xA3014314), (13, 21, 0x4E0811A1),
     (4, 6, 0xF7537E82), (11, 10, 0xBD3AF235), (2, 15, 0x2AD7D2BB), (9, 21, 0xEB86D391)]"

definition words_little :: "bytes \<Rightarrow> u32 list" where
  "words_little xs = map (\<lambda>i. HOST_c2l_little (take 4 (drop (4 * i) xs))) [0..<16]"

definition md5_block :: "u32 hash_block" where
  "md5_block state xs =
     (let X = words_little xs;
          v = foldl (\<lambda>v i. case md5_table ! i of (k, s, t) \<Rightarrow>
                md5_R ([md5_F, md5_G, md5_H, md5_I] ! (i div 16)) (md5_rows ! (i mod 4)) (X ! k) s t v)
                state [0..<64]
      in map2 (+) state v)"

definition MD5_Update :: "u32 hash_ctx \<Rightarrow> bytes \<Rightarrow> u32 hash_ctx" where
  "MD5_Update = HASH_UPDATE md5_block"

definition MD5_Transform :: "u32 hash_ctx \<Rightarrow> bytes \<Rightarrow> u32 hash_ctx" where
  "MD5_Transform = HASH_TRANSFORM md5_block"

definition md5_string :: "u32 hash_ctx \<Rightarrow> bytes" where
  "md5_string c = HOST_l2c_little (chain c ! 0) @ HOST_l2c_little (chain c ! 1) @
     HOST_l2c_little (chain c ! 2) @ HOST_l2c_little (chain c ! 3)"

definition MD5_Final :: "u32 hash_ctx \<Rightarrow> u32 hash_ctx \<times> bytes option" where
  "MD5_Final c = (let c' = HASH_FINAL False HOST_l2c_little md5_block c in (c', Some (md5_string c')))"

definition MD5 :: "bytes \<Rightarrow> bytes option" where
  "MD5 xs = snd (MD5_Final (MD5_Update MD5_Init xs))"

subsection \<open>MD4\<close>

definition MD4_Init :: "u32 hash_ctx" where
  "MD4_Init = init_ctx
     [0x67452301, 0xEFCDAB89, 0x98BADCFE, 0x10325476] (replicate 64 0) 0"

definition md4_F :: "u32 \<Rightarrow> u32 \<Rightarrow> u32 \<Rightarrow> u32" where
  "md4_F b c d = ((c XOR d) AND b) XOR d"

definition md4_G :: "u32 \<Rightarrow> u32 \<Rightarrow> u32 \<Rightarrow> u32" where
  "md4_G b c d = (b AND c) OR (b AND d) OR (c AND d)"

definition md4_H :: "u32 \<Rightarrow> u32 \<Rightarrow> u32 \<Rightarrow> u32" where
  "md4_H b c d = b XOR c XOR d"

text \<open>The macros \<open>R0\<close> to \<open>R2\<close> and the table of their calls, in the registers' order of MD5.\<close>

definition md4_R :: "(u32 \<Rightarrow> u32 \<Rightarrow> u32 \<Rightarrow> u32) \<Rightarrow> nat list \<Rightarrow> u32 \<Rightarrow> nat \<Rightarrow> u32 \<Rightarrow> u32 list \<Rightarrow> u32 list" where
  "md4_R f row k s t v =
     (let b = v ! (row ! 1); c = v ! (row ! 2); d = v ! (row ! 3);
          a = v ! (row ! 0) + (k + t + f b c d)
      in v[row ! 0 := ROTATE a s])"

definition md4_table :: "(nat \<times> nat \<times> u32) list" where
  "md4_table =
    [(0, 3, 0), (1, 7, 0), (2, 11, 0), (3, 19, 0),
     (4, 3, 0), (5, 7, 0), (6, 11, 0), (7, 19, 0),
     (8, 3, 0), (9, 7, 0), (10, 11, 0), (11, 19, 0),
     (12, 3, 0), (13, 7, 0), (14, 11, 0), (15, 19, 0),
     (0, 3, 0x5A827999), (4, 5, 0x5A827999), (8, 9, 0x5A827999), (12, 13, 0x5A827999),
     (1, 3, 0x5A827999), (5, 5, 0x5A827999), (9, 9, 0x5A827999), (13, 13, 0x5A827999),
     (2, 3, 0x5A827999), (6, 5, 0x5A827999), (10, 9, 0x5A827999), (14, 13, 0x5A827999),
     (3, 3, 0x5A827999), (7, 5, 0x5A827999), (11, 9, 0x5A827999), (15, 13, 0x5A827999),
     (0, 3, 0x6ED9EBA1), (8, 9, 0x6ED9EBA1), (4, 11, 0x6ED9EBA1), (12, 15, 0x6ED9EBA1),
     (2, 3, 0x6ED9EBA1), (10, 9, 0x6ED9EBA1), (6, 11, 0x6ED9EBA1), (14, 15, 0x6ED9EBA1),
     (1, 3, 0x6ED9EBA1), (9, 9, 0x6ED9EBA1), (5, 11, 0x6ED9EBA1), (13, 15, 0x6ED9EBA1),
     (3, 3, 0x6ED9EBA1), (11, 9, 0x6ED9EBA1), (7, 11, 0x6ED9EBA1), (15, 15, 0x6ED9EBA1)]"

definition md4_block :: "u32 hash_block" where
  "md4_block state xs =
     (let X = words_little xs;
          v = foldl (\<lambda>v i. case md4_table ! i of (k, s, t) \<Rightarrow>
                md4_R ([md4_F, md4_G, md4_H] ! (i div 16)) (md5_rows ! (i mod 4)) (X ! k) s t v)
                state [0..<48]
      in map2 (+) state v)"

definition MD4_Update :: "u32 hash_ctx \<Rightarrow> bytes \<Rightarrow> u32 hash_ctx" where
  "MD4_Update = HASH_UPDATE md4_block"

definition MD4_Transform :: "u32 hash_ctx \<Rightarrow> bytes \<Rightarrow> u32 hash_ctx" where
  "MD4_Transform = HASH_TRANSFORM md4_block"

definition md4_string :: "u32 hash_ctx \<Rightarrow> bytes" where
  "md4_string c = HOST_l2c_little (chain c ! 0) @ HOST_l2c_little (chain c ! 1) @
     HOST_l2c_little (chain c ! 2) @ HOST_l2c_little (chain c ! 3)"

definition MD4_Final :: "u32 hash_ctx \<Rightarrow> u32 hash_ctx \<times> bytes option" where
  "MD4_Final c = (let c' = HASH_FINAL False HOST_l2c_little md4_block c in (c', Some (md4_string c')))"

definition MD4 :: "bytes \<Rightarrow> bytes option" where
  "MD4 xs = snd (MD4_Final (MD4_Update MD4_Init xs))"

end
