(* ===== verification/Digest.thy ===== *)
theory Digest
  imports Sha
begin

text \<open>
  Digests behind one interface (\<open>crypto/fipsmodule/digest/digest.c\<close>, \<open>digests.c\<close>).

  A pointer to a method table is a value of \<open>evp_md\<close>.  A result \<open>None\<close> of an operation whose
  result type is an option at the outside stands for undefined behaviour (a null pointer is
  dereferenced, or an internal \<open>CHECK\<close> fails and the output is not written); the functions' own
  return of 0 is a value inside.  Contexts of signatures (\<open>pctx\<close> not \<open>NULL\<close>) are not modelled, and
  the two contexts of a copy are different objects.

  The allocator is a list: each call of \<open>malloc\<close> takes its next entry, \<open>None\<close> when no memory is
  left and otherwise the contents of the new block.
\<close>

type_synonym mallocs = "(nat \<Rightarrow> u8) option list"

definition malloc :: "mallocs \<Rightarrow> mallocs \<times> (nat \<Rightarrow> u8) option" where
  "malloc ms = (case ms of [] \<Rightarrow> ([], None) | m # ms' \<Rightarrow> (ms', m))"

subsection \<open>The methods\<close>

datatype evp_md = EVP_md4 | EVP_md5 | EVP_sha1 | EVP_sha224 | EVP_sha256 | EVP_sha384 | EVP_sha512
  | EVP_md5_sha1

fun EVP_MD_type :: "evp_md \<Rightarrow> int" where
  "EVP_MD_type EVP_md4 = 257"
| "EVP_MD_type EVP_md5 = 4"
| "EVP_MD_type EVP_sha1 = 64"
| "EVP_MD_type EVP_sha224 = 675"
| "EVP_MD_type EVP_sha256 = 672"
| "EVP_MD_type EVP_sha384 = 673"
| "EVP_MD_type EVP_sha512 = 674"
| "EVP_MD_type EVP_md5_sha1 = 114"

fun EVP_MD_size :: "evp_md \<Rightarrow> nat" where
  "EVP_MD_size EVP_md4 = 16"
| "EVP_MD_size EVP_md5 = 16"
| "EVP_MD_size EVP_sha1 = 20"
| "EVP_MD_size EVP_sha224 = 28"
| "EVP_MD_size EVP_sha256 = 32"
| "EVP_MD_size EVP_sha384 = 48"
| "EVP_MD_size EVP_sha512 = 64"
| "EVP_MD_size EVP_md5_sha1 = 16 + 20"

fun EVP_MD_block_size :: "evp_md \<Rightarrow> nat" where
  "EVP_MD_block_size EVP_sha384 = 128"
| "EVP_MD_block_size EVP_sha512 = 128"
| "EVP_MD_block_size md = 64"

text \<open>What \<open>md_data\<close> points to.\<close>

datatype md_data = Ctx32 "u32 hash_ctx" | Ctx64 "u64 hash_ctx" | Ctx_md5_sha1 "u32 hash_ctx" "u32 hash_ctx"

text \<open>\<open>SHA384_Init\<close> and \<open>SHA512_Init\<close> leave the buffer \<open>p\<close> of the context as it is.\<close>

fun md_init :: "evp_md \<Rightarrow> bytes \<Rightarrow> md_data" where
  "md_init EVP_md4 p = Ctx32 MD4_Init"
| "md_init EVP_md5 p = Ctx32 MD5_Init"
| "md_init EVP_sha1 p = Ctx32 SHA1_Init"
| "md_init EVP_sha224 p = Ctx32 SHA224_Init"
| "md_init EVP_sha256 p = Ctx32 SHA256_Init"
| "md_init EVP_sha384 p = Ctx64 (SHA384_Init p)"
| "md_init EVP_sha512 p = Ctx64 (SHA512_Init p)"
| "md_init EVP_md5_sha1 p = Ctx_md5_sha1 MD5_Init SHA1_Init"

text \<open>The methods see a context of their own kind only; \<open>None\<close> otherwise.\<close>

fun md_update :: "evp_md \<Rightarrow> md_data \<Rightarrow> bytes \<Rightarrow> md_data option" where
  "md_update EVP_md4 (Ctx32 c) xs = Some (Ctx32 (MD4_Update c xs))"
| "md_update EVP_md5 (Ctx32 c) xs = Some (Ctx32 (MD5_Update c xs))"
| "md_update EVP_sha1 (Ctx32 c) xs = Some (Ctx32 (SHA1_Update c xs))"
| "md_update EVP_sha224 (Ctx32 c) xs = Some (Ctx32 (SHA224_Update c xs))"
| "md_update EVP_sha256 (Ctx32 c) xs = Some (Ctx32 (SHA256_Update c xs))"
| "md_update EVP_sha384 (Ctx64 c) xs = Some (Ctx64 (SHA384_Update c xs))"
| "md_update EVP_sha512 (Ctx64 c) xs = Some (Ctx64 (SHA512_Update c xs))"
| "md_update EVP_md5_sha1 (Ctx_md5_sha1 c d) xs = Some (Ctx_md5_sha1 (MD5_Update c xs) (SHA1_Update d xs))"
| "md_update _ _ _ = None"

definition final32 :: "u32 hash_ctx \<times> bytes option \<Rightarrow> (md_data \<times> bytes) option" where
  "final32 r = (case r of (c, Some out) \<Rightarrow> Some (Ctx32 c, out) | (c, None) \<Rightarrow> None)"

definition final64 :: "u64 hash_ctx \<times> bytes option \<Rightarrow> (md_data \<times> bytes) option" where
  "final64 r = (case r of (c, Some out) \<Rightarrow> Some (Ctx64 c, out) | (c, None) \<Rightarrow> None)"

fun md_final :: "evp_md \<Rightarrow> md_data \<Rightarrow> (md_data \<times> bytes) option" where
  "md_final EVP_md4 (Ctx32 c) = final32 (MD4_Final c)"
| "md_final EVP_md5 (Ctx32 c) = final32 (MD5_Final c)"
| "md_final EVP_sha1 (Ctx32 c) = final32 (SHA1_Final c)"
| "md_final EVP_sha224 (Ctx32 c) = final32 (SHA224_Final c)"
| "md_final EVP_sha256 (Ctx32 c) = final32 (SHA256_Final c)"
| "md_final EVP_sha384 (Ctx64 c) = final64 (SHA384_Final True c)"
| "md_final EVP_sha512 (Ctx64 c) = final64 (SHA512_Final True c)"
| "md_final EVP_md5_sha1 (Ctx_md5_sha1 c d) =
     (case (MD5_Final c, SHA1_Final d) of
        ((c', Some out), (d', Some out')) \<Rightarrow> Some (Ctx_md5_sha1 c' d', out @ out')
      | _ \<Rightarrow> None)"
| "md_final _ _ = None"

text \<open>\<open>OPENSSL_cleanse\<close> of a context.\<close>

definition zero_ctx :: "('w :: zero) hash_ctx \<Rightarrow> 'w hash_ctx" where
  "zero_ctx c = \<lparr>chain = replicate (length (chain c)) 0, Nl = 0, Nh = 0,
     data = replicate (length (data c)) 0, num = 0, md_len = 0\<rparr>"

fun md_cleanse :: "md_data \<Rightarrow> md_data" where
  "md_cleanse (Ctx32 c) = Ctx32 (zero_ctx c)"
| "md_cleanse (Ctx64 c) = Ctx64 (zero_ctx c)"
| "md_cleanse (Ctx_md5_sha1 c d) = Ctx_md5_sha1 (zero_ctx c) (zero_ctx d)"

text \<open>The bytes of the field \<open>p\<close> in a context, and in a new block of memory.\<close>

fun md_buffer :: "md_data \<Rightarrow> bytes" where
  "md_buffer (Ctx64 c) = data c"
| "md_buffer _ = []"

definition malloc_buffer :: "(nat \<Rightarrow> u8) \<Rightarrow> bytes" where
  "malloc_buffer block = map block [80..<80 + 128]"

subsection \<open>Digest contexts\<close>

record evp_md_ctx =
  ctx_digest :: "evp_md option"
  md_data :: "md_data option"

definition EVP_MD_CTX_init :: evp_md_ctx where
  "EVP_MD_CTX_init = \<lparr>ctx_digest = None, md_data = None\<rparr>"

definition EVP_MD_CTX_cleanup :: "evp_md_ctx \<Rightarrow> evp_md_ctx" where
  "EVP_MD_CTX_cleanup ctx = EVP_MD_CTX_init"

definition EVP_MD_CTX_reset :: "evp_md_ctx \<Rightarrow> evp_md_ctx" where
  "EVP_MD_CTX_reset ctx = (let c1 = EVP_MD_CTX_cleanup ctx in EVP_MD_CTX_init)"

definition EVP_DigestInit_ex :: "mallocs \<Rightarrow> evp_md_ctx \<Rightarrow> evp_md \<Rightarrow> mallocs \<times> evp_md_ctx \<times> bool" where
  "EVP_DigestInit_ex ms ctx type =
     (if ctx_digest ctx \<noteq> Some type then
        case malloc ms of
          (ms', None) \<Rightarrow> (ms', ctx, False)
        | (ms', Some block) \<Rightarrow>
            (ms', ctx\<lparr>ctx_digest := Some type, md_data := Some (md_init type (malloc_buffer block))\<rparr>, True)
      else (ms, ctx\<lparr>md_data := map_option (\<lambda>d. md_init type (md_buffer d)) (md_data ctx)\<rparr>, True))"

definition EVP_DigestInit :: "mallocs \<Rightarrow> evp_md \<Rightarrow> mallocs \<times> evp_md_ctx \<times> bool" where
  "EVP_DigestInit ms type = EVP_DigestInit_ex ms EVP_MD_CTX_init type"

definition EVP_DigestUpdate :: "evp_md_ctx \<Rightarrow> bytes \<Rightarrow> evp_md_ctx option" where
  "EVP_DigestUpdate ctx xs =
     (case (ctx_digest ctx, md_data ctx) of
        (Some md, Some d) \<Rightarrow> map_option (\<lambda>d'. ctx\<lparr>md_data := Some d'\<rparr>) (md_update md d xs)
      | _ \<Rightarrow> None)"

definition EVP_DigestFinal_ex :: "evp_md_ctx \<Rightarrow> (evp_md_ctx \<times> bytes) option" where
  "EVP_DigestFinal_ex ctx =
     (case (ctx_digest ctx, md_data ctx) of
        (Some md, Some d) \<Rightarrow>
          map_option (\<lambda>(d', out). (ctx\<lparr>md_data := Some (md_cleanse d')\<rparr>, out)) (md_final md d)
      | _ \<Rightarrow> None)"

definition EVP_DigestFinal :: "evp_md_ctx \<Rightarrow> (evp_md_ctx \<times> bytes) option" where
  "EVP_DigestFinal ctx =
     map_option (\<lambda>(ctx', out). (EVP_MD_CTX_cleanup ctx', out)) (EVP_DigestFinal_ex ctx)"

definition EVP_MD_CTX_copy_ex ::
  "mallocs \<Rightarrow> evp_md_ctx \<Rightarrow> evp_md_ctx \<Rightarrow> mallocs \<times> evp_md_ctx \<times> bool" where
  "EVP_MD_CTX_copy_ex ms out src =
     (if ctx_digest src = None then (ms, out, False)
      else if ctx_digest out \<noteq> ctx_digest src then
        case malloc ms of
          (ms', None) \<Rightarrow> (ms', out, False)
        | (ms', Some block) \<Rightarrow> (ms', \<lparr>ctx_digest = ctx_digest src, md_data = md_data src\<rparr>, True)
      else (ms, \<lparr>ctx_digest = ctx_digest src, md_data = md_data src\<rparr>, True))"

definition EVP_MD_CTX_copy :: "mallocs \<Rightarrow> evp_md_ctx \<Rightarrow> mallocs \<times> evp_md_ctx \<times> bool" where
  "EVP_MD_CTX_copy ms src = EVP_MD_CTX_copy_ex ms EVP_MD_CTX_init src"

text \<open>\<open>Some (ms, None)\<close> is the return of 0.\<close>

definition EVP_Digest :: "mallocs \<Rightarrow> bytes \<Rightarrow> evp_md \<Rightarrow> (mallocs \<times> bytes option) option" where
  "EVP_Digest ms xs type =
     (case EVP_DigestInit_ex ms EVP_MD_CTX_init type of
        (ms', ctx, False) \<Rightarrow> Some (ms', None)
      | (ms', ctx, True) \<Rightarrow>
          (case EVP_DigestUpdate ctx xs of
             None \<Rightarrow> None
           | Some ctx' \<Rightarrow> map_option (\<lambda>(ctx'', out). (ms', Some out)) (EVP_DigestFinal_ex ctx')))"

definition EVP_MD_CTX_size :: "evp_md_ctx \<Rightarrow> nat option" where
  "EVP_MD_CTX_size ctx = map_option EVP_MD_size (ctx_digest ctx)"

definition EVP_MD_CTX_block_size :: "evp_md_ctx \<Rightarrow> nat option" where
  "EVP_MD_CTX_block_size ctx = map_option EVP_MD_block_size (ctx_digest ctx)"

end
