(* ===== verification/Hmac.thy ===== *)
theory Hmac
  imports Digest
begin

text \<open>
  HMAC (\<open>crypto/fipsmodule/hmac/hmac.c\<close>) and HKDF (\<open>crypto/hkdf/hkdf.c\<close>) over the digest contexts.
  As in theory Digest, an outer \<open>None\<close> is undefined behaviour.
\<close>

subsection \<open>HMAC\<close>

record hmac_ctx =
  hmac_md :: "evp_md option"
  md_ctx :: evp_md_ctx
  i_ctx :: evp_md_ctx
  o_ctx :: evp_md_ctx

definition EVP_MAX_MD_BLOCK_SIZE :: nat where
  "EVP_MAX_MD_BLOCK_SIZE = 128"

definition HMAC_CTX_init :: hmac_ctx where
  "HMAC_CTX_init = \<lparr>hmac_md = None, md_ctx = EVP_MD_CTX_init, i_ctx = EVP_MD_CTX_init, o_ctx = EVP_MD_CTX_init\<rparr>"

text \<open>\<open>OPENSSL_cleanse\<close> leaves what \<open>HMAC_CTX_init\<close> sets.\<close>

definition HMAC_CTX_cleanup :: "hmac_ctx \<Rightarrow> hmac_ctx" where
  "HMAC_CTX_cleanup ctx =
     \<lparr>hmac_md = None, md_ctx = EVP_MD_CTX_cleanup (md_ctx ctx), i_ctx = EVP_MD_CTX_cleanup (i_ctx ctx),
      o_ctx = EVP_MD_CTX_cleanup (o_ctx ctx)\<rparr>"

text \<open>The hash of a long key, with the context \<open>md_ctx\<close>: the context and the digest, \<open>None\<close> when
  memory is short.\<close>

definition hmac_hash_key ::
  "mallocs \<Rightarrow> hmac_ctx \<Rightarrow> bytes \<Rightarrow> evp_md \<Rightarrow> (mallocs \<times> hmac_ctx \<times> bytes option) option" where
  "hmac_hash_key ms ctx key md =
     (case EVP_DigestInit_ex ms (md_ctx ctx) md of
        (ms', c, False) \<Rightarrow> Some (ms', ctx\<lparr>md_ctx := c\<rparr>, None)
      | (ms', c, True) \<Rightarrow>
          (case EVP_DigestUpdate c key of
             None \<Rightarrow> None
           | Some c' \<Rightarrow> map_option (\<lambda>(c'', out). (ms', ctx\<lparr>md_ctx := c''\<rparr>, Some out)) (EVP_DigestFinal_ex c')))"

text \<open>A context that has hashed a pad; the flag is the success of the two calls.\<close>

definition hmac_pad ::
  "mallocs \<Rightarrow> evp_md_ctx \<Rightarrow> evp_md \<Rightarrow> u8 \<Rightarrow> bytes \<Rightarrow> (mallocs \<times> evp_md_ctx \<times> bool) option" where
  "hmac_pad ms c md x key_block =
     (let pad = map (\<lambda>b. x XOR b) key_block
      in case EVP_DigestInit_ex ms c md of
           (ms', c', False) \<Rightarrow> Some (ms', c', False)
         | (ms', c', True) \<Rightarrow>
             map_option (\<lambda>c''. (ms', c'', True)) (EVP_DigestUpdate c' (take (EVP_MD_block_size md) pad)))"

text \<open>Both pads, for a key \<open>k\<close> that fits the block.\<close>

definition hmac_pads ::
  "mallocs \<Rightarrow> hmac_ctx \<Rightarrow> bytes \<Rightarrow> evp_md \<Rightarrow> (mallocs \<times> hmac_ctx \<times> bool) option" where
  "hmac_pads ms ctx k md =
     (let key_block = k @ replicate (EVP_MAX_MD_BLOCK_SIZE - length k) 0
      in case hmac_pad ms (i_ctx ctx) md 0x36 key_block of
           None \<Rightarrow> None
         | Some (ms1, i, False) \<Rightarrow> Some (ms1, ctx\<lparr>i_ctx := i\<rparr>, False)
         | Some (ms1, i, True) \<Rightarrow>
             (case hmac_pad ms1 (o_ctx ctx) md 0x5c key_block of
                None \<Rightarrow> None
              | Some (ms2, out, False) \<Rightarrow> Some (ms2, ctx\<lparr>i_ctx := i, o_ctx := out\<rparr>, False)
              | Some (ms2, out, True) \<Rightarrow>
                  Some (ms2, ctx\<lparr>i_ctx := i, o_ctx := out, hmac_md := Some md\<rparr>, True)))"

definition hmac_set_key ::
  "mallocs \<Rightarrow> hmac_ctx \<Rightarrow> bytes \<Rightarrow> evp_md \<Rightarrow> (mallocs \<times> hmac_ctx \<times> bool) option" where
  "hmac_set_key ms ctx key md =
     (case (if EVP_MD_block_size md < length key then hmac_hash_key ms ctx key md
            else Some (ms, ctx, Some key)) of
        None \<Rightarrow> None
      | Some (ms1, ctx1, None) \<Rightarrow> Some (ms1, ctx1, False)
      | Some (ms1, ctx1, Some k) \<Rightarrow> hmac_pads ms1 ctx1 k md)"

text \<open>A \<open>NULL\<close> key is \<open>None\<close>; a missing digest with a key to set is a null dereference.\<close>

definition HMAC_Init_ex ::
  "mallocs \<Rightarrow> hmac_ctx \<Rightarrow> bytes option \<Rightarrow> evp_md option \<Rightarrow> (mallocs \<times> hmac_ctx \<times> bool) option" where
  "HMAC_Init_ex ms ctx key md_arg =
     (let md = (case md_arg of None \<Rightarrow> hmac_md ctx | Some m \<Rightarrow> Some m);
          keyed = (if md \<noteq> hmac_md ctx \<or> key \<noteq> None then
                     (case md of
                        None \<Rightarrow> None
                      | Some m \<Rightarrow> hmac_set_key ms ctx (case key of None \<Rightarrow> [] | Some k \<Rightarrow> k) m)
                   else Some (ms, ctx, True))
      in case keyed of
           None \<Rightarrow> None
         | Some (ms', ctx', False) \<Rightarrow> Some (ms', ctx', False)
         | Some (ms', ctx', True) \<Rightarrow>
             (case EVP_MD_CTX_copy_ex ms' (md_ctx ctx') (i_ctx ctx') of
                (ms'', c, ok) \<Rightarrow> Some (ms'', ctx'\<lparr>md_ctx := c\<rparr>, ok)))"

definition HMAC_Init ::
  "mallocs \<Rightarrow> hmac_ctx \<Rightarrow> bytes option \<Rightarrow> evp_md option \<Rightarrow> (mallocs \<times> hmac_ctx \<times> bool) option" where
  "HMAC_Init ms ctx key md =
     HMAC_Init_ex ms (if key \<noteq> None \<and> md \<noteq> None then HMAC_CTX_init else ctx) key md"

definition HMAC_Update :: "hmac_ctx \<Rightarrow> bytes \<Rightarrow> hmac_ctx option" where
  "HMAC_Update ctx xs = map_option (\<lambda>c. ctx\<lparr>md_ctx := c\<rparr>) (EVP_DigestUpdate (md_ctx ctx) xs)"

text \<open>\<open>len_ptr\<close> says whether \<open>out_len\<close> is not \<open>NULL\<close>: the failure path writes to it.\<close>

definition HMAC_Final :: "mallocs \<Rightarrow> hmac_ctx \<Rightarrow> bool \<Rightarrow> (mallocs \<times> hmac_ctx \<times> bytes option) option" where
  "HMAC_Final ms ctx len_ptr =
     (case EVP_DigestFinal_ex (md_ctx ctx) of
        None \<Rightarrow> None
      | Some (c1, buf) \<Rightarrow>
          (case EVP_MD_CTX_copy_ex ms c1 (o_ctx ctx) of
             (ms', c2, False) \<Rightarrow> if len_ptr then Some (ms', ctx\<lparr>md_ctx := c2\<rparr>, None) else None
           | (ms', c2, True) \<Rightarrow>
               (case EVP_DigestUpdate c2 buf of
                  None \<Rightarrow> None
                | Some c3 \<Rightarrow>
                    (case EVP_DigestFinal_ex c3 of
                       None \<Rightarrow> None
                     | Some (c4, out) \<Rightarrow> Some (ms', ctx\<lparr>md_ctx := c4\<rparr>, Some out)))))"

definition HMAC :: "mallocs \<Rightarrow> evp_md \<Rightarrow> bytes option \<Rightarrow> bytes \<Rightarrow> (mallocs \<times> bytes option) option" where
  "HMAC ms md key xs =
     (case HMAC_Init_ex ms HMAC_CTX_init key (Some md) of
        None \<Rightarrow> None
      | Some (ms1, ctx, False) \<Rightarrow> Some (ms1, None)
      | Some (ms1, ctx, True) \<Rightarrow>
          (case HMAC_Update ctx xs of
             None \<Rightarrow> None
           | Some ctx' \<Rightarrow> map_option (\<lambda>(ms2, ctx'', out). (ms2, out)) (HMAC_Final ms1 ctx' True)))"

definition HMAC_size :: "hmac_ctx \<Rightarrow> nat option" where
  "HMAC_size ctx = map_option EVP_MD_size (hmac_md ctx)"

definition HMAC_CTX_reset :: "hmac_ctx \<Rightarrow> hmac_ctx" where
  "HMAC_CTX_reset ctx = (let c = HMAC_CTX_cleanup ctx in HMAC_CTX_init)"

text \<open>The copy stops at the first context that cannot be copied.\<close>

definition HMAC_CTX_copy_ex :: "mallocs \<Rightarrow> hmac_ctx \<Rightarrow> hmac_ctx \<Rightarrow> mallocs \<times> hmac_ctx \<times> bool" where
  "HMAC_CTX_copy_ex ms dest src =
     (case EVP_MD_CTX_copy_ex ms (i_ctx dest) (i_ctx src) of
        (ms1, i, False) \<Rightarrow> (ms1, dest\<lparr>i_ctx := i\<rparr>, False)
      | (ms1, i, True) \<Rightarrow>
          (case EVP_MD_CTX_copy_ex ms1 (o_ctx dest) (o_ctx src) of
             (ms2, out, False) \<Rightarrow> (ms2, dest\<lparr>i_ctx := i, o_ctx := out\<rparr>, False)
           | (ms2, out, True) \<Rightarrow>
               (case EVP_MD_CTX_copy_ex ms2 (md_ctx dest) (md_ctx src) of
                  (ms3, c, False) \<Rightarrow> (ms3, dest\<lparr>i_ctx := i, o_ctx := out, md_ctx := c\<rparr>, False)
                | (ms3, c, True) \<Rightarrow>
                    (ms3, \<lparr>hmac_md = hmac_md src, md_ctx = c, i_ctx = i, o_ctx = out\<rparr>, True))))"

definition HMAC_CTX_copy :: "mallocs \<Rightarrow> hmac_ctx \<Rightarrow> mallocs \<times> hmac_ctx \<times> bool" where
  "HMAC_CTX_copy ms src = HMAC_CTX_copy_ex ms HMAC_CTX_init src"

subsection \<open>HKDF\<close>

definition HKDF_extract ::
  "mallocs \<Rightarrow> evp_md \<Rightarrow> bytes \<Rightarrow> bytes option \<Rightarrow> (mallocs \<times> bytes option) option" where
  "HKDF_extract ms digest secret salt = HMAC ms digest salt secret"

text \<open>What a round of the loop of \<open>HKDF_expand\<close> computes, with the counter \<open>i\<close>; the output is \<open>None\<close> when
  an initialisation fails.  \<open>HMAC_Final\<close> gets no \<open>out_len\<close>.\<close>

definition hkdf_round ::
  "mallocs \<Rightarrow> hmac_ctx \<Rightarrow> nat \<Rightarrow> bytes \<Rightarrow> nat \<Rightarrow> bytes \<Rightarrow> (mallocs \<times> hmac_ctx \<times> bytes option) option" where
  "hkdf_round ms hmac digest_len info i previous =
     (let ctr = (of_nat (i + 1) :: u8)
      in case (if i \<noteq> 0 then
                 (case HMAC_Init_ex ms hmac None None of
                    None \<Rightarrow> None
                  | Some (ms1, h1, False) \<Rightarrow> Some (ms1, h1, False)
                  | Some (ms1, h1, True) \<Rightarrow>
                      map_option (\<lambda>h2. (ms1, h2, True)) (HMAC_Update h1 (take digest_len previous)))
               else Some (ms, hmac, True)) of
           None \<Rightarrow> None
         | Some (ms1, h1, False) \<Rightarrow> Some (ms1, h1, None)
         | Some (ms1, h1, True) \<Rightarrow>
             (case HMAC_Update h1 info of
                None \<Rightarrow> None
              | Some h2 \<Rightarrow>
                  (case HMAC_Update h2 [ctr] of
                     None \<Rightarrow> None
                   | Some h3 \<Rightarrow> HMAC_Final ms1 h3 False)))"

text \<open>The loop: \<open>m\<close> rounds remain, \<open>out\<close> is what has been written of \<open>out_key\<close>, so that
  \<open>done\<close> is its length.\<close>

fun hkdf_loop ::
  "nat \<Rightarrow> mallocs \<Rightarrow> hmac_ctx \<Rightarrow> nat \<Rightarrow> nat \<Rightarrow> bytes \<Rightarrow> nat \<Rightarrow> bytes \<Rightarrow> bytes \<Rightarrow>
   (mallocs \<times> bytes option) option" where
  "hkdf_loop 0 ms hmac digest_len out_len info i previous out = Some (ms, Some out)"
| "hkdf_loop (Suc m) ms hmac digest_len out_len info i previous out =
     (case hkdf_round ms hmac digest_len info i previous of
        None \<Rightarrow> None
      | Some (ms1, h1, None) \<Rightarrow> Some (ms1, None)
      | Some (ms1, h1, Some previous') \<Rightarrow>
          let todo = (if out_len < length out + digest_len then out_len - length out else digest_len)
          in hkdf_loop m ms1 h1 digest_len out_len info (i + 1) previous' (out @ take todo previous'))"

text \<open>The lengths are computed in \<open>size_t\<close>.\<close>

definition HKDF_expand ::
  "mallocs \<Rightarrow> u64 \<Rightarrow> evp_md \<Rightarrow> bytes \<Rightarrow> bytes \<Rightarrow> (mallocs \<times> bytes option) option" where
  "HKDF_expand ms out_len digest prk info =
     (let digest_len = (of_nat (EVP_MD_size digest) :: u64);
          n = (out_len + digest_len - 1) div digest_len
      in if out_len + digest_len < out_len \<or> 255 < n then Some (ms, None)
         else
           case HMAC_Init_ex ms HMAC_CTX_init (Some prk) (Some digest) of
             None \<Rightarrow> None
           | Some (ms1, hmac, False) \<Rightarrow> Some (ms1, None)
           | Some (ms1, hmac, True) \<Rightarrow>
               hkdf_loop (unat n) ms1 hmac (EVP_MD_size digest) (unat out_len) info 0 [] [])"

definition HKDF ::
  "mallocs \<Rightarrow> u64 \<Rightarrow> evp_md \<Rightarrow> bytes \<Rightarrow> bytes option \<Rightarrow> bytes \<Rightarrow> (mallocs \<times> bytes option) option" where
  "HKDF ms out_len digest secret salt info =
     (case HKDF_extract ms digest secret salt of
        None \<Rightarrow> None
      | Some (ms1, None) \<Rightarrow> Some (ms1, None)
      | Some (ms1, Some prk) \<Rightarrow> HKDF_expand ms1 out_len digest prk info)"

end
