(* ===== verification/Md32Spec.thy ===== *)
theory Md32Spec
  imports Md32
begin

text \<open>
  The collector against the reference: what it has seen does not depend on how the input was cut
  into calls, and finishing hashes the padded message.
\<close>

subsection \<open>Blocks\<close>

lemma block_data_order_add:
  "block_data_order b B st xs (n + m) =
     block_data_order b B (block_data_order b B st xs n) (drop (n * B) xs) m"
  by (induction n arbitrary: st xs) (simp_all add: add.commute)

lemma block_data_order_append:
  "n * B \<le> length xs \<Longrightarrow> block_data_order b B st (xs @ ys) n = block_data_order b B st xs n"
proof (induction n arbitrary: st xs)
  case (Suc n)
  have "B \<le> length xs" using Suc.prems by simp
  then have "take B (xs @ ys) = take B xs" "drop B (xs @ ys) = drop B xs @ ys" by simp_all
  moreover have "n * B \<le> length (drop B xs)" using Suc.prems by simp
  ultimately show ?case using Suc.IH [of "drop B xs"] by (simp del: take_append drop_append)
qed simp

lemma block_data_order_one: "block_data_order b B st xs 1 = b st (take B xs)"
  by (simp add: One_nat_def)

text \<open>More input continues behind the whole blocks so far.\<close>

lemma blocks_continue:
  assumes "0 < B"
  defines "\<And>xs. q xs \<equiv> length xs div B"
  shows "block_data_order b B st (msg @ xs) (q (msg @ xs)) =
      block_data_order b B (block_data_order b B st msg (q msg)) (drop (q msg * B) msg @ xs)
        (q (drop (q msg * B) msg @ xs))"
    and "drop (q (msg @ xs) * B) (msg @ xs) =
      drop (q (drop (q msg * B) msg @ xs) * B) (drop (q msg * B) msg @ xs)"
proof -
  let ?r = "drop (q msg * B) msg"
  have le: "q msg * B \<le> length msg" by (simp add: q_def)
  have "length (msg @ xs) = q msg * B + length (?r @ xs)" using le by simp
  then have q: "q (msg @ xs) = q msg + q (?r @ xs)"
    unfolding q_def using assms(1) by (metis add.commute div_mult_self1 not_less_zero)
  have d: "drop (q msg * B) (msg @ xs) = ?r @ xs" using le by simp
  show "block_data_order b B st (msg @ xs) (q (msg @ xs)) =
      block_data_order b B (block_data_order b B st msg (q msg)) (?r @ xs) (q (?r @ xs))"
    unfolding q block_data_order_add d block_data_order_append [OF le] ..
  have "q (msg @ xs) * B = q (?r @ xs) * B + q msg * B" by (simp add: q add_mult_distrib)
  then show "drop (q (msg @ xs) * B) (msg @ xs) = drop (q (?r @ xs) * B) (?r @ xs)"
    using d by (metis drop_drop)
qed

text \<open>A block filled from the front, and the rest.\<close>

lemma blocks_fill:
  assumes "0 < B" and "length r < B" and "B \<le> length (r @ xs)"
  shows "block_data_order b B st (r @ xs) (length (r @ xs) div B) =
      block_data_order b B (block_data_order b B st (r @ take (B - length r) xs) 1)
        (drop (B - length r) xs) (length (drop (B - length r) xs) div B)"
    and "drop (length (r @ xs) div B * B) (r @ xs) =
      drop (length (drop (B - length r) xs) div B * B) (drop (B - length r) xs)"
proof -
  let ?ys = "drop (B - length r) xs"
  have "length (r @ xs) = B + length ?ys" using assms by simp
  then have q: "length (r @ xs) div B = 1 + length ?ys div B"
    using assms(1) by (metis div_add_self1 less_numeral_extra(3) add.commute)
  have s: "r @ xs = (r @ take (B - length r) xs) @ ?ys" by simp
  have d: "drop B (r @ xs) = ?ys" using assms by simp
  have "block_data_order b B st (r @ xs) 1 = block_data_order b B st (r @ take (B - length r) xs) 1"
    unfolding s by (rule block_data_order_append) (use assms in simp)
  then show "block_data_order b B st (r @ xs) (length (r @ xs) div B) =
      block_data_order b B (block_data_order b B st (r @ take (B - length r) xs) 1) ?ys (length ?ys div B)"
    unfolding q block_data_order_add using d by simp
  show "drop (length (r @ xs) div B * B) (r @ xs) = drop (length ?ys div B * B) ?ys"
  proof -
    have "length (r @ xs) div B * B = length ?ys div B * B + B" unfolding q by simp
    then show ?thesis using d by (metis drop_drop)
  qed
qed

subsection \<open>The bit counter\<close>

lemma unat_push_of_nat:
  "unat (push_bit 3 (of_nat n) :: 'w::len word) = (8 * n) mod 2 ^ LENGTH('w)"
proof -
  have "push_bit 3 (of_nat n) = (of_nat (8 * n) :: 'w word)"
    by (simp add: push_bit_eq_mult mult.commute)
  then show ?thesis by (simp add: unat_of_nat del: of_nat_mult)
qed

lemma mod_square: "b < W \<Longrightarrow> (W * a + b) mod (W * W) = W * (a mod W) + (b :: nat)"
  by (simp add: mod_mult2_eq)

lemma bit_counter:
  fixes Nl0 Nh0 :: "'w::len word"
  assumes "3 \<le> LENGTH('w)" and l: "l = Nl0 + push_bit 3 (of_nat n)"
    and h: "h = (if l < Nl0 then Nh0 + 1 else Nh0) + of_nat (n div 2 ^ (LENGTH('w) - 3))"
  shows "2 ^ LENGTH('w) * unat h + unat l =
    (2 ^ LENGTH('w) * unat Nh0 + unat Nl0 + 8 * n) mod 2 ^ (2 * LENGTH('w))"
proof -
  define W :: nat where "W = 2 ^ LENGTH('w)"
  define hi where "hi = n div 2 ^ (LENGTH('w) - 3)"
  define lo where "lo = 8 * n mod W"
  have W: "0 < W" "W = 8 * 2 ^ (LENGTH('w) - 3)"
    using assms(1) power_add [of "2 :: nat" 3 "LENGTH('w) - 3"] by (simp_all add: W_def)
  have "lo = 8 * (n mod 2 ^ (LENGTH('w) - 3))" 
    unfolding lo_def W(2) by (rule mult_mod_right [symmetric])
  then have "W * hi + lo = 8 * (2 ^ (LENGTH('w) - 3) * hi + n mod 2 ^ (LENGTH('w) - 3))"
    by (simp add: W(2))
  moreover have "2 ^ (LENGTH('w) - 3) * hi + n mod 2 ^ (LENGTH('w) - 3) = n"
    unfolding hi_def by (rule mult_div_mod_eq)
  ultimately have n8: "8 * n = W * hi + lo" by (simp only:)
  have lo: "lo < W" using W by (simp add: lo_def)
  have lt: "unat Nl0 < W" "unat Nh0 < W" by (simp_all add: W_def)
  have ul: "unat l = (unat Nl0 + lo) mod W"
    by (simp add: l unat_word_ariths unat_push_of_nat lo_def W_def)
  have carry: "l < Nl0 \<longleftrightarrow> W \<le> unat Nl0 + lo"
  proof (cases "unat Nl0 + lo < W")
    case False
    then have "unat l = unat Nl0 + lo - W" using ul lo lt by (simp add: le_mod_geq)
    then show ?thesis using False lo by (simp add: word_less_nat_alt)
  qed (simp add: ul word_less_nat_alt)
  define k :: nat where "k = (if l < Nl0 then 1 else 0)"
  have k: "unat Nl0 + lo = W * k + unat l"
    using carry ul lo lt by (cases "l < Nl0") (auto simp: k_def le_mod_geq)
  have uh: "unat h = (unat Nh0 + k + hi) mod W"
    by (simp add: h k_def unat_word_ariths unat_of_nat W_def hi_def mod_simps)
  have "(W * unat Nh0 + unat Nl0 + 8 * n) = W * (unat Nh0 + k + hi) + unat l"
    using n8 k by (simp add: algebra_simps)
  moreover have "(W * (unat Nh0 + k + hi) + unat l) mod (W * W) = W * unat h + unat l"
    unfolding uh by (rule mod_square) (simp add: W_def)
  moreover have "2 ^ (2 * LENGTH('w)) = W * W" by (simp add: W_def power_add mult_2)
  ultimately show ?thesis by (simp add: W_def)
qed

subsection \<open>Updating\<close>

lemma length_put: "n + length xs \<le> length buf \<Longrightarrow> length (put n xs buf) = length buf"
  by (simp add: put_def)

lemma take_put: "n + length xs \<le> length buf \<Longrightarrow> take (n + length xs) (put n xs buf) = take n buf @ xs"
  by (simp add: put_def)

lemma put_full: "n + length xs = length buf \<Longrightarrow> put n xs buf = take n buf @ xs"
  by (simp add: put_def)

text \<open>What \<open>seen\<close> says without the counters.\<close>

definition buffered ::
  "'w hash_block \<Rightarrow> nat \<Rightarrow> 'w list \<Rightarrow> 'w hash_ctx \<Rightarrow> bytes \<Rightarrow> bool" where
  "buffered block B init c msg \<longleftrightarrow>
     length (data c) = B \<and> unat (num c) = length msg mod B \<and>
     take (unat (num c)) (data c) = drop (length msg div B * B) msg \<and>
     chain c = block_data_order block B init msg (length msg div B)"

definition counted_bits :: "'w::len word hash_ctx \<Rightarrow> nat \<Rightarrow> bool" where
  "counted_bits c n \<longleftrightarrow>
     2 ^ LENGTH('w) * unat (Nh c) + unat (Nl c) = 8 * n mod 2 ^ (2 * LENGTH('w))"

lemma seen_iff: "seen block B init c msg \<longleftrightarrow> buffered block B init c msg \<and> counted_bits c (length msg)"
  by (auto simp: seen_def buffered_def counted_bits_def)

lemma length_rest: "length (drop (length msg div B * B) msg) = length msg mod B"
  by (simp add: minus_div_mult_eq_mod)

text \<open>Input goes into the buffer while it does not fill it.\<close>

lemma buffered_small:
  assumes b: "buffered block B init c msg" and B: "0 < B" "B < 2 ^ 32"
    and small: "unat (num c) + length xs < B"
  shows "buffered block B init (c\<lparr>data := put (unat (num c)) xs (data c), num := num c + of_nat (length xs)\<rparr>)
    (msg @ xs)"
proof -
  let ?r = "drop (length msg div B * B) msg" and ?n = "unat (num c)"
  have r: "take ?n (data c) = ?r" "length ?r = ?n" "?n < B" "length (data c) = B"
    using b B length_rest [of msg B] unfolding buffered_def by (blast, metis, metis mod_less_divisor, blast)
  have q: "length (?r @ xs) div B = 0" using small r(2) by simp
  have n: "unat (num c + of_nat (length xs)) = ?n + length xs"
    using small B(2) by (simp add: unat_word_ariths unat_of_nat)
  have "(length msg + length xs) mod B = ?n + length xs"
    using b small by (metis buffered_def mod_add_left_eq mod_less)
  then show ?thesis
    using blocks_continue(1) [OF B(1), of block init msg xs] blocks_continue(2) [OF B(1), of msg xs] q r n b small
    by (simp add: buffered_def length_put take_put)
qed

text \<open>A full buffer is hashed, and the rest of the input goes on from there.\<close>

lemma buffered_rest:
  assumes B: "0 < B" "B < 2 ^ 32" and d: "length (data c) = B"
    and st: "chain c = block_data_order block B init msg (length msg div B)" and m: "length msg mod B = 0"
    and n0: "num c = 0"
    and c': "c' = (let n = length xs div B;
          c1 = (if 0 < n then c\<lparr>chain := block_data_order block B (chain c) xs n\<rparr> else c);
          rest = drop (n * B) xs
      in if rest \<noteq> [] then c1\<lparr>num := of_nat (length rest), data := put 0 rest (data c1)\<rparr> else c1)"
  shows "buffered block B init c' (msg @ xs) \<and> Nl c' = Nl c \<and> Nh c' = Nh c \<and> md_len c' = md_len c"
proof -
  let ?n = "length xs div B" and ?rest = "drop (length xs div B * B) xs"
  have q: "drop (length msg div B * B) msg = []" 
    using m length_rest [of msg B] by (metis length_0_conv)
  have ch: "chain c' = block_data_order block B (chain c) xs ?n"
    using c' by (auto simp: Let_def)
  have l: "length ?rest = length xs mod B" "length ?rest < B" using B by (simp_all add: minus_div_mult_eq_mod)
  have "num c' = of_nat (length ?rest) \<and> take (length ?rest) (data c') = ?rest \<and> length (data c') = B"
    using c' n0 d l by (auto simp: Let_def put_def)
  moreover have "unat (of_nat (length ?rest) :: u32) = length xs mod B" using l B(2) by (simp add: unat_of_nat)
  moreover have "(length msg + length xs) mod B = length xs mod B" using m by (metis add_0 mod_add_left_eq)
  ultimately have "buffered block B init c' (msg @ xs)"
    using blocks_continue(1) [OF B(1), of block init msg xs] blocks_continue(2) [OF B(1), of msg xs] q ch st l by (simp add: buffered_def)
  then show ?thesis using c' by (auto simp: Let_def)
qed

lemma buffered_fill:
  assumes b: "buffered block B init c msg" and B: "0 < B"
    and m: "m = B - unat (num c)" "m \<le> length xs"
  shows "block_data_order block B (chain c) (put (unat (num c)) (take m xs) (data c)) 1 =
      block_data_order block B init (msg @ take m xs) (length (msg @ take m xs) div B)"
    and "length (msg @ take m xs) mod B = 0"
proof -
  let ?r = "drop (length msg div B * B) msg" and ?ys = "take m xs"
  have r: "take (unat (num c)) (data c) = ?r" using b unfolding buffered_def by blast
  have n: "unat (num c) = length msg mod B" "unat (num c) < B" "length (data c) = B"
    using b B by (simp_all add: buffered_def)
  have l: "length ?r + length ?ys = B" using n m length_rest [of msg B] by simp
  have "put (unat (num c)) ?ys (data c) = ?r @ ?ys"
    using put_full [of "unat (num c)" ?ys "data c"] r n m by simp
  moreover have "length (?r @ ?ys) div B = 1" using l B by simp
  ultimately show "block_data_order block B (chain c) (put (unat (num c)) ?ys (data c)) 1 =
      block_data_order block B init (msg @ ?ys) (length (msg @ ?ys) div B)"
    using blocks_continue(1) [OF B, of block init msg ?ys] b by (simp add: buffered_def)
  have "length (msg @ ?ys) mod B = (length msg mod B + length ?ys) mod B" by (simp add: mod_add_left_eq)
  also have "length msg mod B + length ?ys = B" using n m by simp
  finally show "length (msg @ ?ys) mod B = 0" by simp
qed

lemma buffered_counters:
  "buffered block B init (c\<lparr>Nl := x\<rparr>) msg = buffered block B init c msg"
  "buffered block B init (c\<lparr>Nh := y\<rparr>) msg = buffered block B init c msg"
  by (simp_all add: buffered_def)

text \<open>The counters as both update functions set them.\<close>

lemma counted_bits_add:
  fixes c :: "'w::len word hash_ctx"
  assumes "counted_bits c n" and "3 \<le> LENGTH('w)" and "l = Nl c + push_bit 3 (of_nat m)"
    and "Nl c' = l"
    and "Nh c' = (if l < Nl c then Nh c + 1 else Nh c) + of_nat (m div 2 ^ (LENGTH('w) - 3))"
  shows "counted_bits c' (n + m)"
proof -
  have "(8 * n mod 2 ^ (2 * LENGTH('w)) + 8 * m) mod 2 ^ (2 * LENGTH('w)) =
      8 * (n + m) mod 2 ^ (2 * LENGTH('w))"
    by (simp only: mod_add_left_eq distrib_left)
  with bit_counter [OF assms(2,3,5)] assms(1,4) show ?thesis by (simp add: counted_bits_def)
qed

theorem seen_update:
  assumes s: "seen block 64 init c msg"
  shows "seen block 64 init (HASH_UPDATE block c xs) (msg @ xs) \<and>
    md_len (HASH_UPDATE block c xs) = md_len c"
proof (cases "xs = []")
  case True
  then show ?thesis using s by (simp add: HASH_UPDATE_def)
next
  case False
  define l where "l = Nl c + push_bit 3 (of_nat (length xs))"
  define c1 where "c1 = (if l < Nl c then c\<lparr>Nh := Nh c + 1\<rparr> else c)"
  define c2 where "c2 = c1\<lparr>Nh := Nh c1 + of_nat (length xs div 2 ^ 29), Nl := l\<rparr>"
  have b: "buffered block 64 init c2 msg" and k: "num c2 = num c" "data c2 = data c" "chain c2 = chain c"
      "md_len c2 = md_len c"
    using s by (simp_all add: seen_iff c2_def c1_def buffered_counters)
  have cb: "counted_bits c2 (length (msg @ xs))"
    unfolding length_append
    by (rule counted_bits_add [of c _ l]) (use s in \<open>simp_all add: seen_iff l_def c2_def c1_def\<close>)
  have ctr: "counted_bits c' (length (msg @ xs))" if "Nl c' = Nl c2" "Nh c' = Nh c2" for c'
    using cb that by (simp add: counted_bits_def)
  have n: "unat (num c) < 64" using b k by (simp add: buffered_def)
  have upd: "HASH_UPDATE block c xs =
     (if unat (num c2) \<noteq> 0 then
        if 64 \<le> length xs \<or> 64 \<le> length xs + unat (num c2) then
          update_blocks block (c2\<lparr>chain := block_data_order block 64 (chain c2)
              (put (unat (num c2)) (take (64 - unat (num c2)) xs) (data c2)) 1, num := 0,
            data := replicate 64 0\<rparr>) (drop (64 - unat (num c2)) xs)
        else c2\<lparr>data := put (unat (num c2)) xs (data c2), num := num c2 + of_nat (length xs)\<rparr>
      else update_blocks block c2 xs)"
    using False by (simp add: HASH_UPDATE_def Let_def c2_def c1_def l_def)
  show ?thesis
  proof (cases "unat (num c2) = 0")
    case True
    have m: "length msg mod 64 = 0" "num c2 = 0" using b True by (simp_all add: buffered_def unat_eq_0)
    have "chain c2 = block_data_order block 64 init msg (length msg div 64)" "length (data c2) = 64"
      using b by (simp_all add: buffered_def)
    from buffered_rest [OF _ _ this(2,1) m(1,2) refl] True upd show ?thesis
      using ctr k by (simp add: seen_iff update_blocks_def)
  next
    case nz: False
    show ?thesis
    proof (cases "64 \<le> length xs \<or> 64 \<le> length xs + unat (num c2)")
      case True
      define m where "m = 64 - unat (num c2)"
      have m: "m \<le> length xs" using True by (auto simp: m_def)
      define c3 where "c3 = c2\<lparr>chain := block_data_order block 64 (chain c2)
          (put (unat (num c2)) (take m xs) (data c2)) 1, num := 0, data := replicate 64 0\<rparr>"
      have st: "chain c3 = block_data_order block 64 init (msg @ take m xs) (length (msg @ take m xs) div 64)"
        using buffered_fill(1) [OF b _ m_def m] by (simp add: c3_def)
      have mod: "length (msg @ take m xs) mod 64 = 0" using buffered_fill(2) [OF b _ m_def m] by simp
      have "length (data c3) = 64" "num c3 = 0" by (simp_all add: c3_def)
      from buffered_rest [OF _ _ this(1) st mod this(2) refl, of "drop m xs"]
      have "buffered block 64 init (update_blocks block c3 (drop m xs)) (msg @ xs) \<and>
          Nl (update_blocks block c3 (drop m xs)) = Nl c3 \<and> Nh (update_blocks block c3 (drop m xs)) = Nh c3 \<and>
          md_len (update_blocks block c3 (drop m xs)) = md_len c3"
        by (simp add: update_blocks_def)
      moreover have "HASH_UPDATE block c xs = update_blocks block c3 (drop m xs)"
        using upd nz True by (simp add: c3_def m_def)
      ultimately show ?thesis using ctr k by (simp add: seen_iff c3_def)
    next
      case small: False
      then have "HASH_UPDATE block c xs =
          c2\<lparr>data := put (unat (num c2)) xs (data c2), num := num c2 + of_nat (length xs)\<rparr>"
        using upd nz by simp
      then show ?thesis
        using buffered_small [OF b, of xs] small ctr k by (simp add: seen_iff add.commute)
    qed
  qed
qed

subsection \<open>Finishing\<close>

lemma pad_zeros:
  fixes B k m :: nat
  assumes "k + 1 \<le> B" and "m < B"
  shows "(2 * B - 1 - k - m) mod B = (if m + 1 \<le> B - k then B - k - 1 - m else B - 1 - m + (B - k))"
proof (cases "m + 1 \<le> B - k")
  case True
  then have "2 * B - 1 - k - m = (B - k - 1 - m) + B" "B - k - 1 - m < B" using assms by simp_all
  then show ?thesis using True by (metis mod_add_self2 mod_less)
next
  case False
  then have "2 * B - 1 - k - m = B - 1 - m + (B - k)" "B - 1 - m + (B - k) < B" using assms by simp_all
  then show ?thesis using False by (metis mod_less)
qed

lemma md_hash_finish:
  assumes k: "k + 1 \<le> B" and st: "st = block_data_order block B init msg (length msg div B)"
    and r: "r = drop (length msg div B * B) msg" and lf: "length (len_field (length msg)) = k"
  shows "md_hash block B k len_field init msg =
    (if length r + 1 \<le> B - k
     then block st (r @ 0x80 # replicate (B - k - 1 - length r) 0 @ len_field (length msg))
     else block (block st (r @ 0x80 # replicate (B - 1 - length r) 0))
            (replicate (B - k) 0 @ len_field (length msg)))"
proof -
  let ?p = "md_padding B k len_field (length msg)" and ?lf = "len_field (length msg)"
  have B: "0 < B" using k by simp
  have m: "length r = length msg mod B" "length r < B" using r length_rest [of msg B] B by simp_all
  have hash: "md_hash block B k len_field init msg = block_data_order block B st (r @ ?p) (length (r @ ?p) div B)"
    using blocks_continue(1) [OF B, of block init msg ?p] by (simp add: md_hash_def Let_def st r)
  have p: "?p = 0x80 # replicate (if length r + 1 \<le> B - k then B - k - 1 - length r
      else B - 1 - length r + (B - k)) 0 @ ?lf"
    using pad_zeros [OF k m(2)] by (simp add: md_padding_def m(1))
  show ?thesis
  proof (cases "length r + 1 \<le> B - k")
    case True
    then have "length (r @ ?p) = B" using p lf k by simp
    then show ?thesis using hash p True B block_data_order_one [of block B st "r @ ?p"] by simp
  next
    case False
    let ?b1 = "r @ 0x80 # replicate (B - 1 - length r) 0" and ?b2 = "replicate (B - k) 0 @ ?lf"
    have s: "r @ ?p = ?b1 @ ?b2" using p False by (simp add: replicate_add)
    have l: "length ?b1 = B" "length ?b2 = B" using m(2) lf k by simp_all
    then have "length (r @ ?p) div B = 1 + 1" unfolding s using B by simp
    moreover have "take B (?b1 @ ?b2) = ?b1" "drop B (?b1 @ ?b2) = ?b2"
      using l by (metis append_eq_conv_conj)+
    ultimately have "block_data_order block B st (r @ ?p) (length (r @ ?p) div B) =
        block (block st ?b1) (take B ?b2)"
      unfolding s by (simp add: One_nat_def)
    then show ?thesis using hash False l by simp
  qed
qed

text \<open>The counters are the high and low word of the number of bits.\<close>

lemma counted_bits_words:
  fixes c :: "'w::len word hash_ctx"
  assumes "counted_bits c n"
  shows "Nl c = of_nat (8 * n)" and "Nh c = of_nat (8 * n div 2 ^ LENGTH('w))"
proof -
  define W :: nat where "W = 2 ^ LENGTH('w)"
  have W: "0 < W" "2 ^ (2 * LENGTH('w)) = W * W" by (simp_all add: W_def power_add mult_2)
  have lt: "unat (Nl c) < W" by (simp add: W_def)
  have e: "W * unat (Nh c) + unat (Nl c) = W * (8 * n div W mod W) + 8 * n mod W"
    using assms W(2) mod_mult2_eq [of "8 * n" W W] by (simp add: counted_bits_def W_def)
  have "unat (Nl c) = 8 * n mod W"
  proof -
    have "(W * unat (Nh c) + unat (Nl c)) mod W = (W * (8 * n div W mod W) + 8 * n mod W) mod W"
      by (simp only: e)
    then show ?thesis using lt by simp
  qed
  moreover from this have "unat (Nh c) = 8 * n div W mod W" using e W by simp
  ultimately show "Nl c = of_nat (8 * n)" and "Nh c = of_nat (8 * n div 2 ^ LENGTH('w))"
    by (simp_all only: word_unat_eq_iff unat_of_nat W_def)
qed

lemma put_append: "length a = n \<Longrightarrow> put n xs (a @ b) = a @ xs @ drop (length xs) b"
  by (simp add: put_def)

text \<open>The last blocks as both final functions write them into the buffer.\<close>

lemma final_blocks:
  assumes b: "buffered block B init c msg" and k: "k + 1 \<le> B" and lf: "length (lf (length msg)) = k"
    and buf: "buf = put (unat (num c)) [0x80] (data c)" and n: "n = unat (num c) + 1"
    and full: "full = put n (replicate (B - n) 0) buf"
    and last: "(n1, hs, buf1) = (if B - k < n then (0, block_data_order block B (chain c) full 1, full)
        else (n, chain c, buf))"
  shows "block_data_order block B hs (put (B - k) (lf (length msg)) (put n1 (replicate (B - k - n1) 0) buf1)) 1 =
      md_hash block B k lf init msg"
    and "length (put (B - k) (lf (length msg)) (put n1 (replicate (B - k - n1) 0) buf1)) = B"
proof -
  define r where "r = drop (length msg div B * B) msg"
  define junk where "junk = drop (length r) (data c)"
  have num: "unat (num c) = length r" and lr: "length r < B"
    using b k length_rest [of msg B] by (simp_all add: buffered_def r_def)
  have d: "data c = r @ junk" "length junk = B - length r"
  proof -
    have t: "take (length r) (data c) = r" "length (data c) = B"
      using b unfolding buffered_def num [symmetric] r_def [symmetric] by blast+
    then show "data c = r @ junk" unfolding junk_def by (metis append_take_drop_id)
    show "length junk = B - length r" using t by (simp add: junk_def)
  qed
  have st: "chain c = block_data_order block B init msg (length msg div B)" using b by (simp add: buffered_def)
  note finish = md_hash_finish [where len_field = lf, OF k st r_def lf]
  have buf': "buf = (r @ [0x80]) @ drop 1 junk"
    using put_append [of r "length r" "[0x80]" junk] d num buf by simp
  let ?p = "put (B - k) (lf (length msg)) (put n1 (replicate (B - k - n1) 0) buf1)"
  show "block_data_order block B hs ?p 1 = md_hash block B k lf init msg" and "length ?p = B"
  proof (atomize (full), cases "B - k < n")
    case False
    then have l: "n1 = n" "hs = chain c" "buf1 = buf" "length r + 1 \<le> B - k" using last num n by simp_all
    have e: "Suc (B - Suc (k + length r)) = B - (k + length r)" using l(4) by linarith
    have "put n (replicate (B - k - n) 0) ((r @ [0x80]) @ drop 1 junk) =
        (r @ 0x80 # replicate (B - k - 1 - length r) 0) @ drop (B - k - length r) junk"
      using num n e by (subst put_append) simp_all
    moreover have "put (B - k) (lf (length msg))
        ((r @ 0x80 # replicate (B - k - 1 - length r) 0) @ drop (B - k - length r) junk) =
        r @ 0x80 # replicate (B - k - 1 - length r) 0 @ lf (length msg)"
      using l(4) d(2) lf k by (subst put_append) simp_all
    ultimately have "?p = r @ 0x80 # replicate (B - k - 1 - length r) 0 @ lf (length msg)"
      using l buf' by simp
    then show "block_data_order block B hs ?p 1 = md_hash block B k lf init msg \<and> length ?p = B"
      using finish l lf k by (simp add: One_nat_def)
  next
    case True
    then have l: "n1 = 0" "hs = block_data_order block B (chain c) full 1" "buf1 = full" "\<not> length r + 1 \<le> B - k"
      using last num n by simp_all
    have f: "full = r @ 0x80 # replicate (B - 1 - length r) 0"
      unfolding full buf' using d(2) lr num n by (subst put_append) simp_all
    have "put 0 (replicate (B - k) 0) full = replicate (B - k) 0 @ drop (B - k) full"
      by (simp add: put_def)
    moreover have "put (B - k) (lf (length msg)) (replicate (B - k) 0 @ drop (B - k) full) =
        replicate (B - k) 0 @ lf (length msg)"
      using lr lf k by (subst put_append) (simp_all add: f)
    ultimately have "?p = replicate (B - k) 0 @ lf (length msg)" using l by simp
    then show "block_data_order block B hs ?p 1 = md_hash block B k lf init msg \<and> length ?p = B"
      using finish l lf k lr by (simp add: One_nat_def f)
  qed
qed

theorem seen_final:
  assumes s: "seen block 64 init c msg" and l2c: "\<And>x. length (l2c x) = 4"
  shows "chain (HASH_FINAL big l2c block c) = md_hash block 64 8 (bit_length_field big l2c) init msg \<and>
    md_len (HASH_FINAL big l2c block c) = md_len c"
proof -
  let ?lf = "bit_length_field big l2c"
  have b: "buffered block 64 init c msg" and cb: "counted_bits c (length msg)"
    using s by (simp_all add: seen_iff)
  have lf: "length (?lf m) = 8" for m using l2c by (simp add: Let_def bit_length_field_def)
  have field: "(if big then l2c (Nh c) @ l2c (Nl c) else l2c (Nl c) @ l2c (Nh c)) = ?lf (length msg)"
    using counted_bits_words [OF cb] by (simp add: Let_def bit_length_field_def)
  note fin = final_blocks(1) [OF b _ lf refl refl refl]
  show ?thesis
  proof (cases "64 - 8 < unat (num c) + 1")
    case True
    show ?thesis
      using True fin [OF _ if_P [symmetric, OF True]] by (simp add: HASH_FINAL_def Let_def field One_nat_def)
  next
    case False
    show ?thesis
      using False fin [OF _ if_not_P [symmetric, OF False]] by (simp add: HASH_FINAL_def Let_def field One_nat_def)
  qed
qed

subsection \<open>Well-formed contexts\<close>

text \<open>The lengths the arrays of a context have, and \<open>num\<close> within the buffer; the operations rely
  on nothing else.\<close>

definition ctx_wf :: "nat \<Rightarrow> nat \<Rightarrow> 'w hash_ctx \<Rightarrow> bool" where
  "ctx_wf L B c \<longleftrightarrow> length (chain c) = L \<and> length (data c) = B \<and> unat (num c) < B"

lemma length_block_data_order:
  "(\<And>H xs. length H = L \<Longrightarrow> length (b H xs) = L) \<Longrightarrow> length H = L \<Longrightarrow>
   length (block_data_order b B H xs n) = L"
  by (induction n arbitrary: H xs) simp_all

text \<open>Whole blocks and the rest, as both update functions end.\<close>

lemma wf_rest:
  assumes b: "\<And>H xs. length H = L \<Longrightarrow> length (b H xs) = L" and B: "0 < B" "B < 2 ^ 32"
    and c: "ctx_wf L B c"
    and c': "c' = (let n = length xs div B;
          c1 = (if 0 < n then c\<lparr>chain := block_data_order b B (chain c) xs n\<rparr> else c);
          rest = drop (n * B) xs
      in if rest \<noteq> [] then c1\<lparr>num := of_nat (length rest), data := put 0 rest (data c1)\<rparr> else c1)"
  shows "ctx_wf L B c'"
proof -
  let ?rest = "drop (length xs div B * B) xs"
  have l: "length ?rest < B" using B by (simp only: length_rest mod_less_divisor)
  then have n: "unat (of_nat (length ?rest) :: u32) < B" "length (put 0 ?rest (data c)) = B"
    using B(2) c length_put [of 0 ?rest "data c"] by (simp_all add: unat_of_nat ctx_wf_def del: length_drop)
  have "length (block_data_order b B (chain c) xs k) = L" for k
    using length_block_data_order [OF b] c by (simp add: ctx_wf_def)
  then show ?thesis
    using n c by (cases "length xs div B = 0") (auto simp: c' Let_def ctx_wf_def simp del: length_drop drop_eq_Nil)
qed

lemma wf_HASH_UPDATE:
  assumes b: "\<And>H xs. length H = L \<Longrightarrow> length (b H xs) = L" and c: "ctx_wf L 64 c"
  shows "ctx_wf L 64 (HASH_UPDATE b c xs)"
proof (cases "xs = []")
  case True
  then show ?thesis using c by (simp add: HASH_UPDATE_def)
next
  case False
  define l where "l = Nl c + push_bit 3 (of_nat (length xs))"
  define c1 where "c1 = (if l < Nl c then c\<lparr>Nh := Nh c + 1\<rparr> else c)"
  define c2 where "c2 = c1\<lparr>Nh := Nh c1 + of_nat (length xs div 2 ^ 29), Nl := l\<rparr>"
  have c2: "ctx_wf L 64 c2" using c by (simp add: c2_def c1_def ctx_wf_def)
  have rest: "ctx_wf L 64 (update_blocks b d ys)" if "ctx_wf L 64 d" for d ys
    by (rule wf_rest [of L b 64 d _ ys]) (use b that in \<open>simp_all add: update_blocks_def\<close>)
  have n: "unat (num c2 + of_nat (length xs)) < 64 \<and> length (put (unat (num c2)) xs (data c2)) = 64"
    if "unat (num c2) + length xs < 64"
    using that c2 length_put [of "unat (num c2)" xs "data c2"]
    by (simp add: unat_word_ariths unat_of_nat ctx_wf_def)
  have "ctx_wf L 64 (c2\<lparr>data := put (unat (num c2)) xs (data c2), num := num c2 + of_nat (length xs)\<rparr>)"
    if "\<not> (64 \<le> length xs \<or> 64 \<le> length xs + unat (num c2))"
    using n that c2 by (simp add: ctx_wf_def add.commute)
  moreover have "ctx_wf L 64 (c2\<lparr>chain := block_data_order b 64 (chain c2) p 1, num := 0, data := replicate 64 0\<rparr>)"
    for p using b c2 by (simp add: ctx_wf_def One_nat_def)
  moreover have "HASH_UPDATE b c xs =
     (if unat (num c2) \<noteq> 0 then
        if 64 \<le> length xs \<or> 64 \<le> length xs + unat (num c2) then
          update_blocks b (c2\<lparr>chain := block_data_order b 64 (chain c2)
              (put (unat (num c2)) (take (64 - unat (num c2)) xs) (data c2)) 1, num := 0,
            data := replicate 64 0\<rparr>) (drop (64 - unat (num c2)) xs)
        else c2\<lparr>data := put (unat (num c2)) xs (data c2), num := num c2 + of_nat (length xs)\<rparr>
      else update_blocks b c2 xs)"
    using False by (simp add: HASH_UPDATE_def Let_def c2_def c1_def l_def)
  ultimately show ?thesis using rest c2 by presburger
qed

lemma wf_HASH_FINAL:
  assumes "\<And>H xs. length H = L \<Longrightarrow> length (b H xs) = L" and "ctx_wf L 64 c"
  shows "ctx_wf L 64 (HASH_FINAL big l2c b c)"
  using assms by (simp add: HASH_FINAL_def Let_def ctx_wf_def One_nat_def)

end
