(* ===== verification/ShaSpec.thy ===== *)
theory ShaSpec
  imports Sha Md32Spec Der
begin

text \<open>
  The block functions against the standards (FIPS 180-4, RFC 1321): rotated registers against the
  shift of all working variables, the ring of sixteen words against the message schedule, the
  bit tricks against the logical functions.
\<close>

subsection \<open>Message schedules\<close>

text \<open>A schedule appends to the words of the block what \<open>step\<close> makes of those before.\<close>

primrec schedule :: "('w list \<Rightarrow> 'w) \<Rightarrow> 'w list \<Rightarrow> nat \<Rightarrow> 'w list" where
  "schedule step ws 0 = ws"
| "schedule step ws (Suc n) = (let W = schedule step ws n in W @ [step W])"

lemma length_schedule [simp]: "length (schedule step ws n) = length ws + n"
  by (induction n) (simp_all add: Let_def)

lemma schedule_nth_less: "t < length ws \<Longrightarrow> schedule step ws n ! t = ws ! t"
  by (induction n) (simp_all add: Let_def nth_append)

lemma schedule_nth_step:
  "length ws \<le> t \<Longrightarrow> t < length ws + n \<Longrightarrow>
   schedule step ws n ! t = step (take t (schedule step ws n))"
proof (induction n)
  case (Suc n)
  then show ?case
    by (cases "t < length ws + n") (simp_all add: Let_def nth_append not_less le_less_Suc_eq [symmetric] flip: less_Suc_eq_le)
qed simp

text \<open>The ring that holds the sixteen words before word \<open>n\<close>.\<close>

definition ring :: "nat \<Rightarrow> 'w list \<Rightarrow> 'w list \<Rightarrow> bool" where
  "ring n W X \<longleftrightarrow> length X = 16 \<and> (\<forall>k<16. X ! ((n + k) mod 16) = W ! (n + k - 16))"

lemma ring_start: "length ws = 16 \<Longrightarrow> ring 16 (schedule step ws n) ws"
  by (simp add: ring_def schedule_nth_less)

lemma ring_nth: "ring n W X \<Longrightarrow> k < 16 \<Longrightarrow> X ! ((n + k) mod 16) = W ! (n + k - 16)"
  by (simp add: ring_def)

lemma ring_next:
  assumes r: "ring n W X" and n: "16 \<le> n"
  shows "ring (Suc n) W (X[n mod 16 := W ! n])"
proof -
  have len: "length X = 16" using r by (simp add: ring_def)
  have "X[n mod 16 := W ! n] ! ((Suc n + k) mod 16) = W ! (Suc n + k - 16)" if "k < 16" for k
  proof (cases "k = 15")
    case True
    have "Suc n + k = n + 16" "Suc n + k - 16 = n" using True by simp_all
    then have "(Suc n + k) mod 16 = n mod 16" by (metis mod_add_self2)
    moreover have "X[n mod 16 := W ! n] ! (n mod 16) = W ! n" using len by simp
    ultimately show ?thesis using \<open>Suc n + k - 16 = n\<close> by metis
  next
    case False
    with that have k: "Suc k < 16" by simp
    have "\<not> 16 dvd Suc k" using k by (simp add: nat_dvd_not_less)
    then have "(Suc n + k) mod 16 \<noteq> n mod 16"
      using mod_eq_dvd_iff_nat [of n "n + Suc k" 16] by (metis add_Suc_shift diff_add_inverse le_add1)
    then have "X[n mod 16 := W ! n] ! ((Suc n + k) mod 16) = X ! ((n + Suc k) mod 16)"
      by (metis add_Suc_shift nth_list_update_neq)
    then show ?thesis using ring_nth [OF r k] by (metis add_Suc_shift)
  qed
  then show ?thesis using len unfolding ring_def by simp
qed

subsection \<open>Rotations\<close>

lemma word_rotr_shifts:
  fixes a :: "'w::len word"
  assumes "0 < n" and "n < LENGTH('w)"
  shows "word_rotr n a = drop_bit n a OR push_bit (LENGTH('w) - n) a"
proof (rule bit_word_eqI)
  fix k assume k: "k < LENGTH('w)"
  show "bit (word_rotr n a) k = bit (drop_bit n a OR push_bit (LENGTH('w) - n) a) k"
  proof (cases "k + n < LENGTH('w)")
    case True
    then show ?thesis using k assms by (auto simp: bit_simps add.commute)
  next
    case False
    then have "(k + n) mod LENGTH('w) = k - (LENGTH('w) - n)"
      using k assms by (simp add: le_mod_geq)
    then show ?thesis using k assms False by (auto simp: bit_simps add.commute dest: bit_imp_le_length)
  qed
qed

lemma ROTATE_rotr: "0 < n \<Longrightarrow> n < 32 \<Longrightarrow> ROTATE a n = word_rotr (32 - n) a"
  using word_rotr_shifts [of "32 - n" a] by (simp add: ROTATE_def or.commute)

lemma ROTR_rotr: "0 < n \<Longrightarrow> n < 64 \<Longrightarrow> ROTR a n = word_rotr n a"
  using word_rotr_shifts [of n a] by (simp add: ROTR_def)


subsection \<open>SHA-2\<close>

text \<open>The compression of FIPS 180-4, 6.2.2 and 6.4.2, on the list of \<open>a\<close> to \<open>h\<close>.\<close>

definition fips_sha2_round ::
  "('w::len word \<Rightarrow> 'w word) \<Rightarrow> ('w word \<Rightarrow> 'w word) \<Rightarrow> 'w word \<Rightarrow> 'w word \<Rightarrow> 'w word list \<Rightarrow> 'w word list" where
  "fips_sha2_round S0 S1 k w s =
     (let T1 = s ! 7 + S1 (s ! 4) + sha2_Ch (s ! 4) (s ! 5) (s ! 6) + k + w;
          T2 = S0 (s ! 0) + sha2_Maj (s ! 0) (s ! 1) (s ! 2)
      in [T1 + T2, s ! 0, s ! 1, s ! 2, s ! 3 + T1, s ! 4, s ! 5, s ! 6])"

definition fips_sha2_step ::
  "('w::len word \<Rightarrow> 'w word) \<Rightarrow> ('w word \<Rightarrow> 'w word) \<Rightarrow> 'w word list \<Rightarrow> 'w word" where
  "fips_sha2_step s0 s1 W =
     (let t = length W in s1 (W ! (t - 2)) + W ! (t - 7) + s0 (W ! (t - 15)) + W ! (t - 16))"

definition fips_sha2 ::
  "nat \<Rightarrow> ('w::len word \<Rightarrow> 'w word) \<Rightarrow> ('w word \<Rightarrow> 'w word) \<Rightarrow> ('w word \<Rightarrow> 'w word) \<Rightarrow> ('w word \<Rightarrow> 'w word) \<Rightarrow>
   'w word list \<Rightarrow> 'w word list \<Rightarrow> 'w word list \<Rightarrow> 'w word list" where
  "fips_sha2 rounds S0 S1 s0 s1 K H M =
     (let W = schedule (fips_sha2_step s0 s1) M (rounds - 16)
      in map2 (+) H (foldl (\<lambda>s t. fips_sha2_round S0 S1 (K ! t) (W ! t) s) H [0..<rounds]))"

text \<open>The variables \<open>a\<close> to \<open>h\<close> before round \<open>t\<close>, read from the registers.\<close>

definition sha2_view :: "nat \<Rightarrow> 'w list \<Rightarrow> 'w list" where
  "sha2_view t v = map (\<lambda>r. v ! r) (sha2_rows ! (t mod 8))"

lemma list8: "length v = 8 \<Longrightarrow> \<exists>a b c d e f g h. v = [a, b, c, d, e, f, g, h]"
  by (auto simp: numeral_eq_Suc length_Suc_conv)

lemma mod8_cases:
  fixes t :: nat
  obtains "t mod 8 = 0" | "t mod 8 = 1" | "t mod 8 = 2" | "t mod 8 = 3" | "t mod 8 = 4" | "t mod 8 = 5"
    | "t mod 8 = 6" | "t mod 8 = 7"
proof -
  have "k = 0 \<or> k = 1 \<or> k = 2 \<or> k = 3 \<or> k = 4 \<or> k = 5 \<or> k = 6 \<or> k = 7" if "k < 8" for k :: nat
    using that by linarith
  from this [of "t mod 8"] show ?thesis using that by simp metis
qed

lemma sha2_view_round:
  assumes "length v = 8"
  shows "sha2_view (Suc t) (ROUND_00_15 S0 S1 K i w (sha2_rows ! (t mod 8)) v) =
      fips_sha2_round S0 S1 (K ! i) w (sha2_view t v)"
    and "length (ROUND_00_15 S0 S1 K i w (sha2_rows ! (t mod 8)) v) = 8"
proof -
  obtain a b c d e f g h where v: "v = [a, b, c, d, e, f, g, h]" using list8 [OF assms] by blast
  show "sha2_view (Suc t) (ROUND_00_15 S0 S1 K i w (sha2_rows ! (t mod 8)) v) =
      fips_sha2_round S0 S1 (K ! i) w (sha2_view t v)"
    by (cases rule: mod8_cases [of t])
      (simp_all add: v mod_Suc sha2_view_def sha2_rows_def ROUND_00_15_def fips_sha2_round_def Let_def ac_simps)
  show "length (ROUND_00_15 S0 S1 K i w (sha2_rows ! (t mod 8)) v) = 8"
    using assms by (simp add: ROUND_00_15_def Let_def)
qed


lemma sha2_view_start: "length v = 8 \<Longrightarrow> t mod 8 = 0 \<Longrightarrow> sha2_view t v = v"
  using list8 [of v] by (auto simp: sha2_view_def sha2_rows_def)

lemma sha2_rounds_first:
  assumes "length st = 8"
    and v_def: "\<And>n. v n = foldl (\<lambda>v i. ROUND_00_15 S0 S1 K i (X ! i) (sha2_rows ! (i mod 8)) v) st [0..<n]"
  shows "length (v n) = 8 \<and>
    sha2_view n (v n) = foldl (\<lambda>s t. fips_sha2_round S0 S1 (K ! t) (X ! t) s) st [0..<n]"
proof (induction n)
  case 0
  show ?case using assms(1) by (simp add: v_def sha2_view_start)
next
  case (Suc n)
  have "v (Suc n) = ROUND_00_15 S0 S1 K n (X ! n) (sha2_rows ! (n mod 8)) (v n)" by (simp add: v_def)
  then show ?case using Suc.IH sha2_view_round [where v = "v n" and t = n] by simp
qed

lemma sha2_rounds_rest:
  fixes X :: "'w::len word list"
  assumes X: "length X = 16" and v1: "length v1 = 8"
    and W: "W = schedule (fips_sha2_step s0 s1) X N" and n: "n \<le> N"
  shows "\<exists>X' v. foldl (\<lambda>s i. ROUND_16 S0 S1 s0 s1 K i (sha2_rows ! (i mod 8)) s) (X, v1) [16..<16 + n] = (X', v) \<and>
    ring (16 + n) W X' \<and> length v = 8 \<and>
    sha2_view (16 + n) v = foldl (\<lambda>s t. fips_sha2_round S0 S1 (K ! t) (W ! t) s) (sha2_view 16 v1) [16..<16 + n]"
  using n
proof (induction n)
  case 0
  show ?case using X v1 by (simp add: W ring_start)
next
  case (Suc n)
  define t where "t = 16 + n"
  obtain X' v where f: "foldl (\<lambda>s i. ROUND_16 S0 S1 s0 s1 K i (sha2_rows ! (i mod 8)) s) (X, v1) [16..<t] = (X', v)"
    and r: "ring t W X'" and v: "length v = 8"
    and e: "sha2_view t v = foldl (\<lambda>s t. fips_sha2_round S0 S1 (K ! t) (W ! t) s) (sha2_view 16 v1) [16..<t]"
    using Suc.IH [OF Suc_leD [OF Suc.prems]] unfolding t_def by blast
  have t: "16 \<le> t" "t < 16 + N" "t \<ge> 15" "t \<ge> 7" "t \<ge> 2" using Suc.prems by (simp_all add: t_def)
  have Wt: "W ! t = s1 (W ! (t - 2)) + W ! (t - 7) + s0 (W ! (t - 15)) + W ! (t - 16)"
    using schedule_nth_step [of X t N "fips_sha2_step s0 s1"] t X by (simp add: W fips_sha2_step_def Let_def)
  have idx: "t + 1 - 16 = t - 15" "t + 9 - 16 = t - 7" "t + 14 - 16 = t - 2" by simp_all
  have "X' ! (t mod 16) = W ! (t - 16)" "X' ! ((t + 1) mod 16) = W ! (t - 15)"
      "X' ! ((t + 9) mod 16) = W ! (t - 7)" "X' ! ((t + 14) mod 16) = W ! (t - 2)"
    using ring_nth [OF r, of 0] ring_nth [OF r, of 1] ring_nth [OF r, of 9] ring_nth [OF r, of 14] idx
    by simp_all
  then have "ROUND_16 S0 S1 s0 s1 K t (sha2_rows ! (t mod 8)) (X', v) =
      (X'[t mod 16 := W ! t], ROUND_00_15 S0 S1 K t (W ! t) (sha2_rows ! (t mod 8)) v)"
    by (simp add: ROUND_16_def Let_def Wt ac_simps)
  then have "foldl (\<lambda>s i. ROUND_16 S0 S1 s0 s1 K i (sha2_rows ! (i mod 8)) s) (X, v1) [16..<Suc t] =
      (X'[t mod 16 := W ! t], ROUND_00_15 S0 S1 K t (W ! t) (sha2_rows ! (t mod 8)) v)"
    using f t(1) by simp
  moreover have "ring (Suc t) W (X'[t mod 16 := W ! t])" using ring_next [OF r t(1)] .
  moreover have "sha2_view (Suc t) (ROUND_00_15 S0 S1 K t (W ! t) (sha2_rows ! (t mod 8)) v) =
      foldl (\<lambda>s t. fips_sha2_round S0 S1 (K ! t) (W ! t) s) (sha2_view 16 v1) [16..<Suc t]"
    using sha2_view_round(1) [OF v] e t(1) by simp
  ultimately show ?case using sha2_view_round(2) [OF v] unfolding t_def by fastforce
qed

theorem sha2_block_fips:
  assumes "length H = 8" and "length X = 16" and "16 \<le> rounds" and "rounds mod 8 = 0"
  shows "sha2_block rounds S0 S1 s0 s1 K H X = fips_sha2 rounds S0 S1 s0 s1 K H X"
proof -
  define N where "N = rounds - 16"
  have N: "rounds = 16 + N" using assms(3) by (simp add: N_def)
  define W where "W = schedule (fips_sha2_step s0 s1) X N"
  define v1 where "v1 = foldl (\<lambda>v i. ROUND_00_15 S0 S1 K i (X ! i) (sha2_rows ! (i mod 8)) v) H [0..<16]"
  have v1: "length v1 = 8" "sha2_view 16 v1 = foldl (\<lambda>s t. fips_sha2_round S0 S1 (K ! t) (X ! t) s) H [0..<16]"
    using sha2_rounds_first [OF assms(1) refl, where n = 16] unfolding v1_def by blast+
  have "sha2_view 16 v1 = foldl (\<lambda>s t. fips_sha2_round S0 S1 (K ! t) (W ! t) s) H [0..<16]"
    unfolding v1 by (rule foldl_cong) (simp_all add: W_def schedule_nth_less assms(2))
  moreover obtain X' v where f:
    "foldl (\<lambda>s i. ROUND_16 S0 S1 s0 s1 K i (sha2_rows ! (i mod 8)) s) (X, v1) [16..<rounds] = (X', v)"
    and v: "length v = 8" and e: "sha2_view rounds v =
      foldl (\<lambda>s t. fips_sha2_round S0 S1 (K ! t) (W ! t) s) (sha2_view 16 v1) [16..<rounds]"
    using sha2_rounds_rest [OF assms(2) v1(1) W_def order_refl] unfolding N by metis
  moreover have "[0..<rounds] = [0..<16] @ [16..<rounds]" using N by (metis le0 upt_add_eq_append)
  ultimately have "v = foldl (\<lambda>s t. fips_sha2_round S0 S1 (K ! t) (W ! t) s) H [0..<rounds]"
    using sha2_view_start [OF v assms(4)] by simp
  then show ?thesis using f by (simp add: sha2_block_def fips_sha2_def Let_def flip: v1_def W_def N_def)
qed


text \<open>The words of a block.\<close>

definition be_words :: "nat \<Rightarrow> bytes \<Rightarrow> 'w::len word list" where
  "be_words k xs = map (\<lambda>i. be_word (take k (drop (i * k) xs))) [0..<16]"

definition le_words :: "nat \<Rightarrow> bytes \<Rightarrow> 'w::len word list" where
  "le_words k xs = map (\<lambda>i. le_word (take k (drop (i * k) xs))) [0..<16]"

lemma length_be_words [simp]: "length (be_words k xs) = 16"
  by (simp add: be_words_def)

lemma list4: "length v = 4 \<Longrightarrow> \<exists>a b c d. v = [a, b, c, d]"
  by (auto simp: numeral_eq_Suc length_Suc_conv)

lemma HOST_c2l_be_word:
  assumes "length bs = 4"
  shows "HOST_c2l_big bs = be_word bs"
proof -
  obtain a b c d where "bs = [a, b, c, d]" using list4 [OF assms] by blast
  then show ?thesis
    by (simp add: HOST_c2l_big_def be_word_def push_bit_or or.commute or.left_commute)
qed

lemma HOST_c2l_le_word:
  assumes "length bs = 4"
  shows "HOST_c2l_little bs = le_word bs"
proof -
  obtain a b c d where "bs = [a, b, c, d]" using list4 [OF assms] by blast
  then show ?thesis
    by (simp add: HOST_c2l_little_def push_bit_or or.assoc)
qed

lemma words_big_be_words: "length xs = 64 \<Longrightarrow> words_big xs = be_words 4 xs"
  by (auto simp: words_big_def be_words_def HOST_c2l_be_word mult.commute simp del: upt_rec_numeral)

lemma words_little_le_words: "length xs = 64 \<Longrightarrow> words_little xs = le_words 4 xs"
  by (auto simp: words_little_def le_words_def HOST_c2l_le_word mult.commute simp del: upt_rec_numeral)

lemma load_u64_be_words:
  assumes "length xs = 128"
  shows "map (\<lambda>i. load_u64_be (drop (i * 8) xs)) [0..<16] = be_words 8 xs"
proof -
  have "load_u64_be (drop (i * 8) xs) = be_word (take 8 (drop (i * 8) xs))" if "i < 16" for i
    using CRYPTO_bswap8_be_word [of "rev (take 8 (drop (i * 8) xs))"] that assms
    by (simp add: load_u64_be_def be_word_def)
  then show ?thesis by (simp add: be_words_def del: upt_rec_numeral)
qed

text \<open>The four functions of each size, as rotations to the right.\<close>

definition fips_sha256_block :: "u32 hash_block" where
  "fips_sha256_block H xs = fips_sha2 64
     (\<lambda>x. word_rotr 2 x XOR word_rotr 13 x XOR word_rotr 22 x)
     (\<lambda>x. word_rotr 6 x XOR word_rotr 11 x XOR word_rotr 25 x)
     (\<lambda>x. word_rotr 7 x XOR word_rotr 18 x XOR drop_bit 3 x)
     (\<lambda>x. word_rotr 17 x XOR word_rotr 19 x XOR drop_bit 10 x) K256 H (be_words 4 xs)"

definition fips_sha512_block :: "u64 hash_block" where
  "fips_sha512_block H xs = fips_sha2 80
     (\<lambda>x. word_rotr 28 x XOR word_rotr 34 x XOR word_rotr 39 x)
     (\<lambda>x. word_rotr 14 x XOR word_rotr 18 x XOR word_rotr 41 x)
     (\<lambda>x. word_rotr 1 x XOR word_rotr 8 x XOR drop_bit 7 x)
     (\<lambda>x. word_rotr 19 x XOR word_rotr 61 x XOR drop_bit 6 x) K512 H (be_words 8 xs)"

lemma sha256_block_fips:
  assumes "length H = 8" and "length xs = 64"
  shows "sha256_block H xs = fips_sha256_block H xs"
proof -
  have "Sigma0_256 = (\<lambda>x. word_rotr 2 x XOR word_rotr 13 x XOR word_rotr 22 x)"
    "Sigma1_256 = (\<lambda>x. word_rotr 6 x XOR word_rotr 11 x XOR word_rotr 25 x)"
    "sigma0_256 = (\<lambda>x. word_rotr 7 x XOR word_rotr 18 x XOR drop_bit 3 x)"
    "sigma1_256 = (\<lambda>x. word_rotr 17 x XOR word_rotr 19 x XOR drop_bit 10 x)"
    by (rule ext, simp add: Sigma0_256_def Sigma1_256_def sigma0_256_def sigma1_256_def ROTATE_rotr)+
  then show ?thesis
    using assms by (simp add: sha256_block_def fips_sha256_block_def sha2_block_fips words_big_be_words)
qed

lemma sha512_block_fips:
  assumes "length H = 8" and "length xs = 128"
  shows "sha512_block H xs = fips_sha512_block H xs"
proof -
  have "Sigma0_512 = (\<lambda>x. word_rotr 28 x XOR word_rotr 34 x XOR word_rotr 39 x)"
    "Sigma1_512 = (\<lambda>x. word_rotr 14 x XOR word_rotr 18 x XOR word_rotr 41 x)"
    "sigma0_512 = (\<lambda>x. word_rotr 1 x XOR word_rotr 8 x XOR drop_bit 7 x)"
    "sigma1_512 = (\<lambda>x. word_rotr 19 x XOR word_rotr 61 x XOR drop_bit 6 x)"
    by (rule ext, simp add: Sigma0_512_def Sigma1_512_def sigma0_512_def sigma1_512_def ROTR_rotr)+
  then show ?thesis
    using assms
    by (simp add: sha512_block_def fips_sha512_block_def sha2_block_fips load_u64_be_words)
qed

subsection \<open>SHA-1\<close>

text \<open>FIPS 180-4, 6.1.2.\<close>

definition fips_sha1_f :: "nat \<Rightarrow> u32 \<Rightarrow> u32 \<Rightarrow> u32 \<Rightarrow> u32" where
  "fips_sha1_f t x y z =
     (if t < 20 then (x AND y) XOR (NOT x AND z)
      else if 40 \<le> t \<and> t < 60 then (x AND y) XOR (x AND z) XOR (y AND z)
      else x XOR y XOR z)"

definition fips_sha1_round :: "nat \<Rightarrow> u32 \<Rightarrow> u32 list \<Rightarrow> u32 list" where
  "fips_sha1_round t w s =
     [word_rotl 5 (s ! 0) + fips_sha1_f t (s ! 1) (s ! 2) (s ! 3) + s ! 4 + sha1_K t + w,
      s ! 0, word_rotl 30 (s ! 1), s ! 2, s ! 3]"

definition fips_sha1_step :: "u32 list \<Rightarrow> u32" where
  "fips_sha1_step W =
     (let t = length W in word_rotl 1 (W ! (t - 3) XOR W ! (t - 8) XOR W ! (t - 14) XOR W ! (t - 16)))"

definition fips_sha1_block :: "u32 hash_block" where
  "fips_sha1_block H xs =
     (let W = schedule fips_sha1_step (be_words 4 xs) (80 - 16)
      in map2 (+) H (foldl (\<lambda>s t. fips_sha1_round t (W ! t) s) H [0..<80]))"

lemma ROTATE_rotl: "0 < n \<Longrightarrow> n < 32 \<Longrightarrow> ROTATE a n = word_rotl n a"
  by (simp add: ROTATE_rotr word_rotl_eq_word_rotr)

lemma sha1_F_fips: "sha1_F t x y z = fips_sha1_f t x y z"
  by (rule bit_word_eqI)
    (auto simp: sha1_F_def fips_sha1_f_def F_00_19_def F_20_39_def F_40_59_def F_60_79_def bit_simps)

definition sha1_view :: "nat \<Rightarrow> u32 list \<Rightarrow> u32 list" where
  "sha1_view t v = map (\<lambda>j. v ! (sha1_rows ! (t mod 6) ! j)) [0..<5]"

lemma list6: "length v = 6 \<Longrightarrow> \<exists>a b c d e f. v = [a, b, c, d, e, f]"
  by (auto simp: numeral_eq_Suc length_Suc_conv)

lemma mod6_cases:
  fixes t :: nat
  obtains "t mod 6 = 0" | "t mod 6 = 1" | "t mod 6 = 2" | "t mod 6 = 3" | "t mod 6 = 4" | "t mod 6 = 5"
proof -
  have "k = 0 \<or> k = 1 \<or> k = 2 \<or> k = 3 \<or> k = 4 \<or> k = 5" if "k < 6" for k :: nat
    using that by linarith
  from this [of "t mod 6"] show ?thesis using that by simp metis
qed

lemma upt_5: "[0..<5] = [0, 1, 2, 3, 4 :: nat]"
  by (simp add: upt_rec)

lemma sha1_view_round:
  assumes "length v = 6"
  shows "sha1_view (Suc t) (sha1_BODY t (sha1_rows ! (t mod 6)) w v) = fips_sha1_round t w (sha1_view t v)"
    and "length (sha1_BODY t (sha1_rows ! (t mod 6)) w v) = 6"
proof -
  obtain a b c d e f where v: "v = [a, b, c, d, e, f]" using list6 [OF assms] by blast
  show "sha1_view (Suc t) (sha1_BODY t (sha1_rows ! (t mod 6)) w v) = fips_sha1_round t w (sha1_view t v)"
    by (cases rule: mod6_cases [of t])
      (simp_all add: v mod_Suc sha1_view_def sha1_rows_def sha1_BODY_def fips_sha1_round_def Let_def
        upt_5 ROTATE_rotl sha1_F_fips ac_simps)
  show "length (sha1_BODY t (sha1_rows ! (t mod 6)) w v) = 6"
    using assms by (simp add: sha1_BODY_def Let_def)
qed


lemma sha1_rounds_first:
  assumes "length v0 = 6"
    and v_def: "\<And>n. v n = foldl (\<lambda>v i. sha1_BODY i (sha1_rows ! (i mod 6)) (X ! i) v) v0 [0..<n]"
  shows "length (v n) = 6 \<and>
    sha1_view n (v n) = foldl (\<lambda>s t. fips_sha1_round t (X ! t) s) (sha1_view 0 v0) [0..<n]"
proof (induction n)
  case (Suc n)
  have "v (Suc n) = sha1_BODY n (sha1_rows ! (n mod 6)) (X ! n) (v n)" by (simp add: v_def)
  then show ?case using Suc.IH sha1_view_round [where v = "v n" and t = n] by simp
qed (simp add: v_def assms(1))

lemma sha1_rounds_rest:
  assumes X: "length X = 16" and v1: "length v1 = 6"
    and W: "W = schedule fips_sha1_step X N" and n: "n \<le> N"
  shows "\<exists>X' v. foldl (\<lambda>s i. sha1_BODY_X i (sha1_rows ! (i mod 6)) s) (X, v1) [16..<16 + n] = (X', v) \<and>
    ring (16 + n) W X' \<and> length v = 6 \<and>
    sha1_view (16 + n) v = foldl (\<lambda>s t. fips_sha1_round t (W ! t) s) (sha1_view 16 v1) [16..<16 + n]"
  using n
proof (induction n)
  case 0
  show ?case using X v1 by (simp add: W ring_start)
next
  case (Suc n)
  define t where "t = 16 + n"
  obtain X' v where f: "foldl (\<lambda>s i. sha1_BODY_X i (sha1_rows ! (i mod 6)) s) (X, v1) [16..<t] = (X', v)"
    and r: "ring t W X'" and v: "length v = 6"
    and e: "sha1_view t v = foldl (\<lambda>s t. fips_sha1_round t (W ! t) s) (sha1_view 16 v1) [16..<t]"
    using Suc.IH [OF Suc_leD [OF Suc.prems]] unfolding t_def by blast
  have t: "16 \<le> t" "t < 16 + N" using Suc.prems by (simp_all add: t_def)
  have Wt: "W ! t = word_rotl 1 (W ! (t - 3) XOR W ! (t - 8) XOR W ! (t - 14) XOR W ! (t - 16))"
    using schedule_nth_step [of X t N fips_sha1_step] t X by (simp add: W fips_sha1_step_def Let_def)
  have idx: "t + 2 - 16 = t - 14" "t + 8 - 16 = t - 8" "t + 13 - 16 = t - 3" by simp_all
  have "X' ! (t mod 16) = W ! (t - 16)" "X' ! ((t + 2) mod 16) = W ! (t - 14)"
      "X' ! ((t + 8) mod 16) = W ! (t - 8)" "X' ! ((t + 13) mod 16) = W ! (t - 3)"
    using ring_nth [OF r, of 0] ring_nth [OF r, of 2] ring_nth [OF r, of 8] ring_nth [OF r, of 13] idx
    by simp_all
  then have "sha1_BODY_X t (sha1_rows ! (t mod 6)) (X', v) =
      (X'[t mod 16 := W ! t], sha1_BODY t (sha1_rows ! (t mod 6)) (W ! t) v)"
    by (simp add: sha1_BODY_X_def sha1_Xupdate_def ROTATE_rotl Let_def Wt xor.assoc xor.commute xor.left_commute)
  then have "foldl (\<lambda>s i. sha1_BODY_X i (sha1_rows ! (i mod 6)) s) (X, v1) [16..<Suc t] =
      (X'[t mod 16 := W ! t], sha1_BODY t (sha1_rows ! (t mod 6)) (W ! t) v)"
    using f t(1) by simp
  moreover have "ring (Suc t) W (X'[t mod 16 := W ! t])" using ring_next [OF r t(1)] .
  moreover have "sha1_view (Suc t) (sha1_BODY t (sha1_rows ! (t mod 6)) (W ! t) v) =
      foldl (\<lambda>s t. fips_sha1_round t (W ! t) s) (sha1_view 16 v1) [16..<Suc t]"
    using sha1_view_round(1) [OF v] e t(1) by simp
  ultimately show ?case using sha1_view_round(2) [OF v] unfolding t_def by fastforce
qed

lemma sha1_block_fips:
  assumes "length H = 5" and "length xs = 64"
  shows "sha1_block H xs = fips_sha1_block H xs"
proof -
  define X where "X = (be_words 4 xs :: u32 list)"
  define W where "W = schedule fips_sha1_step X (80 - 16)"
  define v1 where "v1 = foldl (\<lambda>v i. sha1_BODY i (sha1_rows ! (i mod 6)) (X ! i) v) (H @ [0]) [0..<16]"
  have X: "length X = 16" by (simp add: X_def)
  obtain a b c d e where H: "H = [a, b, c, d, e]"
    using assms(1) by (auto simp: numeral_eq_Suc length_Suc_conv)
  have v0: "sha1_view 0 (H @ [0]) = H" by (simp add: H sha1_view_def sha1_rows_def upt_5)
  have v1: "length v1 = 6" "sha1_view 16 v1 = foldl (\<lambda>s t. fips_sha1_round t (X ! t) s) H [0..<16]"
    using sha1_rounds_first [of "H @ [0]" _ X 16, OF _ refl] assms(1) v0
    unfolding v1_def by (simp_all del: upt_rec_numeral)
  have "sha1_view 16 v1 = foldl (\<lambda>s t. fips_sha1_round t (W ! t) s) H [0..<16]"
    unfolding v1 by (rule foldl_cong) (simp_all add: W_def schedule_nth_less X del: upt_rec_numeral)
  moreover obtain X' v where f: "foldl (\<lambda>s i. sha1_BODY_X i (sha1_rows ! (i mod 6)) s) (X, v1) [16..<80] = (X', v)"
    and v: "length v = 6" and e: "sha1_view 80 v =
      foldl (\<lambda>s t. fips_sha1_round t (W ! t) s) (sha1_view 16 v1) [16..<80]"
    using sha1_rounds_rest [OF X v1(1) W_def order_refl]
    by (auto simp del: upt_rec_numeral foldl_Cons)
  moreover have "[0..<80] = [0..<16] @ [16..<80 :: nat]" 
    using upt_add_eq_append [of 0 16 64] by (simp del: upt_rec_numeral)
  ultimately have "sha1_view 80 v = foldl (\<lambda>s t. fips_sha1_round t (W ! t) s) H [0..<80]"
    by (simp del: upt_rec_numeral)
  moreover have "sha1_view 80 v = [v ! 4, v ! 5, v ! 0, v ! 1, v ! 2]"
    by (simp add: sha1_view_def sha1_rows_def upt_5)
  ultimately have e: "[v ! 4, v ! 5, v ! 0, v ! 1, v ! 2] =
      foldl (\<lambda>s t. fips_sha1_round t (W ! t) s) H [0..<80]" by simp
  show ?thesis
    unfolding sha1_block_def fips_sha1_block_def Let_def words_big_be_words [OF assms(2)] X_def [symmetric] W_def [symmetric]
      v1_def [symmetric] f e [symmetric] by (simp add: H)
qed


subsection \<open>MD5\<close>

text \<open>RFC 1321, 3.4: \<open>a = b + ((a + f(b,c,d) + X[k] + T[i]) <<< s)\<close> with the variables rotated from
  step to step.  The constants \<open>T\<close> are those of the table, the words and rotations are given by
  their rules.\<close>

definition rfc1321_f :: "nat \<Rightarrow> u32 \<Rightarrow> u32 \<Rightarrow> u32 \<Rightarrow> u32" where
  "rfc1321_f t x y z =
     (if t < 16 then (x AND y) OR (NOT x AND z)
      else if t < 32 then (x AND z) OR (y AND NOT z)
      else if t < 48 then x XOR y XOR z
      else y XOR (x OR NOT z))"

definition rfc1321_k :: "nat \<Rightarrow> nat" where
  "rfc1321_k t =
     (if t < 16 then t else if t < 32 then (5 * t + 1) mod 16 else if t < 48 then (3 * t + 5) mod 16
      else 7 * t mod 16)"

definition rfc1321_s :: "nat \<Rightarrow> nat" where
  "rfc1321_s t =
     [[7, 12, 17, 22], [5, 9, 14, 20], [4, 11, 16, 23], [6, 10, 15, 21]] ! (t div 16) ! (t mod 4)"

definition rfc1321_round :: "u32 list \<Rightarrow> nat \<Rightarrow> u32 list \<Rightarrow> u32 list" where
  "rfc1321_round X t s =
     [s ! 3,
      s ! 1 + word_rotl (rfc1321_s t)
        (s ! 0 + rfc1321_f t (s ! 1) (s ! 2) (s ! 3) + X ! rfc1321_k t + snd (snd (md5_table ! t))),
      s ! 1, s ! 2]"

definition rfc1321_block :: "u32 hash_block" where
  "rfc1321_block H xs = map2 (+) H (foldl (\<lambda>s t. rfc1321_round (le_words 4 xs) t s) H [0..<64])"

lemma md5_table_rules:
  "\<forall>t<64. fst (md5_table ! t) = rfc1321_k t \<and> fst (snd (md5_table ! t)) = rfc1321_s t \<and>
     0 < rfc1321_s t \<and> rfc1321_s t < 32"
  by code_simp

lemma md5_functions:
  assumes "t < 64"
  shows "([md5_F, md5_G, md5_H, md5_I] ! (t div 16)) x y z = rfc1321_f t x y z"
proof -
  consider "t < 16" | "16 \<le> t" "t < 32" | "32 \<le> t" "t < 48" | "48 \<le> t" by linarith
  then show ?thesis
  proof cases
    case 1
    then have "t div 16 = 0" by simp
    then show ?thesis using 1
      by (auto intro!: bit_word_eqI simp: md5_F_def rfc1321_f_def bit_simps)
  next
    case 2
    then have "t div 16 = 1" by simp
    then show ?thesis using 2
      by (auto intro!: bit_word_eqI simp: md5_G_def rfc1321_f_def bit_simps)
  next
    case 3
    then have "t div 16 = 2" by simp
    then show ?thesis using 3 by (simp add: md5_H_def rfc1321_f_def)
  next
    case 4
    then have "t div 16 = 3" using assms by simp
    then show ?thesis using 4
      by (auto intro!: bit_word_eqI simp: md5_I_def rfc1321_f_def bit_simps)
  qed
qed

definition md5_view :: "nat \<Rightarrow> u32 list \<Rightarrow> u32 list" where
  "md5_view t v = map (\<lambda>r. v ! r) (md5_rows ! (t mod 4))"

lemma mod4_cases:
  fixes t :: nat
  obtains "t mod 4 = 0" | "t mod 4 = 1" | "t mod 4 = 2" | "t mod 4 = 3"
proof -
  have "k = 0 \<or> k = 1 \<or> k = 2 \<or> k = 3" if "k < 4" for k :: nat using that by linarith
  from this [of "t mod 4"] show ?thesis using that by simp metis
qed

lemma md5_view_round:
  assumes "length v = 4" and t: "t < 64"
    and v'_def: "v' = (case md5_table ! t of (k, s, c) \<Rightarrow>
      md5_R ([md5_F, md5_G, md5_H, md5_I] ! (t div 16)) (md5_rows ! (t mod 4)) (X ! k) s c v)"
  shows "md5_view (Suc t) v' = rfc1321_round X t (md5_view t v)" and "length v' = 4"
proof -
  obtain a b c d where v: "v = [a, b, c, d]" using assms(1) by (auto simp: numeral_eq_Suc length_Suc_conv)
  have f: "[md5_F, md5_G, md5_H, md5_I] ! (t div 16) = rfc1321_f t" using md5_functions [OF t] by blast
  obtain k s c' where tab: "md5_table ! t = (k, s, c')" by (metis prod_cases3)
  have r: "k = rfc1321_k t" "s = rfc1321_s t" "ROTATE y s = word_rotl s y" for y
    using md5_table_rules t tab ROTATE_rotl by fastforce+
  show "md5_view (Suc t) v' = rfc1321_round X t (md5_view t v)"
    by (cases rule: mod4_cases [of t])
      (simp_all add: v'_def f tab r(3) v mod_Suc md5_view_def md5_rows_def md5_R_def rfc1321_round_def
        Let_def ac_simps flip: r(1,2))
  show "length v' = 4" using assms(1) by (simp add: v'_def tab md5_R_def Let_def)
qed

lemma md5_rounds:
  assumes "length H = 4" and "n \<le> 64"
    and v_def: "\<And>n. v n = foldl (\<lambda>v i. case md5_table ! i of (k, s, t) \<Rightarrow>
        md5_R ([md5_F, md5_G, md5_H, md5_I] ! (i div 16)) (md5_rows ! (i mod 4)) (X ! k) s t v) H [0..<n]"
  shows "length (v n) = 4 \<and> md5_view n (v n) = foldl (\<lambda>s t. rfc1321_round X t s) H [0..<n]"
  using assms(2)
proof (induction n)
  case 0
  obtain a b c d where "H = [a, b, c, d]" using assms(1) by (auto simp: numeral_eq_Suc length_Suc_conv)
  then show ?case by (simp add: v_def md5_view_def md5_rows_def)
next
  case (Suc n)
  have "v (Suc n) = (case md5_table ! n of (k, s, t) \<Rightarrow>
      md5_R ([md5_F, md5_G, md5_H, md5_I] ! (n div 16)) (md5_rows ! (n mod 4)) (X ! k) s t (v n))"
    by (simp add: v_def)
  moreover have "n < 64" "length (v n) = 4" using Suc by simp_all
  ultimately show ?case using Suc md5_view_round [OF _ _ refl, of "v n" n X] by simp
qed

lemma md5_block_rfc1321:
  assumes "length H = 4" and "length xs = 64"
  shows "md5_block H xs = rfc1321_block H xs"
proof -
  define v where "v = foldl (\<lambda>v i. case md5_table ! i of (k, s, t) \<Rightarrow>
      md5_R ([md5_F, md5_G, md5_H, md5_I] ! (i div 16)) (md5_rows ! (i mod 4)) (le_words 4 xs ! k) s t v)
      H [0..<64]"
  have "length v = 4" "md5_view 64 v = foldl (\<lambda>s t. rfc1321_round (le_words 4 xs) t s) H [0..<64]"
    using md5_rounds [OF assms(1) order_refl refl, of "le_words 4 xs"] unfolding v_def by blast+
  moreover obtain a b c d where "v = [a, b, c, d]"
    using \<open>length v = 4\<close> by (auto simp: numeral_eq_Suc length_Suc_conv)
  then have "md5_view 64 v = v" by (simp add: md5_view_def md5_rows_def)
  ultimately show ?thesis
    unfolding md5_block_def rfc1321_block_def words_little_le_words [OF assms(2)] Let_def v_def [symmetric] by simp
qed

subsection \<open>MD4\<close>

text \<open>RFC 1320, 3.4: \<open>a = (a + f(b,c,d) + X[k] + constant) <<< s\<close>.\<close>

definition rfc1320_f :: "nat \<Rightarrow> u32 \<Rightarrow> u32 \<Rightarrow> u32 \<Rightarrow> u32" where
  "rfc1320_f t x y z =
     (if t < 16 then (x AND y) OR (NOT x AND z)
      else if t < 32 then (x AND y) OR (x AND z) OR (y AND z)
      else x XOR y XOR z)"

text \<open>The words of the third round are in the order of the bits of their number read backwards.\<close>

definition rfc1320_k :: "nat \<Rightarrow> nat" where
  "rfc1320_k t =
     (if t < 16 then t else if t < 32 then 4 * (t mod 4) + (t - 16) div 4
      else 8 * (t mod 2) + 4 * (t div 2 mod 2) + 2 * (t div 4 mod 2) + t div 8 mod 2)"

definition rfc1320_s :: "nat \<Rightarrow> nat" where
  "rfc1320_s t = [[3, 7, 11, 19], [3, 5, 9, 13], [3, 9, 11, 15]] ! (t div 16) ! (t mod 4)"

definition rfc1320_T :: "nat \<Rightarrow> u32" where
  "rfc1320_T t = [0, 0x5A827999, 0x6ED9EBA1] ! (t div 16)"

definition rfc1320_round :: "u32 list \<Rightarrow> nat \<Rightarrow> u32 list \<Rightarrow> u32 list" where
  "rfc1320_round X t s =
     [s ! 3,
      word_rotl (rfc1320_s t) (s ! 0 + rfc1320_f t (s ! 1) (s ! 2) (s ! 3) + X ! rfc1320_k t + rfc1320_T t),
      s ! 1, s ! 2]"

definition rfc1320_block :: "u32 hash_block" where
  "rfc1320_block H xs = map2 (+) H (foldl (\<lambda>s t. rfc1320_round (le_words 4 xs) t s) H [0..<48])"

lemma md4_table_rules:
  "\<forall>t<48. md4_table ! t = (rfc1320_k t, rfc1320_s t, rfc1320_T t) \<and> 0 < rfc1320_s t \<and> rfc1320_s t < 32"
  by code_simp

lemma md4_functions:
  assumes "t < 48"
  shows "([md4_F, md4_G, md4_H] ! (t div 16)) x y z = rfc1320_f t x y z"
proof -
  consider "t < 16" | "16 \<le> t" "t < 32" | "32 \<le> t" by linarith
  then show ?thesis
  proof cases
    case 1
    then have "t div 16 = 0" by simp
    then show ?thesis using 1
      by (auto intro!: bit_word_eqI simp: md4_F_def rfc1320_f_def bit_simps)
  next
    case 2
    then have "t div 16 = 1" by simp
    then show ?thesis using 2 by (simp add: md4_G_def rfc1320_f_def or.assoc)
  next
    case 3
    then have "t div 16 = 2" using assms by simp
    then show ?thesis using 3 by (simp add: md4_H_def rfc1320_f_def)
  qed
qed

lemma md4_view_round:
  assumes "length v = 4" and t: "t < 48"
    and v'_def: "v' = (case md4_table ! t of (k, s, c) \<Rightarrow>
      md4_R ([md4_F, md4_G, md4_H] ! (t div 16)) (md5_rows ! (t mod 4)) (X ! k) s c v)"
  shows "md5_view (Suc t) v' = rfc1320_round X t (md5_view t v)" and "length v' = 4"
proof -
  obtain a b c d where v: "v = [a, b, c, d]" using list4 [OF assms(1)] by blast
  have f: "[md4_F, md4_G, md4_H] ! (t div 16) = rfc1320_f t" using md4_functions [OF t] by blast
  have tab: "md4_table ! t = (rfc1320_k t, rfc1320_s t, rfc1320_T t)" using md4_table_rules t by blast
  have r: "ROTATE y (rfc1320_s t) = word_rotl (rfc1320_s t) y" for y using md4_table_rules t ROTATE_rotl by blast
  show "md5_view (Suc t) v' = rfc1320_round X t (md5_view t v)"
    by (cases rule: mod4_cases [of t])
      (simp_all add: v'_def f tab r v mod_Suc md5_view_def md5_rows_def md4_R_def rfc1320_round_def Let_def ac_simps)
  show "length v' = 4" using assms(1) by (simp add: v'_def tab md4_R_def Let_def)
qed

lemma md4_rounds:
  assumes "length H = 4" and "n \<le> 48"
    and v_def: "\<And>n. v n = foldl (\<lambda>v i. case md4_table ! i of (k, s, t) \<Rightarrow>
        md4_R ([md4_F, md4_G, md4_H] ! (i div 16)) (md5_rows ! (i mod 4)) (X ! k) s t v) H [0..<n]"
  shows "length (v n) = 4 \<and> md5_view n (v n) = foldl (\<lambda>s t. rfc1320_round X t s) H [0..<n]"
  using assms(2)
proof (induction n)
  case 0
  show ?case using list4 [OF assms(1)] by (auto simp: v_def md5_view_def md5_rows_def)
next
  case (Suc n)
  have "v (Suc n) = (case md4_table ! n of (k, s, t) \<Rightarrow>
      md4_R ([md4_F, md4_G, md4_H] ! (n div 16)) (md5_rows ! (n mod 4)) (X ! k) s t (v n))"
    by (simp add: v_def)
  moreover have "n < 48" "length (v n) = 4" using Suc by simp_all
  ultimately show ?case using Suc md4_view_round [OF _ _ refl, of "v n" n X] by simp
qed

lemma md4_block_rfc1320:
  assumes "length H = 4" and "length xs = 64"
  shows "md4_block H xs = rfc1320_block H xs"
proof -
  define v where "v = foldl (\<lambda>v i. case md4_table ! i of (k, s, t) \<Rightarrow>
      md4_R ([md4_F, md4_G, md4_H] ! (i div 16)) (md5_rows ! (i mod 4)) (le_words 4 xs ! k) s t v) H [0..<48]"
  have "length v = 4" "md5_view 48 v = foldl (\<lambda>s t. rfc1320_round (le_words 4 xs) t s) H [0..<48]"
    using md4_rounds [OF assms(1) order_refl refl, of "le_words 4 xs"] unfolding v_def by blast+
  moreover have "md5_view 48 v = v" using list4 [OF \<open>length v = 4\<close>] by (auto simp: md5_view_def md5_rows_def)
  ultimately show ?thesis
    unfolding md4_block_def rfc1320_block_def words_little_le_words [OF assms(2)] Let_def v_def [symmetric] by simp
qed

end
