(* ===== verification/HashSpec.thy ===== *)
theory HashSpec
  imports ShaSpec
begin

text \<open>
  The hash functions as a whole: whatever the way the input is cut into update calls, the digest is
  that of the standards, FIPS 180-4 for SHA-1 and SHA-2 and RFC 1321 for MD5.
\<close>

subsection \<open>The collector of SHA-512\<close>

lemma sha512_update_blocks_eq:
  "sha512_update_blocks c xs =
     (let n = length xs div 128;
          c1 = (if 0 < n then c\<lparr>chain := block_data_order sha512_block 128 (chain c) xs n\<rparr> else c);
          rest = drop (n * 128) xs
      in if rest \<noteq> [] then c1\<lparr>num := of_nat (length rest), data := put 0 rest (data c1)\<rparr> else c1)"
proof (cases "128 \<le> length xs")
  case True
  then have "length xs - length xs mod 128 = length xs div 128 * 128" "0 < length xs div 128"
    by (simp add: minus_mod_eq_div_mult, simp add: div_greater_zero_iff)
  then show ?thesis using True by (simp add: sha512_update_blocks_def Let_def)
next
  case False
  then show ?thesis by (simp add: sha512_update_blocks_def Let_def)
qed

lemma seen512_update:
  assumes s: "seen sha512_block 128 init c msg"
  shows "seen sha512_block 128 init (SHA512_Update c xs) (msg @ xs) \<and> md_len (SHA512_Update c xs) = md_len c"
proof (cases "xs = []")
  case True
  then show ?thesis using s by (simp add: SHA512_Update_def)
next
  case False
  define l where "l = Nl c + push_bit 3 (of_nat (length xs))"
  define c1 where "c1 = (if l < Nl c then c\<lparr>Nh := Nh c + 1\<rparr> else c)"
  define c2 where "c2 = c1\<lparr>Nh := Nh c1 + of_nat (length xs div 2 ^ 61), Nl := l\<rparr>"
  have b: "buffered sha512_block 128 init c2 msg" and k: "num c2 = num c" "data c2 = data c"
      "chain c2 = chain c" "md_len c2 = md_len c"
    using s by (simp_all add: seen_iff c2_def c1_def buffered_counters)
  have cb: "counted_bits c2 (length (msg @ xs))"
    unfolding length_append
    by (rule counted_bits_add [of c _ l]) (use s in \<open>simp_all add: seen_iff l_def c2_def c1_def\<close>)
  have ctr: "counted_bits c' (length (msg @ xs))" if "Nl c' = Nl c2" "Nh c' = Nh c2" for c'
    using cb that by (simp add: counted_bits_def)
  define m where "m = 128 - unat (num c2)"
  have n: "unat (num c2) < 128" using b by (simp add: buffered_def)
  have upd: "SHA512_Update c xs =
     (if num c2 \<noteq> 0 then
        if length xs < m then c2\<lparr>data := put (unat (num c2)) xs (data c2), num := num c2 + of_nat (length xs)\<rparr>
        else sha512_update_blocks (c2\<lparr>data := put (unat (num c2)) (take m xs) (data c2), num := 0,
              chain := block_data_order sha512_block 128 (chain c2) (put (unat (num c2)) (take m xs) (data c2)) 1\<rparr>)
            (drop m xs)
      else sha512_update_blocks c2 xs)"
    using False by (simp add: SHA512_Update_def Let_def c2_def c1_def l_def m_def)
  consider (start) "num c2 = 0" | (small) "num c2 \<noteq> 0" "length xs < m" | (fill) "num c2 \<noteq> 0" "m \<le> length xs"
    by linarith
  then show ?thesis
  proof cases
    case start
    then have "length msg mod 128 = 0" using b by (simp add: buffered_def)
    moreover have "chain c2 = block_data_order sha512_block 128 init msg (length msg div 128)"
        "length (data c2) = 128"
      using b by (simp_all add: buffered_def)
    ultimately show ?thesis
      using buffered_rest [where B = 128 and block = sha512_block, OF _ _ _ _ _ start sha512_update_blocks_eq] start upd ctr k
      by (simp add: seen_iff)
  next
    case small
    then have "unat (num c2) + length xs < 128" using n by (simp add: m_def)
    then show ?thesis using buffered_small [OF b, of xs] small upd ctr k by (simp add: seen_iff)
  next
    case fill
    define p where "p = put (unat (num c2)) (take m xs) (data c2)"
    define c3 where "c3 = c2\<lparr>data := p, num := 0, chain := block_data_order sha512_block 128 (chain c2) p 1\<rparr>"
    have "length p = 128"
      using b n fill(2) length_put [of "unat (num c2)" "take m xs" "data c2"] by (simp add: p_def m_def buffered_def)
    then have d: "length (data c3) = 128" "num c3 = 0" by (simp_all add: c3_def)
    have st: "chain c3 = block_data_order sha512_block 128 init (msg @ take m xs) (length (msg @ take m xs) div 128)"
      using buffered_fill(1) [OF b _ m_def fill(2)] by (simp add: c3_def p_def)
    have mod: "length (msg @ take m xs) mod 128 = 0" using buffered_fill(2) [OF b _ m_def fill(2)] by simp
    from buffered_rest [OF _ _ d(1) st mod d(2) sha512_update_blocks_eq, of "drop m xs"]
    have "buffered sha512_block 128 init (sha512_update_blocks c3 (drop m xs)) (msg @ xs) \<and>
        Nl (sha512_update_blocks c3 (drop m xs)) = Nl c3 \<and> Nh (sha512_update_blocks c3 (drop m xs)) = Nh c3 \<and>
        md_len (sha512_update_blocks c3 (drop m xs)) = md_len c3"
      by simp
    moreover have "SHA512_Update c xs = sha512_update_blocks c3 (drop m xs)"
      using upd fill by (simp add: c3_def p_def)
    ultimately show ?thesis using ctr k by (simp add: seen_iff c3_def)
  qed
qed

text \<open>The number of bits in two words, modulo \<open>2^128\<close>.\<close>

definition bit_length_field_512 :: "nat \<Rightarrow> bytes" where
  "bit_length_field_512 n = be64 (of_nat (8 * n div 2 ^ 64)) @ be64 (of_nat (8 * n))"


lemma seen512_final:
  assumes s: "seen sha512_block 128 init c msg"
  shows "chain (fst (SHA512_Final out_ok c)) = md_hash sha512_block 128 16 bit_length_field_512 init msg"
proof -
  let ?lf = bit_length_field_512
  have b: "buffered sha512_block 128 init c msg" and cb: "counted_bits c (length msg)"
    using s by (simp_all add: seen_iff)
  have lf: "length (?lf m) = 16" for m by (simp add: bit_length_field_512_def be64_def)
  have field: "be64 (Nh c) @ be64 (Nl c) = ?lf (length msg)"
    using counted_bits_words [OF cb] by (simp add: bit_length_field_512_def)
  note fin = final_blocks(1) [OF b _ lf refl refl refl]
  show ?thesis
  proof (cases "128 - 16 < unat (num c) + 1")
    case True
    show ?thesis
      using True fin [OF _ if_P [symmetric, OF True]] by (simp add: SHA512_Final_def Let_def field One_nat_def)
  next
    case False
    show ?thesis
      using False fin [OF _ if_not_P [symmetric, OF False]] by (simp add: SHA512_Final_def Let_def field One_nat_def)
  qed
qed

lemma seen512_output:
  "snd (SHA512_Final True c) =
     (if md_len c = 48 then Some (concat (map (\<lambda>i. be64 (chain (fst (SHA512_Final True c)) ! i)) [0..<6]))
      else if md_len c = 64 then Some (concat (map (\<lambda>i. be64 (chain (fst (SHA512_Final True c)) ! i)) [0..<8]))
      else None)"
  by (simp add: SHA512_Final_def Let_def comp_def split_def)

subsection \<open>Bytes of the length and of the digest\<close>

lemma le_bytes_add: "le_bytes (m + n) v = le_bytes m v @ le_bytes n (drop_bit (8 * m) v)"
  by (induction m v rule: le_bytes.induct) (simp_all add: add.commute)

lemma be_bytes_add: "be_bytes (m + n) v = be_bytes m (drop_bit (8 * n) v) @ be_bytes n v"
  using le_bytes_add [of n m v] by (simp add: be_bytes_def add.commute)

lemma HOST_l2c_big_be_bytes: "HOST_l2c_big l = be_bytes 4 l"
proof -
  have "be_bytes 4 l = rev (le_bytes (Suc (Suc (Suc (Suc 0)))) l)" by (simp add: be_bytes_def numeral_eq_Suc)
  then show ?thesis by (simp add: HOST_l2c_big_def and_0xFF_ucast)
qed

lemma HOST_l2c_little_le_bytes: "HOST_l2c_little l = le_bytes 4 l"
proof -
  have "le_bytes 4 l = le_bytes (Suc (Suc (Suc (Suc 0)))) l" by (simp add: numeral_eq_Suc)
  then show ?thesis by (simp add: HOST_l2c_little_def and_0xFF_ucast)
qed

lemma be64_be_bytes: "be64 t = be_bytes 8 t"
proof -
  have "be_bytes 8 t = rev (le_bytes (Suc (Suc (Suc (Suc (Suc (Suc (Suc (Suc 0)))))))) t)"
    by (simp add: be_bytes_def numeral_eq_Suc)
  then show ?thesis by (simp add: be64_def)
qed

lemma nth_le_bytes: "i < n \<Longrightarrow> le_bytes n v ! i = ucast (drop_bit (8 * i) v)"
proof (induction n v arbitrary: i rule: le_bytes.induct)
  case (2 n v)
  then show ?case by (cases i) (simp_all add: add.commute)
qed simp

lemma le_bytes_cong:
  fixes v :: "'h::len word" and w :: "'w::len word"
  assumes "\<And>j. j < 8 * n \<Longrightarrow> bit v j = bit w j"
  shows "le_bytes n v = le_bytes n w"
proof (rule nth_equalityI)
  fix i assume "i < length (le_bytes n v)"
  then have i: "i < n" by simp
  have "ucast (drop_bit (8 * i) v) = (ucast (drop_bit (8 * i) w) :: u8)"
    by (rule bit_word_eqI) (use assms i in \<open>auto simp: bit_simps\<close>)
  then show "le_bytes n v ! i = le_bytes n w ! i" using i by (simp add: nth_le_bytes)
qed simp

lemma bit_div_words:
  fixes m :: nat
  shows "bit (m div 4294967296) j = bit m (32 + j)" and "bit (m div 18446744073709551616) j = bit m (64 + j)"
  using bit_drop_bit_eq [of 32 m] bit_drop_bit_eq [of 64 m] by (simp_all add: drop_bit_eq_div comp_def)

text \<open>The two words of the number of bits are one number of twice the width.\<close>

lemma bit_length_field_be: "bit_length_field True HOST_l2c_big n = be_bytes 8 (of_nat (8 * n) :: u64)"
proof -
  define m where "m = 8 * n"
  have "le_bytes 4 (of_nat (m div 2 ^ 32) :: u32) = le_bytes 4 (drop_bit 32 (of_nat m :: u64))"
    by (rule le_bytes_cong) (auto simp: bit_simps bit_div_words)
  moreover have "le_bytes 4 (of_nat m :: u32) = le_bytes 4 (of_nat m :: u64)"
    by (rule le_bytes_cong) (auto simp: bit_simps)
  ultimately show ?thesis
    using be_bytes_add [of 4 4 "of_nat m :: u64"]
    by (simp add: bit_length_field_def Let_def HOST_l2c_big_be_bytes be_bytes_def flip: m_def)
qed

lemma bit_length_field_le: "bit_length_field False HOST_l2c_little n = le_bytes 8 (of_nat (8 * n) :: u64)"
proof -
  define m where "m = 8 * n"
  have "le_bytes 4 (of_nat (m div 2 ^ 32) :: u32) = le_bytes 4 (drop_bit 32 (of_nat m :: u64))"
    by (rule le_bytes_cong) (auto simp: bit_simps bit_div_words)
  moreover have "le_bytes 4 (of_nat m :: u32) = le_bytes 4 (of_nat m :: u64)"
    by (rule le_bytes_cong) (auto simp: bit_simps)
  ultimately show ?thesis
    using le_bytes_add [of 4 4 "of_nat m :: u64"]
    by (simp add: bit_length_field_def Let_def HOST_l2c_little_le_bytes flip: m_def)
qed

lemma bit_length_field_512_be: "bit_length_field_512 n = be_bytes 16 (of_nat (8 * n) :: 128 word)"
proof -
  define m where "m = 8 * n"
  have "le_bytes 8 (of_nat (m div 2 ^ 64) :: u64) = le_bytes 8 (drop_bit 64 (of_nat m :: 128 word))"
    by (rule le_bytes_cong) (auto simp: bit_simps bit_div_words)
  moreover have "le_bytes 8 (of_nat m :: u64) = le_bytes 8 (of_nat m :: 128 word)"
    by (rule le_bytes_cong) (auto simp: bit_simps)
  ultimately show ?thesis
    using be_bytes_add [of 8 8 "of_nat m :: 128 word"]
    by (simp add: bit_length_field_512_def be64_be_bytes be_bytes_def flip: m_def)
qed

subsection \<open>Blocks that agree\<close>

lemma block_data_order_cong:
  assumes "\<And>H xs. length H = L \<Longrightarrow> length xs = B \<Longrightarrow> b H xs = b' H xs \<and> length (b' H xs) = L"
    and "length H = L" and "n * B \<le> length xs"
  shows "block_data_order b B H xs n = block_data_order b' B H xs n \<and> length (block_data_order b' B H xs n) = L"
  using assms(2,3)
proof (induction n arbitrary: H xs)
  case (Suc n)
  then have "b H (take B xs) = b' H (take B xs) \<and> length (b' H (take B xs)) = L" using assms(1) by simp
  then show ?case using Suc.IH [of "b' H (take B xs)" "drop B xs"] Suc.prems by simp
qed simp

lemma md_hash_cong:
  assumes "\<And>H xs. length H = L \<Longrightarrow> length xs = B \<Longrightarrow> b H xs = b' H xs \<and> length (b' H xs) = L"
    and "length H = L"
  shows "md_hash b B k lf H msg = md_hash b' B k lf H msg \<and> length (md_hash b' B k lf H msg) = L"
proof -
  let ?p = "msg @ md_padding B k lf (length msg)"
  have "length ?p div B * B \<le> length ?p" by (simp del: length_append)
  then show ?thesis unfolding md_hash_def Let_def by (intro block_data_order_cong [OF assms])
qed

lemma length_foldl: "(\<And>s x. length s = n \<Longrightarrow> length (f s x) = n) \<Longrightarrow> length s = n \<Longrightarrow> length (foldl f s xs) = n"
  by (induction xs arbitrary: s) simp_all

lemma length_map2_foldl:
  "length s = n \<Longrightarrow> (\<And>s x. length s = n \<Longrightarrow> length (f s x) = n) \<Longrightarrow> length (map2 g s (foldl f s xs)) = n"
  using length_foldl [of n f s xs] by simp

lemma length_fips_blocks:
  "length H = 8 \<Longrightarrow> length (fips_sha256_block H xs) = 8"
  "length H' = 8 \<Longrightarrow> length (fips_sha512_block H' xs) = 8"
  "length H = 5 \<Longrightarrow> length (fips_sha1_block H xs) = 5"
  "length H = 4 \<Longrightarrow> length (rfc1321_block H xs) = 4"
  "length H = 4 \<Longrightarrow> length (rfc1320_block H xs) = 4"
  unfolding fips_sha256_block_def fips_sha512_block_def fips_sha2_def fips_sha1_block_def rfc1321_block_def rfc1320_block_def Let_def
  by (rule length_map2_foldl; simp add: fips_sha2_round_def fips_sha1_round_def rfc1321_round_def rfc1320_round_def Let_def)+


subsection \<open>The hash functions\<close>

text \<open>The digests of the standards; the initial values are those of the init functions.\<close>

definition sha_length :: "nat \<Rightarrow> bytes" where
  "sha_length n = be_bytes 8 (of_nat (8 * n) :: u64)"

definition sha512_length :: "nat \<Rightarrow> bytes" where
  "sha512_length n = be_bytes 16 (of_nat (8 * n) :: 128 word)"

definition md5_length :: "nat \<Rightarrow> bytes" where
  "md5_length n = le_bytes 8 (of_nat (8 * n) :: u64)"

definition fips_sha1 :: "bytes \<Rightarrow> bytes" where
  "fips_sha1 msg =
     concat (map (be_bytes 4) (md_hash fips_sha1_block 64 8 sha_length (chain SHA1_Init) msg))"

definition fips_sha224 :: "bytes \<Rightarrow> bytes" where
  "fips_sha224 msg =
     concat (map (be_bytes 4) (take 7 (md_hash fips_sha256_block 64 8 sha_length (chain SHA224_Init) msg)))"

definition fips_sha256 :: "bytes \<Rightarrow> bytes" where
  "fips_sha256 msg =
     concat (map (be_bytes 4) (md_hash fips_sha256_block 64 8 sha_length (chain SHA256_Init) msg))"

definition fips_sha384 :: "bytes \<Rightarrow> bytes" where
  "fips_sha384 msg =
     concat (map (be_bytes 8)
       (take 6 (md_hash fips_sha512_block 128 16 sha512_length (chain (SHA384_Init [])) msg)))"

definition fips_sha512 :: "bytes \<Rightarrow> bytes" where
  "fips_sha512 msg =
     concat (map (be_bytes 8) (md_hash fips_sha512_block 128 16 sha512_length (chain (SHA512_Init [])) msg))"

definition rfc1321_md5 :: "bytes \<Rightarrow> bytes" where
  "rfc1321_md5 msg =
     concat (map (le_bytes 4) (md_hash rfc1321_block 64 8 md5_length (chain MD5_Init) msg))"

definition rfc1320_md4 :: "bytes \<Rightarrow> bytes" where
  "rfc1320_md4 msg =
     concat (map (le_bytes 4) (md_hash rfc1320_block 64 8 md5_length (chain MD4_Init) msg))"

text \<open>Any number of updates.\<close>

lemma seen_init: "length p = B \<Longrightarrow> seen block B hs (init_ctx hs p len) []"
  by (simp add: seen_def init_ctx_def)

lemma seen_updates:
  assumes "\<And>c msg xs. seen block B init c msg \<Longrightarrow>
      seen block B init (upd c xs) (msg @ xs) \<and> md_len (upd c xs) = md_len c"
    and "seen block B init c msg"
  shows "seen block B init (foldl upd c parts) (msg @ concat parts) \<and> md_len (foldl upd c parts) = md_len c"
  using assms(2)
proof (induction parts arbitrary: c msg)
  case (Cons xs parts)
  from assms(1) [OF Cons.prems, of xs] Cons.IH [of "upd c xs" "msg @ xs"] show ?case by simp
qed simp

lemma HASH_updates:
  assumes "length p = 64"
    and c_def: "c = foldl (HASH_UPDATE block) (init_ctx hs p len) parts"
  shows "seen block 64 hs c (concat parts)" and "md_len c = len"
  using seen_updates [OF seen_update seen_init [OF assms(1)], of block hs len parts]
  by (simp_all add: c_def init_ctx_def)

lemma SHA512_updates:
  assumes "length p = 128"
    and c_def: "c = foldl SHA512_Update (init_ctx hs p len) parts"
  shows "seen sha512_block 128 hs c (concat parts)" and "md_len c = len"
  using seen_updates [OF seen512_update seen_init [OF assms(1)], of hs len parts]
  by (simp_all add: c_def init_ctx_def)

lemma map_nth_all: "length xs = n \<Longrightarrow> map ((!) xs) [0..<n] = xs"
  by (metis map_nth)

lemma map_nth_take: "n \<le> length xs \<Longrightarrow> map ((!) xs) [0..<n] = take n xs"
  by (rule nth_equalityI) simp_all

lemma chain_inits:
  "length (chain SHA224_Init) = 8" "length (chain SHA256_Init) = 8" "length (chain SHA1_Init) = 5"
  "length (chain MD5_Init) = 4" "length (chain MD4_Init) = 4" "length (chain (SHA384_Init p)) = 8" "length (chain (SHA512_Init p)) = 8"
  "chain (SHA384_Init p) = chain (SHA384_Init [])" "chain (SHA512_Init p) = chain (SHA512_Init [])"
  by (simp_all add: SHA224_Init_def SHA256_Init_def SHA1_Init_def MD5_Init_def MD4_Init_def SHA384_Init_def SHA512_Init_def
      init_ctx_def)

text \<open>The chains after the final call.\<close>

lemma sha256_chain:
  assumes "length hs = 8" and c: "c = foldl SHA256_Update (init_ctx hs (replicate 64 0) len) parts"
  shows "chain (HASH_FINAL True HOST_l2c_big sha256_block c) =
      md_hash fips_sha256_block 64 8 sha_length hs (concat parts)"
    and "md_len (HASH_FINAL True HOST_l2c_big sha256_block c) = len"
    and "length (md_hash fips_sha256_block 64 8 sha_length hs (concat parts)) = 8"
proof -
  have f: "bit_length_field True HOST_l2c_big = sha_length" by (rule ext) (simp add: bit_length_field_be sha_length_def)
  have l: "length (HOST_l2c_big x) = 4" for x by (simp add: HOST_l2c_big_be_bytes)
  note u = HASH_updates [OF length_replicate c [unfolded SHA256_Update_def]]
  show "md_len (HASH_FINAL True HOST_l2c_big sha256_block c) = len"
    using seen_final [where l2c = HOST_l2c_big and big = True, OF u(1) l] u(2) by blast
  have "sha256_block H xs = fips_sha256_block H xs \<and> length (fips_sha256_block H xs) = 8"
    if "length H = 8" "length xs = 64" for H xs
    using that by (simp add: sha256_block_fips length_fips_blocks)
  from md_hash_cong [of 8 64 sha256_block fips_sha256_block, OF this assms(1)]
  show "chain (HASH_FINAL True HOST_l2c_big sha256_block c) =
      md_hash fips_sha256_block 64 8 sha_length hs (concat parts)"
    and "length (md_hash fips_sha256_block 64 8 sha_length hs (concat parts)) = 8"
    using seen_final [where l2c = HOST_l2c_big and big = True, OF u(1) l] f by simp_all
qed

lemma sha1_chain:
  assumes "length hs = 5" and c: "c = foldl SHA1_Update (init_ctx hs (replicate 64 0) len) parts"
  shows "chain (HASH_FINAL True HOST_l2c_big sha1_block c) =
      md_hash fips_sha1_block 64 8 sha_length hs (concat parts)"
    and "length (md_hash fips_sha1_block 64 8 sha_length hs (concat parts)) = 5"
proof -
  have f: "bit_length_field True HOST_l2c_big = sha_length" by (rule ext) (simp add: bit_length_field_be sha_length_def)
  have l: "length (HOST_l2c_big x) = 4" for x by (simp add: HOST_l2c_big_be_bytes)
  note u = HASH_updates [OF length_replicate c [unfolded SHA1_Update_def]]
  have "sha1_block H xs = fips_sha1_block H xs \<and> length (fips_sha1_block H xs) = 5"
    if "length H = 5" "length xs = 64" for H xs
    using that by (simp add: sha1_block_fips length_fips_blocks)
  from md_hash_cong [of 5 64 sha1_block fips_sha1_block, OF this assms(1)]
  show "chain (HASH_FINAL True HOST_l2c_big sha1_block c) =
      md_hash fips_sha1_block 64 8 sha_length hs (concat parts)"
    and "length (md_hash fips_sha1_block 64 8 sha_length hs (concat parts)) = 5"
    using seen_final [where l2c = HOST_l2c_big and big = True, OF u(1) l] f by simp_all
qed

lemma md5_chain:
  assumes "length hs = 4" and c: "c = foldl MD5_Update (init_ctx hs (replicate 64 0) len) parts"
  shows "chain (HASH_FINAL False HOST_l2c_little md5_block c) =
      md_hash rfc1321_block 64 8 md5_length hs (concat parts)"
    and "length (md_hash rfc1321_block 64 8 md5_length hs (concat parts)) = 4"
proof -
  have f: "bit_length_field False HOST_l2c_little = md5_length"
    by (rule ext) (simp add: bit_length_field_le md5_length_def)
  have l: "length (HOST_l2c_little x) = 4" for x by (simp add: HOST_l2c_little_le_bytes)
  note u = HASH_updates [OF length_replicate c [unfolded MD5_Update_def]]
  have "md5_block H xs = rfc1321_block H xs \<and> length (rfc1321_block H xs) = 4"
    if "length H = 4" "length xs = 64" for H xs
    using that by (simp add: md5_block_rfc1321 length_fips_blocks)
  from md_hash_cong [of 4 64 md5_block rfc1321_block, OF this assms(1)]
  show "chain (HASH_FINAL False HOST_l2c_little md5_block c) =
      md_hash rfc1321_block 64 8 md5_length hs (concat parts)"
    and "length (md_hash rfc1321_block 64 8 md5_length hs (concat parts)) = 4"
    using seen_final [where l2c = HOST_l2c_little and big = False, OF u(1) l] f by simp_all
qed

lemma md4_chain:
  assumes "length hs = 4" and c: "c = foldl MD4_Update (init_ctx hs (replicate 64 0) len) parts"
  shows "chain (HASH_FINAL False HOST_l2c_little md4_block c) =
      md_hash rfc1320_block 64 8 md5_length hs (concat parts)"
    and "length (md_hash rfc1320_block 64 8 md5_length hs (concat parts)) = 4"
proof -
  have f: "bit_length_field False HOST_l2c_little = md5_length"
    by (rule ext) (simp add: bit_length_field_le md5_length_def)
  have l: "length (HOST_l2c_little x) = 4" for x by (simp add: HOST_l2c_little_le_bytes)
  note u = HASH_updates [OF length_replicate c [unfolded MD4_Update_def]]
  have "md4_block H xs = rfc1320_block H xs \<and> length (rfc1320_block H xs) = 4"
    if "length H = 4" "length xs = 64" for H xs
    using that by (simp add: md4_block_rfc1320 length_fips_blocks)
  from md_hash_cong [of 4 64 md4_block rfc1320_block, OF this assms(1)]
  show "chain (HASH_FINAL False HOST_l2c_little md4_block c) =
      md_hash rfc1320_block 64 8 md5_length hs (concat parts)"
    and "length (md_hash rfc1320_block 64 8 md5_length hs (concat parts)) = 4"
    using seen_final [where l2c = HOST_l2c_little and big = False, OF u(1) l] f by simp_all
qed

lemma sha512_chain:
  assumes "length hs = 8" "length p = 128" and c: "c = foldl SHA512_Update (init_ctx hs p len) parts"
  shows "chain (fst (SHA512_Final True c)) = md_hash fips_sha512_block 128 16 sha512_length hs (concat parts)"
    and "length (md_hash fips_sha512_block 128 16 sha512_length hs (concat parts)) = 8"
proof -
  have f: "bit_length_field_512 = sha512_length"
    by (rule ext) (simp add: bit_length_field_512_be sha512_length_def)
  note u = SHA512_updates [OF assms(2) c]
  have "sha512_block H xs = fips_sha512_block H xs \<and> length (fips_sha512_block H xs) = 8"
    if "length H = 8" "length xs = 128" for H xs
    using that by (simp add: sha512_block_fips length_fips_blocks)
  from md_hash_cong [of 8 128 sha512_block fips_sha512_block, OF this assms(1)]
  show "chain (fst (SHA512_Final True c)) = md_hash fips_sha512_block 128 16 sha512_length hs (concat parts)"
    and "length (md_hash fips_sha512_block 128 16 sha512_length hs (concat parts)) = 8"
    using seen512_final [OF u(1), of True] f by simp_all
qed


text \<open>The digests.\<close>

lemma map_l2c_nth: "length xs = n \<Longrightarrow> concat (map (\<lambda>i. f (xs ! i)) [0..<n]) = concat (map f xs)"
  using map_nth_all [of xs n] by (metis (no_types, lifting) list.map_comp comp_def map_eq_conv)

lemma map_l2c_take: "n \<le> length xs \<Longrightarrow> concat (map (\<lambda>i. f (xs ! i)) [0..<n]) = concat (map f (take n xs))"
  using map_nth_take [of n xs] by (metis (no_types, lifting) list.map_comp comp_def map_eq_conv)

lemma HOST_l2c_ext: "HOST_l2c_big = be_bytes 4" "HOST_l2c_little = le_bytes 4" "be64 = be_bytes 8"
  by (rule ext, simp add: HOST_l2c_big_be_bytes HOST_l2c_little_le_bytes be64_be_bytes)+

lemma SHA256_digest:
  "snd (SHA256_Final (foldl SHA256_Update SHA256_Init parts)) = Some (fips_sha256 (concat parts))"
proof -
  define c where "c = foldl SHA256_Update (init_ctx (chain SHA256_Init) (replicate 64 0) 32) parts"
  have i: "SHA256_Init = init_ctx (chain SHA256_Init) (replicate 64 0) 32"
    by (simp add: SHA256_Init_def init_ctx_def)
  note k = sha256_chain [OF chain_inits(2) c_def, unfolded HOST_l2c_ext]
  show ?thesis
    unfolding SHA256_Final_def Let_def snd_conv by (subst i, fold c_def)
      (simp add: sha256_string_def k fips_sha256_def map_l2c_nth Let_def HOST_l2c_ext del: upt_rec_numeral)
qed

lemma SHA224_digest:
  "snd (SHA224_Final (foldl SHA224_Update SHA224_Init parts)) = Some (fips_sha224 (concat parts))"
proof -
  define c where "c = foldl SHA256_Update (init_ctx (chain SHA224_Init) (replicate 64 0) 28) parts"
  have i: "SHA224_Init = init_ctx (chain SHA224_Init) (replicate 64 0) 28" "SHA224_Update = SHA256_Update"
    by (simp add: SHA224_Init_def init_ctx_def) (rule ext, rule ext, simp add: SHA224_Update_def)
  note k = sha256_chain [OF chain_inits(1) c_def, unfolded HOST_l2c_ext]
  show ?thesis
    unfolding SHA224_Final_def SHA256_Final_def Let_def snd_conv i(2) by (subst i(1), fold c_def)
      (simp add: sha256_string_def k fips_sha224_def map_l2c_take Let_def HOST_l2c_ext del: upt_rec_numeral)
qed

lemma SHA1_digest:
  "snd (SHA1_Final (foldl SHA1_Update SHA1_Init parts)) = Some (fips_sha1 (concat parts))"
proof -
  define c where "c = foldl SHA1_Update (init_ctx (chain SHA1_Init) (replicate 64 0) 0) parts"
  have i: "SHA1_Init = init_ctx (chain SHA1_Init) (replicate 64 0) 0"
    by (simp add: SHA1_Init_def init_ctx_def)
  note k = sha1_chain [OF chain_inits(3) c_def, unfolded HOST_l2c_ext]
  have l: "length v = 5 \<Longrightarrow> \<exists>a b c d e. v = [a, b, c, d, e]" for v :: "u32 list"
    by (auto simp: numeral_eq_Suc length_Suc_conv)
  show ?thesis
    unfolding SHA1_Final_def Let_def snd_conv by (subst i, fold c_def)
      (use l [OF k(2)] in \<open>auto simp: sha1_string_def k fips_sha1_def HOST_l2c_ext\<close>)
qed

lemma MD5_digest:
  "snd (MD5_Final (foldl MD5_Update MD5_Init parts)) = Some (rfc1321_md5 (concat parts))"
proof -
  define c where "c = foldl MD5_Update (init_ctx (chain MD5_Init) (replicate 64 0) 0) parts"
  have i: "MD5_Init = init_ctx (chain MD5_Init) (replicate 64 0) 0"
    by (simp add: MD5_Init_def init_ctx_def)
  note k = md5_chain [OF chain_inits(4) c_def, unfolded HOST_l2c_ext]
  show ?thesis
    unfolding MD5_Final_def Let_def snd_conv by (subst i, fold c_def)
      (use list4 [OF k(2)] in \<open>auto simp: md5_string_def k rfc1321_md5_def HOST_l2c_ext\<close>)
qed

lemma MD4_digest:
  "snd (MD4_Final (foldl MD4_Update MD4_Init parts)) = Some (rfc1320_md4 (concat parts))"
proof -
  define c where "c = foldl MD4_Update (init_ctx (chain MD4_Init) (replicate 64 0) 0) parts"
  have i: "MD4_Init = init_ctx (chain MD4_Init) (replicate 64 0) 0"
    by (simp add: MD4_Init_def init_ctx_def)
  note k = md4_chain [OF chain_inits(5) c_def, unfolded HOST_l2c_ext]
  show ?thesis
    unfolding MD4_Final_def Let_def snd_conv by (subst i, fold c_def)
      (use list4 [OF k(2)] in \<open>auto simp: md4_string_def k rfc1320_md4_def HOST_l2c_ext\<close>)
qed

lemma SHA512_digest:
  assumes "length p = 128"
  shows "snd (SHA512_Final True (foldl SHA512_Update (SHA512_Init p) parts)) = Some (fips_sha512 (concat parts))"
proof -
  define c where "c = foldl SHA512_Update (init_ctx (chain (SHA512_Init p)) p 64) parts"
  have i: "SHA512_Init p = init_ctx (chain (SHA512_Init p)) p 64"
    by (simp add: SHA512_Init_def init_ctx_def)
  note k = sha512_chain [OF chain_inits(7) assms c_def, unfolded HOST_l2c_ext chain_inits(9) [of p]]
  have "md_len c = 64" by (rule SHA512_updates(2) [OF assms c_def])
  then show ?thesis
    by (subst i, fold c_def)
      (simp add: seen512_output k fips_sha512_def map_l2c_nth HOST_l2c_ext del: upt_rec_numeral)
qed

lemma SHA384_digest:
  assumes "length p = 128"
  shows "snd (SHA384_Final True (foldl SHA384_Update (SHA384_Init p) parts)) = Some (fips_sha384 (concat parts))"
proof -
  define c where "c = foldl SHA512_Update (init_ctx (chain (SHA384_Init p)) p 48) parts"
  have i: "SHA384_Init p = init_ctx (chain (SHA384_Init p)) p 48" "SHA384_Update = SHA512_Update"
    by (simp add: SHA384_Init_def init_ctx_def) (rule ext, rule ext, simp add: SHA384_Update_def)
  note k = sha512_chain [OF chain_inits(6) assms c_def, unfolded HOST_l2c_ext chain_inits(8) [of p]]
  have "md_len c = 48" by (rule SHA512_updates(2) [OF assms c_def])
  then show ?thesis
    unfolding i(2) SHA384_Final_def by (subst i(1), fold c_def)
      (simp add: seen512_output k fips_sha384_def map_l2c_take HOST_l2c_ext del: upt_rec_numeral)
qed


subsection \<open>Well-formed contexts\<close>

lemma length_ROUND_00_15 [simp]: "length (ROUND_00_15 S0 S1 K i w row v) = length v"
  by (simp add: ROUND_00_15_def Let_def)

lemma length_snd_ROUND_16 [simp]: "length (snd (ROUND_16 S0 S1 s0 s1 K i row s)) = length (snd s)"
  by (simp add: ROUND_16_def Let_def split_def)

lemma length_snd_foldl:
  "(\<And>s x. length (snd (f s x)) = length (snd s)) \<Longrightarrow> length (snd (foldl f s xs)) = length (snd s)"
  by (induction xs arbitrary: s) simp_all

lemma length_sha2_block [simp]: "length (sha2_block rounds S0 S1 s0 s1 K H X) = length H"
proof -
  have "length (foldl (\<lambda>v i. ROUND_00_15 S0 S1 K i (X ! i) (sha2_rows ! (i mod 8)) v) H xs) = length H" for xs
    by (rule length_foldl) simp_all
  then show ?thesis
    by (simp add: sha2_block_def Let_def split_def length_snd_foldl del: upt_rec_numeral)
qed

lemma length_blocks:
  "length H = L \<Longrightarrow> length (sha256_block H xs) = L"
  "length H' = L \<Longrightarrow> length (sha512_block H' xs) = L"
  "length (sha1_block H xs) = 5"
  "length H = L \<Longrightarrow> length (md5_block H xs) = L"
  "length H = L \<Longrightarrow> length (md4_block H xs) = L"
proof -
  show "length H = L \<Longrightarrow> length (sha256_block H xs) = L" "length H' = L \<Longrightarrow> length (sha512_block H' xs) = L"
    by (simp_all add: sha256_block_def sha512_block_def del: upt_rec_numeral)
  show "length (sha1_block H xs) = 5" by (simp add: sha1_block_def Let_def split_def del: upt_rec_numeral)
  show "length H = L \<Longrightarrow> length (md5_block H xs) = L"
    unfolding md5_block_def Let_def
    by (rule length_map2_foldl) (simp_all add: md5_R_def Let_def split_def)
  show "length H = L \<Longrightarrow> length (md4_block H xs) = L"
    unfolding md4_block_def Let_def
    by (rule length_map2_foldl) (simp_all add: md4_R_def Let_def split_def)
qed

lemma wf_SHA512_Update:
  assumes c: "ctx_wf 8 128 c"
  shows "ctx_wf 8 128 (SHA512_Update c xs)"
proof (cases "xs = []")
  case True
  then show ?thesis using c by (simp add: SHA512_Update_def)
next
  case False
  define l where "l = Nl c + push_bit 3 (of_nat (length xs))"
  define c1 where "c1 = (if l < Nl c then c\<lparr>Nh := Nh c + 1\<rparr> else c)"
  define c2 where "c2 = c1\<lparr>Nh := Nh c1 + of_nat (length xs div 2 ^ 61), Nl := l\<rparr>"
  define m where "m = 128 - unat (num c2)"
  define p where "p = put (unat (num c2)) (take m xs) (data c2)"
  have c2: "ctx_wf 8 128 c2" using c by (simp add: c2_def c1_def ctx_wf_def)
  have rest: "ctx_wf 8 128 (sha512_update_blocks d ys)" if "ctx_wf 8 128 d" for d ys
    by (rule wf_rest [of 8 sha512_block 128 d _ ys]) (use length_blocks(2) that in \<open>simp_all add: sha512_update_blocks_eq\<close>)
  have small: "ctx_wf 8 128 (c2\<lparr>data := put (unat (num c2)) xs (data c2), num := num c2 + of_nat (length xs)\<rparr>)"
    if "length xs < m"
  proof -
    have "unat (num c2) + length xs < 128" using that by (simp add: m_def)
    then show ?thesis using c2 length_put [of "unat (num c2)" xs "data c2"]
      by (simp add: unat_word_ariths unat_of_nat ctx_wf_def)
  qed
  have fill: "ctx_wf 8 128 (c2\<lparr>data := p, num := 0, chain := block_data_order sha512_block 128 (chain c2) p 1\<rparr>)"
    if "\<not> length xs < m"
    using that c2 length_put [of "unat (num c2)" "take m xs" "data c2"] length_blocks(2)
    by (simp add: ctx_wf_def p_def m_def One_nat_def)
  have "SHA512_Update c xs =
     (if num c2 \<noteq> 0 then
        if length xs < m then c2\<lparr>data := put (unat (num c2)) xs (data c2), num := num c2 + of_nat (length xs)\<rparr>
        else sha512_update_blocks
          (c2\<lparr>data := p, num := 0, chain := block_data_order sha512_block 128 (chain c2) p 1\<rparr>) (drop m xs)
      else sha512_update_blocks c2 xs)"
    using False by (simp add: SHA512_Update_def Let_def c2_def c1_def l_def m_def p_def)
  then show ?thesis using rest small fill c2 by presburger
qed

lemma wf_SHA512_Final:
  assumes c: "ctx_wf 8 128 c"
  shows "ctx_wf 8 128 (fst (SHA512_Final ok c))"
proof -
  have be: "length (be64 t) = 8" for t by (simp add: be64_def)
  have put: "length (put n xs p) = 128" if "length p = 128" "n + length xs \<le> 128" for n xs p
    using that length_put [of n xs p] by simp
  show ?thesis
    using c by (simp add: SHA512_Final_def Let_def ctx_wf_def length_blocks(2) put be)
qed

end
