(* ===== verification/DigestSpec.thy ===== *)
theory DigestSpec
  imports Digest HashSpec
begin

text \<open>
  The interface of a hash that reads its input in parts, as a locale, interpreted on every hash of the
  library; two hashes side by side are one again (MD5 with SHA-1, for TLS 1.0).  On it the digest
  contexts: each reads a message, and ends in its digest, whatever method table it points to.
\<close>

subsection \<open>Hashes that read in parts\<close>

text \<open>\<open>starts\<close> are the states an init function can leave.\<close>

locale streaming_hash =
  fixes starts :: "'s \<Rightarrow> bool"
    and update :: "'s \<Rightarrow> bytes \<Rightarrow> 's"
    and finish :: "'s \<Rightarrow> bytes option"
    and hash :: "bytes \<Rightarrow> bytes"
  assumes digests: "starts s \<Longrightarrow> finish (foldl update s parts) = Some (hash (concat parts))"
begin

definition reads :: "'s \<Rightarrow> bytes \<Rightarrow> bool" where
  "reads c msg \<longleftrightarrow> (\<exists>s parts. starts s \<and> c = foldl update s parts \<and> concat parts = msg)"

lemma reads_start: "starts s \<Longrightarrow> reads s []"
  unfolding reads_def by (intro exI [of _ s] exI [of _ "[]"]) simp

lemma reads_update:
  assumes "reads c msg"
  shows "reads (update c xs) (msg @ xs)"
proof -
  obtain s parts where "starts s" "c = foldl update s parts" "concat parts = msg"
    using assms unfolding reads_def by blast
  then show ?thesis unfolding reads_def by (intro exI [of _ s] exI [of _ "parts @ [xs]"]) simp
qed

lemma reads_finish: "reads c msg \<Longrightarrow> finish c = Some (hash msg)"
  using digests unfolding reads_def by blast

text \<open>What the init function establishes and every update keeps.\<close>

lemma reads_keeps:
  assumes "reads c msg" and "\<And>s. starts s \<Longrightarrow> P s" and "\<And>c xs. P c \<Longrightarrow> P (update c xs)"
  shows "P c"
proof -
  obtain s parts where s: "starts s" "c = foldl update s parts" using assms(1) unfolding reads_def by blast
  have "P (foldl update s parts)" if "P s" for s parts
    using that assms(3) by (induction parts arbitrary: s) simp_all
  then show ?thesis using s assms(2) by simp
qed

end

locale two_hashes =
  a: streaming_hash sa ua fa ha + b: streaming_hash sb ub fb hb
  for sa :: "'a \<Rightarrow> bool" and ua fa ha and sb :: "'b \<Rightarrow> bool" and ub fb hb
begin

lemma foldl_both: "foldl (\<lambda>(x, y) xs. (ua x xs, ub y xs)) (x, y) parts = (foldl ua x parts, foldl ub y parts)"
  by (induction parts arbitrary: x y) simp_all

end

sublocale two_hashes \<subseteq> both: streaming_hash
  "\<lambda>(x, y). sa x \<and> sb y" "\<lambda>(x, y) xs. (ua x xs, ub y xs)"
  "\<lambda>(x, y). case (fa x, fb y) of (Some u, Some v) \<Rightarrow> Some (u @ v) | _ \<Rightarrow> None" "\<lambda>msg. ha msg @ hb msg"
  by unfold_locales (auto simp: foldl_both a.digests b.digests)

interpretation md4: streaming_hash "\<lambda>s. s = MD4_Init" MD4_Update "\<lambda>c. snd (MD4_Final c)" rfc1320_md4
  by unfold_locales (simp add: MD4_digest)

interpretation md5: streaming_hash "\<lambda>s. s = MD5_Init" MD5_Update "\<lambda>c. snd (MD5_Final c)" rfc1321_md5
  by unfold_locales (simp add: MD5_digest)

interpretation sha1: streaming_hash "\<lambda>s. s = SHA1_Init" SHA1_Update "\<lambda>c. snd (SHA1_Final c)" fips_sha1
  by unfold_locales (simp add: SHA1_digest)

interpretation sha224: streaming_hash "\<lambda>s. s = SHA224_Init" SHA224_Update "\<lambda>c. snd (SHA224_Final c)" fips_sha224
  by unfold_locales (simp add: SHA224_digest)

interpretation sha256: streaming_hash "\<lambda>s. s = SHA256_Init" SHA256_Update "\<lambda>c. snd (SHA256_Final c)" fips_sha256
  by unfold_locales (simp add: SHA256_digest)

interpretation sha384: streaming_hash "\<lambda>s. \<exists>p. length p = 128 \<and> s = SHA384_Init p" SHA384_Update
  "\<lambda>c. snd (SHA384_Final True c)" fips_sha384
  by unfold_locales (auto simp: SHA384_digest)

interpretation sha512: streaming_hash "\<lambda>s. \<exists>p. length p = 128 \<and> s = SHA512_Init p" SHA512_Update
  "\<lambda>c. snd (SHA512_Final True c)" fips_sha512
  by unfold_locales (auto simp: SHA512_digest)

interpretation md5_sha1: two_hashes
  "\<lambda>s. s = MD5_Init" MD5_Update "\<lambda>c. snd (MD5_Final c)" rfc1321_md5
  "\<lambda>s. s = SHA1_Init" SHA1_Update "\<lambda>c. snd (SHA1_Final c)" fips_sha1 ..

subsection \<open>Digests through the method tables\<close>

fun md_digest :: "evp_md \<Rightarrow> bytes \<Rightarrow> bytes" where
  "md_digest EVP_md4 = rfc1320_md4"
| "md_digest EVP_md5 = rfc1321_md5"
| "md_digest EVP_sha1 = fips_sha1"
| "md_digest EVP_sha224 = fips_sha224"
| "md_digest EVP_sha256 = fips_sha256"
| "md_digest EVP_sha384 = fips_sha384"
| "md_digest EVP_sha512 = fips_sha512"
| "md_digest EVP_md5_sha1 = (\<lambda>msg. rfc1321_md5 msg @ fips_sha1 msg)"

text \<open>The state has read a message; it is a state of the right kind.\<close>

fun md_reads :: "evp_md \<Rightarrow> md_data \<Rightarrow> bytes \<Rightarrow> bool" where
  "md_reads EVP_md4 (Ctx32 c) msg = md4.reads c msg"
| "md_reads EVP_md5 (Ctx32 c) msg = md5.reads c msg"
| "md_reads EVP_sha1 (Ctx32 c) msg = sha1.reads c msg"
| "md_reads EVP_sha224 (Ctx32 c) msg = sha224.reads c msg"
| "md_reads EVP_sha256 (Ctx32 c) msg = sha256.reads c msg"
| "md_reads EVP_sha384 (Ctx64 c) msg = sha384.reads c msg"
| "md_reads EVP_sha512 (Ctx64 c) msg = sha512.reads c msg"
| "md_reads EVP_md5_sha1 (Ctx_md5_sha1 c d) msg = md5_sha1.both.reads (c, d) msg"
| "md_reads _ _ _ = False"

fun md_ok :: "evp_md \<Rightarrow> md_data \<Rightarrow> bool" where
  "md_ok EVP_md4 (Ctx32 c) = ctx_wf 4 64 c"
| "md_ok EVP_md5 (Ctx32 c) = ctx_wf 4 64 c"
| "md_ok EVP_sha1 (Ctx32 c) = ctx_wf 5 64 c"
| "md_ok EVP_sha224 (Ctx32 c) = ctx_wf 8 64 c"
| "md_ok EVP_sha256 (Ctx32 c) = ctx_wf 8 64 c"
| "md_ok EVP_sha384 (Ctx64 c) = ctx_wf 8 128 c"
| "md_ok EVP_sha512 (Ctx64 c) = ctx_wf 8 128 c"
| "md_ok EVP_md5_sha1 (Ctx_md5_sha1 c d) = (ctx_wf 4 64 c \<and> ctx_wf 5 64 d)"
| "md_ok _ _ = False"

lemmas wf_updates =
  wf_HASH_UPDATE [of 4 md4_block, folded MD4_Update_def] wf_HASH_UPDATE [of 4 md5_block, folded MD5_Update_def]
  wf_HASH_UPDATE [of 5 sha1_block, folded SHA1_Update_def] wf_HASH_UPDATE [of 8 sha256_block, folded SHA256_Update_def]

lemma ctx_wf_inits:
  "ctx_wf 4 64 MD4_Init" "ctx_wf 4 64 MD5_Init" "ctx_wf 5 64 SHA1_Init" "ctx_wf 8 64 SHA224_Init"
  "ctx_wf 8 64 SHA256_Init" "length p = 128 \<Longrightarrow> ctx_wf 8 128 (SHA384_Init p)"
  "length p = 128 \<Longrightarrow> ctx_wf 8 128 (SHA512_Init p)"
  by (simp_all add: ctx_wf_def MD4_Init_def MD5_Init_def SHA1_Init_def SHA224_Init_def SHA256_Init_def
      SHA384_Init_def SHA512_Init_def init_ctx_def)

lemma ctx_wf_updates:
  "ctx_wf 4 64 c \<Longrightarrow> ctx_wf 4 64 (MD4_Update c xs)" "ctx_wf 4 64 c \<Longrightarrow> ctx_wf 4 64 (MD5_Update c xs)"
  "ctx_wf 5 64 c \<Longrightarrow> ctx_wf 5 64 (SHA1_Update c xs)" "ctx_wf 8 64 c \<Longrightarrow> ctx_wf 8 64 (SHA224_Update c xs)"
  "ctx_wf 8 64 c \<Longrightarrow> ctx_wf 8 64 (SHA256_Update c xs)" "ctx_wf 8 128 d \<Longrightarrow> ctx_wf 8 128 (SHA384_Update d xs)"
  "ctx_wf 8 128 d \<Longrightarrow> ctx_wf 8 128 (SHA512_Update d xs)"
  by (simp_all add: wf_updates length_blocks wf_SHA512_Update SHA224_Update_def SHA384_Update_def)

lemma ctx_wf_zero: "ctx_wf L B c \<Longrightarrow> ctx_wf L B (zero_ctx c)"
  by (simp add: ctx_wf_def zero_ctx_def)

lemma ctx_wf_finals:
  "ctx_wf 4 64 c \<Longrightarrow> ctx_wf 4 64 (fst (MD4_Final c))" "ctx_wf 4 64 c \<Longrightarrow> ctx_wf 4 64 (fst (MD5_Final c))"
  "ctx_wf 5 64 c \<Longrightarrow> ctx_wf 5 64 (fst (SHA1_Final c))" "ctx_wf 8 64 c \<Longrightarrow> ctx_wf 8 64 (fst (SHA224_Final c))"
  "ctx_wf 8 64 c \<Longrightarrow> ctx_wf 8 64 (fst (SHA256_Final c))" "ctx_wf 8 128 d \<Longrightarrow> ctx_wf 8 128 (fst (SHA384_Final ok d))"
  "ctx_wf 8 128 d \<Longrightarrow> ctx_wf 8 128 (fst (SHA512_Final ok d))"
  by (simp_all add: MD4_Final_def MD5_Final_def SHA1_Final_def SHA224_Final_def SHA256_Final_def Let_def
      SHA384_Final_def wf_HASH_FINAL length_blocks wf_SHA512_Final)

lemma md_init_ok: "length p = 128 \<Longrightarrow> md_ok md (md_init md p)"
  by (cases md) (simp_all add: ctx_wf_inits)

lemma md_update_ok:
  assumes "md_ok md d"
  obtains d' where "md_update md d xs = Some d'" and "md_ok md d'"
  using assms that by (cases md; cases d) (simp_all add: ctx_wf_updates)

lemma final32_cases: "final32 r = Some (d, out) \<Longrightarrow> d = Ctx32 (fst r)"
  by (auto simp: final32_def split: prod.splits option.splits)

lemma final64_cases: "final64 r = Some (d, out) \<Longrightarrow> d = Ctx64 (fst r)"
  by (auto simp: final64_def split: prod.splits option.splits)

lemma md_final_ok:
  assumes "md_ok md d" and f: "md_final md d = Some (d', out)"
  shows "md_ok md (md_cleanse d')"
proof (cases md)
  case EVP_md5_sha1
  then obtain c e where d: "d = Ctx_md5_sha1 c e" "ctx_wf 4 64 c" "ctx_wf 5 64 e"
    using assms(1) by (cases d) simp_all
  then have "d' = Ctx_md5_sha1 (fst (MD5_Final c)) (fst (SHA1_Final e))"
    using f EVP_md5_sha1 by (auto split: prod.splits option.splits)
  then show ?thesis using EVP_md5_sha1 d ctx_wf_finals ctx_wf_zero by fastforce
qed (use assms in \<open>cases d; auto dest!: final32_cases final64_cases intro!: ctx_wf_zero ctx_wf_finals\<close>)+

lemma md_reads_ok: "md_reads md d msg \<Longrightarrow> md_ok md d"
proof (cases md)
  case EVP_md5_sha1
  assume "md_reads md d msg"
  then obtain c e where d: "d = Ctx_md5_sha1 c e" "md5_sha1.both.reads (c, e) msg"
    using EVP_md5_sha1 by (cases d) simp_all
  from d(2) have "case (c, e) of (x, y) \<Rightarrow> ctx_wf 4 64 x \<and> ctx_wf 5 64 y"
    by (rule md5_sha1.both.reads_keeps) (auto simp: ctx_wf_inits ctx_wf_updates)
  then show ?thesis using d(1) EVP_md5_sha1 by simp
next
  case EVP_md4
  assume "md_reads md d msg"
  then show ?thesis
    using EVP_md4 by (cases d) (auto elim!: md4.reads_keeps simp: ctx_wf_inits ctx_wf_updates)
next
  case EVP_md5
  assume "md_reads md d msg"
  then show ?thesis
    using EVP_md5 by (cases d) (auto elim!: md5.reads_keeps simp: ctx_wf_inits ctx_wf_updates)
next
  case EVP_sha1
  assume "md_reads md d msg"
  then show ?thesis
    using EVP_sha1 by (cases d) (auto elim!: sha1.reads_keeps simp: ctx_wf_inits ctx_wf_updates)
next
  case EVP_sha224
  assume "md_reads md d msg"
  then show ?thesis
    using EVP_sha224 by (cases d) (auto elim!: sha224.reads_keeps simp: ctx_wf_inits ctx_wf_updates)
next
  case EVP_sha256
  assume "md_reads md d msg"
  then show ?thesis
    using EVP_sha256 by (cases d) (auto elim!: sha256.reads_keeps simp: ctx_wf_inits ctx_wf_updates)
next
  case EVP_sha384
  assume "md_reads md d msg"
  then show ?thesis
    using EVP_sha384 by (cases d) (auto elim!: sha384.reads_keeps simp: ctx_wf_inits ctx_wf_updates)
next
  case EVP_sha512
  assume "md_reads md d msg"
  then show ?thesis
    using EVP_sha512 by (cases d) (auto elim!: sha512.reads_keeps simp: ctx_wf_inits ctx_wf_updates)
qed

lemma md_init_reads: "length p = 128 \<Longrightarrow> md_reads md (md_init md p) []"
proof (cases md)
  case EVP_md5_sha1
  then show ?thesis using md5_sha1.both.reads_start [of "(MD5_Init, SHA1_Init)"] by simp
qed (auto intro: md4.reads_start md5.reads_start sha1.reads_start sha224.reads_start sha256.reads_start
    sha384.reads_start sha512.reads_start)

lemma md_init_buffer:
  assumes "md \<noteq> EVP_sha384" and "md \<noteq> EVP_sha512"
  shows "md_init md p = md_init md q"
  using assms by (cases md) simp_all

lemma md_init_reads_again: "md_ok md d \<Longrightarrow> md_reads md (md_init md (md_buffer d)) []"
proof -
  assume ok: "md_ok md d"
  have "length (md_buffer d) = 128" if "md = EVP_sha384 \<or> md = EVP_sha512"
    using ok that by (cases d) (auto simp: ctx_wf_def)
  then show ?thesis
    using md_init_reads [of "md_buffer d" md] md_init_reads [of "replicate 128 0" md] md_init_buffer
    by (metis length_replicate)
qed

lemma md_update_reads:
  assumes "md_reads md d msg"
  obtains d' where "md_update md d xs = Some d'" and "md_reads md d' (msg @ xs)"
proof (cases md)
  case EVP_md5_sha1
  then obtain c e where d: "d = Ctx_md5_sha1 c e" "md5_sha1.both.reads (c, e) msg"
    using assms by (cases d) simp_all
  then show ?thesis using that md5_sha1.both.reads_update [OF d(2), of xs] EVP_md5_sha1 by simp
qed (use assms that in \<open>cases d; force intro: md4.reads_update md5.reads_update sha1.reads_update
    sha224.reads_update sha256.reads_update sha384.reads_update sha512.reads_update\<close>)+

lemma final32_Some: "snd r = Some out \<Longrightarrow> final32 r = Some (Ctx32 (fst r), out)"
  by (cases r) (simp add: final32_def)

lemma final64_Some: "snd r = Some out \<Longrightarrow> final64 r = Some (Ctx64 (fst r), out)"
  by (cases r) (simp add: final64_def)

lemma md_final_reads:
  assumes "md_reads md d msg"
  shows "\<exists>d'. md_final md d = Some (d', md_digest md msg)"
proof (cases md)
  case EVP_md5_sha1
  then obtain c e where d: "d = Ctx_md5_sha1 c e" "md5_sha1.both.reads (c, e) msg"
    using assms by (cases d) simp_all
  then have "(case (snd (MD5_Final c), snd (SHA1_Final e)) of (Some u, Some v) \<Rightarrow> Some (u @ v) | _ \<Rightarrow> None) =
      Some (md_digest md msg)"
    using md5_sha1.both.reads_finish EVP_md5_sha1 by fastforce
  then obtain u v where "snd (MD5_Final c) = Some u" "snd (SHA1_Final e) = Some v" "u @ v = md_digest md msg"
    by (auto split: option.splits)
  then have "md_final md d = Some (Ctx_md5_sha1 (fst (MD5_Final c)) (fst (SHA1_Final e)), md_digest md msg)"
    using EVP_md5_sha1 d by (cases "MD5_Final c"; cases "SHA1_Final e") simp
  then show ?thesis by simp
next
  case EVP_sha384
  then obtain c where "d = Ctx64 c" "sha384.reads c msg" using assms by (cases d) simp_all
  then show ?thesis
    using EVP_sha384 sha384.reads_finish by (simp add: final64_Some)
next
  case EVP_sha512
  then obtain c where "d = Ctx64 c" "sha512.reads c msg" using assms by (cases d) simp_all
  then show ?thesis
    using EVP_sha512 sha512.reads_finish by (simp add: final64_Some)
qed (use assms in \<open>cases d; force simp: final32_Some md4.reads_finish md5.reads_finish sha1.reads_finish
    sha224.reads_finish sha256.reads_finish\<close>)+

lemma length_md_hash:
  assumes "\<And>H xs. length H = L \<Longrightarrow> length (b H xs) = L" and "length H = L"
  shows "length (md_hash b B k lf H msg) = L"
  using md_hash_cong [of L B b b, OF _ assms(2)] assms(1) by blast

lemma length_concat_be_bytes: "length (concat (map (be_bytes n) ws)) = n * length ws"
  by (induction ws) simp_all

lemma length_concat_le_bytes: "length (concat (map (le_bytes n) ws)) = n * length ws"
  by (induction ws) simp_all

lemma length_md_digest: "length (md_digest md msg) = EVP_MD_size md"
proof -
  note defs = rfc1320_md4_def rfc1321_md5_def fips_sha1_def fips_sha224_def fips_sha256_def fips_sha384_def
    fips_sha512_def length_concat_be_bytes length_concat_le_bytes
  have "length (md_hash fips_sha1_block 64 8 sha_length (chain SHA1_Init) msg) = 5"
    "length (md_hash rfc1321_block 64 8 md5_length (chain MD5_Init) msg) = 4"
    "length (md_hash rfc1320_block 64 8 md5_length (chain MD4_Init) msg) = 4"
    "length (md_hash fips_sha256_block 64 8 sha_length (chain SHA224_Init) msg) = 8"
    "length (md_hash fips_sha256_block 64 8 sha_length (chain SHA256_Init) msg) = 8"
    "length (md_hash fips_sha512_block 128 16 sha512_length (chain (SHA384_Init [])) msg) = 8"
    "length (md_hash fips_sha512_block 128 16 sha512_length (chain (SHA512_Init [])) msg) = 8"
    by (rule length_md_hash; simp add: length_fips_blocks chain_inits(1-7))+
  then show ?thesis by (cases md) (simp_all add: defs)
qed

subsection \<open>Digest contexts\<close>

definition evp_ctx_ok :: "evp_md_ctx \<Rightarrow> bool" where
  "evp_ctx_ok ctx \<longleftrightarrow>
     (case ctx_digest ctx of None \<Rightarrow> md_data ctx = None
      | Some md \<Rightarrow> (case md_data ctx of None \<Rightarrow> False | Some d \<Rightarrow> md_ok md d))"

definition ctx_reads :: "evp_md_ctx \<Rightarrow> evp_md \<Rightarrow> bytes \<Rightarrow> bool" where
  "ctx_reads ctx md msg \<longleftrightarrow>
     ctx_digest ctx = Some md \<and> (\<exists>d. md_data ctx = Some d \<and> md_reads md d msg)"

text \<open>The next \<open>n\<close> calls of \<open>malloc\<close> succeed.\<close>

definition memory :: "nat \<Rightarrow> mallocs \<Rightarrow> bool" where
  "memory n ms \<longleftrightarrow> n \<le> length ms \<and> None \<notin> set (take n ms)"

lemma memory_0 [simp]: "memory 0 ms"
  by (simp add: memory_def)

lemma memory_add: "memory (m + n) ms \<longleftrightarrow> memory m ms \<and> memory n (drop m ms)"
  by (auto simp: memory_def take_add)

lemma malloc_memory:
  obtains block where "memory 1 ms" and "malloc ms = (drop 1 ms, Some block)"
    | "\<not> memory 1 ms" and "malloc ms = (drop 1 ms, None)"
proof (cases ms)
  case Nil
  then show ?thesis using that(2) by (simp add: malloc_def memory_def)
next
  case (Cons m ms')
  then show ?thesis using that by (cases m) (simp_all add: malloc_def memory_def)
qed

lemma evp_ctx_ok_init [simp]: "evp_ctx_ok EVP_MD_CTX_init"
  by (simp add: evp_ctx_ok_def EVP_MD_CTX_init_def)

lemma ctx_reads_ok: "ctx_reads ctx md msg \<Longrightarrow> evp_ctx_ok ctx"
  by (auto simp: ctx_reads_def evp_ctx_ok_def dest: md_reads_ok)

text \<open>Initialisation needs memory unless the method stays the same.\<close>

definition fresh :: "evp_md_ctx \<Rightarrow> evp_md \<Rightarrow> nat" where
  "fresh ctx md = (if ctx_digest ctx = Some md then 0 else 1)"

lemma length_malloc_buffer [simp]: "length (malloc_buffer block) = 128"
  by (simp add: malloc_buffer_def del: upt_rec_numeral)

lemma DigestInit_cases:
  assumes ok: "evp_ctx_ok ctx"
  obtains ctx' where "memory (fresh ctx md) ms"
      and "EVP_DigestInit_ex ms ctx md = (drop (fresh ctx md) ms, ctx', True)" and "ctx_reads ctx' md []"
    | "\<not> memory (fresh ctx md) ms" and "fresh ctx md = 1" and "EVP_DigestInit_ex ms ctx md = (drop 1 ms, ctx, False)"
proof (cases "ctx_digest ctx = Some md")
  case True
  then obtain d where "md_data ctx = Some d" "md_ok md d"
    using ok by (auto simp: evp_ctx_ok_def split: option.splits)
  then show ?thesis
    using that(1) True md_init_reads_again by (simp add: EVP_DigestInit_ex_def fresh_def ctx_reads_def)
next
  case False
  show ?thesis
  proof (cases rule: malloc_memory [of ms])
    case (1 block)
    then show ?thesis
      using that(1) False md_init_reads [of "malloc_buffer block" md]
      by (simp add: EVP_DigestInit_ex_def fresh_def ctx_reads_def)
  next
    case 2
    then show ?thesis using that(2) False by (simp add: EVP_DigestInit_ex_def fresh_def)
  qed
qed

lemma DigestUpdate_reads:
  assumes "ctx_reads ctx md msg"
  obtains ctx' where "EVP_DigestUpdate ctx xs = Some ctx'" and "ctx_reads ctx' md (msg @ xs)"
proof -
  obtain d where d: "ctx_digest ctx = Some md" "md_data ctx = Some d" "md_reads md d msg"
    using assms by (auto simp: ctx_reads_def)
  from d(3) obtain d' where "md_update md d xs = Some d'" "md_reads md d' (msg @ xs)" by (rule md_update_reads)
  then show ?thesis using that d by (simp add: EVP_DigestUpdate_def ctx_reads_def)
qed

lemma DigestFinal_reads:
  assumes "ctx_reads ctx md msg"
  obtains ctx' where "EVP_DigestFinal_ex ctx = Some (ctx', md_digest md msg)" and "evp_ctx_ok ctx'"
    and "ctx_digest ctx' = Some md"
proof -
  obtain d where d: "ctx_digest ctx = Some md" "md_data ctx = Some d" "md_reads md d msg"
    using assms by (auto simp: ctx_reads_def)
  obtain d' where f: "md_final md d = Some (d', md_digest md msg)" using md_final_reads [OF d(3)] by blast
  then have "md_ok md (md_cleanse d')" by (rule md_final_ok [OF md_reads_ok [OF d(3)]])
  then show ?thesis using that d f by (simp add: EVP_DigestFinal_ex_def evp_ctx_ok_def)
qed

lemma copy_reads:
  assumes "ctx_reads src md msg"
  obtains "memory (fresh out md) ms" and "EVP_MD_CTX_copy_ex ms out src = (drop (fresh out md) ms, src, True)"
    | "\<not> memory (fresh out md) ms" and "fresh out md = 1" and "EVP_MD_CTX_copy_ex ms out src = (drop 1 ms, out, False)"
proof (cases "ctx_digest out = Some md")
  case True
  then show ?thesis using that(1) assms by (simp add: EVP_MD_CTX_copy_ex_def fresh_def ctx_reads_def)
next
  case False
  show ?thesis
    by (cases rule: malloc_memory [of ms])
      (use that assms False in \<open>simp_all add: EVP_MD_CTX_copy_ex_def fresh_def ctx_reads_def\<close>)
qed

end
