(* ===== verification/HmacSpec.thy ===== *)
theory HmacSpec
  imports Hmac DigestSpec
begin

text \<open>
  HMAC is RFC 2104 and HKDF is RFC 5869, exactly: they fail when memory is short or the output is too
  long, and in no other case; nothing undefined happens.
\<close>

subsection \<open>The standards\<close>

definition rfc2104_key :: "(bytes \<Rightarrow> bytes) \<Rightarrow> nat \<Rightarrow> bytes \<Rightarrow> bytes" where
  "rfc2104_key H B key =
     (let k = (if B < length key then H key else key) in k @ replicate (B - length k) 0)"

definition rfc2104 :: "(bytes \<Rightarrow> bytes) \<Rightarrow> nat \<Rightarrow> bytes \<Rightarrow> bytes \<Rightarrow> bytes" where
  "rfc2104 H B key text =
     (let k = rfc2104_key H B key
      in H (map ((XOR) 0x5c) k @ H (map ((XOR) 0x36) k @ text)))"

definition hmac :: "evp_md \<Rightarrow> bytes \<Rightarrow> bytes \<Rightarrow> bytes" where
  "hmac md = rfc2104 (md_digest md) (EVP_MD_block_size md)"

fun rfc5869_T :: "(bytes \<Rightarrow> bytes) \<Rightarrow> bytes \<Rightarrow> nat \<Rightarrow> bytes" where
  "rfc5869_T mac info 0 = []"
| "rfc5869_T mac info (Suc i) = mac (rfc5869_T mac info i @ info @ [of_nat (Suc i)])"

text \<open>The first \<open>L\<close> bytes of \<open>T(1) | T(2) | ... | T(N)\<close> for \<open>N = ceil(L / HashLen)\<close>.\<close>

definition rfc5869_expand :: "(bytes \<Rightarrow> bytes) \<Rightarrow> nat \<Rightarrow> bytes \<Rightarrow> nat \<Rightarrow> bytes" where
  "rfc5869_expand mac hash_len info L =
     take L (concat (map (rfc5869_T mac info) [1..<Suc ((L + hash_len - 1) div hash_len)]))"

definition hkdf :: "evp_md \<Rightarrow> bytes \<Rightarrow> bytes \<Rightarrow> bytes \<Rightarrow> nat \<Rightarrow> bytes" where
  "hkdf md secret salt info L =
     (let prk = hmac md salt secret in rfc5869_expand (hmac md prk) (EVP_MD_size md) info L)"

subsection \<open>HMAC\<close>

lemma md_sizes: "0 < EVP_MD_size md" "EVP_MD_size md \<le> EVP_MD_block_size md" "EVP_MD_size md \<le> 64"
  "EVP_MD_block_size md \<le> 128"
  by (cases md; simp)+

definition hmac_ok :: "hmac_ctx \<Rightarrow> bool" where
  "hmac_ok ctx \<longleftrightarrow> evp_ctx_ok (md_ctx ctx) \<and> evp_ctx_ok (i_ctx ctx) \<and> evp_ctx_ok (o_ctx ctx)"

text \<open>A key has been set: the inner and outer contexts have read its pads.\<close>

definition hmac_keyed :: "hmac_ctx \<Rightarrow> evp_md \<Rightarrow> bytes \<Rightarrow> bool" where
  "hmac_keyed ctx md key \<longleftrightarrow>
     hmac_md ctx = Some md \<and> evp_ctx_ok (md_ctx ctx) \<and>
     ctx_reads (i_ctx ctx) md (map ((XOR) 0x36) (rfc2104_key (md_digest md) (EVP_MD_block_size md) key)) \<and>
     ctx_reads (o_ctx ctx) md (map ((XOR) 0x5c) (rfc2104_key (md_digest md) (EVP_MD_block_size md) key))"

text \<open>The message so far.\<close>

definition hmac_reads :: "hmac_ctx \<Rightarrow> evp_md \<Rightarrow> bytes \<Rightarrow> bytes \<Rightarrow> bool" where
  "hmac_reads ctx md key msg \<longleftrightarrow>
     hmac_keyed ctx md key \<and>
     ctx_reads (md_ctx ctx) md
       (map ((XOR) 0x36) (rfc2104_key (md_digest md) (EVP_MD_block_size md) key) @ msg)"

lemma hmac_ok_init [simp]: "hmac_ok HMAC_CTX_init"
  by (simp add: hmac_ok_def HMAC_CTX_init_def)

lemma hmac_pad_cases:
  assumes "evp_ctx_ok c"
  obtains c' where "memory (fresh c md) ms" and "hmac_pad ms c md x block = Some (drop (fresh c md) ms, c', True)"
      and "ctx_reads c' md (map ((XOR) x) (take (EVP_MD_block_size md) block))"
    | "\<not> memory (fresh c md) ms" and "fresh c md = 1" and "hmac_pad ms c md x block = Some (drop 1 ms, c, False)"
  using assms
proof (cases rule: DigestInit_cases [where md = md and ms = ms])
  case (1 c1)
  let ?pad = "take (EVP_MD_block_size md) (map (\<lambda>b. x XOR b) block)"
  from 1(3) obtain c2 where c2: "EVP_DigestUpdate c1 ?pad = Some c2" "ctx_reads c2 md ([] @ ?pad)"
    by (rule DigestUpdate_reads)
  then have "ctx_reads c2 md (map ((XOR) x) (take (EVP_MD_block_size md) block))" by (simp add: take_map)
  then show ?thesis using that(1) 1 c2(1) by (simp add: hmac_pad_def Let_def)
next
  case 2
  then show ?thesis using that(2) by (simp add: hmac_pad_def Let_def)
qed

text \<open>The key block: the key of the standard, then zeros that no pad uses.\<close>

lemma key_block_take:
  assumes "length k \<le> B" and "B \<le> 128"
  shows "take B (k @ replicate (EVP_MAX_MD_BLOCK_SIZE - length k) 0) = k @ replicate (B - length k) 0"
  using assms by (simp add: EVP_MAX_MD_BLOCK_SIZE_def min_def)

lemma hash_key_cases:
  assumes ok: "hmac_ok ctx"
  obtains c' where "memory (fresh (md_ctx ctx) md) ms"
      and "hmac_hash_key ms ctx key md =
        Some (drop (fresh (md_ctx ctx) md) ms, ctx\<lparr>md_ctx := c'\<rparr>, Some (md_digest md key))"
      and "evp_ctx_ok c'" and "ctx_digest c' = Some md"
    | "\<not> memory (fresh (md_ctx ctx) md) ms" and "fresh (md_ctx ctx) md = 1"
      and "hmac_hash_key ms ctx key md = Some (drop 1 ms, ctx, None)"
proof -
  have "evp_ctx_ok (md_ctx ctx)" using ok by (simp add: hmac_ok_def)
  then show ?thesis
  proof (cases rule: DigestInit_cases [where md = md and ms = ms])
    case (1 c1)
    from 1(3) obtain c2 where c2: "EVP_DigestUpdate c1 key = Some c2" "ctx_reads c2 md ([] @ key)"
      by (rule DigestUpdate_reads)
    from c2(2) obtain c3 where "EVP_DigestFinal_ex c2 = Some (c3, md_digest md ([] @ key))" "evp_ctx_ok c3"
      "ctx_digest c3 = Some md" by (rule DigestFinal_reads)
    then show ?thesis using that(1) 1(1,2) c2(1) by (simp add: hmac_hash_key_def)
  next
    case 2
    then show ?thesis using that(2) by (simp add: hmac_hash_key_def)
  qed
qed


lemma hmac_pads_cases:
  assumes ok: "hmac_ok ctx" and k: "length k \<le> EVP_MD_block_size md"
    and key: "k @ replicate (EVP_MD_block_size md - length k) 0 =
      rfc2104_key (md_digest md) (EVP_MD_block_size md) key"
  defines "n \<equiv> fresh (i_ctx ctx) md + fresh (o_ctx ctx) md"
  obtains ctx' where "memory n ms" and "hmac_pads ms ctx k md = Some (drop n ms, ctx', True)"
      and "hmac_keyed ctx' md key" and "md_ctx ctx' = md_ctx ctx"
    | ms' ctx' where "\<not> memory n ms" and "hmac_pads ms ctx k md = Some (ms', ctx', False)" and "hmac_ok ctx'"
proof -
  let ?B = "EVP_MD_block_size md" and ?block = "k @ replicate (EVP_MAX_MD_BLOCK_SIZE - length k) 0"
  have block: "take ?B ?block = rfc2104_key (md_digest md) ?B key"
    using key_block_take [OF k md_sizes(4)] key by simp
  have i: "evp_ctx_ok (i_ctx ctx)" and o': "evp_ctx_ok (o_ctx ctx)" and m: "evp_ctx_ok (md_ctx ctx)"
    using ok by (simp_all add: hmac_ok_def)
  from i show ?thesis
  proof (cases rule: hmac_pad_cases [where md = md and ms = ms and x = "0x36" and block = ?block])
    case (1 i')
    from o' show ?thesis
    proof (cases rule: hmac_pad_cases
        [where md = md and ms = "drop (fresh (i_ctx ctx) md) ms" and x = "0x5c" and block = ?block])
      case o1: (1 o'')
      then show ?thesis
        using that(1) [of "ctx\<lparr>i_ctx := i', o_ctx := o'', hmac_md := Some md\<rparr>"] 1(1,2)
          1(3) [unfolded block] o1(1,2) o1(3) [unfolded block] m
        by (simp add: hmac_pads_def n_def memory_add hmac_keyed_def add.commute)
    next
      case 2
      have "\<not> memory n ms" unfolding n_def memory_add using 2(1) by blast
      moreover have "hmac_ok (ctx\<lparr>i_ctx := i'\<rparr>)" using ok ctx_reads_ok [OF 1(3)] by (simp add: hmac_ok_def)
      ultimately show ?thesis
        using that(2) [of _ "ctx\<lparr>i_ctx := i'\<rparr>"] 1(2) 2(3) by (simp add: hmac_pads_def)
    qed
  next
    case 2
    have "\<not> memory n ms" unfolding n_def memory_add using 2(1,2) by metis
    then show ?thesis using that(2) [of _ ctx] ok 2(3) by (simp add: hmac_pads_def)
  qed
qed

text \<open>Setting a key and copying the inner context takes one block of memory for each context that
  is not already one of the method.\<close>

definition hmac_needs :: "hmac_ctx \<Rightarrow> evp_md \<Rightarrow> nat" where
  "hmac_needs ctx md = fresh (md_ctx ctx) md + (fresh (i_ctx ctx) md + fresh (o_ctx ctx) md)"

lemma hmac_set_key_cases:
  assumes ok: "hmac_ok ctx"
  obtains n ctx' where "memory n ms" and "hmac_set_key ms ctx key md = Some (drop n ms, ctx', True)"
      and "hmac_keyed ctx' md key" and "n + fresh (md_ctx ctx') md = hmac_needs ctx md"
    | ms' ctx' where "\<not> memory (hmac_needs ctx md) ms" and "hmac_set_key ms ctx key md = Some (ms', ctx', False)"
      and "hmac_ok ctx'"
proof (cases "EVP_MD_block_size md < length key")
  case short: False
  then have key: "key @ replicate (EVP_MD_block_size md - length key) 0 =
      rfc2104_key (md_digest md) (EVP_MD_block_size md) key"
    by (simp add: rfc2104_key_def)
  from short have "length key \<le> EVP_MD_block_size md" by simp
  from ok this key show ?thesis
  proof (cases rule: hmac_pads_cases [where ms = ms])
    case (1 ctx')
    then show ?thesis using that(1) [of _ ctx'] short by (simp add: hmac_set_key_def hmac_needs_def)
  next
    case (2 ms' ctx')
    then have "\<not> memory (hmac_needs ctx md) ms"
      unfolding hmac_needs_def by (metis add.commute memory_add)
    then show ?thesis using that(2) 2 short by (simp add: hmac_set_key_def)
  qed
next
  case long: True
  let ?k = "md_digest md key" and ?f = "fresh (md_ctx ctx) md"
  have key: "?k @ replicate (EVP_MD_block_size md - length ?k) 0 =
      rfc2104_key (md_digest md) (EVP_MD_block_size md) key"
    using long by (simp add: rfc2104_key_def Let_def)
  have k: "length ?k \<le> EVP_MD_block_size md" by (simp add: length_md_digest md_sizes)
  from ok show ?thesis
  proof (cases rule: hash_key_cases [where ms = ms and md = md and key = key])
    case (1 c')
    have f0: "fresh c' md = 0" using 1(4) by (simp add: fresh_def)
    have "hmac_ok (ctx\<lparr>md_ctx := c'\<rparr>)" using ok 1 by (simp add: hmac_ok_def)
    from this k key show ?thesis
    proof (cases rule: hmac_pads_cases [where ms = "drop ?f ms"])
      case p: (1 ctx')
      have "memory (hmac_needs ctx md) ms"
        unfolding hmac_needs_def memory_add [of "fresh (md_ctx ctx) md"] using p(1) 1(1) by simp
      moreover have "drop (hmac_needs ctx md) ms = drop (fresh (i_ctx ctx) md + fresh (o_ctx ctx) md) (drop ?f ms)"
        by (simp add: hmac_needs_def add.commute)
      ultimately show ?thesis
        using that(1) [of "hmac_needs ctx md" ctx'] 1(2) p(2-4) f0 long by (simp add: hmac_set_key_def)
    next
      case p: (2 ms' ctx')
      have "\<not> memory (hmac_needs ctx md) ms"
        unfolding hmac_needs_def memory_add [of ?f] using p(1) by simp
      then show ?thesis using that(2) p(2,3) 1 long by (simp add: hmac_set_key_def)
    qed
  next
    case 2
    have "\<not> memory (hmac_needs ctx md) ms" unfolding hmac_needs_def memory_add [of ?f] using 2(1) by simp
    then show ?thesis using that(2) 2 long ok by (simp add: hmac_set_key_def)
  qed
qed


lemma hmac_keyed_ok: "hmac_keyed ctx md key \<Longrightarrow> hmac_ok ctx"
  by (auto simp: hmac_keyed_def hmac_ok_def dest: ctx_reads_ok)

text \<open>The copy of the inner context, with which every initialisation ends.\<close>

lemma hmac_start_cases:
  assumes k: "hmac_keyed ctx md key"
  obtains "memory (fresh (md_ctx ctx) md) ms"
      and "EVP_MD_CTX_copy_ex ms (md_ctx ctx) (i_ctx ctx) = (drop (fresh (md_ctx ctx) md) ms, i_ctx ctx, True)"
      and "hmac_reads (ctx\<lparr>md_ctx := i_ctx ctx\<rparr>) md key []"
    | "\<not> memory (fresh (md_ctx ctx) md) ms"
      and "EVP_MD_CTX_copy_ex ms (md_ctx ctx) (i_ctx ctx) = (drop 1 ms, md_ctx ctx, False)"
proof -
  let ?pad = "map ((XOR) 0x36) (rfc2104_key (md_digest md) (EVP_MD_block_size md) key)"
  have i: "ctx_reads (i_ctx ctx) md ?pad" using k by (simp add: hmac_keyed_def)
  have r: "hmac_reads (ctx\<lparr>md_ctx := i_ctx ctx\<rparr>) md key []"
    using k i ctx_reads_ok [OF i] by (simp add: hmac_reads_def hmac_keyed_def)
  from i show ?thesis
    by (cases rule: copy_reads [where out = "md_ctx ctx" and ms = ms]) (use that r in blast)+
qed

theorem HMAC_Init_ex_cases:
  assumes ok: "hmac_ok ctx" and key: "k = (case key of None \<Rightarrow> [] | Some k \<Rightarrow> k)"
    and new: "hmac_md ctx \<noteq> Some md \<or> key \<noteq> None"
  obtains ctx' where "memory (hmac_needs ctx md) ms"
      and "HMAC_Init_ex ms ctx key (Some md) = Some (drop (hmac_needs ctx md) ms, ctx', True)"
      and "hmac_reads ctx' md k []"
    | ms' ctx' where "\<not> memory (hmac_needs ctx md) ms"
      and "HMAC_Init_ex ms ctx key (Some md) = Some (ms', ctx', False)" and "hmac_ok ctx'"
proof -
  have e: "HMAC_Init_ex ms ctx key (Some md) =
      (case hmac_set_key ms ctx k md of
         None \<Rightarrow> None
       | Some (ms', ctx', False) \<Rightarrow> Some (ms', ctx', False)
       | Some (ms', ctx', True) \<Rightarrow>
           (case EVP_MD_CTX_copy_ex ms' (md_ctx ctx') (i_ctx ctx') of
              (ms'', c, ok) \<Rightarrow> Some (ms'', ctx'\<lparr>md_ctx := c\<rparr>, ok)))"
    using new by (auto simp: HMAC_Init_ex_def Let_def key)
  from ok show ?thesis
  proof (cases rule: hmac_set_key_cases [where md = md and ms = ms and key = k])
    case (1 n ctx')
    from 1(3) show ?thesis
    proof (cases rule: hmac_start_cases [where ms = "drop n ms"])
      case s: 1
      have "memory (hmac_needs ctx md) ms" using 1(1) s(1) memory_add unfolding 1(4) [symmetric] by blast
      moreover have "HMAC_Init_ex ms ctx key (Some md) =
          Some (drop (hmac_needs ctx md) ms, ctx'\<lparr>md_ctx := i_ctx ctx'\<rparr>, True)"
        unfolding e using 1(2) s(2) by (simp add: add.commute flip: 1(4))
      ultimately show ?thesis using that(1) s(3) by blast
    next
      case s: 2
      have "\<not> memory (hmac_needs ctx md) ms" using s(1) memory_add unfolding 1(4) [symmetric] by blast
      moreover have "HMAC_Init_ex ms ctx key (Some md) = Some (drop 1 (drop n ms), ctx'\<lparr>md_ctx := md_ctx ctx'\<rparr>, False)"
        unfolding e using 1(2) s(2) by simp
      moreover have "hmac_ok (ctx'\<lparr>md_ctx := md_ctx ctx'\<rparr>)" using hmac_keyed_ok [OF 1(3)] by simp
      ultimately show ?thesis using that(2) by blast
    qed
  next
    case (2 ms' ctx')
    then show ?thesis using that(2) e by simp
  qed
qed

text \<open>Without a key and a method a keyed context starts again; when a message has been read, no
  memory is needed.\<close>

lemma HMAC_restart:
  assumes "hmac_keyed ctx md key" and "ctx_digest (md_ctx ctx) = Some md"
  shows "HMAC_Init_ex ms ctx None None = Some (ms, ctx\<lparr>md_ctx := i_ctx ctx\<rparr>, True)"
    and "hmac_reads (ctx\<lparr>md_ctx := i_ctx ctx\<rparr>) md key []"
proof -
  have f: "fresh (md_ctx ctx) md = 0" using assms(2) by (simp add: fresh_def)
  have "EVP_MD_CTX_copy_ex ms (md_ctx ctx) (i_ctx ctx) = (ms, i_ctx ctx, True) \<and>
      hmac_reads (ctx\<lparr>md_ctx := i_ctx ctx\<rparr>) md key []"
    using assms(1) by (cases rule: hmac_start_cases [where ms = ms]) (simp_all add: f)
  then show "HMAC_Init_ex ms ctx None None = Some (ms, ctx\<lparr>md_ctx := i_ctx ctx\<rparr>, True)"
    and "hmac_reads (ctx\<lparr>md_ctx := i_ctx ctx\<rparr>) md key []"
    by (simp_all add: HMAC_Init_ex_def)
qed

lemma HMAC_Update_reads:
  assumes "hmac_reads ctx md key msg"
  obtains ctx' where "HMAC_Update ctx xs = Some ctx'" and "hmac_reads ctx' md key (msg @ xs)"
proof -
  let ?pad = "map ((XOR) 0x36) (rfc2104_key (md_digest md) (EVP_MD_block_size md) key)"
  have "ctx_reads (md_ctx ctx) md (?pad @ msg)" using assms by (simp add: hmac_reads_def)
  then obtain c where c: "EVP_DigestUpdate (md_ctx ctx) xs = Some c" "ctx_reads c md ((?pad @ msg) @ xs)"
    by (rule DigestUpdate_reads)
  then have "hmac_reads (ctx\<lparr>md_ctx := c\<rparr>) md key (msg @ xs)"
    using assms ctx_reads_ok by (auto simp: hmac_reads_def hmac_keyed_def)
  then show ?thesis using that c(1) by (simp add: HMAC_Update_def)
qed

theorem HMAC_Final_reads:
  assumes r: "hmac_reads ctx md key msg"
  obtains ctx' where "HMAC_Final ms ctx len_ptr = Some (ms, ctx', Some (hmac md key msg))"
    and "hmac_keyed ctx' md key" and "ctx_digest (md_ctx ctx') = Some md"
proof -
  let ?k = "rfc2104_key (md_digest md) (EVP_MD_block_size md) key"
  let ?inner = "md_digest md (map ((XOR) 0x36) ?k @ msg)"
  have "ctx_reads (md_ctx ctx) md (map ((XOR) 0x36) ?k @ msg)" using r by (simp add: hmac_reads_def)
  then obtain c1 where c1: "EVP_DigestFinal_ex (md_ctx ctx) = Some (c1, ?inner)" "ctx_digest c1 = Some md"
    by (rule DigestFinal_reads)
  have keyed: "hmac_keyed ctx md key" using r by (simp add: hmac_reads_def)
  then have out: "ctx_reads (o_ctx ctx) md (map ((XOR) 0x5c) ?k)" by (simp add: hmac_keyed_def)
  then have copy: "EVP_MD_CTX_copy_ex ms c1 (o_ctx ctx) = (ms, o_ctx ctx, True)"
    using c1(2) by (simp add: EVP_MD_CTX_copy_ex_def ctx_reads_def)
  from out obtain c3 where c3: "EVP_DigestUpdate (o_ctx ctx) ?inner = Some c3"
    "ctx_reads c3 md (map ((XOR) 0x5c) ?k @ ?inner)" by (rule DigestUpdate_reads)
  from c3(2) obtain c4 where c4: "EVP_DigestFinal_ex c3 = Some (c4, md_digest md (map ((XOR) 0x5c) ?k @ ?inner))"
    "evp_ctx_ok c4" "ctx_digest c4 = Some md" by (rule DigestFinal_reads)
  have "HMAC_Final ms ctx len_ptr = Some (ms, ctx\<lparr>md_ctx := c4\<rparr>, Some (hmac md key msg))"
    using c1(1) copy c3(1) c4(1) by (simp add: HMAC_Final_def hmac_def rfc2104_def Let_def)
  moreover have "hmac_keyed (ctx\<lparr>md_ctx := c4\<rparr>) md key" using keyed c4(2) by (simp add: hmac_keyed_def)
  ultimately show ?thesis using that c4(3) by simp
qed

lemma hmac_needs_init [simp]: "hmac_needs HMAC_CTX_init md = 3"
  by (simp add: hmac_needs_def fresh_def HMAC_CTX_init_def EVP_MD_CTX_init_def)

lemma HMAC_rfc2104:
  obtains ms' where
    "HMAC ms md key xs =
       Some (ms', if memory 3 ms then Some (hmac md (case key of None \<Rightarrow> [] | Some k \<Rightarrow> k) xs) else None)"
    and "memory 3 ms \<Longrightarrow> ms' = drop 3 ms"
proof -
  let ?k = "case key of None \<Rightarrow> [] | Some k \<Rightarrow> k"
  have "hmac_md HMAC_CTX_init \<noteq> Some md \<or> key \<noteq> None" by (simp add: HMAC_CTX_init_def)
  from hmac_ok_init refl this show ?thesis
  proof (cases rule: HMAC_Init_ex_cases [where ms = ms])
    case (1 ctx)
    from 1(3) obtain ctx' where u: "HMAC_Update ctx xs = Some ctx'" "hmac_reads ctx' md ?k ([] @ xs)"
      by (rule HMAC_Update_reads)
    from u(2) obtain ctx'' where "HMAC_Final (drop 3 ms) ctx' True = Some (drop 3 ms, ctx'', Some (hmac md ?k ([] @ xs)))"
      by (rule HMAC_Final_reads)
    then show ?thesis using that [of "drop 3 ms"] 1(1,2) u(1) by (simp add: HMAC_def)
  next
    case (2 ms' ctx')
    then show ?thesis using that [of ms'] by (simp add: HMAC_def)
  qed
qed


subsection \<open>HKDF\<close>

lemma length_hmac [simp]: "length (hmac md key xs) = EVP_MD_size md"
  by (simp add: hmac_def rfc2104_def length_md_digest Let_def)

lemma length_T: "0 < i \<Longrightarrow> length (rfc5869_T (hmac md prk) info i) = EVP_MD_size md"
  by (cases i) simp_all

lemma length_T_concat:
  "length (concat (map (rfc5869_T (hmac md prk) info) [1..<Suc i])) = i * EVP_MD_size md"
  by (induction i) (simp_all add: length_T)

lemma hkdf_round_T:
  assumes first: "i = 0 \<longrightarrow> hmac_reads ctx md prk []"
    and again: "i \<noteq> 0 \<longrightarrow> hmac_keyed ctx md prk \<and> ctx_digest (md_ctx ctx) = Some md \<and>
      previous = rfc5869_T (hmac md prk) info i"
  obtains ctx' where "hkdf_round ms ctx (EVP_MD_size md) info i previous =
      Some (ms, ctx', Some (rfc5869_T (hmac md prk) info (Suc i)))"
    and "hmac_keyed ctx' md prk" and "ctx_digest (md_ctx ctx') = Some md"
proof -
  let ?T = "rfc5869_T (hmac md prk) info"
  obtain h1 where h1: "(if i \<noteq> 0 then
              (case HMAC_Init_ex ms ctx None None of
                 None \<Rightarrow> None
               | Some (ms1, h1, False) \<Rightarrow> Some (ms1, h1, False)
               | Some (ms1, h1, True) \<Rightarrow>
                   map_option (\<lambda>h2. (ms1, h2, True)) (HMAC_Update h1 (take (EVP_MD_size md) previous)))
            else Some (ms, ctx, True)) = Some (ms, h1, True)"
      and r1: "hmac_reads h1 md prk (?T i)"
  proof (cases "i = 0")
    case True
    then show ?thesis using that [of ctx] first by simp
  next
    case False
    with again have k: "hmac_keyed ctx md prk" "ctx_digest (md_ctx ctx) = Some md" and p: "previous = ?T i" by blast+
    from HMAC_restart(2) [OF k] obtain h where
      h: "HMAC_Update (ctx\<lparr>md_ctx := i_ctx ctx\<rparr>) previous = Some h" "hmac_reads h md prk ([] @ previous)"
      by (rule HMAC_Update_reads)
    have "take (EVP_MD_size md) previous = previous" using p False length_T by simp
    then show ?thesis using that [of h] False HMAC_restart(1) [OF k, of ms] h p by simp
  qed
  from r1 obtain h2 where h2: "HMAC_Update h1 info = Some h2" "hmac_reads h2 md prk (?T i @ info)"
    by (rule HMAC_Update_reads)
  from h2(2) obtain h3 where h3: "HMAC_Update h2 [of_nat (i + 1)] = Some h3"
    "hmac_reads h3 md prk ((?T i @ info) @ [of_nat (i + 1)])" by (rule HMAC_Update_reads)
  from h3(2) obtain h4 where "HMAC_Final ms h3 False =
      Some (ms, h4, Some (hmac md prk ((?T i @ info) @ [of_nat (i + 1)])))"
    "hmac_keyed h4 md prk" "ctx_digest (md_ctx h4) = Some md" by (rule HMAC_Final_reads)
  then show ?thesis using that [of h4] h2(1) h3(1) unfolding hkdf_round_def Let_def h1 by simp
qed


lemma hkdf_loop_T:
  assumes "i = 0 \<longrightarrow> hmac_reads ctx md prk []"
    and "i \<noteq> 0 \<longrightarrow> hmac_keyed ctx md prk \<and> ctx_digest (md_ctx ctx) = Some md \<and>
      previous = rfc5869_T (hmac md prk) info i"
    and "m \<noteq> 0 \<longrightarrow> (i + m - 1) * EVP_MD_size md < L"
    and "out = take L (concat (map (rfc5869_T (hmac md prk) info) [1..<Suc i]))"
  shows "hkdf_loop m ms ctx (EVP_MD_size md) L info i previous out =
    Some (ms, Some (take L (concat (map (rfc5869_T (hmac md prk) info) [1..<Suc (i + m)]))))"
  using assms
proof (induction m arbitrary: ctx i previous out)
  case 0
  then show ?case by simp
next
  case (Suc m)
  let ?T = "rfc5869_T (hmac md prk) info" and ?dl = "EVP_MD_size md"
  let ?A = "concat (map ?T [1..<Suc i])"
  obtain ctx' where r: "hkdf_round ms ctx ?dl info i previous = Some (ms, ctx', Some (?T (Suc i)))"
      and k: "hmac_keyed ctx' md prk" "ctx_digest (md_ctx ctx') = Some md"
    using hkdf_round_T [OF Suc.prems(1,2)] by metis
  have lt: "(i + m) * ?dl < L" using Suc.prems(3) by simp
  have A: "length ?A = i * ?dl" by (rule length_T_concat)
  have "i * ?dl \<le> (i + m) * ?dl" by simp
  then have le: "i * ?dl < L" using lt by (rule le_less_trans)
  have out: "out = ?A" using Suc.prems(4) A le by simp
  have T: "length (?T (Suc i)) = ?dl" by (rule length_T) simp
  let ?todo = "if L < length out + ?dl then L - length out else ?dl"
  have "out @ take ?todo (?T (Suc i)) = take L (concat (map ?T [1..<Suc (Suc i)]))"
    using le A T by (simp add: out)
  moreover have "m \<noteq> 0 \<longrightarrow> (Suc i + m - 1) * ?dl < L" using lt by simp
  ultimately have "hkdf_loop m ms ctx' ?dl L info (Suc i) (?T (Suc i)) (out @ take ?todo (?T (Suc i))) =
      Some (ms, Some (take L (concat (map ?T [1..<Suc (Suc i + m)]))))"
    using k by (intro Suc.IH) simp_all
  then show ?case using r by (simp add: Let_def)
qed

lemma hkdf_limit:
  fixes out_len :: u64
  assumes dl_def: "dl = EVP_MD_size md"
  shows "(out_len + of_nat dl < out_len \<or> 255 < (out_len + of_nat dl - 1) div of_nat dl) \<longleftrightarrow>
      255 * dl < unat out_len"
    and "unat out_len \<le> 255 * dl \<Longrightarrow>
      unat ((out_len + of_nat dl - 1) div of_nat dl) = (unat out_len + dl - 1) div dl"
proof -
  let ?L = "unat out_len"
  have dl: "0 < dl" "dl \<le> 64" using md_sizes [of md] by (simp_all add: dl_def)
  have L: "?L < 2 ^ 64" using unsigned_less [of out_len] by simp
  have ud: "unat (of_nat dl :: u64) = dl" using dl by (simp add: unat_of_nat)
  have sum: "unat (out_len + of_nat dl) = (?L + dl) mod 2 ^ 64" by (simp add: unat_word_ariths ud)
  have wrap: "out_len + of_nat dl < out_len \<longleftrightarrow> 2 ^ 64 \<le> ?L + dl"
  proof (cases "?L + dl < 2 ^ 64")
    case False
    then have "unat (out_len + of_nat dl) = ?L + dl - 2 ^ 64" using sum L dl by (simp add: le_mod_geq)
    then show ?thesis using False dl by (simp add: word_less_nat_alt)
  qed (simp add: word_less_nat_alt sum)
  have quot: "unat ((out_len + of_nat dl - 1) div of_nat dl) = (?L + dl - 1) div dl" if "?L + dl < 2 ^ 64"
  proof -
    have "unat (out_len + of_nat dl) = ?L + dl" using sum that by simp
    moreover from this have "(1 :: u64) \<le> out_len + of_nat dl" using dl by (simp add: word_le_nat_alt)
    ultimately have "unat (out_len + of_nat dl - 1) = ?L + dl - 1" by (simp add: unat_sub)
    then show ?thesis by (simp add: unat_div ud)
  qed
  have lim: "255 < (?L + dl - 1) div dl \<longleftrightarrow> 255 * dl < ?L"
  proof -
    have "255 < (?L + dl - 1) div dl \<longleftrightarrow> 256 * dl \<le> ?L + dl - 1"
      using less_eq_div_iff_mult_less_eq [OF dl(1), of 256 "?L + dl - 1"] by linarith
    also have "256 * dl \<le> ?L + dl - 1 \<longleftrightarrow> 255 * dl < ?L" using dl by linarith
    finally show ?thesis .
  qed
  show "(out_len + of_nat dl < out_len \<or> 255 < (out_len + of_nat dl - 1) div of_nat dl) \<longleftrightarrow> 255 * dl < ?L"
  proof (cases "?L + dl < 2 ^ 64")
    case True
    then show ?thesis using wrap quot lim by (simp add: word_less_nat_alt)
  next
    case False
    then have "255 * dl < ?L" using dl by simp
    then show ?thesis using wrap False by simp
  qed
  show "unat ((out_len + of_nat dl - 1) div of_nat dl) = (?L + dl - 1) div dl" if "?L \<le> 255 * dl"
    using quot that dl by simp
qed

lemma HKDF_expand_rfc5869:
  obtains ms' where
    "HKDF_expand ms out_len md prk info =
       Some (ms', if unat out_len \<le> 255 * EVP_MD_size md \<and> memory 3 ms
                  then Some (rfc5869_expand (hmac md prk) (EVP_MD_size md) info (unat out_len)) else None)"
proof (cases "unat out_len \<le> 255 * EVP_MD_size md")
  case False
  then have "HKDF_expand ms out_len md prk info = Some (ms, None)"
    using hkdf_limit(1) [OF refl, of out_len md] by (auto simp: HKDF_expand_def Let_def)
  then show ?thesis using that False by simp
next
  case True
  let ?dl = "EVP_MD_size md" and ?L = "unat out_len"
  let ?n = "(out_len + of_nat ?dl - 1) div of_nat ?dl"
  have n: "unat ?n = (?L + ?dl - 1) div ?dl" by (rule hkdf_limit(2) [OF refl True])
  have e: "HKDF_expand ms out_len md prk info =
      (case HMAC_Init_ex ms HMAC_CTX_init (Some prk) (Some md) of
         None \<Rightarrow> None
       | Some (ms1, h, False) \<Rightarrow> Some (ms1, None)
       | Some (ms1, h, True) \<Rightarrow> hkdf_loop (unat ?n) ms1 h ?dl ?L info 0 [] [])"
    using True hkdf_limit(1) [OF refl, of out_len md] by (auto simp: HKDF_expand_def Let_def)
  have p: "prk = (case Some prk of None \<Rightarrow> [] | Some k \<Rightarrow> k)" by simp
  have new: "hmac_md HMAC_CTX_init \<noteq> Some md \<or> Some prk \<noteq> None" by simp
  from hmac_ok_init p new show ?thesis
  proof (cases rule: HMAC_Init_ex_cases [where ms = ms])
    case (1 ctx)
    have bound: "unat ?n \<noteq> 0 \<longrightarrow> (0 + unat ?n - 1) * ?dl < ?L"
    proof
      assume "unat ?n \<noteq> 0"
      then have "0 < (?L + ?dl - 1) div ?dl" unfolding n by simp
      moreover have "(?L + ?dl - 1) div ?dl * ?dl \<le> ?L + ?dl - 1" by simp
      ultimately have q: "((?L + ?dl - 1) div ?dl - 1) * ?dl \<le> ?L - 1"
        unfolding diff_mult_distrib by linarith
      have "0 < ?L"
      proof (rule ccontr)
        assume "\<not> 0 < ?L"
        then show False using \<open>0 < (?L + ?dl - 1) div ?dl\<close> md_sizes(1) [of md] by simp
      qed
      then show "(0 + unat ?n - 1) * ?dl < ?L" unfolding n using q by simp
    qed
    have "hkdf_loop (unat ?n) (drop 3 ms) ctx ?dl ?L info 0 [] [] =
        Some (drop 3 ms, Some (take ?L (concat (map (rfc5869_T (hmac md prk) info) [1..<Suc (0 + unat ?n)]))))"
      by (rule hkdf_loop_T) (use 1(3) bound in simp_all)
    then show ?thesis
      using that [of "drop 3 ms"] 1(1,2) True unfolding e by (simp add: rfc5869_expand_def n)
  next
    case (2 ms' ctx')
    then show ?thesis using that [of ms'] e by simp
  qed
qed

lemma HKDF_rfc5869:
  obtains ms' where
    "HKDF ms out_len md secret salt info =
       Some (ms', if unat out_len \<le> 255 * EVP_MD_size md \<and> memory 6 ms
                  then Some (hkdf md secret (case salt of None \<Rightarrow> [] | Some k \<Rightarrow> k) info (unat out_len)) else None)"
proof -
  let ?salt = "case salt of None \<Rightarrow> [] | Some k \<Rightarrow> k"
  obtain ms1 where h: "HMAC ms md salt secret = Some (ms1, if memory 3 ms then Some (hmac md ?salt secret) else None)"
      and ms1: "memory 3 ms \<Longrightarrow> ms1 = drop 3 ms"
    using HMAC_rfc2104 [of ms md salt secret] by blast
  have six: "memory 6 ms \<longleftrightarrow> memory 3 ms \<and> memory 3 (drop 3 ms)"
    using memory_add [of 3 3 ms] by simp
  show ?thesis
  proof (cases "memory 3 ms")
    case True
    obtain ms' where "HKDF_expand (drop 3 ms) out_len md (hmac md ?salt secret) info =
       Some (ms', if unat out_len \<le> 255 * EVP_MD_size md \<and> memory 3 (drop 3 ms)
          then Some (rfc5869_expand (hmac md (hmac md ?salt secret)) (EVP_MD_size md) info (unat out_len)) else None)"
      by (rule HKDF_expand_rfc5869)
    then show ?thesis
      using that [of ms'] True h ms1 six by (simp add: HKDF_def HKDF_extract_def hkdf_def Let_def)
  next
    case False
    then show ?thesis using that [of ms1] h six by (simp add: HKDF_def HKDF_extract_def)
  qed
qed

lemma EVP_Digest_standard:
  obtains ms' where
    "EVP_Digest ms xs md = Some (ms', if memory 1 ms then Some (md_digest md xs) else None)"
proof -
  have f: "fresh EVP_MD_CTX_init md = 1" by (simp add: fresh_def EVP_MD_CTX_init_def)
  from evp_ctx_ok_init show ?thesis
  proof (cases rule: DigestInit_cases [where md = md and ms = ms])
    case (1 c)
    from 1(3) obtain c' where u: "EVP_DigestUpdate c xs = Some c'" "ctx_reads c' md ([] @ xs)"
      by (rule DigestUpdate_reads)
    from u(2) obtain c'' where "EVP_DigestFinal_ex c' = Some (c'', md_digest md ([] @ xs))" by (rule DigestFinal_reads)
    then show ?thesis using that 1(1,2) u(1) f by (simp add: EVP_Digest_def)
  next
    case 2
    then show ?thesis using that f by (simp add: EVP_Digest_def)
  qed
qed

end
