(* ===== verification/HashProps.thy ===== *)
theory HashProps
  imports HmacSpec
begin

text \<open>
  The properties of the hashes: what each computes over any sequence of updates, and what the digest
  interface, HMAC and HKDF compute on top of them.
\<close>

subsection \<open>Known answers\<close>

text \<open>
  The digests of the message \<open>abc\<close> from the appendices of the standards.  They also tie down the
  round constants and initial values, which the standards' functions take from the model.
\<close>

text \<open>Words are evaluated by sums.\<close>

lemma fips_sha1_step_sum [code]:
  "fips_sha1_step W =
     (let t = length W in 0 + word_rotl 1 (W ! (t - 3) XOR W ! (t - 8) XOR W ! (t - 14) XOR W ! (t - 16)))"
  by (simp add: fips_sha1_step_def Let_def)

lemma MD4_abc:
  "rfc1320_md4 [0x61, 0x62, 0x63] =
     [0xa4, 0x48, 0x01, 0x7a, 0xaf, 0x21, 0xd8, 0x52, 0x5f, 0xc1, 0x0a, 0xe8, 0x7a, 0xa6, 0x72,
     0x9d]"
  by code_simp

lemma MD5_abc:
  "rfc1321_md5 [0x61, 0x62, 0x63] =
     [0x90, 0x01, 0x50, 0x98, 0x3c, 0xd2, 0x4f, 0xb0, 0xd6, 0x96, 0x3f, 0x7d, 0x28, 0xe1, 0x7f,
     0x72]"
  by code_simp

lemma SHA1_abc:
  "fips_sha1 [0x61, 0x62, 0x63] =
     [0xa9, 0x99, 0x3e, 0x36, 0x47, 0x06, 0x81, 0x6a, 0xba, 0x3e, 0x25, 0x71, 0x78, 0x50, 0xc2,
     0x6c, 0x9c, 0xd0, 0xd8, 0x9d]"
  by code_simp

lemma SHA224_abc:
  "fips_sha224 [0x61, 0x62, 0x63] =
     [0x23, 0x09, 0x7d, 0x22, 0x34, 0x05, 0xd8, 0x22, 0x86, 0x42, 0xa4, 0x77, 0xbd, 0xa2, 0x55,
     0xb3, 0x2a, 0xad, 0xbc, 0xe4, 0xbd, 0xa0, 0xb3, 0xf7, 0xe3, 0x6c, 0x9d, 0xa7]"
  by code_simp

lemma SHA256_abc:
  "fips_sha256 [0x61, 0x62, 0x63] =
     [0xba, 0x78, 0x16, 0xbf, 0x8f, 0x01, 0xcf, 0xea, 0x41, 0x41, 0x40, 0xde, 0x5d, 0xae, 0x22,
     0x23, 0xb0, 0x03, 0x61, 0xa3, 0x96, 0x17, 0x7a, 0x9c, 0xb4, 0x10, 0xff, 0x61, 0xf2, 0x00,
     0x15, 0xad]"
  by code_simp

lemma SHA384_abc:
  "fips_sha384 [0x61, 0x62, 0x63] =
     [0xcb, 0x00, 0x75, 0x3f, 0x45, 0xa3, 0x5e, 0x8b, 0xb5, 0xa0, 0x3d, 0x69, 0x9a, 0xc6, 0x50,
     0x07, 0x27, 0x2c, 0x32, 0xab, 0x0e, 0xde, 0xd1, 0x63, 0x1a, 0x8b, 0x60, 0x5a, 0x43, 0xff,
     0x5b, 0xed, 0x80, 0x86, 0x07, 0x2b, 0xa1, 0xe7, 0xcc, 0x23, 0x58, 0xba, 0xec, 0xa1, 0x34,
     0xc8, 0x25, 0xa7]"
  by code_simp

lemma SHA512_abc:
  "fips_sha512 [0x61, 0x62, 0x63] =
     [0xdd, 0xaf, 0x35, 0xa1, 0x93, 0x61, 0x7a, 0xba, 0xcc, 0x41, 0x73, 0x49, 0xae, 0x20, 0x41,
     0x31, 0x12, 0xe6, 0xfa, 0x4e, 0x89, 0xa9, 0x7e, 0xa2, 0x0a, 0x9e, 0xee, 0xe6, 0x4b, 0x55,
     0xd3, 0x9a, 0x21, 0x92, 0x99, 0x2a, 0x27, 0x4f, 0xc1, 0xa8, 0x36, 0xba, 0x3c, 0x23, 0xa3,
     0xfe, 0xeb, 0xbd, 0x45, 0x4d, 0x44, 0x23, 0x64, 0x3c, 0xe8, 0x0e, 0x2a, 0x9a, 0xc9, 0x4f,
     0xa5, 0x4c, 0xa4, 0x9f]"
  by code_simp

subsection \<open>Properties\<close>

text \<open>C27: The hashes are those of the standards (RFC 1320, RFC 1321, FIPS 180-4): the init function,
  any number of updates with pieces of any lengths and the final function return, for each hash, the
  digest of the concatenation of the pieces, whatever the buffer \<open>p\<close> of a new 64-bit context holds.\<close>

theorem hashes_standard:
  assumes "length p = 128"
  shows "snd (MD4_Final (foldl MD4_Update MD4_Init parts)) = Some (rfc1320_md4 (concat parts)) \<and>
    snd (MD5_Final (foldl MD5_Update MD5_Init parts)) = Some (rfc1321_md5 (concat parts)) \<and>
    snd (SHA1_Final (foldl SHA1_Update SHA1_Init parts)) = Some (fips_sha1 (concat parts)) \<and>
    snd (SHA224_Final (foldl SHA224_Update SHA224_Init parts)) = Some (fips_sha224 (concat parts)) \<and>
    snd (SHA256_Final (foldl SHA256_Update SHA256_Init parts)) = Some (fips_sha256 (concat parts)) \<and>
    snd (SHA384_Final True (foldl SHA384_Update (SHA384_Init p) parts)) = Some (fips_sha384 (concat parts)) \<and>
    snd (SHA512_Final True (foldl SHA512_Update (SHA512_Init p) parts)) = Some (fips_sha512 (concat parts))"
  using MD4_digest MD5_digest SHA1_digest SHA224_digest SHA256_digest
    SHA384_digest [OF assms] SHA512_digest [OF assms] by blast

lemma abc_parts: "concat [[0x61], [], [0x62, 0x63]] = ([0x61, 0x62, 0x63] :: bytes)"
  by simp

theorem hashes_standard_witness:
  "let parts = [[0x61], [], [0x62, 0x63]]; p = replicate 128 0xaa
   in snd (MD4_Final (foldl MD4_Update MD4_Init parts)) =
      Some [0xa4, 0x48, 0x01, 0x7a, 0xaf, 0x21, 0xd8, 0x52, 0x5f, 0xc1, 0x0a, 0xe8, 0x7a, 0xa6, 0x72,
        0x9d] \<and>
    snd (MD5_Final (foldl MD5_Update MD5_Init parts)) =
      Some [0x90, 0x01, 0x50, 0x98, 0x3c, 0xd2, 0x4f, 0xb0, 0xd6, 0x96, 0x3f, 0x7d, 0x28, 0xe1, 0x7f,
        0x72] \<and>
    snd (SHA1_Final (foldl SHA1_Update SHA1_Init parts)) =
      Some [0xa9, 0x99, 0x3e, 0x36, 0x47, 0x06, 0x81, 0x6a, 0xba, 0x3e, 0x25, 0x71, 0x78, 0x50, 0xc2,
        0x6c, 0x9c, 0xd0, 0xd8, 0x9d] \<and>
    snd (SHA224_Final (foldl SHA224_Update SHA224_Init parts)) =
      Some [0x23, 0x09, 0x7d, 0x22, 0x34, 0x05, 0xd8, 0x22, 0x86, 0x42, 0xa4, 0x77, 0xbd, 0xa2, 0x55,
        0xb3, 0x2a, 0xad, 0xbc, 0xe4, 0xbd, 0xa0, 0xb3, 0xf7, 0xe3, 0x6c, 0x9d, 0xa7] \<and>
    snd (SHA256_Final (foldl SHA256_Update SHA256_Init parts)) =
      Some [0xba, 0x78, 0x16, 0xbf, 0x8f, 0x01, 0xcf, 0xea, 0x41, 0x41, 0x40, 0xde, 0x5d, 0xae, 0x22,
        0x23, 0xb0, 0x03, 0x61, 0xa3, 0x96, 0x17, 0x7a, 0x9c, 0xb4, 0x10, 0xff, 0x61, 0xf2, 0x00,
        0x15, 0xad] \<and>
    snd (SHA384_Final True (foldl SHA384_Update (SHA384_Init p) parts)) =
      Some [0xcb, 0x00, 0x75, 0x3f, 0x45, 0xa3, 0x5e, 0x8b, 0xb5, 0xa0, 0x3d, 0x69, 0x9a, 0xc6, 0x50,
        0x07, 0x27, 0x2c, 0x32, 0xab, 0x0e, 0xde, 0xd1, 0x63, 0x1a, 0x8b, 0x60, 0x5a, 0x43, 0xff,
        0x5b, 0xed, 0x80, 0x86, 0x07, 0x2b, 0xa1, 0xe7, 0xcc, 0x23, 0x58, 0xba, 0xec, 0xa1, 0x34,
        0xc8, 0x25, 0xa7] \<and>
    snd (SHA512_Final True (foldl SHA512_Update (SHA512_Init p) parts)) =
      Some [0xdd, 0xaf, 0x35, 0xa1, 0x93, 0x61, 0x7a, 0xba, 0xcc, 0x41, 0x73, 0x49, 0xae, 0x20, 0x41,
        0x31, 0x12, 0xe6, 0xfa, 0x4e, 0x89, 0xa9, 0x7e, 0xa2, 0x0a, 0x9e, 0xee, 0xe6, 0x4b, 0x55,
        0xd3, 0x9a, 0x21, 0x92, 0x99, 0x2a, 0x27, 0x4f, 0xc1, 0xa8, 0x36, 0xba, 0x3c, 0x23, 0xa3,
        0xfe, 0xeb, 0xbd, 0x45, 0x4d, 0x44, 0x23, 0x64, 0x3c, 0xe8, 0x0e, 0x2a, 0x9a, 0xc9, 0x4f,
        0xa5, 0x4c, 0xa4, 0x9f]"
proof -
  have "length (replicate 128 (0xaa :: u8)) = 128" by simp
  from hashes_standard [OF this, of "[[0x61], [], [0x62, 0x63]]"] show ?thesis
    unfolding Let_def by (simp only: abc_parts MD4_abc MD5_abc SHA1_abc SHA224_abc SHA256_abc SHA384_abc SHA512_abc)
qed

text \<open>C28: On top of the hashes: \<open>EVP_Digest\<close> returns the digest of its method, \<open>HMAC\<close> the code of
  RFC 2104 and \<open>HKDF\<close> the key of RFC 5869, for every method, key (also none), salt, info and
  message.  They fail when one of the 1, 3 or 6 contexts cannot be allocated, \<open>HKDF\<close> also when more
  than 255 digests of output are asked for, and in no other case; nothing undefined happens.\<close>

theorem hmac_hkdf_standard:
  "(\<exists>ms'. EVP_Digest ms msg md = Some (ms', if memory 1 ms then Some (md_digest md msg) else None)) \<and>
   (\<exists>ms'. HMAC ms md key msg =
      Some (ms', if memory 3 ms then Some (hmac md (case key of None \<Rightarrow> [] | Some k \<Rightarrow> k) msg) else None)) \<and>
   (\<exists>ms'. HKDF ms out_len md secret salt info =
      Some (ms', if unat out_len \<le> 255 * EVP_MD_size md \<and> memory 6 ms
                 then Some (hkdf md secret (case salt of None \<Rightarrow> [] | Some k \<Rightarrow> k) info (unat out_len))
                 else None))"
  by (metis EVP_Digest_standard HMAC_rfc2104 HKDF_rfc5869)

end
