(* ===== verification/Spec2Isabelle.thy ===== *)
theory Spec2Isabelle
  imports PbProps PbMsgProps BsProps Unicode BerSpec StackProps PoolProps Base64 HashProps
begin

text \<open>
  Verification of the C code that the FireChat application links in.  FireChat itself is Swift; its
  pods bring two bodies of hand-written C: the protocol buffer runtime nanopb below the Firebase
  libraries, and BoringSSL below gRPC (\<open>src/FireChat/Pods\<close>).  The parts modelled are the ones
  that take bytes from the network apart and put them together: the wire format of nanopb, the byte
  strings, ASN.1 and text encodings of BoringSSL, the containers they use, and the hashes with HMAC
  and HKDF.

  \<^bold>\<open>Configuration.\<close>  The code as the pods build it: 64-bit \<open>size_t\<close> and pointers,
  \<open>PB_FIELD_32BIT\<close>, \<open>PB_ENABLE_MALLOC\<close>, \<open>PB_NO_PACKED_STRUCTS\<close> for nanopb,
  \<open>OPENSSL_NO_ASM\<close> for BoringSSL.  Machine integers are words of their width (\<open>u8\<close> to
  \<open>u64\<close> in \<open>Prelude\<close>), a failing call is \<open>None\<close> or a false flag beside the new
  state, and whether an allocation succeeds is an argument of the definitions that allocate.

  \<^bold>\<open>nanopb\<close> (\<open>Pods/nanopb\<close>).  \<open>PbStream\<close> has the input streams: a record with the
  read callback, its state and the bytes left; the contract of the callbacks is the locale
  \<open>input_source\<close>, interpreted on the memory streams and on a memory stream that notes accesses
  past the end of its buffer.  \<open>PbDecode\<close> has the field-level
  decoder of \<open>pb_decode.c\<close> (varints, tags, skipping, sub-streams, the decoders of the field
  types), \<open>PbEncode\<close> the output streams with the locale \<open>output_sink\<close> and the
  field-level encoder of \<open>pb_encode.c\<close> (scalars, packed arrays, framing of sub-messages).
  \<open>PbRound\<close> shows the bytes each encoder writes and what the decoders make of them;
  \<open>PbProps\<close> has the properties: round trips, the agreement of sizing and writing, the limits
  every reader keeps, truncated input, and the boundary behaviour of 32-bit varints.
  Whole messages live in a memory of one byte per address (\<open>PbMem\<close>).  \<open>PbIter\<close> has the
  field tables of \<open>pb.h\<close> and the iterator of \<open>pb_common.c\<close>, which yields the addresses of
  the fields of a message struct; \<open>PbMessage\<close> the rest of \<open>pb_decode.c\<close>: the decoders
  that store, static, allocated and callback fields, extensions, defaults, release, the loop over the
  input and the entry points.  Its environment \<open>pb_env\<close> holds what the code only calls:
  \<open>realloc\<close> and \<open>free\<close>, the callbacks of the application, and the constant tables.
  \<open>PbMsgEncode\<close> is the rest of \<open>pb_encode.c\<close>: presence of fields, callbacks, extensions and
  the loop over a table.  \<open>PbValueSafe\<close> and \<open>PbSafe\<close> show for static tables which memory
  decoding changes and that it returns, \<open>PbFuel\<close> that a result does not depend on the fuel,
  \<open>PbWire\<close> that encoding produces the wire format, given as a function of the memory (for static
  and pointer fields of all rules, and callback fields by contract; extension fields, which no table
  of the repository has, are modelled but not part of it);
  \<open>PbMsgProps\<close> has the properties of whole messages.

  \<^bold>\<open>Byte strings and ASN.1\<close> (\<open>BoringSSL-GRPC/src/crypto/bytestring\<close>).  \<open>Cbs\<close> is
  the reader \<open>cbs.c\<close>: a \<open>CBS\<close> is the list of the bytes it still shows.  \<open>Codec\<close>
  states the contract of a canonical encoding as the locale \<open>canonical_codec\<close>, \<open>Der\<close> the
  reference encodings of DER and that the readers are canonical for them.  \<open>Cbb\<close> is the
  builder \<open>cbb.c\<close> with its shared buffer and chain of open children (an operation takes the depth
  of the handle it is called on), \<open>Asn1\<close> its ASN.1 operations.  \<open>CbbSpec\<close> has the
  abstract builder (the contents of every open level) and the refinement, \<open>Asn1Spec\<close> the
  contracts of the writers, \<open>CbbSafe\<close> the transition system of arbitrary operations, ASN.1
  children and the sorting of a SET OF included, with its invariant and the composed operations as
  sequences of its steps, \<open>Oid\<close> the dotted text of object identifiers, \<open>SetOf\<close> the sorting of a
  SET OF; \<open>BsProps\<close> the properties.  \<open>Unicode\<close> models \<open>unicode.c\<close>.  \<open>Ber\<close>
  models \<open>ber.c\<close> and \<open>BerSpec\<close> what it does on element trees.

  \<^bold>\<open>Containers.\<close>  \<open>CmpOrder\<close> has the contract of comparison functions (locale
  \<open>cmp_order\<close>) and of the sorting function of the C library (locale \<open>sorter\<close>);
  \<open>Stack\<close> models \<open>crypto/stack/stack.c\<close>, \<open>StackProps\<close> its invariant over all calls
  (the order of marked stacks only where \<open>sk_set\<close> and \<open>sk_deep_copy\<close> are used with care) and the
  list operations it implements.  \<open>Lhash\<close> models the hash table of
  \<open>crypto/lhash/lhash.c\<close> as an array of chains of allocated items; \<open>LhashSpec\<close> has its
  invariant, the contract of hash and comparison (locale \<open>lh_keys\<close>) and the set it implements,
  through resizing and through iterations in which the callback deletes.  \<open>Pool\<close> is the client
  \<open>crypto/pool/pool.c\<close>, whose callbacks read the buffers the table points to; \<open>PoolSpec\<close>
  has the step relation of threads sharing a pool, one step for each critical section or atomic
  operation, with the invariant of all reachable states, and \<open>PoolProps\<close> the properties of
  both.  (The search of \<open>CRYPTO_BUFFER_new\<close> runs under a read lock: what other threads may do
  meanwhile are searches and reference counts, which commute with it.)

  \<^bold>\<open>Text.\<close>  \<open>ConstTime\<close> models the branch-free masks of \<open>crypto/internal.h\<close>,
  \<open>Base64\<close> the encoder and decoder of \<open>crypto/base64/base64.c\<close> on them, in one call and
  as streams, with their properties.

  \<^bold>\<open>Hashes.\<close>  \<open>Md32\<close> models the collector of \<open>fipsmodule/digest/md32_common.h\<close>, \<open>Sha\<close>
  the hashes on it (\<open>sha1.c\<close>, \<open>sha256.c\<close>, \<open>sha512.c\<close>, \<open>md5.c\<close>, \<open>md4.c\<close>) with the
  registers of their unrolled block functions as a list.  \<open>Md32Spec\<close> shows that the collector hashes
  the padded message whatever the pieces, \<open>ShaSpec\<close> that the block functions are those of the
  standards (a schedule of words and a shift of the working variables), \<open>HashSpec\<close> puts both
  together.  The round constants, tables and initial values are taken from the model; the known answers
  in \<open>HashProps\<close> tie them down.  \<open>Digest\<close> models the digest contexts of \<open>digest.c\<close> and the
  method tables of \<open>digests.c\<close>, \<open>Hmac\<close> is \<open>hmac.c\<close> and \<open>hkdf.c\<close>.  \<open>DigestSpec\<close> has
  the locale \<open>streaming_hash\<close>, interpreted on every hash, and \<open>two_hashes\<close> for MD5 with SHA-1;
  \<open>HmacSpec\<close> has RFC 2104 and RFC 5869 and the proofs for the code; \<open>HashProps\<close> the properties.

  \<^bold>\<open>Bounds and fuel.\<close>  The loops of the modelled code are recursive functions with
  termination proofs, but for whole nanopb messages: the nesting of tables is data, the lists of
  extensions are linked in memory, and a callback need not read anything, so these
  definitions count down fuel and \<open>None\<close> means that it was used up.  More fuel never changes a
  result, and for static tables any fuel above the bytes of the input plus the nesting depth of the
  table is enough to decode, and the nesting depth to encode.  The nesting of \<open>cbs_convert_ber\<close> is bounded by the code's own
  \<open>kMaxDepth\<close>.  Lengths that the code keeps in \<open>size_t\<close> are 64-bit words where it tests
  them for overflow.

  \<^bold>\<open>Not modelled.\<close>  In BoringSSL
  the ciphers, big numbers and elliptic curves, X.509, the TLS protocol (C++), the error
  queue and BIO.  upb, the C++ libraries (gRPC, abseil, leveldb), the Objective-C pods and the Swift
  application.  Pure memory management (\<open>sk_free\<close> and the like) has no definition of its own.
\<close>

end
